(* ===== verification/Prelude.thy ===== *)
theory Prelude
  imports
    Main
    "HOL-Library.Word"
    "HOL-Library.Sublist"
    "HOL-Library.Char_ord"
    "HOL-Library.List_Lexorder"
begin

text \<open>
  The vocabulary the component theories share.

  \<^item> Text. A Rust \<^verbatim>\<open>&str\<close> is a \<^typ>\<open>string\<close>, the list of its Unicode scalar values, for text
    whose scalars lie in U+0000..U+00FF (HOL characters have exactly these 256 codes). On this
    range the operations below are the ones of the Rust standard library: \<open>is_whitespace\<close>,
    \<open>is_control\<close> and \<open>to_lowercase\<close> follow the Unicode tables, \<open>str_len\<close> is the length in UTF-8
    bytes (two bytes from U+0080 on), and the order on strings is the lexicographic order of
    scalars, which is the byte order of their UTF-8 encodings.
  \<^item> Numbers. \<open>from_str_radix\<close> is the integer parser of the standard library with its optional
    leading plus sign and its overflow check; \<open>nat_dec\<close> is the decimal \<^verbatim>\<open>Display\<close> of an unsigned
    integer.
  \<^item> Generic contracts, as locales: \<open>keyed_store\<close> (a registry split into independent slices),
    \<open>step_system\<close> (an invariant preserved by every step holds after every run) and
    \<open>codec\<close> (an encoder with a decoder that inverts it). The component theories interpret
    them on their own definitions.
\<close>

section \<open>Names for machine types and shared collections\<close>

type_synonym u8 = "8 word"
type_synonym u16 = "16 word"
type_synonym u32 = "32 word"
type_synonym u64 = "64 word"

text \<open>Collections: equations that evaluate the text operations, and facts about slices.\<close>

named_theorems text_defs \<open>definitions of the text operations\<close>
named_theorems split_rules \<open>how separators cut a joined text\<close>

section \<open>Text operations of the standard library\<close>

definition code :: "char \<Rightarrow> nat" where
  "code c = of_char c"

definition utf8_len_char :: "char \<Rightarrow> nat" where
  "utf8_len_char c = (if code c < 128 then 1 else 2)"

definition str_len :: "string \<Rightarrow> nat" where
  "str_len s = sum_list (map utf8_len_char s)"

definition is_whitespace :: "char \<Rightarrow> bool" where
  "is_whitespace c \<longleftrightarrow> code c \<in> {9, 10, 11, 12, 13, 32, 133, 160}"

definition is_control :: "char \<Rightarrow> bool" where
  "is_control c \<longleftrightarrow> code c < 32 \<or> (127 \<le> code c \<and> code c < 160)"

definition is_ascii_digit :: "char \<Rightarrow> bool" where
  "is_ascii_digit c \<longleftrightarrow> 48 \<le> code c \<and> code c \<le> 57"

definition is_ascii_alphabetic :: "char \<Rightarrow> bool" where
  "is_ascii_alphabetic c \<longleftrightarrow>
     (65 \<le> code c \<and> code c \<le> 90) \<or> (97 \<le> code c \<and> code c \<le> 122)"

definition ascii_lower_char :: "char \<Rightarrow> char" where
  "ascii_lower_char c = (if 65 \<le> code c \<and> code c \<le> 90 then char_of (code c + 32) else c)"

definition ascii_upper_char :: "char \<Rightarrow> char" where
  "ascii_upper_char c = (if 97 \<le> code c \<and> code c \<le> 122 then char_of (code c - 32) else c)"

text \<open>Unicode lower case on U+0000..U+00FF: the ASCII letters and U+00C0..U+00DE except U+00D7.\<close>

definition lower_char :: "char \<Rightarrow> char" where
  "lower_char c =
     (if (65 \<le> code c \<and> code c \<le> 90) \<or> (192 \<le> code c \<and> code c \<le> 222 \<and> code c \<noteq> 215)
      then char_of (code c + 32) else c)"

definition to_ascii_lowercase :: "string \<Rightarrow> string" where
  "to_ascii_lowercase s = map ascii_lower_char s"

definition to_ascii_uppercase :: "string \<Rightarrow> string" where
  "to_ascii_uppercase s = map ascii_upper_char s"

definition to_lowercase :: "string \<Rightarrow> string" where
  "to_lowercase s = map lower_char s"

definition trim_start_by :: "('a \<Rightarrow> bool) \<Rightarrow> 'a list \<Rightarrow> 'a list" where
  "trim_start_by P s = dropWhile P s"

definition trim_end_by :: "('a \<Rightarrow> bool) \<Rightarrow> 'a list \<Rightarrow> 'a list" where
  "trim_end_by P s = rev (dropWhile P (rev s))"

definition trim_by :: "('a \<Rightarrow> bool) \<Rightarrow> 'a list \<Rightarrow> 'a list" where
  "trim_by P s = trim_end_by P (trim_start_by P s)"

definition trim :: "string \<Rightarrow> string" where
  "trim s = trim_by is_whitespace s"

definition strip_prefix :: "'a list \<Rightarrow> 'a list \<Rightarrow> 'a list option" where
  "strip_prefix p s = (if prefix p s then Some (drop (length p) s) else None)"

definition strip_suffix :: "'a list \<Rightarrow> 'a list \<Rightarrow> 'a list option" where
  "strip_suffix p s = (if suffix p s then Some (take (length s - length p) s) else None)"

text \<open>\<^verbatim>\<open>split_once\<close> and \<^verbatim>\<open>rsplit_once\<close> on one character, \<^verbatim>\<open>split\<close> on a set of characters.\<close>

fun split_once :: "'a \<Rightarrow> 'a list \<Rightarrow> ('a list \<times> 'a list) option" where
  "split_once c [] = None"
| "split_once c (x # xs) =
     (if x = c then Some ([], xs)
      else map_option (\<lambda>(a, b). (x # a, b)) (split_once c xs))"

definition rsplit_once :: "'a \<Rightarrow> 'a list \<Rightarrow> ('a list \<times> 'a list) option" where
  "rsplit_once c s = map_option (\<lambda>(a, b). (rev b, rev a)) (split_once c (rev s))"

text \<open>\<^verbatim>\<open>split_once\<close> on a string pattern: at its first occurrence.\<close>

fun split_once_str :: "'a list \<Rightarrow> 'a list \<Rightarrow> ('a list \<times> 'a list) option" where
  "split_once_str p s =
     (if prefix p s then Some ([], drop (length p) s)
      else (case s of [] \<Rightarrow> None
            | x # xs \<Rightarrow> map_option (\<lambda>(a, b). (x # a, b)) (split_once_str p xs)))"

declare split_once_str.simps [simp del]

fun split_by :: "('a \<Rightarrow> bool) \<Rightarrow> 'a list \<Rightarrow> 'a list list" where
  "split_by P [] = [[]]"
| "split_by P (x # xs) =
     (if P x then [] # split_by P xs
      else (case split_by P xs of [] \<Rightarrow> [[x]] | y # ys \<Rightarrow> (x # y) # ys))"

abbreviation split :: "'a \<Rightarrow> 'a list \<Rightarrow> 'a list list" where
  "split c \<equiv> split_by (\<lambda>x. x = c)"

fun splitn :: "nat \<Rightarrow> 'a \<Rightarrow> 'a list \<Rightarrow> 'a list list" where
  "splitn 0 c s = []"
| "splitn (Suc 0) c s = [s]"
| "splitn (Suc (Suc n)) c s =
     (case split_once c s of None \<Rightarrow> [s] | Some (a, b) \<Rightarrow> a # splitn (Suc n) c b)"

fun rsplitn :: "nat \<Rightarrow> 'a \<Rightarrow> 'a list \<Rightarrow> 'a list list" where
  "rsplitn 0 c s = []"
| "rsplitn (Suc 0) c s = [s]"
| "rsplitn (Suc (Suc n)) c s =
     (case rsplit_once c s of None \<Rightarrow> [s] | Some (a, b) \<Rightarrow> b # rsplitn (Suc n) c a)"

fun join :: "'a list \<Rightarrow> 'a list list \<Rightarrow> 'a list" where
  "join sep [] = []"
| "join sep [x] = x"
| "join sep (x # y # xs) = x @ sep @ join sep (y # xs)"

text \<open>Decimal output and the integer parser of the standard library.\<close>

definition digit_char :: "nat \<Rightarrow> char" where
  "digit_char d = char_of (48 + d)"

fun nat_dec :: "nat \<Rightarrow> string" where
  "nat_dec n = (if n < 10 then [digit_char n] else nat_dec (n div 10) @ [digit_char (n mod 10)])"

declare nat_dec.simps [simp del]

definition digit_val :: "nat \<Rightarrow> char \<Rightarrow> nat option" where
  "digit_val radix c =
     (let v = (if 48 \<le> code c \<and> code c \<le> 57 then code c - 48
               else if 97 \<le> code c \<and> code c \<le> 122 then code c - 87
               else if 65 \<le> code c \<and> code c \<le> 90 then code c - 55
               else radix)
      in if v < radix then Some v else None)"

fun radix_val :: "nat \<Rightarrow> nat \<Rightarrow> string \<Rightarrow> nat option" where
  "radix_val radix acc [] = Some acc"
| "radix_val radix acc (c # cs) =
     (case digit_val radix c of None \<Rightarrow> None | Some d \<Rightarrow> radix_val radix (acc * radix + d) cs)"

definition from_str_radix :: "nat \<Rightarrow> nat \<Rightarrow> string \<Rightarrow> nat option" where
  "from_str_radix radix limit s =
     (let body = (case s of c # r \<Rightarrow> if c = CHR ''+'' then r else s | [] \<Rightarrow> s)
      in if body = [] then None
         else case radix_val radix 0 body of
           None \<Rightarrow> None
         | Some v \<Rightarrow> if v \<le> limit then Some v else None)"

abbreviation parse_u32 :: "string \<Rightarrow> nat option" where
  "parse_u32 \<equiv> from_str_radix 10 (2 ^ 32 - 1)"

abbreviation parse_u64 :: "string \<Rightarrow> nat option" where
  "parse_u64 \<equiv> from_str_radix 10 (2 ^ 64 - 1)"

lemmas char_defs =
  code_def is_whitespace_def is_control_def is_ascii_digit_def is_ascii_alphabetic_def
  ascii_lower_char_def ascii_upper_char_def lower_char_def utf8_len_char_def

declare char_defs [text_defs]
  str_len_def [text_defs] trim_start_by_def [text_defs] trim_end_by_def [text_defs]
  trim_by_def [text_defs] trim_def [text_defs] strip_prefix_def [text_defs]
  strip_suffix_def [text_defs] to_ascii_lowercase_def [text_defs]
  to_ascii_uppercase_def [text_defs] to_lowercase_def [text_defs]
  rsplit_once_def [text_defs]

section \<open>Facts about separators\<close>

lemma split_by_not_Nil [simp]: "split_by P s \<noteq> []"
  by (induction s) (auto split: list.splits)

lemma split_by_parts: "p \<in> set (split_by P s) \<Longrightarrow> x \<in> set p \<Longrightarrow> \<not> P x"
proof (induction s arbitrary: p)
  case Nil
  then show ?case by simp
next
  case (Cons y ys)
  then show ?case
    by (cases "split_by P ys") (fastforce split: if_splits)+
qed

lemma split_by_id: "(\<And>x. x \<in> set s \<Longrightarrow> \<not> P x) \<Longrightarrow> split_by P s = [s]"
  by (induction s) auto

lemma split_by_append [split_rules]:
  "(\<And>x. x \<in> set a \<Longrightarrow> \<not> P x) \<Longrightarrow> P c \<Longrightarrow> split_by P (a @ c # b) = a # split_by P b"
  by (induction a) auto

lemma split_by_append_sep: "P c \<Longrightarrow> split_by P (a @ c # b) = split_by P a @ split_by P b"
  by (induction a) (auto split: list.splits)

lemma split_join [split_rules]:
  "ps \<noteq> [] \<Longrightarrow> (\<And>p. p \<in> set ps \<Longrightarrow> c \<notin> set p) \<Longrightarrow> split c (join [c] ps) = ps"
proof (induction "[c]" ps rule: join.induct)
  case (2 x)
  then show ?case by (auto intro: split_by_id)
next
  case (3 x y xs)
  have "split c (x @ c # join [c] (y # xs)) = x # split c (join [c] (y # xs))"
    using "3.prems" by (intro split_by_append) auto
  with 3 show ?case by simp
qed simp

lemma join_split: "join [c] (split c s) = s"
proof (induction s)
  case Nil
  then show ?case by simp
next
  case (Cons x xs)
  obtain y ys where ys: "split c xs = y # ys"
    by (cases "split c xs") simp_all
  show ?case
  proof (cases "x = c")
    case True
    with Cons ys show ?thesis by simp
  next
    case False
    with Cons ys show ?thesis by (cases ys) simp_all
  qed
qed

lemma split_eq_iff:
  "split c s = ps \<longleftrightarrow> ps \<noteq> [] \<and> (\<forall>p\<in>set ps. c \<notin> set p) \<and> s = join [c] ps"
proof
  assume "split c s = ps"
  then show "ps \<noteq> [] \<and> (\<forall>p\<in>set ps. c \<notin> set p) \<and> s = join [c] ps"
    using split_by_parts [of _ "\<lambda>x. x = c" s c] join_split [of c s] by auto
next
  assume "ps \<noteq> [] \<and> (\<forall>p\<in>set ps. c \<notin> set p) \<and> s = join [c] ps"
  then show "split c s = ps"
    using split_join [of ps c] by simp
qed

lemma split_once_append [split_rules]: "c \<notin> set a \<Longrightarrow> split_once c (a @ c # b) = Some (a, b)"
  by (induction a) auto

lemma split_once_None_iff: "split_once c s = None \<longleftrightarrow> c \<notin> set s"
  by (induction s) auto

lemma split_once_SomeD:
  "split_once c s = Some (a, b) \<Longrightarrow> s = a @ c # b \<and> c \<notin> set a"
  by (induction s arbitrary: a) (auto split: if_splits)

lemma rsplit_once_append [split_rules]: "c \<notin> set b \<Longrightarrow> rsplit_once c (a @ c # b) = Some (a, b)"
  by (simp add: rsplit_once_def split_once_append)

lemma rsplit_once_None_iff: "rsplit_once c s = None \<longleftrightarrow> c \<notin> set s"
  by (simp add: rsplit_once_def split_once_None_iff)

lemma rsplit_once_SomeD:
  "rsplit_once c s = Some (a, b) \<Longrightarrow> s = a @ c # b \<and> c \<notin> set b"
  by (auto simp: rsplit_once_def rev_swap dest!: split_once_SomeD)

lemma strip_prefix_append [simp]: "strip_prefix p (p @ s) = Some s"
  by (simp add: strip_prefix_def)

lemma strip_prefix_Some_iff: "strip_prefix p s = Some r \<longleftrightarrow> s = p @ r"
  by (auto simp: strip_prefix_def prefix_def)

lemma strip_suffix_Some_iff: "strip_suffix p s = Some r \<longleftrightarrow> s = r @ p"
  by (auto simp: strip_suffix_def suffix_def)

lemma trim_by_id:
  "s = [] \<or> (\<not> P (hd s) \<and> \<not> P (last s)) \<Longrightarrow> trim_by P s = s"
proof (cases s)
  case (Cons x xs)
  assume "s = [] \<or> (\<not> P (hd s) \<and> \<not> P (last s))"
  with Cons have "dropWhile P s = s" "dropWhile P (rev s) = rev s"
    by (auto simp: dropWhile_eq_self_iff hd_rev hd_append split: if_splits)
  then show ?thesis by (simp add: trim_by_def trim_start_by_def trim_end_by_def)
qed (simp add: trim_by_def trim_start_by_def trim_end_by_def)

section \<open>Facts about decimal numbers\<close>

lemma code_char_of [simp]: "n < 256 \<Longrightarrow> code (char_of n) = n"
  by (simp add: code_def)

lemma code_lt_256 [simp]: "code c < 256"
  by (simp add: code_def)

lemma code_eq_iff: "code c = code d \<longleftrightarrow> c = d"
  by (simp add: code_def)

lemma code_digit_char [simp]: "d < 10 \<Longrightarrow> code (digit_char d) = 48 + d"
  by (simp add: digit_char_def)

lemma is_ascii_digit_digit_char [simp]: "d < 10 \<Longrightarrow> is_ascii_digit (digit_char d)"
  by (simp add: is_ascii_digit_def)

lemma nat_dec_digits: "c \<in> set (nat_dec n) \<Longrightarrow> is_ascii_digit c"
proof (induction n rule: nat_dec.induct)
  case (1 n)
  then show ?case
    by (subst (asm) nat_dec.simps) (auto split: if_splits)
qed

lemma nat_dec_not_Nil [simp]: "nat_dec n \<noteq> []"
  by (subst nat_dec.simps) simp

lemma digit_not_sep: "is_ascii_digit c \<Longrightarrow> c \<noteq> CHR '':'' \<and> c \<noteq> CHR ''+'' \<and> c \<noteq> CHR ''-''
    \<and> c \<noteq> CHR '','' \<and> \<not> is_whitespace c"
  by (auto simp: char_defs)

lemma nat_dec_no_colon [simp]: "CHR '':'' \<notin> set (nat_dec n)"
  using nat_dec_digits digit_not_sep by blast

lemma digit_val_digit_char [simp]: "d < 10 \<Longrightarrow> digit_val 10 (digit_char d) = Some d"
  by (simp add: digit_val_def Let_def)

lemma radix_val_append:
  "radix_val r a (s @ t) = Option.bind (radix_val r a s) (\<lambda>v. radix_val r v t)"
  by (induction s arbitrary: a) (auto split: option.splits)

lemma radix_val_nat_dec: "radix_val 10 0 (nat_dec n) = Some n"
proof (induction n rule: nat_dec.induct)
  case (1 n)
  show ?case
  proof (cases "n < 10")
    case True
    then show ?thesis by (subst nat_dec.simps) simp
  next
    case False
    then have "radix_val 10 0 (nat_dec n) =
        Option.bind (radix_val 10 0 (nat_dec (n div 10))) (\<lambda>v. radix_val 10 v [digit_char (n mod 10)])"
      by (subst nat_dec.simps) (simp only: radix_val_append if_False)
    with False 1 show ?thesis by simp
  qed
qed

lemma hd_nat_dec_not_plus: "nat_dec n = c # r \<Longrightarrow> c \<noteq> CHR ''+''"
  using nat_dec_digits [of c n] digit_not_sep by auto

lemma parse_nat_dec [simp]: "n \<le> m \<Longrightarrow> from_str_radix 10 m (nat_dec n) = Some n"
proof -
  assume "n \<le> m"
  moreover have "(case nat_dec n of [] \<Rightarrow> nat_dec n
      | c # r \<Rightarrow> if c = CHR ''+'' then r else nat_dec n) = nat_dec n"
    by (auto dest: hd_nat_dec_not_plus split: list.splits)
  ultimately show ?thesis
    by (simp add: from_str_radix_def radix_val_nat_dec)
qed

lemma nat_dec_inject [simp]: "nat_dec m = nat_dec n \<longleftrightarrow> m = n"
  by (metis option.inject radix_val_nat_dec)

lemma trim_nat_dec [simp]: "trim (nat_dec n) = nat_dec n"
proof -
  have "\<not> is_whitespace c" if "c \<in> set (nat_dec n)" for c
    using that nat_dec_digits digit_not_sep by blast
  then show ?thesis by (simp add: trim_def trim_by_id)
qed

section \<open>Generic contracts\<close>

text \<open>
  A store split into slices by key: every operation names one key, changes only the slice of
  that key, and its effect on that slice depends on that slice alone. Then what a slice holds
  after a sequence of operations is decided by the operations on its own key.
\<close>

locale keyed_store =
  fixes apply_op :: "'op \<Rightarrow> 's \<Rightarrow> 's"
    and key_of :: "'op \<Rightarrow> 'k"
    and slice :: "'k \<Rightarrow> 's \<Rightarrow> 'v"
  assumes frame: "key_of a \<noteq> k \<Longrightarrow> slice k (apply_op a s) = slice k s"
    and local_effect:
      "slice k s = slice k t \<Longrightarrow> key_of a = k \<Longrightarrow> slice k (apply_op a s) = slice k (apply_op a t)"
begin

lemma run_congruence: "slice k s = slice k t \<Longrightarrow> slice k (fold apply_op as s) = slice k (fold apply_op as t)"
proof (induction as arbitrary: s t)
  case (Cons a as)
  have "slice k (apply_op a s) = slice k (apply_op a t)"
  proof (cases "key_of a = k")
    case True
    with Cons.prems show ?thesis by (rule local_effect)
  next
    case False
    with Cons.prems show ?thesis by (simp add: frame)
  qed
  from Cons.IH [OF this] show ?case by simp
qed simp

lemma run_projection:
  "slice k (fold apply_op as s) = slice k (fold apply_op (filter (\<lambda>a. key_of a = k) as) s)"
proof (induction as arbitrary: s)
  case (Cons a as)
  have "slice k (fold apply_op as (apply_op a s)) = slice k (fold apply_op as s)"
    if "key_of a \<noteq> k"
    by (rule run_congruence) (simp add: frame that)
  with Cons.IH show ?case by simp
qed simp

lemma run_frame: "(\<And>a. a \<in> set as \<Longrightarrow> key_of a \<noteq> k) \<Longrightarrow> slice k (fold apply_op as s) = slice k s"
  by (induction as arbitrary: s) (auto simp: frame)

end

text \<open>A deterministic component driven by events: what every event keeps, every run keeps.\<close>

locale step_system =
  fixes step :: "'e \<Rightarrow> 's \<Rightarrow> 's" and inv :: "'s \<Rightarrow> bool"
  assumes step_inv: "inv s \<Longrightarrow> inv (step e s)"
begin

lemma run_inv: "inv s \<Longrightarrow> inv (fold step es s)"
  by (induction es arbitrary: s) (auto simp: step_inv)

end

text \<open>A text format with a decoder that inverts the encoder on the valid values.\<close>

locale codec =
  fixes enc :: "'a \<Rightarrow> 't" and dec :: "'t \<Rightarrow> 'a option" and valid :: "'a \<Rightarrow> bool"
  assumes dec_enc: "valid x \<Longrightarrow> dec (enc x) = Some x"
begin

lemma enc_inj: "valid x \<Longrightarrow> valid y \<Longrightarrow> enc x = enc y \<longleftrightarrow> x = y"
  by (metis dec_enc option.inject)

end

text \<open>A canonical format: nothing but encodings of valid values decodes.\<close>

locale canonical_codec = codec +
  assumes enc_dec: "dec t = Some x \<Longrightarrow> valid x \<and> enc x = t"
begin

lemma dec_iff: "dec t = Some x \<longleftrightarrow> valid x \<and> t = enc x"
  using dec_enc enc_dec by auto

lemma dec_inj: "dec s = Some x \<Longrightarrow> dec t = Some x \<Longrightarrow> s = t"
  using enc_dec by metis

end

end
