(* ===== verification/Circuit_Breaker.thy ===== *)
theory Circuit_Breaker
  imports Prelude
begin

text \<open>
  The per-host circuit breaker for remote git operations
  (\<^verbatim>\<open>crates/nestweaver-engine/src/circuit_breaker.rs\<close>).

  An \<^verbatim>\<open>Instant\<close> is a number of nanoseconds on the monotonic clock; \<^verbatim>\<open>duration_since\<close> saturates at
  zero, as natural subtraction does. The registry (a mutex around a hash map) is a map from hosts
  to their state; each method holds the mutex for its whole body, so a method is one atomic step.
  A guarded call is not atomic: it is admitted in one step and settled in a later one, with any
  number of steps of other callers in between. The relation \<open>breaker_step\<close> models this.
\<close>

section \<open>State of one host\<close>

definition secs :: "nat \<Rightarrow> nat" where
  "secs n = n * 1000000000"

definition FAILURE_THRESHOLD :: nat where
  "FAILURE_THRESHOLD = 5"

definition FAILURE_WINDOW :: nat where
  "FAILURE_WINDOW = secs 60"

definition COOLDOWN :: nat where
  "COOLDOWN = secs 60"

datatype circuit_state = Closed | Open | HalfOpen

datatype admission = AdmitClosed | Probe nat

record host_state =
  failures :: "nat list"
  opened_at :: "nat option"
  probe_in_flight :: bool

definition host_new :: host_state where
  "host_new = \<lparr>failures = [], opened_at = None, probe_in_flight = False\<rparr>"

definition duration_since :: "nat \<Rightarrow> nat \<Rightarrow> nat" where
  "duration_since now t = now - t"

definition host_circuit :: "host_state \<Rightarrow> nat \<Rightarrow> circuit_state" where
  "host_circuit hs now =
     (case opened_at hs of
        None \<Rightarrow> Closed
      | Some opened \<Rightarrow> if duration_since now opened \<ge> COOLDOWN then HalfOpen else Open)"

definition host_record_failure :: "nat \<Rightarrow> host_state \<Rightarrow> host_state" where
  "host_record_failure now hs =
     (let kept = filter (\<lambda>t. duration_since now t < FAILURE_WINDOW) (failures hs) @ [now];
          hs1 = hs\<lparr>failures := kept\<rparr>;
          reopening = (opened_at hs \<noteq> None)
      in if reopening \<or> length kept \<ge> FAILURE_THRESHOLD
         then hs1\<lparr>opened_at := Some now, probe_in_flight := False\<rparr>
         else hs1)"

definition host_record_success :: "host_state \<Rightarrow> host_state" where
  "host_record_success hs = hs\<lparr>opened_at := None, probe_in_flight := False, failures := []\<rparr>"

section \<open>The registry\<close>

type_synonym breakers = "string \<rightharpoonup> host_state"

definition breakers_new :: breakers where
  "breakers_new = Map.empty"

text \<open>
  \<^verbatim>\<open>url::Url\<close> is a library the source calls: \<open>host_str\<close> stands for
  \<^verbatim>\<open>Url::parse(url).ok()?.host_str()\<close>.
\<close>

definition extract_host :: "(string \<Rightarrow> string option) \<Rightarrow> string \<Rightarrow> string" where
  "extract_host host_str url =
     (case Option.bind (strip_prefix ''git@'' url) (split_once CHR '':'') of
        Some (host, _) \<Rightarrow> host
      | None \<Rightarrow> (case host_str url of Some host \<Rightarrow> host | None \<Rightarrow> url))"

definition breaker_state :: "breakers \<Rightarrow> string \<Rightarrow> nat \<Rightarrow> circuit_state" where
  "breaker_state m host now =
     (case m host of None \<Rightarrow> Closed | Some hs \<Rightarrow> host_circuit hs now)"

definition is_available :: "breakers \<Rightarrow> string \<Rightarrow> nat \<Rightarrow> bool" where
  "is_available m host now \<longleftrightarrow> breaker_state m host now \<noteq> Open"

definition entry_or_new :: "breakers \<Rightarrow> string \<Rightarrow> host_state" where
  "entry_or_new m host = (case m host of None \<Rightarrow> host_new | Some hs \<Rightarrow> hs)"

definition try_admit :: "string \<Rightarrow> nat \<Rightarrow> breakers \<Rightarrow> admission option \<times> breakers" where
  "try_admit host now m =
     (let hs = entry_or_new m host; m' = m(host \<mapsto> hs)
      in case host_circuit hs now of
           Closed \<Rightarrow> (Some AdmitClosed, m')
         | Open \<Rightarrow> (None, m')
         | HalfOpen \<Rightarrow>
             if probe_in_flight hs then (None, m')
             else (map_option Probe (opened_at hs), m(host \<mapsto> hs\<lparr>probe_in_flight := True\<rparr>)))"

definition record_failure :: "string \<Rightarrow> nat \<Rightarrow> breakers \<Rightarrow> breakers" where
  "record_failure host now m = m(host \<mapsto> host_record_failure now (entry_or_new m host))"

definition record_success :: "string \<Rightarrow> breakers \<Rightarrow> breakers" where
  "record_success host m =
     (case m host of None \<Rightarrow> m | Some hs \<Rightarrow> m(host \<mapsto> host_record_success hs))"

definition release_neutral_probe :: "string \<Rightarrow> admission \<Rightarrow> breakers \<Rightarrow> breakers" where
  "release_neutral_probe host adm m =
     (case adm of
        AdmitClosed \<Rightarrow> m
      | Probe opened \<Rightarrow>
          (case m host of
             None \<Rightarrow> m
           | Some hs \<Rightarrow>
               if opened_at hs = Some opened then m(host \<mapsto> hs\<lparr>probe_in_flight := False\<rparr>) else m))"

section \<open>Guarded calls\<close>

text \<open>What the guarded closure does: return a value, return an error, or unwind.\<close>

datatype ('t, 'e) outcome = Completed 't | Failed 'e | Panicked

datatype 'e breaker_error = CircuitOpen string | Inner 'e

datatype ('t, 'e) call_result = Returned 't | Errored "'e breaker_error" | Unwound

text \<open>
  The part of \<^verbatim>\<open>call_classified\<close> after the closure ran, at time \<open>now\<close>: the \<^verbatim>\<open>Ok\<close> arm, the \<^verbatim>\<open>Err\<close>
  arm with its classification, and the armed \<^verbatim>\<open>ProbeGuard\<close> that records a failure while
  unwinding.
\<close>

definition settle ::
  "string \<Rightarrow> admission \<Rightarrow> nat \<Rightarrow> ('e \<Rightarrow> bool) \<Rightarrow> ('t, 'e) outcome \<Rightarrow> breakers \<Rightarrow> breakers"
where
  "settle host adm now counts_as_host_failure r m =
     (case r of
        Completed _ \<Rightarrow> record_success host m
      | Failed e \<Rightarrow>
          if counts_as_host_failure e then record_failure host now m
          else release_neutral_probe host adm m
      | Panicked \<Rightarrow> record_failure host now m)"

text \<open>
  A whole guarded call, admitted at \<open>now\<close> and settled at \<open>later\<close>. The closure \<open>f\<close> sees the registry
  because other callers may change it while the closure runs.
\<close>

definition call_classified ::
  "string \<Rightarrow> nat \<Rightarrow> nat \<Rightarrow> (breakers \<Rightarrow> ('t, 'e) outcome \<times> breakers) \<Rightarrow> ('e \<Rightarrow> bool) \<Rightarrow> breakers \<Rightarrow>
   ('t, 'e) call_result \<times> breakers"
where
  "call_classified host now later f counts_as_host_failure m =
     (case try_admit host now m of
        (None, m1) \<Rightarrow> (Errored (CircuitOpen host), m1)
      | (Some adm, m1) \<Rightarrow>
          (let (r, m2) = f m1; m3 = settle host adm later counts_as_host_failure r m2
           in (case r of
                 Completed v \<Rightarrow> (Returned v, m3)
               | Failed e \<Rightarrow> (Errored (Inner e), m3)
               | Panicked \<Rightarrow> (Unwound, m3))))"

definition breaker_call ::
  "string \<Rightarrow> nat \<Rightarrow> nat \<Rightarrow> (breakers \<Rightarrow> ('t, 'e) outcome \<times> breakers) \<Rightarrow> breakers \<Rightarrow>
   ('t, 'e) call_result \<times> breakers"
where
  "breaker_call host now later f m = call_classified host now later f (\<lambda>_. True) m"

section \<open>Concurrent callers\<close>

text \<open>
  The breaker with its callers: the registry, the clock, and the admissions that have been granted
  and not yet settled (one entry per running closure).
\<close>

record breaker_sys =
  hosts :: breakers
  clock :: nat
  running :: "(string \<times> admission) list"

definition sys_init :: breaker_sys where
  "sys_init = \<lparr>hosts = breakers_new, clock = 0, running = []\<rparr>"

inductive breaker_step :: "breaker_sys \<Rightarrow> breaker_sys \<Rightarrow> bool" where
  tick: "clock s \<le> now \<Longrightarrow> breaker_step s (s\<lparr>clock := now\<rparr>)"
| reject: "try_admit host (clock s) (hosts s) = (None, m) \<Longrightarrow> breaker_step s (s\<lparr>hosts := m\<rparr>)"
| admit: "try_admit host (clock s) (hosts s) = (Some adm, m) \<Longrightarrow>
    breaker_step s (s\<lparr>hosts := m, running := (host, adm) # running s\<rparr>)"
| finish: "(host, adm) \<in> set (running s) \<Longrightarrow>
    breaker_step s (s\<lparr>hosts := settle host adm (clock s) (\<lambda>counted. counted)
                        (r :: (unit, bool) outcome) (hosts s),
                      running := remove1 (host, adm) (running s)\<rparr>)"

inductive breaker_reachable :: "breaker_sys \<Rightarrow> bool" where
  init: "breaker_reachable sys_init"
| step: "breaker_reachable s \<Longrightarrow> breaker_step s t \<Longrightarrow> breaker_reachable t"

section \<open>Lemmas: one host\<close>

lemmas breaker_consts = FAILURE_THRESHOLD_def FAILURE_WINDOW_def COOLDOWN_def secs_def

lemmas host_defs = host_new_def host_circuit_def host_record_failure_def host_record_success_def
  duration_since_def Let_def

lemma COOLDOWN_nonzero [simp]: "COOLDOWN \<noteq> 0"
  by (simp add: breaker_consts)

lemma record_failure_opened:
  "opened_at (host_record_failure now hs) =
     (if opened_at hs \<noteq> None \<or>
         FAILURE_THRESHOLD \<le> Suc (length (filter (\<lambda>t. now - t < FAILURE_WINDOW) (failures hs)))
      then Some now else None)"
  by (auto simp: host_defs)

lemma record_failure_probe:
  "probe_in_flight (host_record_failure now hs) =
     (probe_in_flight hs \<and> opened_at (host_record_failure now hs) = None)"
  by (auto simp: host_defs)

lemma record_success_fields [simp]:
  "opened_at (host_record_success hs) = None" "\<not> probe_in_flight (host_record_success hs)"
  "failures (host_record_success hs) = []"
  by (simp_all add: host_record_success_def)

lemma host_circuit_HalfOpen_iff:
  "host_circuit hs now = HalfOpen \<longleftrightarrow> (\<exists>t. opened_at hs = Some t \<and> COOLDOWN \<le> now - t)"
  by (auto simp: host_circuit_def duration_since_def split: option.splits)

lemma try_admit_cases [consumes 1, case_names closed rejected probe]:
  assumes "try_admit host now m = (res, m')"
  obtains
    (closed) "res = Some AdmitClosed" "m' = m(host \<mapsto> entry_or_new m host)"
      "host_circuit (entry_or_new m host) now = Closed"
  | (rejected) "res = None" "m' = m(host \<mapsto> entry_or_new m host)"
      "host_circuit (entry_or_new m host) now \<noteq> Closed"
  | (probe) t where "res = Some (Probe t)" "opened_at (entry_or_new m host) = Some t"
      "COOLDOWN \<le> now - t" "\<not> probe_in_flight (entry_or_new m host)"
      "m' = m(host \<mapsto> (entry_or_new m host)\<lparr>probe_in_flight := True\<rparr>)"
proof (cases "host_circuit (entry_or_new m host) now")
  case HalfOpen
  then obtain t where "opened_at (entry_or_new m host) = Some t" "COOLDOWN \<le> now - t"
    by (auto simp: host_circuit_HalfOpen_iff)
  with HalfOpen assms that show ?thesis
    by (auto simp: try_admit_def Let_def split: if_splits)
qed (use assms that in \<open>auto simp: try_admit_def Let_def\<close>)

section \<open>Lemmas: independent hosts\<close>

text \<open>The operations of the registry as one type, so that the slice contract can speak of them.\<close>

datatype breaker_op =
    OpAdmit string nat
  | OpSettle string admission nat "(unit, bool) outcome"

fun breaker_op_host :: "breaker_op \<Rightarrow> string" where
  "breaker_op_host (OpAdmit host _) = host"
| "breaker_op_host (OpSettle host _ _ _) = host"

fun breaker_apply :: "breaker_op \<Rightarrow> breakers \<Rightarrow> breakers" where
  "breaker_apply (OpAdmit host now) m = snd (try_admit host now m)"
| "breaker_apply (OpSettle host adm now r) m = settle host adm now (\<lambda>counted. counted) r m"

lemma try_admit_slice: "snd (try_admit host now m) k =
    (if k = host
     then Some (if host_circuit (entry_or_new m host) now = HalfOpen
                then (entry_or_new m host)\<lparr>probe_in_flight := True\<rparr> else entry_or_new m host)
     else m k)"
  by (auto simp: try_admit_def Let_def split: circuit_state.splits)

lemma settle_other: "k \<noteq> host \<Longrightarrow> settle host adm now P r m k = m k"
  by (auto simp: settle_def record_success_def record_failure_def release_neutral_probe_def
      split: outcome.splits option.splits admission.splits)

lemma settle_local: "m host = m' host \<Longrightarrow> settle host adm now P r m host = settle host adm now P r m' host"
  by (auto simp: settle_def record_success_def record_failure_def release_neutral_probe_def
      entry_or_new_def split: outcome.splits option.splits admission.splits)

interpretation breaker_slices: keyed_store breaker_apply breaker_op_host "\<lambda>host m. m host"
proof
  fix a k m assume "breaker_op_host a \<noteq> k"
  then show "breaker_apply a m k = m k"
    by (cases a) (auto simp: try_admit_slice settle_other)
next
  fix k :: string and m m' :: breakers and a
  assume "m k = m' k" "breaker_op_host a = k"
  then show "breaker_apply a m k = breaker_apply a m' k"
    by (cases a) (auto simp: try_admit_slice entry_or_new_def intro: settle_local)
qed

section \<open>Lemmas: the probe permit\<close>

lemma count_list_remove1:
  "count_list (remove1 x xs) y = (if x = y then count_list xs y - 1 else count_list xs y)"
  by (induction xs) auto

text \<open>
  The invariant. A running probe was admitted a whole cooldown after its stamp; the permit flag of a
  host counts exactly the running probes that carry the host's current stamp.
\<close>

definition permit_ok :: "(string \<times> admission) list \<Rightarrow> string \<Rightarrow> host_state \<Rightarrow> bool" where
  "permit_ok run h hs \<longleftrightarrow>
     (case opened_at hs of
        None \<Rightarrow> \<not> probe_in_flight hs
      | Some t \<Rightarrow> count_list run (h, Probe t) = (if probe_in_flight hs then 1 else 0))"

definition probe_inv :: "breaker_sys \<Rightarrow> bool" where
  "probe_inv s \<longleftrightarrow>
     (\<forall>h t. (h, Probe t) \<in> set (running s) \<longrightarrow> t + COOLDOWN \<le> clock s) \<and>
     (\<forall>h hs. hosts s h = Some hs \<longrightarrow> permit_ok (running s) h hs)"

lemma probe_inv_stamp:
  "probe_inv s \<Longrightarrow> (h, Probe t) \<in> set (running s) \<Longrightarrow> t + COOLDOWN \<le> clock s"
  by (simp add: probe_inv_def)

lemma probe_inv_fresh: "probe_inv s \<Longrightarrow> count_list (running s) (h, Probe (clock s)) = 0"
  using probe_inv_stamp [of s h "clock s"] by (auto simp: count_list_0_iff)

lemma probe_inv_host: "probe_inv s \<Longrightarrow> hosts s h = Some hs \<Longrightarrow> permit_ok (running s) h hs"
  by (simp add: probe_inv_def)

lemma probe_inv_entry: "probe_inv s \<Longrightarrow> permit_ok (running s) h (entry_or_new (hosts s) h)"
proof (cases "hosts s h")
  case None
  then show ?thesis by (simp add: entry_or_new_def host_new_def permit_ok_def)
qed (simp add: entry_or_new_def probe_inv_host)

lemma permit_ok_other [simp]:
  "h \<noteq> host \<Longrightarrow> permit_ok ((host, adm) # run) h hs = permit_ok run h hs"
  "h \<noteq> host \<Longrightarrow> permit_ok (remove1 (host, adm) run) h hs = permit_ok run h hs"
  by (simp_all add: permit_ok_def count_list_remove1 cong: option.case_cong)

lemma permit_ok_AdmitClosed [simp]:
  "permit_ok ((host, AdmitClosed) # run) h hs = permit_ok run h hs"
  by (simp add: permit_ok_def cong: option.case_cong)

text \<open>Recording a failure is always safe, because the new stamp is younger than every running probe.\<close>

lemma permit_ok_failure:
  assumes "probe_inv s"
  shows "permit_ok (remove1 (h, adm) (running s)) h
           (host_record_failure (clock s) (entry_or_new (hosts s) h))"
  using probe_inv_entry [OF assms, of h] probe_inv_fresh [OF assms, of h]
  by (auto simp: permit_ok_def record_failure_probe record_failure_opened count_list_remove1)

lemma permit_ok_neutral:
  assumes ok: "permit_ok (running s) h hs" and run: "(h, adm) \<in> set (running s)"
  shows "permit_ok (remove1 (h, adm) (running s)) h
           (case adm of AdmitClosed \<Rightarrow> hs
            | Probe t \<Rightarrow> if opened_at hs = Some t then hs\<lparr>probe_in_flight := False\<rparr> else hs)"
proof -
  have "count_list (running s) (h, adm) \<noteq> 0"
    using run by (simp add: count_list_0_iff)
  with ok show ?thesis
    by (auto simp: permit_ok_def count_list_remove1 split: admission.splits option.splits if_splits)
qed

text \<open>What settling a running call leaves of its own host, when the invariant held before.\<close>

lemma settle_permit_ok:
  assumes inv: "probe_inv s" and run: "(h, adm) \<in> set (running s)"
    and after: "settle h adm (clock s) P r (hosts s) h = Some hs"
  shows "permit_ok (remove1 (h, adm) (running s)) h hs"
proof -
  consider
    (failure) "hs = host_record_failure (clock s) (entry_or_new (hosts s) h)"
  | (success) hs0 where "hs = host_record_success hs0"
  | (neutral) hs0 where "hosts s h = Some hs0"
      "hs = (case adm of AdmitClosed \<Rightarrow> hs0
             | Probe t \<Rightarrow> if opened_at hs0 = Some t then hs0\<lparr>probe_in_flight := False\<rparr> else hs0)"
    using after
    by (auto simp: settle_def record_failure_def record_success_def release_neutral_probe_def
        split: outcome.splits option.splits admission.splits if_splits)
  then show ?thesis
  proof cases
    case failure
    with permit_ok_failure [OF inv] show ?thesis by simp
  next
    case success
    then show ?thesis by (simp add: permit_ok_def)
  next
    case neutral
    from permit_ok_neutral [OF probe_inv_host [OF inv neutral(1)] run] neutral(2)
    show ?thesis by simp
  qed
qed

lemma breaker_step_inv: "breaker_step s t \<Longrightarrow> probe_inv s \<Longrightarrow> probe_inv t"
proof (induction rule: breaker_step.induct)
  case (tick s now)
  then show ?case by (auto simp: probe_inv_def intro: order_trans)
next
  case (reject host s m)
  from reject.hyps reject.prems probe_inv_entry [OF reject.prems, of host] show ?case
    by (cases rule: try_admit_cases) (auto simp: probe_inv_def split: if_splits)
next
  case (admit host s adm m)
  note entry = probe_inv_entry [OF admit.prems, of host]
  from admit.hyps show ?case
  proof (cases rule: try_admit_cases)
    case closed
    with admit.prems entry show ?thesis by (auto simp: probe_inv_def split: if_splits)
  next
    case rejected
    then show ?thesis by simp
  next
    case (probe t)
    with entry have "permit_ok ((host, Probe t) # running s) host
        ((entry_or_new (hosts s) host)\<lparr>probe_in_flight := True\<rparr>)"
      by (simp add: permit_ok_def)
    moreover from probe have "t + COOLDOWN \<le> clock s"
      by (cases "t \<le> clock s") simp_all
    ultimately show ?thesis
      using probe admit.prems by (auto simp: probe_inv_def split: if_splits)
  qed
next
  case (finish host adm s r)
  show ?case
    unfolding probe_inv_def
  proof (intro conjI allI impI, goal_cases)
    case (1 h t)
    then have "(h, Probe t) \<in> set (running s)"
      using set_remove1_subset by fastforce
    with finish.prems show ?case by (simp add: probe_inv_stamp)
  next
    case (2 h hs)
    with finish show ?case
      by (cases "h = host") (auto simp: settle_other probe_inv_host intro: settle_permit_ok)
  qed
qed

lemma breaker_reachable_inv: "breaker_reachable s \<Longrightarrow> probe_inv s"
proof (induction rule: breaker_reachable.induct)
  case init
  then show ?case by (simp add: sys_init_def probe_inv_def breakers_new_def)
next
  case (step s t)
  then show ?case by (blast intro: breaker_step_inv)
qed

text \<open>An executable schedule of steps, for concrete runs.\<close>

datatype breaker_event = Tick nat | Begin string | End nat "(unit, bool) outcome"

fun breaker_exec :: "breaker_event \<Rightarrow> breaker_sys \<Rightarrow> breaker_sys" where
  "breaker_exec (Tick d) s = s\<lparr>clock := clock s + d\<rparr>"
| "breaker_exec (Begin host) s =
     (case try_admit host (clock s) (hosts s) of
        (None, m) \<Rightarrow> s\<lparr>hosts := m\<rparr>
      | (Some adm, m) \<Rightarrow> s\<lparr>hosts := m, running := (host, adm) # running s\<rparr>)"
| "breaker_exec (End i r) s =
     (if i < length (running s)
      then (case running s ! i of (host, adm) \<Rightarrow>
              s\<lparr>hosts := settle host adm (clock s) (\<lambda>counted. counted) r (hosts s),
                running := remove1 (host, adm) (running s)\<rparr>)
      else s)"

lemma breaker_exec_reachable: "breaker_reachable s \<Longrightarrow> breaker_reachable (breaker_exec e s)"
proof (cases e)
  case (End i r)
  moreover assume "breaker_reachable s"
  moreover have "breaker_reachable (s\<lparr>hosts := settle host adm (clock s) (\<lambda>counted. counted) r (hosts s),
      running := remove1 (host, adm) (running s)\<rparr>)" if "running s ! i = (host, adm)" "i < length (running s)"
    for host adm
    using that calculation(2) breaker_step.finish [of host adm s r] breaker_reachable.step
    by (metis nth_mem)
  ultimately show ?thesis by (auto split: prod.splits)
next
  case (Tick d)
  moreover have "breaker_step s (s\<lparr>clock := clock s + d\<rparr>)"
    by (rule breaker_step.tick) simp
  moreover assume "breaker_reachable s"
  ultimately show ?thesis by (auto intro: breaker_reachable.step)
qed (auto intro: breaker_reachable.step breaker_step.intros split: prod.splits option.splits)

interpretation breaker_runs: step_system breaker_exec breaker_reachable
  by unfold_locales (rule breaker_exec_reachable)

lemma breaker_run_reachable: "breaker_reachable (fold breaker_exec es sys_init)"
  by (rule breaker_runs.run_inv) (rule breaker_reachable.init)

section \<open>Lemmas: the failure window\<close>

text \<open>On a sorted list an upward closed predicate selects a suffix.\<close>

lemma filter_suffix_length:
  assumes "sorted ts" and "0 < k" "k \<le> length ts"
    and up: "\<And>x y. P x \<Longrightarrow> x \<le> y \<Longrightarrow> P y"
  shows "k \<le> length (filter P ts) \<longleftrightarrow> P (ts ! (length ts - k))"
  using assms(1,3)
proof (induction ts)
  case (Cons x xs)
  show ?case
  proof (cases "P x")
    case True
    with Cons.prems have "filter P (x # xs) = x # xs"
      by (auto intro!: filter_True intro: up)
    moreover from True Cons.prems have "P ((x # xs) ! (length (x # xs) - k))"
      using assms(2) by (intro up [OF True]) (auto simp: nth_Cons' )
    ultimately show ?thesis using Cons.prems by simp
  next
    case False
    show ?thesis
    proof (cases "k = length (x # xs)")
      case True
      have "length (filter P xs) < Suc (length xs)"
        by (simp add: le_imp_less_Suc)
      with True False show ?thesis by simp
    next
      case neq: False
      with Cons.prems have k: "k \<le> length xs" by simp
      with assms(2) have "(x # xs) ! (length (x # xs) - k) = xs ! (length xs - k)"
        by (simp add: Suc_diff_le)
      with Cons k False show ?thesis by simp
    qed
  qed
qed (use assms(2) in simp)

lemma sorted_snoc_iff: "sorted (ts @ [now]) \<longleftrightarrow> sorted ts \<and> (\<forall>t\<in>set ts. t \<le> now)"
  by (auto simp: sorted_append)

text \<open>While the circuit of a fresh host is closed, its list holds every failure still in the window.\<close>

lemma record_failure_failures:
  "failures (host_record_failure now hs) =
     filter (\<lambda>t. now - t < FAILURE_WINDOW) (failures hs) @ [now]"
  by (simp add: host_defs)

lemma closed_failures:
  "sorted ts \<Longrightarrow> \<forall>t\<in>set ts. t \<le> now \<Longrightarrow> opened_at (fold host_record_failure ts host_new) = None \<Longrightarrow>
     filter (\<lambda>t. now - t < FAILURE_WINDOW) (failures (fold host_record_failure ts host_new)) =
     filter (\<lambda>t. now - t < FAILURE_WINDOW) ts"
proof (induction ts rule: rev_induct)
  case Nil
  then show ?case by (simp add: host_new_def)
next
  case (snoc t0 ts)
  let ?hs = "fold host_record_failure ts host_new"
  from snoc.prems have "opened_at ?hs = None"
    by (auto simp: record_failure_opened split: if_splits)
  with snoc have IH: "filter (\<lambda>t. now - t < FAILURE_WINDOW) (failures ?hs) =
      filter (\<lambda>t. now - t < FAILURE_WINDOW) ts"
    by (simp add: sorted_snoc_iff)
  from snoc.prems have "filter (\<lambda>t. t0 - t < FAILURE_WINDOW \<and> now - t < FAILURE_WINDOW) (failures ?hs) =
      filter (\<lambda>t. now - t < FAILURE_WINDOW) (failures ?hs)"
    by (auto intro!: filter_cong)
  with IH show ?case
    by (simp add: record_failure_failures filter_filter)
qed

lemma window_snoc:
  fixes ts :: "nat list"
  shows "(\<exists>i. i + 4 < length (ts @ [now]) \<and> (ts @ [now]) ! (i + 4) - (ts @ [now]) ! i < w) \<longleftrightarrow>
    (\<exists>i. i + 4 < length ts \<and> ts ! (i + 4) - ts ! i < w) \<or>
    (4 \<le> length ts \<and> now - ts ! (length ts - 4) < w)"
proof (intro iffI; elim exE disjE conjE)
  fix i assume i: "i + 4 < length (ts @ [now])" "(ts @ [now]) ! (i + 4) - (ts @ [now]) ! i < w"
  show "(\<exists>i. i + 4 < length ts \<and> ts ! (i + 4) - ts ! i < w) \<or>
      (4 \<le> length ts \<and> now - ts ! (length ts - 4) < w)"
  proof (cases "i + 4 = length ts")
    case True
    then have "i = length ts - 4" "i < length ts" by simp_all
    with True i show ?thesis by (simp add: nth_append)
  next
    case False
    with i have "i + 4 < length ts \<and> ts ! (i + 4) - ts ! i < w"
      by (simp add: nth_append)
    then show ?thesis by blast
  qed
next
  fix i assume "i + 4 < length ts" "ts ! (i + 4) - ts ! i < w"
  then show "\<exists>i. i + 4 < length (ts @ [now]) \<and> (ts @ [now]) ! (i + 4) - (ts @ [now]) ! i < w"
    by (intro exI [of _ i]) (simp add: nth_append)
next
  assume "4 \<le> length ts" "now - ts ! (length ts - 4) < w"
  then show "\<exists>i. i + 4 < length (ts @ [now]) \<and> (ts @ [now]) ! (i + 4) - (ts @ [now]) ! i < w"
    by (intro exI [of _ "length ts - 4"]) (simp add: nth_append)
qed

lemma window_full:
  assumes closed: "opened_at (fold host_record_failure ts host_new) = None"
    and "sorted (ts @ [now])"
  shows "4 \<le> length (filter (\<lambda>t. now - t < FAILURE_WINDOW)
             (failures (fold host_record_failure ts host_new))) \<longleftrightarrow>
    4 \<le> length ts \<and> now - ts ! (length ts - 4) < FAILURE_WINDOW"
proof -
  have ts: "sorted ts" "\<forall>t\<in>set ts. t \<le> now"
    using assms(2) by (simp_all add: sorted_snoc_iff)
  have "filter (\<lambda>t. now - t < FAILURE_WINDOW) (failures (fold host_record_failure ts host_new)) =
      filter (\<lambda>t. now - t < FAILURE_WINDOW) ts"
    using ts closed by (rule closed_failures)
  moreover have "4 \<le> length (filter (\<lambda>t. now - t < FAILURE_WINDOW) ts) \<longleftrightarrow>
      4 \<le> length ts \<and> now - ts ! (length ts - 4) < FAILURE_WINDOW"
  proof (cases "4 \<le> length ts")
    case True
    then show ?thesis
      using filter_suffix_length [OF ts(1), of 4 "\<lambda>t. now - t < FAILURE_WINDOW"] by auto
  next
    case False
    then show ?thesis
      using length_filter_le [of "\<lambda>t. now - t < FAILURE_WINDOW" ts] by linarith
  qed
  ultimately show ?thesis by simp
qed

section \<open>Properties\<close>

text \<open>
  C10. Half-open admits exactly one probe per open period, and the permit is never lost. In every
  state the breaker can reach with any interleaving of callers, for a host whose circuit was opened
  at \<open>t\<close> at most one running call is a probe for \<open>t\<close>, and the flag \<open>probe_in_flight\<close> is set exactly
  while that probe is running; so success, failure, a neutral error and a panic all release it.
\<close>

theorem breaker_single_probe:
  assumes "breaker_reachable s" and "hosts s h = Some hs" and "opened_at hs = Some t"
  shows "count_list (running s) (h, Probe t) \<le> 1 \<and>
    (probe_in_flight hs \<longleftrightarrow> (h, Probe t) \<in> set (running s))"
proof -
  have "permit_ok (running s) h hs"
    using assms breaker_reachable_inv probe_inv_host by blast
  with assms(3) have "count_list (running s) (h, Probe t) = (if probe_in_flight hs then 1 else 0)"
    by (simp add: permit_ok_def)
  then show ?thesis
    using count_list_0_iff [of "running s" "(h, Probe t)"] by (auto split: if_splits)
qed

definition probe_run :: "breaker_event list" where
  "probe_run =
     (let failed_call = [Begin ''h'', End 0 (Failed True)]
      in failed_call @ failed_call @ failed_call @ failed_call @ failed_call @
         [Tick (secs 60), Begin ''h''])"

theorem breaker_single_probe_witness:
  "let s = fold breaker_exec probe_run sys_init; hs = the (hosts s ''h'')
   in opened_at hs = Some 0 \<and> count_list (running s) (''h'', Probe 0) \<le> 1 \<and>
      (probe_in_flight hs \<longleftrightarrow> (''h'', Probe 0) \<in> set (running s)) \<and> probe_in_flight hs"
proof -
  let ?s = "fold breaker_exec probe_run sys_init"
  have run: "hosts ?s ''h'' = Some (the (hosts ?s ''h''))" "opened_at (the (hosts ?s ''h'')) = Some 0"
    "probe_in_flight (the (hosts ?s ''h''))"
    by (simp_all add: probe_run_def sys_init_def breakers_new_def try_admit_def
        entry_or_new_def host_new_def host_circuit_def settle_def record_failure_def
        host_record_failure_def duration_since_def breaker_consts)
  show ?thesis
    using breaker_single_probe [OF breaker_run_reachable run(1,2)] run(2,3) by (simp add: Let_def)
qed

text \<open>
  The circuit of a fresh host opens exactly when five failures fall into one sixty-second
  window: for failures at times \<open>ts\<close> (in time order), it has opened iff some failure and the
  fourth one after it are less than the window apart. Older failures are evicted and never count.
\<close>

theorem breaker_opens_iff_window:
  assumes "sorted ts"
  shows "opened_at (fold host_record_failure ts host_new) \<noteq> None \<longleftrightarrow>
    (\<exists>i. i + 4 < length ts \<and> ts ! (i + 4) - ts ! i < FAILURE_WINDOW)"
  using assms
proof (induction ts rule: rev_induct)
  case Nil
  then show ?case by (simp add: host_new_def)
next
  case (snoc now ts)
  let ?hs = "fold host_record_failure ts host_new"
  let ?near = "\<lambda>t. now - t < FAILURE_WINDOW"
  have IH: "opened_at ?hs \<noteq> None \<longleftrightarrow>
      (\<exists>i. i + 4 < length ts \<and> ts ! (i + 4) - ts ! i < FAILURE_WINDOW)"
    using snoc by (simp add: sorted_snoc_iff)
  have split: "(\<exists>i. i + 4 < length (ts @ [now]) \<and> (ts @ [now]) ! (i + 4) - (ts @ [now]) ! i < FAILURE_WINDOW)
      \<longleftrightarrow> opened_at ?hs \<noteq> None \<or> (4 \<le> length ts \<and> ?near (ts ! (length ts - 4)))"
    unfolding IH by (rule window_snoc)
  show ?case
  proof (cases "opened_at ?hs = None")
    case True
    have "4 \<le> length (filter ?near (failures ?hs)) \<longleftrightarrow> 4 \<le> length ts \<and> ?near (ts ! (length ts - 4))"
      using True snoc.prems by (rule window_full)
    with True split show ?thesis
      by (simp add: record_failure_opened FAILURE_THRESHOLD_def)
  next
    case False
    with split show ?thesis by (simp add: record_failure_opened)
  qed
qed

theorem breaker_opens_iff_window_witness:
  "opened_at (fold host_record_failure [0, 1, 2, 3, 4] host_new) \<noteq> None \<and>
   opened_at (fold host_record_failure [0, secs 30, secs 60, secs 90, secs 120] host_new) = None"
proof -
  have "\<exists>i. i + 4 < length [0, 1, 2, 3, 4::nat] \<and> [0, 1, 2, 3, 4] ! (i + 4) - [0, 1, 2, 3, 4] ! i < FAILURE_WINDOW"
    by (rule exI [of _ 0]) (simp add: breaker_consts)
  moreover have "\<not> (\<exists>i. i + 4 < length [0, secs 30, secs 60, secs 90, secs 120] \<and>
      [0, secs 30, secs 60, secs 90, secs 120] ! (i + 4) - [0, secs 30, secs 60, secs 90, secs 120] ! i
        < FAILURE_WINDOW)"
    by (auto simp: breaker_consts less_Suc_eq)
  ultimately show ?thesis
    using breaker_opens_iff_window [of "[0, 1, 2, 3, 4]"]
      breaker_opens_iff_window [of "[0, secs 30, secs 60, secs 90, secs 120]"]
    by (simp add: secs_def)
qed

text \<open>
  Hosts are independent: what the registry holds for a host after any sequence of admissions and
  settled calls is what the admissions and calls for that host alone would have left. One dead host
  never blocks, opens or heals another.
\<close>

theorem breaker_hosts_independent:
  "fold breaker_apply ops m host =
   fold breaker_apply (filter (\<lambda>a. breaker_op_host a = host) ops) m host"
  by (rule breaker_slices.run_projection)

text \<open>
  An error that is not a host failure neither heals the host nor spends its failure budget: an
  admitted call whose closure fails with such an error returns that error and leaves the host's
  failures, its open stamp and its probe permit as they were before the call, in the closed and in
  the half-open state. (A host seen for the first time gets its empty entry.)
\<close>

theorem neutral_error_keeps_host:
  assumes "fst (try_admit host now m) \<noteq> None" and "\<not> counts_as_host_failure e"
  shows "call_classified host now later (\<lambda>m1. (Failed e, m1)) counts_as_host_failure m =
    (Errored (Inner e), m(host \<mapsto> entry_or_new m host))"
proof -
  obtain res m1 where adm: "try_admit host now m = (res, m1)"
    by (cases "try_admit host now m")
  then show ?thesis
  proof (cases rule: try_admit_cases)
    case (probe t)
    have restore: "(entry_or_new m host)\<lparr>probe_in_flight := False\<rparr> = entry_or_new m host"
      using probe(4) by simp
    from probe adm assms(2) show ?thesis
      by (simp add: restore call_classified_def settle_def release_neutral_probe_def)
  qed (use adm assms in \<open>simp_all add: call_classified_def settle_def release_neutral_probe_def\<close>)
qed

theorem neutral_error_keeps_host_witness:
  "call_classified ''h'' (secs 60) (secs 61) (\<lambda>m1. (Failed ''no such ref'', m1)) (\<lambda>_. False)
     [''h'' \<mapsto> \<lparr>failures = [0], opened_at = Some 0, probe_in_flight = False\<rparr>] =
   (Errored (Inner ''no such ref'') :: (unit, string) call_result,
     [''h'' \<mapsto> \<lparr>failures = [0], opened_at = Some 0, probe_in_flight = False\<rparr>])"
proof -
  let ?m = "[''h'' \<mapsto> \<lparr>failures = [0], opened_at = Some 0, probe_in_flight = False\<rparr>]"
  have "fst (try_admit ''h'' (secs 60) ?m) \<noteq> None"
    by (simp add: try_admit_def entry_or_new_def host_circuit_def duration_since_def breaker_consts)
  from neutral_error_keeps_host [OF this, of "\<lambda>_. False" "''no such ref''" "secs 61"]
  show ?thesis by (simp add: entry_or_new_def)
qed

end
