(* ===== verification/Uid.thy ===== *)
theory Uid
  imports Repo_Url
begin

text \<open>
  Graph identifiers (\<^verbatim>\<open>crates/nestweaver-schema/src/uid.rs\<close>): the constructors of every UID domain,
  the parsers that invert them, the checks applied to identifiers a caller supplies, and the keys
  of API contracts.

  SHA-256 and the hexadecimal encoder are library code. They are the parameter \<open>H\<close>, a pair of the
  digest of a byte sequence and its lower-case hexadecimal text; \<open>hash_lib\<close> states what their
  documentation promises (a digest of 32 bytes, two lower-case hexadecimal digits per byte).
  Nothing is assumed about collisions.
\<close>

section \<open>Hashing\<close>

type_synonym hasher = "(u8 list \<Rightarrow> u8 list) \<times> (u8 list \<Rightarrow> string)"

definition utf8_bytes :: "string \<Rightarrow> u8 list" where
  "utf8_bytes s = concat (map (\<lambda>c. if code c < 128 then [of_nat (code c)]
     else [of_nat (192 + code c div 64), of_nat (128 + code c mod 64)]) s)"

definition is_lower_hex_char :: "char \<Rightarrow> bool" where
  "is_lower_hex_char c \<longleftrightarrow> is_ascii_digit c \<or> (97 \<le> code c \<and> code c \<le> 102)"

definition hash_lib :: "hasher \<Rightarrow> bool" where
  "hash_lib H \<longleftrightarrow> (\<forall>b. length (fst H b) = 32) \<and>
     (\<forall>b. length (snd H b) = 2 * length b \<and> list_all is_lower_hex_char (snd H b))"

definition truncated_hash :: "hasher \<Rightarrow> string \<Rightarrow> string" where
  "truncated_hash H input = snd H (take 6 (fst H (utf8_bytes input)))"

section \<open>Constructors\<close>

definition repo_uid :: "hasher \<Rightarrow> string \<Rightarrow> string \<Rightarrow> string" where
  "repo_uid H inst url = ''repo:'' @ inst @ '':'' @ truncated_hash H (normalized_repo_key url)"

definition file_uid :: "hasher \<Rightarrow> string \<Rightarrow> string \<Rightarrow> string" where
  "file_uid H repo path = ''file:'' @ repo @ '':'' @ truncated_hash H path"

definition service_uid :: "hasher \<Rightarrow> string \<Rightarrow> string \<Rightarrow> string" where
  "service_uid H repo name = ''svc:'' @ repo @ '':'' @ truncated_hash H name"

definition symbol_uid :: "hasher \<Rightarrow> string \<Rightarrow> string \<Rightarrow> string \<Rightarrow> u32 \<Rightarrow> string" where
  "symbol_uid H repo file_path name line =
     ''sym:'' @ repo @ '':'' @ truncated_hash H file_path @ '':'' @ truncated_hash H name @
     '':'' @ nat_dec (unat line)"

definition MODULE_OWNER_NAME :: string where
  "MODULE_OWNER_NAME = ''<module>''"

definition is_module_owner_uid :: "hasher \<Rightarrow> string \<Rightarrow> bool" where
  "is_module_owner_uid H uid \<longleftrightarrow>
     prefix ''sym:'' uid \<and> suffix ('':'' @ truncated_hash H MODULE_OWNER_NAME @ '':1'') uid"

definition repo_uid_of_symbol_uid :: "string \<Rightarrow> string option" where
  "repo_uid_of_symbol_uid uid =
     (case strip_prefix ''sym:'' uid of
        None \<Rightarrow> None
      | Some rest \<Rightarrow>
          (case rsplitn 4 CHR '':'' rest of
             [_, _, _, repo] \<Rightarrow> if prefix ''repo:'' repo then Some repo else None
           | _ \<Rightarrow> None))"

definition vault_uid :: "hasher \<Rightarrow> string \<Rightarrow> string \<Rightarrow> string" where
  "vault_uid H inst root_path = ''vlt:'' @ inst @ '':'' @ truncated_hash H root_path"

definition note_uid :: "hasher \<Rightarrow> string \<Rightarrow> string \<Rightarrow> string" where
  "note_uid H vault rel_path = ''note:'' @ vault @ '':'' @ truncated_hash H rel_path"

definition heading_uid :: "hasher \<Rightarrow> string \<Rightarrow> string \<Rightarrow> u32 \<Rightarrow> string" where
  "heading_uid H note slug line =
     ''head:'' @ note @ '':'' @ truncated_hash H slug @ '':'' @ nat_dec (unat line)"

definition section_uid :: "string \<Rightarrow> u32 \<Rightarrow> string \<Rightarrow> string" where
  "section_uid note start_line content_hash_short =
     ''sec:'' @ note @ '':'' @ nat_dec (unat start_line) @ '':'' @ content_hash_short"

definition tag_uid :: "hasher \<Rightarrow> string \<Rightarrow> string \<Rightarrow> string" where
  "tag_uid H vault name = ''tag:'' @ vault @ '':'' @ truncated_hash H (to_lowercase name)"

definition project_uid :: "hasher \<Rightarrow> string \<Rightarrow> string \<Rightarrow> string" where
  "project_uid H inst name = ''proj:'' @ inst @ '':'' @ truncated_hash H name"

section \<open>Domains\<close>

datatype uid_kind =
  KRepo | KFile | KService | KSymbol | KVault | KNote | KHeading | KSection | KTag | KProject | KContract

definition uid_kind_all :: "uid_kind list" where
  "uid_kind_all = [KRepo, KFile, KService, KSymbol, KVault, KNote, KHeading, KSection, KTag,
     KProject, KContract]"

fun uid_kind_rank :: "uid_kind \<Rightarrow> nat" where
  "uid_kind_rank KRepo = 0" | "uid_kind_rank KFile = 1" | "uid_kind_rank KService = 2"
| "uid_kind_rank KSymbol = 3" | "uid_kind_rank KVault = 4" | "uid_kind_rank KNote = 5"
| "uid_kind_rank KHeading = 6" | "uid_kind_rank KSection = 7" | "uid_kind_rank KTag = 8"
| "uid_kind_rank KProject = 9" | "uid_kind_rank KContract = 10"

text \<open>The derived order of the enum is the order of its variants.\<close>

instantiation uid_kind :: linorder
begin

definition less_eq_uid_kind :: "uid_kind \<Rightarrow> uid_kind \<Rightarrow> bool" where
  "less_eq_uid_kind a b \<longleftrightarrow> uid_kind_rank a \<le> uid_kind_rank b"

definition less_uid_kind :: "uid_kind \<Rightarrow> uid_kind \<Rightarrow> bool" where
  "less_uid_kind a b \<longleftrightarrow> uid_kind_rank a < uid_kind_rank b"

lemma uid_kind_rank_inject: "uid_kind_rank a = uid_kind_rank b \<longleftrightarrow> a = b"
  by (cases a; cases b) simp_all

instance
  by standard (auto simp: less_eq_uid_kind_def less_uid_kind_def uid_kind_rank_inject)

end

fun uid_prefix :: "uid_kind \<Rightarrow> string" where
  "uid_prefix KRepo = ''repo:''"
| "uid_prefix KFile = ''file:''"
| "uid_prefix KService = ''svc:''"
| "uid_prefix KSymbol = ''sym:''"
| "uid_prefix KVault = ''vlt:''"
| "uid_prefix KNote = ''note:''"
| "uid_prefix KHeading = ''head:''"
| "uid_prefix KSection = ''sec:''"
| "uid_prefix KTag = ''tag:''"
| "uid_prefix KProject = ''proj:''"
| "uid_prefix KContract = ''contract:''"

fun uid_label :: "uid_kind \<Rightarrow> string" where
  "uid_label KRepo = ''Repo''"
| "uid_label KFile = ''File''"
| "uid_label KService = ''Service''"
| "uid_label KSymbol = ''Symbol''"
| "uid_label KVault = ''Vault''"
| "uid_label KNote = ''Note''"
| "uid_label KHeading = ''Heading''"
| "uid_label KSection = ''Section''"
| "uid_label KTag = ''Tag''"
| "uid_label KProject = ''Project''"
| "uid_label KContract = ''Contract''"

definition uid_kind_of :: "string \<Rightarrow> uid_kind option" where
  "uid_kind_of uid = find (\<lambda>kind. prefix (uid_prefix kind) uid) uid_kind_all"

definition note_uid_of_heading :: "string \<Rightarrow> string option" where
  "note_uid_of_heading uid =
     (case strip_prefix ''head:'' uid of
        None \<Rightarrow> None
      | Some rest \<Rightarrow>
          (case rsplit_once CHR '':'' rest of
             None \<Rightarrow> None
           | Some (without_line, _) \<Rightarrow>
               (case rsplit_once CHR '':'' without_line of
                  None \<Rightarrow> None
                | Some (note, _) \<Rightarrow> if note = [] then None else Some note)))"

section \<open>Parsing canonical identifiers\<close>

datatype search_entity_uid_kind = SNote | STag | SSymbol

datatype canonical_entity_uid =
  CNote string string string
| CTag string string string
| CHeading string string string string string
| CSection string string string string string
| CVault string string
| CSymbol string string string string string
| CRepo string string
| CFile string string string
| CService string string string

definition valid_uid_instance :: "string \<Rightarrow> bool" where
  "valid_uid_instance inst \<longleftrightarrow> inst \<noteq> [] \<and> \<not> list_ex is_whitespace inst"

definition is_lowercase_12_hex :: "string \<Rightarrow> bool" where
  "is_lowercase_12_hex v \<longleftrightarrow> str_len v = 12 \<and> list_all is_lower_hex_char v"

definition is_canonical_u32 :: "string \<Rightarrow> bool" where
  "is_canonical_u32 v \<longleftrightarrow> list_all is_ascii_digit v \<and>
     (case parse_u32 v of Some n \<Rightarrow> v = nat_dec n | None \<Rightarrow> False)"

definition content_ok :: "string \<Rightarrow> bool" where
  "content_ok c \<longleftrightarrow> str_len c = 6 \<and> list_all is_lower_hex_char c"

text \<open>The match on the colon-separated components, grouped by their number.\<close>

fun parse_uid_parts :: "string list \<Rightarrow> canonical_entity_uid option" where
  "parse_uid_parts [d, i, x] =
     (if d = ''vlt'' \<and> valid_uid_instance i \<and> is_lowercase_12_hex x then Some (CVault i x)
      else if d = ''repo'' \<and> valid_uid_instance i \<and> is_lowercase_12_hex x then Some (CRepo i x)
      else None)"
| "parse_uid_parts [d, o', i, x, y] =
     (if d = ''note'' \<and> o' = ''vlt'' \<and> valid_uid_instance i \<and> is_lowercase_12_hex x \<and> is_lowercase_12_hex y
      then Some (CNote i x y)
      else if d = ''tag'' \<and> o' = ''vlt'' \<and> valid_uid_instance i \<and> is_lowercase_12_hex x \<and> is_lowercase_12_hex y
      then Some (CTag i x y)
      else if d = ''file'' \<and> o' = ''repo'' \<and> valid_uid_instance i \<and> is_lowercase_12_hex x \<and> is_lowercase_12_hex y
      then Some (CFile i x y)
      else if d = ''svc'' \<and> o' = ''repo'' \<and> valid_uid_instance i \<and> is_lowercase_12_hex x \<and> is_lowercase_12_hex y
      then Some (CService i x y)
      else None)"
| "parse_uid_parts [d, o', i, x, y, z, l] =
     (if d = ''sym'' \<and> o' = ''repo'' \<and> valid_uid_instance i \<and> is_lowercase_12_hex x \<and>
         is_lowercase_12_hex y \<and> is_lowercase_12_hex z \<and> is_canonical_u32 l
      then Some (CSymbol i x y z l) else None)"
| "parse_uid_parts [d, n, o', i, x, y, z, l] =
     (if d = ''head'' \<and> n = ''note'' \<and> o' = ''vlt'' \<and> valid_uid_instance i \<and> is_lowercase_12_hex x \<and>
         is_lowercase_12_hex y \<and> is_lowercase_12_hex z \<and> is_canonical_u32 l
      then Some (CHeading i x y z l)
      else if d = ''sec'' \<and> n = ''note'' \<and> o' = ''vlt'' \<and> valid_uid_instance i \<and> is_lowercase_12_hex x \<and>
         is_lowercase_12_hex y \<and> is_canonical_u32 z \<and> content_ok l
      then Some (CSection i x y z l)
      else None)"
| "parse_uid_parts _ = None"

definition parse_canonical_entity_uid :: "string \<Rightarrow> canonical_entity_uid option" where
  "parse_canonical_entity_uid uid = parse_uid_parts (split CHR '':'' uid)"

definition normalize_search_entity_uid :: "string \<Rightarrow> (search_entity_uid_kind \<times> string) option" where
  "normalize_search_entity_uid uid =
     (case parse_canonical_entity_uid uid of
        Some (CNote _ vault note) \<Rightarrow> Some (SNote, ''note:vlt:'' @ vault @ '':'' @ note)
      | Some (CTag _ vault name) \<Rightarrow> Some (STag, ''tag:vlt:'' @ vault @ '':'' @ name)
      | Some (CSymbol _ repo file name line) \<Rightarrow>
          Some (SSymbol, ''sym:repo:'' @ repo @ '':'' @ file @ '':'' @ name @ '':'' @ line)
      | _ \<Rightarrow> None)"

text \<open>Every way to cut a text at one occurrence of a character (\<^verbatim>\<open>match_indices\<close>).\<close>

fun cuts_at :: "'a \<Rightarrow> 'a list \<Rightarrow> ('a list \<times> 'a list) list" where
  "cuts_at c [] = []"
| "cuts_at c (x # xs) =
     (if x = c then [([], xs)] else []) @ map (\<lambda>(a, b). (x # a, b)) (cuts_at c xs)"

definition normalize_search_symbol_canonical_id :: "hasher \<Rightarrow> string \<Rightarrow> string \<Rightarrow> string option" where
  "normalize_search_symbol_canonical_id H symbol canonical_id =
     (case normalize_search_entity_uid symbol of
        Some (SSymbol, normalized_uid) \<Rightarrow>
          (case split CHR '':'' normalized_uid of
             [d, o', repo_hash, file_hash, name_hash, _] \<Rightarrow>
               if d = ''sym'' \<and> o' = ''repo'' then
                 (case split_once CHR '':'' canonical_id of
                    None \<Rightarrow> None
                  | Some (canonical_repo_hash, remainder) \<Rightarrow>
                 (case rsplit_once CHR '':'' remainder of
                    None \<Rightarrow> None
                  | Some (path_and_name, scope) \<Rightarrow>
                      if canonical_repo_hash \<noteq> repo_hash \<or> \<not> is_lowercase_12_hex canonical_repo_hash
                         \<or> \<not> is_lowercase_12_hex scope
                      then None
                      else if list_ex (\<lambda>(file_path, name). file_path \<noteq> [] \<and> name \<noteq> [] \<and>
                             truncated_hash H file_path = file_hash \<and> truncated_hash H name = name_hash)
                           (cuts_at CHR ''#'' path_and_name)
                      then Some (''sym-canonical:'' @ canonical_id)
                      else None))
               else None
           | _ \<Rightarrow> None)
      | _ \<Rightarrow> None)"

section \<open>Caller-supplied identifiers\<close>

definition NODE_UID_PREFIXES :: "string list" where
  "NODE_UID_PREFIXES = [''repo:'', ''file:'', ''svc:'', ''sym:'', ''vlt:'', ''note:'', ''head:'', ''sec:'',
     ''tag:'', ''proj:'', ''contract:'']"

definition MAX_NODE_UID_LEN :: nat where
  "MAX_NODE_UID_LEN = 1024"

definition is_node_uid :: "string \<Rightarrow> bool" where
  "is_node_uid v \<longleftrightarrow>
     \<not> (v = [] \<or> str_len v > MAX_NODE_UID_LEN) \<and>
     \<not> list_ex is_whitespace v \<and>
     list_ex (\<lambda>p. str_len v > str_len p \<and> prefix p v) NODE_UID_PREFIXES"

section \<open>Canonical symbols, routes and contracts\<close>

definition scope_hash :: "hasher \<Rightarrow> string \<Rightarrow> string \<Rightarrow> string" where
  "scope_hash H scope_chain name =
     (if scope_chain = [] then truncated_hash H name else truncated_hash H scope_chain)"

definition canonical_symbol_id :: "hasher \<Rightarrow> string \<Rightarrow> string \<Rightarrow> string \<Rightarrow> string \<Rightarrow> string" where
  "canonical_symbol_id H repo_url file_path name scope_chain =
     truncated_hash H (normalized_repo_key repo_url) @ '':'' @ file_path @ ''#'' @ name @ '':'' @
     scope_hash H scope_chain name"

definition PATH_PLACEHOLDER :: string where
  "PATH_PLACEHOLDER = ''{}''"

definition is_param :: "string \<Rightarrow> bool" where
  "is_param seg \<longleftrightarrow>
     (prefix ''{'' seg \<and> suffix ''}'' seg) \<or> (prefix ''${'' seg \<and> suffix ''}'' seg) \<or>
     prefix '':'' seg \<or> (prefix ''<'' seg \<and> suffix ''>'' seg)"

fun http_segments :: "string list \<Rightarrow> string \<Rightarrow> string" where
  "http_segments [] out = out"
| "http_segments (raw_seg # segs) out =
     (let seg = trim raw_seg
      in if seg = [] then http_segments segs out
         else http_segments segs (out @ (if is_param seg then PATH_PLACEHOLDER else seg) @ ''/''))"

definition normalize_http_path :: "string \<Rightarrow> string" where
  "normalize_http_path path =
     (let out = http_segments (split CHR ''/'' (trim path)) ''/''
      in if str_len out > 1 then butlast out else out)"

definition contract_shape_key :: "string \<Rightarrow> string option \<Rightarrow> string option \<Rightarrow> string option \<Rightarrow> string" where
  "contract_shape_key kind verb path operation_id =
     (if kind = ''http''
      then ''contract:http:'' @ to_ascii_uppercase (case verb of Some v \<Rightarrow> v | None \<Rightarrow> ''ANY'') @ '':'' @
           (case path of Some p \<Rightarrow> normalize_http_path p | None \<Rightarrow> ''/'')
      else ''contract:'' @ kind @ '':'' @ (case operation_id of Some op \<Rightarrow> op | None \<Rightarrow> []))"

definition contract_uid :: "string \<Rightarrow> string option \<Rightarrow> string option \<Rightarrow> string option \<Rightarrow> string" where
  "contract_uid kind verb path operation_id = contract_shape_key kind verb path operation_id"

text \<open>\<^verbatim>\<open>trim_start_matches\<close> on a string removes every leading repetition.\<close>

function trim_start_matches_str :: "'a list \<Rightarrow> 'a list \<Rightarrow> 'a list" where
  "trim_start_matches_str p s =
     (if p \<noteq> [] \<and> prefix p s then trim_start_matches_str p (drop (length p) s) else s)"
  by auto

termination
proof (relation "measure (\<lambda>(p, s). length s)")
  fix p s :: "'a list"
  assume "p \<noteq> [] \<and> prefix p s"
  then show "((p, drop (length p) s), (p, s)) \<in> measure (\<lambda>(p, s). length s)"
    by (auto simp: prefix_def)
qed simp

declare trim_start_matches_str.simps [simp del]

definition scoped_contract_uid ::
  "string \<Rightarrow> string \<Rightarrow> string option \<Rightarrow> string option \<Rightarrow> string option \<Rightarrow> string" where
  "scoped_contract_uid repo kind verb path operation_id =
     ''contract:'' @ repo @ '':'' @
     trim_start_matches_str ''contract:'' (contract_shape_key kind verb path operation_id)"

section \<open>What a hash, a line and an instance look like\<close>

lemma utf8_len_ascii: "code c < 128 \<Longrightarrow> utf8_len_char c = 1"
  by (simp add: utf8_len_char_def)

lemma lower_hex_char_facts:
  "is_lower_hex_char c \<Longrightarrow> c \<noteq> CHR '':'' \<and> code c < 128 \<and> \<not> is_whitespace c"
  by (auto simp: is_lower_hex_char_def char_defs)

lemma str_len_ascii: "list_all (\<lambda>c. code c < 128) s \<Longrightarrow> str_len s = length s"
  by (induction s) (simp_all add: str_len_def utf8_len_ascii)

lemma str_len_hex: "list_all is_lower_hex_char s \<Longrightarrow> str_len s = length s"
  using lower_hex_char_facts by (intro str_len_ascii) (auto simp: list_all_iff)

lemma truncated_hash_hex:
  assumes "hash_lib H"
  shows "is_lowercase_12_hex (truncated_hash H s)"
proof -
  have "length (take 6 (fst H (utf8_bytes s))) = 6"
    using assms by (simp add: hash_lib_def)
  then have "length (truncated_hash H s) = 12" "list_all is_lower_hex_char (truncated_hash H s)"
    using assms unfolding hash_lib_def truncated_hash_def by auto
  then show ?thesis
    unfolding is_lowercase_12_hex_def by (simp add: str_len_hex)
qed

lemma hex_no_colon: "is_lowercase_12_hex v \<Longrightarrow> CHR '':'' \<notin> set v"
  using lower_hex_char_facts by (auto simp: is_lowercase_12_hex_def list_all_iff)

lemmas truncated_hash_no_colon = hex_no_colon [OF truncated_hash_hex]

lemma content_no_colon: "content_ok v \<Longrightarrow> CHR '':'' \<notin> set v"
  using lower_hex_char_facts by (auto simp: content_ok_def list_all_iff)

lemma u32_no_colon: "is_canonical_u32 v \<Longrightarrow> CHR '':'' \<notin> set v"
  using digit_not_sep by (auto simp: is_canonical_u32_def list_all_iff)

lemma is_canonical_u32_line: "is_canonical_u32 (nat_dec (unat (l :: u32)))"
proof -
  have "unat l < 2 ^ LENGTH(32)" by (rule unsigned_less)
  then have "unat l \<le> 2 ^ 32 - 1" by simp
  then show ?thesis
    by (simp add: is_canonical_u32_def list_all_iff nat_dec_digits)
qed

section \<open>The canonical text of an identifier\<close>

fun uid_parts :: "canonical_entity_uid \<Rightarrow> string list" where
  "uid_parts (CNote i v n) = [''note'', ''vlt'', i, v, n]"
| "uid_parts (CTag i v n) = [''tag'', ''vlt'', i, v, n]"
| "uid_parts (CHeading i v n s l) = [''head'', ''note'', ''vlt'', i, v, n, s, l]"
| "uid_parts (CSection i v n l c) = [''sec'', ''note'', ''vlt'', i, v, n, l, c]"
| "uid_parts (CVault i v) = [''vlt'', i, v]"
| "uid_parts (CSymbol i r f n l) = [''sym'', ''repo'', i, r, f, n, l]"
| "uid_parts (CRepo i r) = [''repo'', i, r]"
| "uid_parts (CFile i r f) = [''file'', ''repo'', i, r, f]"
| "uid_parts (CService i r n) = [''svc'', ''repo'', i, r, n]"

definition uid_text :: "canonical_entity_uid \<Rightarrow> string" where
  "uid_text e = join '':'' (uid_parts e)"

definition good_instance :: "string \<Rightarrow> bool" where
  "good_instance i \<longleftrightarrow> valid_uid_instance i \<and> CHR '':'' \<notin> set i"

fun components_ok :: "canonical_entity_uid \<Rightarrow> bool" where
  "components_ok (CNote i v n) \<longleftrightarrow> good_instance i \<and> is_lowercase_12_hex v \<and> is_lowercase_12_hex n"
| "components_ok (CTag i v n) \<longleftrightarrow> good_instance i \<and> is_lowercase_12_hex v \<and> is_lowercase_12_hex n"
| "components_ok (CHeading i v n s l) \<longleftrightarrow> good_instance i \<and> is_lowercase_12_hex v \<and>
     is_lowercase_12_hex n \<and> is_lowercase_12_hex s \<and> is_canonical_u32 l"
| "components_ok (CSection i v n l c) \<longleftrightarrow> good_instance i \<and> is_lowercase_12_hex v \<and>
     is_lowercase_12_hex n \<and> is_canonical_u32 l \<and> content_ok c"
| "components_ok (CVault i v) \<longleftrightarrow> good_instance i \<and> is_lowercase_12_hex v"
| "components_ok (CSymbol i r f n l) \<longleftrightarrow> good_instance i \<and> is_lowercase_12_hex r \<and>
     is_lowercase_12_hex f \<and> is_lowercase_12_hex n \<and> is_canonical_u32 l"
| "components_ok (CRepo i r) \<longleftrightarrow> good_instance i \<and> is_lowercase_12_hex r"
| "components_ok (CFile i r f) \<longleftrightarrow> good_instance i \<and> is_lowercase_12_hex r \<and> is_lowercase_12_hex f"
| "components_ok (CService i r n) \<longleftrightarrow> good_instance i \<and> is_lowercase_12_hex r \<and> is_lowercase_12_hex n"

lemmas no_colon = hex_no_colon content_no_colon u32_no_colon

lemma parse_uid_parts_Some:
  "parse_uid_parts ps = Some e \<Longrightarrow> (\<forall>p\<in>set ps. CHR '':'' \<notin> set p) \<Longrightarrow> components_ok e \<and> ps = uid_parts e"
  by (elim parse_uid_parts.elims) (auto simp: good_instance_def split: if_splits)

lemma parse_uid_parts_uid_parts: "components_ok e \<Longrightarrow> parse_uid_parts (uid_parts e) = Some e"
  by (cases e) (simp_all add: good_instance_def)

lemma uid_parts_no_colon: "components_ok e \<Longrightarrow> p \<in> set (uid_parts e) \<Longrightarrow> CHR '':'' \<notin> set p"
  by (cases e) (auto simp: good_instance_def dest: no_colon)

lemma uid_parts_not_Nil [simp]: "uid_parts e \<noteq> []"
  by (cases e) simp_all

lemma split_uid_text: "components_ok e \<Longrightarrow> split CHR '':'' (uid_text e) = uid_parts e"
  unfolding uid_text_def by (intro split_join uid_parts_no_colon) simp_all

interpretation uids: canonical_codec uid_text parse_canonical_entity_uid components_ok
proof
  fix e
  assume "components_ok e"
  then show "parse_canonical_entity_uid (uid_text e) = Some e"
    by (simp add: parse_canonical_entity_uid_def split_uid_text parse_uid_parts_uid_parts)
next
  fix t e
  assume e: "parse_canonical_entity_uid t = Some e"
  have "\<forall>p\<in>set (split CHR '':'' t). CHR '':'' \<notin> set p"
    using split_by_parts [of _ "\<lambda>c. c = CHR '':''" t "CHR '':''"] by blast
  with e have "components_ok e \<and> split CHR '':'' t = uid_parts e"
    unfolding parse_canonical_entity_uid_def by (intro parse_uid_parts_Some)
  then show "components_ok e \<and> uid_text e = t"
    using join_split [of "CHR '':''" t] by (simp add: uid_text_def)
qed

lemma minted_text:
  "repo_uid H i url = uid_text (CRepo i (truncated_hash H (normalized_repo_key url)))"
  "vault_uid H i root = uid_text (CVault i (truncated_hash H root))"
  "file_uid H (uid_text (CRepo i r)) path = uid_text (CFile i r (truncated_hash H path))"
  "service_uid H (uid_text (CRepo i r)) name = uid_text (CService i r (truncated_hash H name))"
  "symbol_uid H (uid_text (CRepo i r)) path name l =
     uid_text (CSymbol i r (truncated_hash H path) (truncated_hash H name) (nat_dec (unat l)))"
  "note_uid H (uid_text (CVault i v)) rel = uid_text (CNote i v (truncated_hash H rel))"
  "tag_uid H (uid_text (CVault i v)) name = uid_text (CTag i v (truncated_hash H (to_lowercase name)))"
  "heading_uid H (uid_text (CNote i v n)) slug l =
     uid_text (CHeading i v n (truncated_hash H slug) (nat_dec (unat l)))"
  "section_uid (uid_text (CNote i v n)) l c = uid_text (CSection i v n (nat_dec (unat l)) c)"
  by (simp_all add: uid_text_def repo_uid_def vault_uid_def file_uid_def service_uid_def symbol_uid_def
      note_uid_def tag_uid_def heading_uid_def section_uid_def)

lemma repo_uid_of_symbol_uid_symbol:
  assumes "hash_lib H" and "prefix ''repo:'' r"
  shows "repo_uid_of_symbol_uid (symbol_uid H r path name l) = Some r"
proof -
  let ?p = "truncated_hash H path" and ?n = "truncated_hash H name" and ?l = "nat_dec (unat l)"
  have "rsplit_once CHR '':'' ((r @ CHR '':'' # ?p @ CHR '':'' # ?n) @ CHR '':'' # ?l) =
      Some (r @ CHR '':'' # ?p @ CHR '':'' # ?n, ?l)"
    by (intro rsplit_once_append) simp
  moreover have "rsplit_once CHR '':'' ((r @ CHR '':'' # ?p) @ CHR '':'' # ?n) = Some (r @ CHR '':'' # ?p, ?n)"
    using assms(1) by (intro rsplit_once_append truncated_hash_no_colon)
  moreover have "rsplit_once CHR '':'' (r @ CHR '':'' # ?p) = Some (r, ?p)"
    using assms(1) by (intro rsplit_once_append truncated_hash_no_colon)
  ultimately have "rsplitn 4 CHR '':'' (r @ CHR '':'' # ?p @ CHR '':'' # ?n @ CHR '':'' # ?l) = [?l, ?n, ?p, r]"
    by (simp add: numeral_eq_Suc)
  with assms(2) show ?thesis
    by (simp add: repo_uid_of_symbol_uid_def symbol_uid_def strip_prefix_def)
qed

lemma note_uid_of_heading_heading:
  assumes "hash_lib H" and "n \<noteq> []"
  shows "note_uid_of_heading (heading_uid H n slug l) = Some n"
proof -
  have "rsplit_once CHR '':'' ((n @ CHR '':'' # truncated_hash H slug) @ CHR '':'' # nat_dec (unat l)) =
      Some (n @ CHR '':'' # truncated_hash H slug, nat_dec (unat l))"
    by (intro rsplit_once_append) simp
  moreover have "rsplit_once CHR '':'' (n @ CHR '':'' # truncated_hash H slug) = Some (n, truncated_hash H slug)"
    using assms(1) by (intro rsplit_once_append truncated_hash_no_colon)
  ultimately show ?thesis
    using assms(2) by (simp add: note_uid_of_heading_def heading_uid_def strip_prefix_def)
qed

lemma nat_dec_one_iff: "nat_dec n = ''1'' \<longleftrightarrow> n = 1"
proof -
  have "nat_dec 1 = ''1''" by code_simp
  then show ?thesis by (metis nat_dec_inject)
qed

lemma append_sep_inject:
  assumes "c \<notin> set b" and "c \<notin> set b'"
  shows "a @ c # b = a' @ c # b' \<longleftrightarrow> a = a' \<and> b = b'"
proof
  assume "a @ c # b = a' @ c # b'"
  then have "rsplit_once c (a @ c # b) = rsplit_once c (a' @ c # b')" by simp
  with assms show "a = a' \<and> b = b'" by (simp add: rsplit_once_append)
qed simp

section \<open>Normalised search keys\<close>

fun search_parts :: "canonical_entity_uid \<Rightarrow> (search_entity_uid_kind \<times> string list) option" where
  "search_parts (CNote i v n) = Some (SNote, [''note'', ''vlt'', v, n])"
| "search_parts (CTag i v n) = Some (STag, [''tag'', ''vlt'', v, n])"
| "search_parts (CSymbol i r f n l) = Some (SSymbol, [''sym'', ''repo'', r, f, n, l])"
| "search_parts _ = None"

fun drop_instance :: "canonical_entity_uid \<Rightarrow> canonical_entity_uid" where
  "drop_instance (CNote i v n) = CNote [] v n"
| "drop_instance (CTag i v n) = CTag [] v n"
| "drop_instance (CHeading i v n s l) = CHeading [] v n s l"
| "drop_instance (CSection i v n l c) = CSection [] v n l c"
| "drop_instance (CVault i v) = CVault [] v"
| "drop_instance (CSymbol i r f n l) = CSymbol [] r f n l"
| "drop_instance (CRepo i r) = CRepo [] r"
| "drop_instance (CFile i r f) = CFile [] r f"
| "drop_instance (CService i r n) = CService [] r n"

lemma normalize_search_parts:
  "normalize_search_entity_uid u =
     Option.bind (parse_canonical_entity_uid u)
       (\<lambda>e. map_option (\<lambda>(k, ps). (k, join '':'' ps)) (search_parts e))"
  unfolding normalize_search_entity_uid_def
  by (auto split: option.splits canonical_entity_uid.splits)

lemma search_parts_facts:
  assumes "search_parts e = Some (k, ps)" and "components_ok e"
  shows "ps \<noteq> [] \<and> (\<forall>p\<in>set ps. CHR '':'' \<notin> set p)"
  using assms by (cases e) (auto dest: no_colon)

lemma search_parts_inject:
  assumes "search_parts d = Some x" and "search_parts e = Some y"
  shows "x = y \<longleftrightarrow> drop_instance d = drop_instance e"
  using assms by (cases d; cases e) auto

lemma normalized_symbol_parts:
  assumes "components_ok (CSymbol i r f n l)"
  shows "split CHR '':'' (join '':'' [''sym'', ''repo'', r, f, n, l]) = [''sym'', ''repo'', r, f, n, l]"
  using search_parts_facts [OF _ assms] by (intro split_join) auto

lemma cuts_at_append: "(a, b) \<in> set (cuts_at c (a @ c # b))"
  by (induction a) auto

section \<open>Normalised routes\<close>

definition route_slot :: "string \<Rightarrow> string" where
  "route_slot seg = (if is_param seg then PATH_PLACEHOLDER else seg)"

definition route_segments :: "string \<Rightarrow> string list" where
  "route_segments path = map route_slot (filter (\<lambda>s. s \<noteq> []) (map trim (split CHR ''/'' (trim path))))"

lemma http_segments_eq:
  "http_segments segs out =
     out @ concat (map (\<lambda>s. route_slot s @ ''/'') (filter (\<lambda>s. s \<noteq> []) (map trim segs)))"
  by (induction segs arbitrary: out) (auto simp: route_slot_def Let_def)

lemma butlast_slashed: "ss \<noteq> [] \<Longrightarrow> butlast (concat (map (\<lambda>s. s @ [c]) ss)) = join [c] ss"
proof (induction "[c]" ss rule: join.induct)
  case (3 x y xs)
  have "concat (map (\<lambda>s. s @ [c]) (y # xs)) \<noteq> []" by simp
  with 3 show ?case by (simp add: butlast_append)
qed simp_all

lemma normalize_http_path_segments:
  "normalize_http_path path = CHR ''/'' # join ''/'' (route_segments path)"
proof -
  let ?ss = "filter (\<lambda>s. s \<noteq> []) (map trim (split CHR ''/'' (trim path)))"
  have out: "http_segments (split CHR ''/'' (trim path)) ''/'' =
      CHR ''/'' # concat (map (\<lambda>s. s @ ''/'') (map route_slot ?ss))"
    by (simp add: http_segments_eq comp_def)
  have pos: "utf8_len_char c > 0" for c by (simp add: utf8_len_char_def)
  show ?thesis
  proof (cases "?ss = []")
    case True
    with out show ?thesis
      by (simp add: normalize_http_path_def route_segments_def str_len_def char_defs)
  next
    case False
    have ne: "concat (map (\<lambda>s. s @ ''/'') (map route_slot ?ss)) \<noteq> []"
      using False by (cases ?ss) simp_all
    have long: "str_len (c # s) > 1" if "s \<noteq> []" for c s
      using that pos [of c] pos [of "hd s"] by (cases s) (auto simp: str_len_def)
    from ne have "str_len (CHR ''/'' # concat (map (\<lambda>s. s @ ''/'') (map route_slot ?ss))) > 1"
      by (rule long)
    moreover have "butlast (CHR ''/'' # concat (map (\<lambda>s. s @ ''/'') (map route_slot ?ss))) =
        CHR ''/'' # join ''/'' (map route_slot ?ss)"
      using ne False butlast_slashed [of "map route_slot ?ss" "CHR ''/''"] by (simp del: map_map)
    ultimately show ?thesis
      unfolding normalize_http_path_def route_segments_def out Let_def by (simp only: if_True)
  qed
qed

lemma trim_idem: "trim (trim s) = trim s"
proof -
  let ?t = "trim s"
  have "?t = [] \<or> (\<not> is_whitespace (hd ?t) \<and> \<not> is_whitespace (last ?t))"
  proof (cases "?t = []")
    case False
    let ?d = "dropWhile is_whitespace s"
    have t: "?t = rev (dropWhile is_whitespace (rev ?d))"
      by (simp add: trim_def trim_by_def trim_start_by_def trim_end_by_def)
    with False have ne: "dropWhile is_whitespace (rev ?d) \<noteq> []" by simp
    then have "\<not> is_whitespace (last ?t)"
      unfolding t last_rev by (rule hd_dropWhile)
    moreover have "\<not> is_whitespace (hd ?t)"
    proof -
      obtain a where a: "rev ?d = a @ dropWhile is_whitespace (rev ?d)"
        using takeWhile_dropWhile_id [of is_whitespace "rev ?d"] by metis
      then have "?d = ?t @ rev a"
        unfolding t by (metis rev_append rev_rev_ident)
      moreover have "?d \<noteq> []" using False calculation by auto
      ultimately show ?thesis using False hd_dropWhile [of is_whitespace s] by (metis hd_append2)
    qed
    ultimately show ?thesis by simp
  qed simp
  then show ?thesis unfolding trim_def [of "trim s"] by (rule trim_by_id)
qed

lemma trim_Nil [simp]: "trim [] = []"
  by (simp add: text_defs)

lemma route_slot_facts:
  assumes "s \<noteq> []"
  shows "route_slot s \<noteq> []" "route_slot (route_slot s) = route_slot s"
proof -
  have "is_param ''{}''" by (simp add: is_param_def suffix_def)
  with assms show "route_slot s \<noteq> []" "route_slot (route_slot s) = route_slot s"
    by (simp_all add: route_slot_def PATH_PLACEHOLDER_def)
qed

lemma trim_route_slot: "trim s = s \<Longrightarrow> trim (route_slot s) = route_slot s"
proof -
  have "trim ''{}'' = ''{}''" by (simp add: text_defs)
  then show "trim s = s \<Longrightarrow> ?thesis" by (simp add: route_slot_def PATH_PLACEHOLDER_def)
qed

lemma set_trim_subset: "set (trim s) \<subseteq> set s"
proof
  fix x
  assume "x \<in> set (trim s)"
  then have "x \<in> set (rev (dropWhile is_whitespace s))"
    unfolding trim_def trim_by_def trim_start_by_def trim_end_by_def set_rev by (auto dest: set_dropWhileD)
  then show "x \<in> set s" by (auto dest: set_dropWhileD)
qed

lemma route_segments_facts:
  assumes "s \<in> set (route_segments path)"
  shows "s \<noteq> []" "trim s = s" "route_slot s = s" "CHR ''/'' \<notin> set s"
proof -
  obtain r where r: "r \<in> set (split CHR ''/'' (trim path))" "s = route_slot (trim r)" "trim r \<noteq> []"
    using assms by (auto simp: route_segments_def)
  show "s \<noteq> []" "route_slot s = s" using r(2,3) route_slot_facts by simp_all
  show "trim s = s" using r(2) trim_route_slot trim_idem by simp
  have "CHR ''/'' \<notin> set r"
    using r(1) split_by_parts [of r "\<lambda>c. c = CHR ''/''" _ "CHR ''/''"] by blast
  then show "CHR ''/'' \<notin> set s"
    using r(2) set_trim_subset [of r] by (auto simp: route_slot_def PATH_PLACEHOLDER_def)
qed

lemma map_filter_trim_id:
  assumes "\<And>s. s \<in> set ss \<Longrightarrow> s \<noteq> [] \<and> trim s = s \<and> route_slot s = s"
  shows "map route_slot (filter (\<lambda>s. s \<noteq> []) (map trim ss)) = ss"
  using assms by (induction ss) auto

lemma last_join_segments:
  "ss \<noteq> [] \<Longrightarrow> (\<And>s. s \<in> set ss \<Longrightarrow> s \<noteq> []) \<Longrightarrow> join sep ss \<noteq> [] \<and> last (join sep ss) = last (last ss)"
  by (induction sep ss rule: join.induct) (auto simp: last_append)

lemma not_whitespace_last_trimmed: "trim s = s \<Longrightarrow> s \<noteq> [] \<Longrightarrow> \<not> is_whitespace (last s)"
proof -
  assume t: "trim s = s" "s \<noteq> []"
  then have "s = rev (dropWhile is_whitespace (rev (dropWhile is_whitespace s)))"
    by (simp add: trim_def trim_by_def trim_start_by_def trim_end_by_def)
  with t(2) show ?thesis by (metis hd_dropWhile last_rev rev_is_Nil_conv)
qed

lemma normalize_http_path_join:
  assumes "\<And>s. s \<in> set ss \<Longrightarrow> s \<noteq> [] \<and> trim s = s \<and> route_slot s = s \<and> CHR ''/'' \<notin> set s"
  shows "route_segments (CHR ''/'' # join ''/'' ss) = ss"
proof (cases "ss = []")
  case True
  then show ?thesis by (simp add: route_segments_def text_defs)
next
  case False
  have "last ss \<in> set ss" using False by simp
  then have "\<not> is_whitespace (last (join ''/'' ss))"
    using False assms last_join_segments [of ss "''/''"] not_whitespace_last_trimmed by metis
  moreover have "join ''/'' ss \<noteq> []" using False assms last_join_segments by blast
  ultimately have "trim (CHR ''/'' # join ''/'' ss) = CHR ''/'' # join ''/'' ss"
    unfolding trim_def by (intro trim_by_id) (simp add: char_defs)
  moreover have "split CHR ''/'' (join ''/'' ss) = ss"
    using False assms by (intro split_join) auto
  ultimately show ?thesis
    using map_filter_trim_id [of ss] assms by (simp add: route_segments_def)
qed

section \<open>Properties\<close>

text \<open>A hash library for the concrete inputs: a constant digest and the real hexadecimal text.\<close>

definition hex_digit :: "nat \<Rightarrow> char" where
  "hex_digit d = (if d < 10 then char_of (48 + d) else char_of (87 + d))"

definition sample_hash :: hasher where
  "sample_hash = (\<lambda>b. replicate 31 0 @ [of_nat (length b)],
     \<lambda>b. concat (map (\<lambda>x. [hex_digit (unat x div 16), hex_digit (unat x mod 16)]) b))"

lemma sample_hash_lib: "hash_lib sample_hash"
proof -
  have hex: "is_lower_hex_char (hex_digit d)" if "d < 16" for d
    using that by (auto simp: hex_digit_def is_lower_hex_char_def is_ascii_digit_def)
  have "unat x div 16 < 16" "unat x mod 16 < 16" for x :: u8
  proof -
    have "unat x < 2 ^ LENGTH(8)" by (rule unsigned_less)
    then show "unat x div 16 < 16" by simp
  qed simp
  with hex have "list_all is_lower_hex_char (snd sample_hash b)" for b
    by (auto simp: sample_hash_def list_all_iff)
  moreover have "length (snd sample_hash b) = 2 * length b" for b
    by (induction b) (simp_all add: sample_hash_def)
  ultimately show ?thesis by (simp add: hash_lib_def sample_hash_def)
qed

text \<open>
  C12. The parser of entity UIDs accepts exactly the canonical texts: it returns an entity iff the
  components are well formed (an instance without colon or white space, hashes of twelve lower-case
  hexadecimal digits, a canonical \<^verbatim>\<open>u32\<close> line) and the text is the one rendering of that entity.
  So no two texts name the same entity and no text names two.
\<close>

theorem parse_uid_canonical:
  "parse_canonical_entity_uid t = Some e \<longleftrightarrow> components_ok e \<and> t = uid_text e"
  by (rule uids.dec_iff)

text \<open>
  What the constructors mint, the parsers invert: with an instance name that is non-empty and has
  no white space and no colon, every minted repository, file, service, symbol, vault, note, tag,
  heading and section UID parses back to its instance and the hashes it was minted from, and the owner
  of a symbol and of a heading is recovered from its UID.
\<close>

theorem minted_uids_parse:
  assumes "hash_lib H" and "good_instance i" and "content_ok c"
  shows
    "parse_canonical_entity_uid (file_uid H (repo_uid H i url) path) =
       Some (CFile i (truncated_hash H (normalized_repo_key url)) (truncated_hash H path)) \<and>
     parse_canonical_entity_uid (service_uid H (repo_uid H i url) name) =
       Some (CService i (truncated_hash H (normalized_repo_key url)) (truncated_hash H name)) \<and>
     parse_canonical_entity_uid (symbol_uid H (repo_uid H i url) path name l) =
       Some (CSymbol i (truncated_hash H (normalized_repo_key url)) (truncated_hash H path)
         (truncated_hash H name) (nat_dec (unat l))) \<and>
     parse_canonical_entity_uid (tag_uid H (vault_uid H i root) name) =
       Some (CTag i (truncated_hash H root) (truncated_hash H (to_lowercase name))) \<and>
     parse_canonical_entity_uid (heading_uid H (note_uid H (vault_uid H i root) path) name l) =
       Some (CHeading i (truncated_hash H root) (truncated_hash H path) (truncated_hash H name)
         (nat_dec (unat l))) \<and>
     parse_canonical_entity_uid (section_uid (note_uid H (vault_uid H i root) path) l c) =
       Some (CSection i (truncated_hash H root) (truncated_hash H path) (nat_dec (unat l)) c) \<and>
     repo_uid_of_symbol_uid (symbol_uid H (repo_uid H i url) path name l) = Some (repo_uid H i url) \<and>
     note_uid_of_heading (heading_uid H (note_uid H (vault_uid H i root) path) name l) =
       Some (note_uid H (vault_uid H i root) path)"
proof -
  have h: "is_lowercase_12_hex (truncated_hash H s)" for s
    using assms(1) by (rule truncated_hash_hex)
  have "prefix ''repo:'' (repo_uid H i url)" by (simp add: repo_uid_def)
  moreover have "note_uid H (vault_uid H i root) path \<noteq> []" by (simp add: note_uid_def)
  ultimately have "repo_uid_of_symbol_uid (symbol_uid H (repo_uid H i url) path name l) = Some (repo_uid H i url)"
      "note_uid_of_heading (heading_uid H (note_uid H (vault_uid H i root) path) name l) =
         Some (note_uid H (vault_uid H i root) path)"
    using repo_uid_of_symbol_uid_symbol note_uid_of_heading_heading assms(1) by blast+
  then show ?thesis
    using assms(2,3) h is_canonical_u32_line by (simp add: minted_text uids.dec_enc)
qed

theorem minted_uids_parse_witness:
  "parse_canonical_entity_uid (symbol_uid sample_hash (repo_uid sample_hash ''local'' ''https://h/a'') ''x.rs'' ''f'' 7) =
     Some (CSymbol ''local'' (truncated_hash sample_hash (normalized_repo_key ''https://h/a''))
       (truncated_hash sample_hash ''x.rs'') (truncated_hash sample_hash ''f'') (nat_dec 7)) \<and>
   repo_uid_of_symbol_uid (symbol_uid sample_hash (repo_uid sample_hash ''local'' ''https://h/a'') ''x.rs'' ''f'' 7) =
     Some (repo_uid sample_hash ''local'' ''https://h/a'')"
proof -
  have "good_instance ''local''" "content_ok ''00aa11''"
    by (simp_all add: good_instance_def valid_uid_instance_def content_ok_def is_lower_hex_char_def
        str_len_def char_defs)
  from minted_uids_parse [OF sample_hash_lib this, of "''https://h/a''" "''x.rs''" "''f''" 7 "[]"]
  show ?thesis by simp
qed

text \<open>
  The key under which search results are merged forgets the instance and nothing else: two
  accepted UIDs get the same key iff the entities they name agree in everything but the instance.
\<close>

theorem search_key_drops_only_instance:
  assumes "parse_canonical_entity_uid u = Some d" and "parse_canonical_entity_uid v = Some e"
    and "normalize_search_entity_uid u \<noteq> None" and "normalize_search_entity_uid v \<noteq> None"
  shows "normalize_search_entity_uid u = normalize_search_entity_uid v \<longleftrightarrow> drop_instance d = drop_instance e"
proof -
  obtain j ps k qs where ps: "search_parts d = Some (j, ps)" and qs: "search_parts e = Some (k, qs)"
    using assms by (auto simp: normalize_search_parts)
  have ok: "components_ok d" "components_ok e"
    using assms(1,2) by (simp_all add: uids.dec_iff)
  have "split CHR '':'' (join '':'' ps) = ps" "split CHR '':'' (join '':'' qs) = qs"
    using search_parts_facts [OF ps ok(1)] search_parts_facts [OF qs ok(2)] by (simp_all add: split_join)
  then have "join '':'' ps = join '':'' qs \<longleftrightarrow> ps = qs" by metis
  with assms(1,2) ps qs search_parts_inject [OF ps qs] show ?thesis
    by (simp add: normalize_search_parts)
qed

theorem search_key_drops_only_instance_witness:
  "normalize_search_entity_uid ''tag:vlt:a:0123456789ab:0123456789ab'' =
   normalize_search_entity_uid ''tag:vlt:b:0123456789ab:0123456789ab''"
proof -
  let ?h = "''0123456789ab''"
  have p: "parse_canonical_entity_uid ''tag:vlt:a:0123456789ab:0123456789ab'' = Some (CTag ''a'' ?h ?h)"
      "parse_canonical_entity_uid ''tag:vlt:b:0123456789ab:0123456789ab'' = Some (CTag ''b'' ?h ?h)"
    by code_simp+
  then have "normalize_search_entity_uid ''tag:vlt:a:0123456789ab:0123456789ab'' \<noteq> None"
      "normalize_search_entity_uid ''tag:vlt:b:0123456789ab:0123456789ab'' \<noteq> None"
    by (simp_all add: normalize_search_parts)
  from search_key_drops_only_instance [OF p this] show ?thesis by simp
qed

text \<open>
  The edit-stable identity of a symbol is accepted for that symbol: whatever URL form and scope
  the canonical identifier was minted with, if the URLs have the same key and path and name are not
  empty, it validates against the line-sensitive UID of the symbol, also when the path or the name
  contain the separators \<^verbatim>\<open>#\<close> and \<^verbatim>\<open>:\<close>.
\<close>

theorem canonical_id_validates:
  assumes "hash_lib H" and "good_instance i" and "normalized_repo_key url = normalized_repo_key url'"
    and "path \<noteq> []" and "name \<noteq> []"
  shows "normalize_search_symbol_canonical_id H (symbol_uid H (repo_uid H i url) path name l)
      (canonical_symbol_id H url' path name scope) =
    Some (''sym-canonical:'' @ canonical_symbol_id H url' path name scope)"
proof -
  let ?r = "truncated_hash H (normalized_repo_key url)"
  let ?f = "truncated_hash H path" and ?n = "truncated_hash H name" and ?l = "nat_dec (unat l)"
  let ?s = "scope_hash H scope name"
  have h: "is_lowercase_12_hex (truncated_hash H s)" for s
    using assms(1) by (rule truncated_hash_hex)
  then have s: "is_lowercase_12_hex ?s" by (simp add: scope_hash_def)
  have ok: "components_ok (CSymbol i ?r ?f ?n ?l)"
    using h assms(2) is_canonical_u32_line by simp
  have uid: "normalize_search_entity_uid (symbol_uid H (repo_uid H i url) path name l) =
      Some (SSymbol, join '':'' [''sym'', ''repo'', ?r, ?f, ?n, ?l])"
    using ok by (simp add: minted_text normalize_search_parts uids.dec_enc)
  have first: "split_once CHR '':'' (canonical_symbol_id H url' path name scope) =
      Some (?r, (path @ CHR ''#'' # name) @ CHR '':'' # ?s)"
    using split_once_append [OF hex_no_colon [OF h]] assms(3) by (simp add: canonical_symbol_id_def)
  have second: "rsplit_once CHR '':'' ((path @ CHR ''#'' # name) @ CHR '':'' # ?s) =
      Some (path @ CHR ''#'' # name, ?s)"
    using hex_no_colon [OF s] by (rule rsplit_once_append)
  have cut: "list_ex (\<lambda>(p, n). p \<noteq> [] \<and> n \<noteq> [] \<and> truncated_hash H p = ?f \<and> truncated_hash H n = ?n)
      (cuts_at CHR ''#'' (path @ CHR ''#'' # name))"
    using cuts_at_append [of path name "CHR ''#''"] assms(4,5) by (auto simp: list_ex_iff)
  show ?thesis
    unfolding normalize_search_symbol_canonical_id_def uid
    using normalized_symbol_parts [OF ok] first second cut s h by simp
qed

theorem canonical_id_validates_witness:
  "normalize_search_symbol_canonical_id sample_hash
     (symbol_uid sample_hash (repo_uid sample_hash ''local'' ''git@h:a/b.git'') ''a#b.rs'' ''f:g'' 7)
     (canonical_symbol_id sample_hash ''git@h:a/b.git'' ''a#b.rs'' ''f:g'' []) =
   Some (''sym-canonical:'' @ canonical_symbol_id sample_hash ''git@h:a/b.git'' ''a#b.rs'' ''f:g'' [])"
proof -
  have "good_instance ''local''"
    by (simp add: good_instance_def valid_uid_instance_def char_defs)
  from canonical_id_validates [OF sample_hash_lib this refl] show ?thesis by simp
qed

text \<open>
  A module-owner UID is recognised from the UID alone: the test holds of a minted symbol UID
  exactly if the hash of its name is the one of \<^verbatim>\<open><module>\<close> and its line is 1.
\<close>

theorem module_owner_uid_iff:
  assumes "hash_lib H"
  shows "is_module_owner_uid H (symbol_uid H r path name l) \<longleftrightarrow>
    truncated_hash H name = truncated_hash H MODULE_OWNER_NAME \<and> l = 1"
proof -
  let ?p = "truncated_hash H path" and ?n = "truncated_hash H name" and ?m = "truncated_hash H MODULE_OWNER_NAME"
  have nc: "CHR '':'' \<notin> set (truncated_hash H s)" for s
    using assms by (rule truncated_hash_no_colon)
  have "suffix ('':'' @ ?m @ '':1'') (symbol_uid H r path name l) \<longleftrightarrow>
      (\<exists>z. ((''sym:'' @ r @ CHR '':'' # ?p) @ CHR '':'' # ?n) @ CHR '':'' # nat_dec (unat l) =
         (z @ CHR '':'' # ?m) @ CHR '':'' # ''1'')"
    by (simp add: suffix_def symbol_uid_def)
  also have "\<dots> \<longleftrightarrow> (\<exists>z. (''sym:'' @ r @ CHR '':'' # ?p) @ CHR '':'' # ?n = z @ CHR '':'' # ?m \<and>
      nat_dec (unat l) = ''1'')"
    by (subst append_sep_inject) simp_all
  also have "\<dots> \<longleftrightarrow> ?n = ?m \<and> nat_dec (unat l) = ''1''"
    using nc by (subst append_sep_inject) simp_all
  also have "\<dots> \<longleftrightarrow> ?n = ?m \<and> l = 1"
    using nat_dec_one_iff [of "unat l"] unat_1 word_unat_eq_iff [of l 1] by auto
  finally show ?thesis
    by (simp add: is_module_owner_uid_def symbol_uid_def)
qed

theorem module_owner_uid_iff_witness:
  "is_module_owner_uid sample_hash (symbol_uid sample_hash ''repo:i:x'' ''src/a.ts'' MODULE_OWNER_NAME 1) \<and>
   \<not> is_module_owner_uid sample_hash (symbol_uid sample_hash ''repo:i:x'' ''src/a.ts'' MODULE_OWNER_NAME 2)"
  using module_owner_uid_iff [OF sample_hash_lib] by simp

text \<open>
  Route normalisation is idempotent, and its result is a single leading slash with the route's
  non-empty trimmed segments joined by single slashes, each parameter slot replaced by the
  placeholder; so a declared and an extracted route match exactly if these segments agree.
\<close>

theorem normalize_http_path_canonical:
  "normalize_http_path (normalize_http_path path) = normalize_http_path path \<and>
   (normalize_http_path path = normalize_http_path path' \<longleftrightarrow> route_segments path = route_segments path')"
proof -
  have seg: "route_segments (normalize_http_path q) = route_segments q" for q
    unfolding normalize_http_path_segments [of q]
    by (rule normalize_http_path_join) (simp add: route_segments_facts)
  then show ?thesis
    by (metis normalize_http_path_segments)
qed

end
