(* ===== verification/Ssrf.thy ===== *)
theory Ssrf
  imports Prelude
begin

unbundle bit_operations_syntax

text \<open>
  The guard against server-side request forgery for repository URLs
  (\<^verbatim>\<open>crates/nestweaver-engine/src/ssrf.rs\<close>).

  Addresses are the octets and segments of \<^verbatim>\<open>std::net\<close>; its address predicates, its address
  parser and its \<^verbatim>\<open>Display\<close> are modelled here, at machine width. The URL parser (crate \<^verbatim>\<open>url\<close>) and
  the system resolver are parameters: \<open>url_parse\<close> returns an error text or the scheme, host and
  port of the parsed URL, and \<open>resolve\<close> the addresses of a host name, or nothing on failure.
\<close>

section \<open>Addresses\<close>

datatype ipv4 = Ipv4 u8 u8 u8 u8

datatype ipv6 = Ipv6 u16 u16 u16 u16 u16 u16 u16 u16

datatype ip_addr = V4 ipv4 | V6 ipv6

fun v4_is_loopback :: "ipv4 \<Rightarrow> bool" where
  "v4_is_loopback (Ipv4 a b c d) \<longleftrightarrow> a = 127"

fun v4_is_private :: "ipv4 \<Rightarrow> bool" where
  "v4_is_private (Ipv4 a b c d) \<longleftrightarrow>
     a = 10 \<or> (a = 172 \<and> 16 \<le> b \<and> b \<le> 31) \<or> (a = 192 \<and> b = 168)"

fun v4_is_link_local :: "ipv4 \<Rightarrow> bool" where
  "v4_is_link_local (Ipv4 a b c d) \<longleftrightarrow> a = 169 \<and> b = 254"

fun v4_is_unspecified :: "ipv4 \<Rightarrow> bool" where
  "v4_is_unspecified (Ipv4 a b c d) \<longleftrightarrow> a = 0 \<and> b = 0 \<and> c = 0 \<and> d = 0"

fun v4_is_broadcast :: "ipv4 \<Rightarrow> bool" where
  "v4_is_broadcast (Ipv4 a b c d) \<longleftrightarrow> a = 255 \<and> b = 255 \<and> c = 255 \<and> d = 255"

fun v4_is_documentation :: "ipv4 \<Rightarrow> bool" where
  "v4_is_documentation (Ipv4 a b c d) \<longleftrightarrow>
     (a = 192 \<and> b = 0 \<and> c = 2) \<or> (a = 198 \<and> b = 51 \<and> c = 100) \<or> (a = 203 \<and> b = 0 \<and> c = 113)"

fun v4_is_multicast :: "ipv4 \<Rightarrow> bool" where
  "v4_is_multicast (Ipv4 a b c d) \<longleftrightarrow> 224 \<le> a \<and> a \<le> 239"

fun v4_is_internal :: "ipv4 \<Rightarrow> bool" where
  "v4_is_internal (Ipv4 a b c d) \<longleftrightarrow>
     v4_is_loopback (Ipv4 a b c d)
     \<or> v4_is_private (Ipv4 a b c d)
     \<or> v4_is_link_local (Ipv4 a b c d)
     \<or> v4_is_unspecified (Ipv4 a b c d)
     \<or> v4_is_broadcast (Ipv4 a b c d)
     \<or> v4_is_documentation (Ipv4 a b c d)
     \<or> v4_is_multicast (Ipv4 a b c d)
     \<or> a = 0
     \<or> a \<ge> 240
     \<or> (a = 100 \<and> 64 \<le> b \<and> b \<le> 127)
     \<or> (a = 192 \<and> b = 0 \<and> c = 0)
     \<or> (a = 198 \<and> b AND 0xfe = 18)
     \<or> Ipv4 a b c d = Ipv4 168 63 129 16"

definition v4_from :: "u16 \<Rightarrow> u16 \<Rightarrow> ipv4" where
  "v4_from hi lo = Ipv4 (ucast (drop_bit 8 hi)) (ucast hi) (ucast (drop_bit 8 lo)) (ucast lo)"

fun embedded_ipv4 :: "ipv6 \<Rightarrow> ipv4 option" where
  "embedded_ipv4 (Ipv6 s0 s1 s2 s3 s4 s5 s6 s7) =
     (if s0 = 0x0064 \<and> s1 = 0xff9b \<and> s2 = 0 \<and> s3 = 0 \<and> s4 = 0 \<and> s5 = 0 then Some (v4_from s6 s7)
      else if s0 = 0x2002 then Some (v4_from s1 s2)
      else if s0 = 0 \<and> s1 = 0 \<and> s2 = 0 \<and> s3 = 0 \<and> s4 = 0 \<and> s5 = 0 \<and> (s6 \<noteq> 0 \<or> s7 \<noteq> 0)
      then Some (v4_from s6 s7)
      else None)"

fun v6_is_loopback :: "ipv6 \<Rightarrow> bool" where
  "v6_is_loopback v6 \<longleftrightarrow> v6 = Ipv6 0 0 0 0 0 0 0 1"

fun v6_is_unspecified :: "ipv6 \<Rightarrow> bool" where
  "v6_is_unspecified v6 \<longleftrightarrow> v6 = Ipv6 0 0 0 0 0 0 0 0"

fun to_ipv4_mapped :: "ipv6 \<Rightarrow> ipv4 option" where
  "to_ipv4_mapped (Ipv6 s0 s1 s2 s3 s4 s5 s6 s7) =
     (if s0 = 0 \<and> s1 = 0 \<and> s2 = 0 \<and> s3 = 0 \<and> s4 = 0 \<and> s5 = 0xffff then Some (v4_from s6 s7) else None)"

fun ip_is_internal :: "ip_addr \<Rightarrow> bool" where
  "ip_is_internal (V4 v4) = v4_is_internal v4"
| "ip_is_internal (V6 (Ipv6 s0 s1 s2 s3 s4 s5 s6 s7)) =
     (let v6 = Ipv6 s0 s1 s2 s3 s4 s5 s6 s7
      in if v6_is_loopback v6 \<or> v6_is_unspecified v6 then True
         else case to_ipv4_mapped v6 of
           Some v4 \<Rightarrow> v4_is_internal v4
         | None \<Rightarrow>
             if s0 AND 0xfe00 = 0xfc00 then True
             else if s0 AND 0xffc0 = 0xfe80 then True
             else if s0 AND 0xffc0 = 0xfec0 then True
             else if s0 AND 0xff00 = 0xff00 then True
             else if s0 = 0x2001 \<and> s1 = 0x0db8 then True
             else if s0 = 0x0064 \<and> s1 = 0xff9b \<and> s2 = 1 then True
             else (case embedded_ipv4 v6 of Some v4 \<Rightarrow> v4_is_internal v4 | None \<Rightarrow> False))"

section \<open>Alternate encodings\<close>

definition parse_ipv4_part :: "string \<Rightarrow> nat option" where
  "parse_ipv4_part part =
     (if part = [] then None
      else let (radix, digits) =
        (case strip_prefix ''0x'' part of
           Some hex \<Rightarrow> (16, hex)
         | None \<Rightarrow>
        (case strip_prefix ''0X'' part of
           Some hex \<Rightarrow> (16, hex)
         | None \<Rightarrow> if str_len part > 1 \<and> prefix ''0'' part then (8, drop 1 part) else (10, part)))
      in if digits = [] then None else from_str_radix radix (2 ^ 64 - 1) digits)"

definition v4_of_u32 :: "u32 \<Rightarrow> ipv4" where
  "v4_of_u32 w = Ipv4 (ucast (drop_bit 24 w)) (ucast (drop_bit 16 w)) (ucast (drop_bit 8 w)) (ucast w)"

fun collect_options :: "'a option list \<Rightarrow> 'a list option" where
  "collect_options [] = Some []"
| "collect_options (None # xs) = None"
| "collect_options (Some x # xs) = map_option (\<lambda>r. x # r) (collect_options xs)"

fun numeric_addr :: "nat list \<Rightarrow> u32 option" where
  "numeric_addr [a] = (if a < 2 ^ 32 then Some (of_nat a) else None)"
| "numeric_addr [a, b] =
     (if a > 0xff \<or> b > 0x00ffffff then None else Some (push_bit 24 (of_nat a) OR of_nat b))"
| "numeric_addr [a, b, c] =
     (if a > 0xff \<or> b > 0xff \<or> c > 0xffff then None
      else Some (push_bit 24 (of_nat a) OR push_bit 16 (of_nat b) OR of_nat c))"
| "numeric_addr [a, b, c, d] =
     (if a > 0xff \<or> b > 0xff \<or> c > 0xff \<or> d > 0xff then None
      else Some (push_bit 24 (of_nat a) OR push_bit 16 (of_nat b) OR push_bit 8 (of_nat c) OR of_nat d))"
| "numeric_addr _ = None"

definition parse_numeric_ipv4 :: "string \<Rightarrow> ipv4 option" where
  "parse_numeric_ipv4 host =
     (let parts = split CHR ''.'' host
      in if parts = [] \<or> length parts > 4 then None
         else case collect_options (map parse_ipv4_part parts) of
           None \<Rightarrow> None
         | Some nums \<Rightarrow> map_option v4_of_u32 (numeric_addr nums))"

section \<open>The address parser and printer of the standard library\<close>

text \<open>A reader takes the remaining text and returns a value and what is left, or nothing.\<close>

fun read_digits :: "nat \<Rightarrow> nat \<Rightarrow> nat \<Rightarrow> nat \<Rightarrow> nat \<Rightarrow> string \<Rightarrow> (nat \<times> nat \<times> string) option" where
  "read_digits radix limit max_digits acc n [] = Some (acc, n, [])"
| "read_digits radix limit max_digits acc n (c # cs) =
     (case digit_val radix c of
        None \<Rightarrow> Some (acc, n, c # cs)
      | Some d \<Rightarrow>
          if acc * radix + d > limit \<or> n + 1 > max_digits then None
          else read_digits radix limit max_digits (acc * radix + d) (n + 1) cs)"

definition read_number :: "nat \<Rightarrow> nat \<Rightarrow> nat \<Rightarrow> bool \<Rightarrow> string \<Rightarrow> (nat \<times> string) option" where
  "read_number radix limit max_digits allow_zero_prefix s =
     (case read_digits radix limit max_digits 0 0 s of
        None \<Rightarrow> None
      | Some (v, n, r) \<Rightarrow>
          if n = 0 then None
          else if \<not> allow_zero_prefix \<and> prefix ''0'' s \<and> n > 1 then None
          else Some (v, r))"

definition read_separator :: "char \<Rightarrow> nat \<Rightarrow> (string \<Rightarrow> ('a \<times> string) option) \<Rightarrow> string \<Rightarrow> ('a \<times> string) option" where
  "read_separator sep i inner s =
     (if i = 0 then inner s
      else case s of c # r \<Rightarrow> if c = sep then inner r else None | [] \<Rightarrow> None)"

fun read_octets :: "nat \<Rightarrow> nat \<Rightarrow> string \<Rightarrow> (nat list \<times> string) option" where
  "read_octets i 0 s = Some ([], s)"
| "read_octets i (Suc k) s =
     (case read_separator CHR ''.'' i (read_number 10 255 3 False) s of
        None \<Rightarrow> None
      | Some (v, r) \<Rightarrow> map_option (\<lambda>(vs, r'). (v # vs, r')) (read_octets (Suc i) k r))"

definition read_ipv4_addr :: "string \<Rightarrow> (ipv4 \<times> string) option" where
  "read_ipv4_addr s =
     (case read_octets 0 4 s of
        Some ([a, b, c, d], r) \<Rightarrow> Some (Ipv4 (of_nat a) (of_nat b) (of_nat c) (of_nat d), r)
      | _ \<Rightarrow> None)"

fun v4_segments :: "ipv4 \<Rightarrow> u16 \<times> u16" where
  "v4_segments (Ipv4 a b c d) = (push_bit 8 (ucast a) OR ucast b, push_bit 8 (ucast c) OR ucast d)"

text \<open>At most \<open>k\<close> groups are left; the flag says that an embedded IPv4 address ended the groups.\<close>

fun read_groups :: "nat \<Rightarrow> nat \<Rightarrow> string \<Rightarrow> u16 list \<times> bool \<times> string" where
  "read_groups i 0 s = ([], False, s)"
| "read_groups i (Suc k) s =
     (case (if k > 0 then read_separator CHR '':'' i read_ipv4_addr s else None) of
        Some (v4, r) \<Rightarrow> (case v4_segments v4 of (hi, lo) \<Rightarrow> ([hi, lo], True, r))
      | None \<Rightarrow>
          (case read_separator CHR '':'' i (read_number 16 65535 4 True) s of
             Some (g, r) \<Rightarrow>
               (case read_groups (Suc i) k r of (gs, v4, r') \<Rightarrow> (of_nat g # gs, v4, r'))
           | None \<Rightarrow> ([], False, s)))"

definition ipv6_of_list :: "u16 list \<Rightarrow> ipv6" where
  "ipv6_of_list s = Ipv6 (s ! 0) (s ! 1) (s ! 2) (s ! 3) (s ! 4) (s ! 5) (s ! 6) (s ! 7)"

definition read_ipv6_addr :: "string \<Rightarrow> (ipv6 \<times> string) option" where
  "read_ipv6_addr s =
     (case read_groups 0 8 s of (head, head_ipv4, r) \<Rightarrow>
        if length head = 8 then Some (ipv6_of_list head, r)
        else if head_ipv4 then None
        else (case strip_prefix ''::'' r of
                None \<Rightarrow> None
              | Some r1 \<Rightarrow>
                  (case read_groups 0 (8 - (length head + 1)) r1 of (tail, _, r2) \<Rightarrow>
                     Some (ipv6_of_list (head @ replicate (8 - length head - length tail) 0 @ tail), r2))))"

definition parse_ip_addr :: "string \<Rightarrow> ip_addr option" where
  "parse_ip_addr s =
     (let res = (case read_ipv4_addr s of
          Some (v4, r) \<Rightarrow> Some (V4 v4, r)
        | None \<Rightarrow> map_option (\<lambda>(v6, r). (V6 v6, r)) (read_ipv6_addr s))
      in case res of Some (ip, r) \<Rightarrow> if r = [] then Some ip else None | None \<Rightarrow> None)"

fun show_ipv4 :: "ipv4 \<Rightarrow> string" where
  "show_ipv4 (Ipv4 a b c d) = join ''.'' (map (\<lambda>x. nat_dec (unat x)) [a, b, c, d])"

definition lower_hex_digit :: "nat \<Rightarrow> char" where
  "lower_hex_digit d = (if d < 10 then char_of (48 + d) else char_of (87 + d))"

fun nat_hex :: "nat \<Rightarrow> string" where
  "nat_hex n = (if n < 16 then [lower_hex_digit n] else nat_hex (n div 16) @ [lower_hex_digit (n mod 16)])"

declare nat_hex.simps [simp del]

text \<open>The first longest run of zero segments, as start and length.\<close>

fun zero_span :: "u16 list \<Rightarrow> nat \<Rightarrow> nat \<times> nat \<Rightarrow> nat \<times> nat \<Rightarrow> nat \<times> nat" where
  "zero_span [] i cur best = best"
| "zero_span (s # ss) i (cs, cl) (bs, bl) =
     (if s = 0
      then let start = (if cl = 0 then i else cs);
               len = cl + 1
           in zero_span ss (i + 1) (start, len) (if len > bl then (start, len) else (bs, bl))
      else zero_span ss (i + 1) (0, 0) (bs, bl))"

definition show_groups :: "u16 list \<Rightarrow> string" where
  "show_groups ss = join '':'' (map (\<lambda>s. nat_hex (unat s)) ss)"

fun ipv6_segments :: "ipv6 \<Rightarrow> u16 list" where
  "ipv6_segments (Ipv6 s0 s1 s2 s3 s4 s5 s6 s7) = [s0, s1, s2, s3, s4, s5, s6, s7]"

definition show_ipv6 :: "ipv6 \<Rightarrow> string" where
  "show_ipv6 v6 =
     (case to_ipv4_mapped v6 of
        Some v4 \<Rightarrow> ''::ffff:'' @ show_ipv4 v4
      | None \<Rightarrow>
          (let ss = ipv6_segments v6;
               (start, len) = zero_span ss 0 (0, 0) (0, 0)
           in if len > 1 then show_groups (take start ss) @ ''::'' @ show_groups (drop (start + len) ss)
              else show_groups ss))"

fun show_ip :: "ip_addr \<Rightarrow> string" where
  "show_ip (V4 v4) = show_ipv4 v4"
| "show_ip (V6 v6) = show_ipv6 v6"

section \<open>Hosts\<close>

definition parse_host_as_ip :: "string \<Rightarrow> ip_addr option" where
  "parse_host_as_ip host0 =
     (let host = (case strip_prefix ''['' host0 of
                    Some h \<Rightarrow> (case strip_suffix '']'' h of Some h' \<Rightarrow> h' | None \<Rightarrow> host0)
                  | None \<Rightarrow> host0)
      in case parse_ip_addr host of
           Some ip \<Rightarrow> Some ip
         | None \<Rightarrow> map_option V4 (parse_numeric_ipv4 host))"

definition any_resolved_ip_is_internal :: "ip_addr list \<Rightarrow> bool" where
  "any_resolved_ip_is_internal addrs = list_ex ip_is_internal addrs"

text \<open>The resolver's answer, or its failure as an error text.\<close>

definition resolve_host :: "(string \<Rightarrow> string + ip_addr list) \<Rightarrow> string \<Rightarrow> string + ip_addr list" where
  "resolve_host resolve host =
     (case resolve host of
        Inr addrs \<Rightarrow> Inr addrs
      | Inl e \<Rightarrow> Inl (''DNS resolution failed for '' @ [CHR 0x27] @ host @ [CHR 0x27] @ '': '' @ e))"

record parsed_url =
  url_scheme :: string
  host_str :: "string option"
  port_or_known_default :: "u16 option"

type_synonym url_parser = "string \<Rightarrow> string + parsed_url"

definition host_to_resolve :: "url_parser \<Rightarrow> string \<Rightarrow> string option" where
  "host_to_resolve url_parse url =
     (case url_parse url of
        Inl _ \<Rightarrow> None
      | Inr parsed \<Rightarrow>
          (case host_str parsed of
             None \<Rightarrow> None
           | Some host \<Rightarrow> if parse_host_as_ip host \<noteq> None then None else Some host))"

section \<open>Validation\<close>

definition quoted :: "string \<Rightarrow> string" where
  "quoted s = [CHR 0x27] @ s @ [CHR 0x27]"

definition str_contains :: "'a list \<Rightarrow> 'a list \<Rightarrow> bool" where
  "str_contains s p \<longleftrightarrow> split_once_str p s \<noteq> None"

definition allowed_schemes :: "string list" where
  "allowed_schemes = [''https'', ''http'', ''ssh'']"

definition ambiguous_userinfo :: "string \<Rightarrow> bool" where
  "ambiguous_userinfo url =
     (case split_once_str ''://'' url of
        None \<Rightarrow> False
      | Some (_, rest) \<Rightarrow>
          (let authority = hd (split_by (\<lambda>c. c = CHR ''/'' \<or> c = CHR ''?'' \<or> c = CHR ''#'') rest)
           in count_list authority CHR ''@'' > 1))"

definition validate_repo_url :: "url_parser \<Rightarrow> string \<Rightarrow> string + unit" where
  "validate_repo_url url_parse url =
     (if list_ex (\<lambda>c. is_whitespace c \<or> is_control c) url
      then Inl (''invalid URL '' @ quoted url @ '': contains whitespace or control characters'')
      else if CHR 0x5C \<in> set url \<or> str_contains (to_ascii_lowercase url) ''%5c''
      then Inl (''invalid URL '' @ quoted url @ '': backslashes (or %5c) are not allowed'')
      else case url_parse url of
        Inl e \<Rightarrow> Inl (''invalid URL '' @ quoted url @ '': '' @ e)
      | Inr parsed \<Rightarrow>
          if url_scheme parsed \<notin> set allowed_schemes
          then Inl (''unsupported URL scheme '' @ quoted (url_scheme parsed) @
            '': allowed schemes are '' @ join '', '' allowed_schemes)
          else case host_str parsed of
            None \<Rightarrow> Inl (''invalid URL '' @ quoted url @ '': missing host'')
          | Some host \<Rightarrow>
              if ambiguous_userinfo url
              then Inl (''invalid URL '' @ quoted url @
                '': ambiguous userinfo (multiple '' @ quoted ''@'' @ '' in authority)'')
              else if host = ''localhost'' \<or> host = ''metadata.google.internal''
              then Inl (''rejected hostname '' @ quoted host @ '': internal addresses not allowed'')
              else (case parse_host_as_ip host of
                      Some ip \<Rightarrow>
                        if ip_is_internal ip
                        then Inl (''rejected IP '' @ quoted (show_ip ip) @ '': private/loopback addresses not allowed'')
                        else Inr ()
                    | None \<Rightarrow> Inr ()))"

definition config_repo_url_allowed :: "url_parser \<Rightarrow> string \<Rightarrow> bool" where
  "config_repo_url_allowed url_parse url = (validate_repo_url url_parse url = Inr ())"

section \<open>The guard at clone and fetch time\<close>

datatype ssrf_error =
  InvalidUrl string
| UnsupportedScheme string
| Rejected string
| ResolvesInternal string
| ResolutionFailed string

fun show_ssrf_error :: "ssrf_error \<Rightarrow> string" where
  "show_ssrf_error (InvalidUrl m) = ''invalid repo URL: '' @ m"
| "show_ssrf_error (UnsupportedScheme s) =
     ''unsupported URL scheme '' @ quoted s @ '': only https/http/ssh remotes may be cloned''"
| "show_ssrf_error (Rejected m) = m"
| "show_ssrf_error (ResolutionFailed h) = ''rejected host '' @ quoted h @ '': DNS resolution failed''"
| "show_ssrf_error (ResolvesInternal h) =
     ''rejected host '' @ quoted h @ '': resolves to an internal/private address''"

record git_net_guard =
  config_args :: "string list"

definition resolve_config_arg :: "string \<Rightarrow> u16 \<Rightarrow> ip_addr \<Rightarrow> string" where
  "resolve_config_arg host port ip =
     (let ip_str = (case ip of V6 v6 \<Rightarrow> ''['' @ show_ipv6 v6 @ '']'' | V4 v4 \<Rightarrow> show_ipv4 v4)
      in ''http.curloptResolve='' @ host @ '':'' @ nat_dec (unat port) @ '':'' @ ip_str)"

definition pick_pin_ip :: "ip_addr list \<Rightarrow> ip_addr option" where
  "pick_pin_ip addrs =
     (case find (\<lambda>ip. case ip of V4 _ \<Rightarrow> True | V6 _ \<Rightarrow> False) addrs of
        Some ip \<Rightarrow> Some ip
      | None \<Rightarrow> (case addrs of [] \<Rightarrow> None | ip # _ \<Rightarrow> Some ip))"

definition guard_git_url ::
  "url_parser \<Rightarrow> (string \<Rightarrow> string + ip_addr list) \<Rightarrow> string \<Rightarrow> ssrf_error + git_net_guard" where
  "guard_git_url url_parse resolve url =
     (case url_parse url of
        Inl e \<Rightarrow> Inl (InvalidUrl (quoted url @ '': '' @ e))
      | Inr parsed \<Rightarrow>
          let scheme = url_scheme parsed
          in if scheme \<notin> {''https'', ''http'', ''ssh''} then Inl (UnsupportedScheme scheme)
             else case validate_repo_url url_parse url of
               Inl m \<Rightarrow> Inl (Rejected m)
             | Inr _ \<Rightarrow>
               (case host_str parsed of
                  None \<Rightarrow> Inl (InvalidUrl (quoted url @ '': missing host''))
                | Some host \<Rightarrow>
                  (case (case parse_host_as_ip host of
                           Some ip \<Rightarrow> Inr [ip]
                         | None \<Rightarrow> (case resolve_host resolve host of
                                     Inl _ \<Rightarrow> Inl (ResolutionFailed host)
                                   | Inr addrs \<Rightarrow> Inr addrs)) of
                     Inl e \<Rightarrow> Inl e
                   | Inr resolved \<Rightarrow>
                       if any_resolved_ip_is_internal resolved then Inl (ResolvesInternal host)
                       else if scheme = ''ssh'' then Inr \<lparr>config_args = []\<rparr>
                       else
                         (let port = (case port_or_known_default parsed of Some p \<Rightarrow> p | None \<Rightarrow> 443);
                              pin = (case pick_pin_ip resolved of
                                       Some ip \<Rightarrow> [''-c'', resolve_config_arg host port ip]
                                     | None \<Rightarrow> [])
                          in Inr \<lparr>config_args = pin @ [''-c'', ''http.followRedirects=false'']\<rparr>))))"

section \<open>Internal IPv4 blocks\<close>

text \<open>The blocks the guard must never reach, as CIDR prefixes of the 32-bit address.\<close>

fun v4_nat :: "ipv4 \<Rightarrow> nat" where
  "v4_nat (Ipv4 a b c d) = unat a * 2 ^ 24 + unat b * 2 ^ 16 + unat c * 2 ^ 8 + unat d"

definition in_cidr :: "ipv4 \<Rightarrow> ipv4 \<times> nat \<Rightarrow> bool" where
  "in_cidr ip = (\<lambda>(base, len). v4_nat ip div 2 ^ (32 - len) = v4_nat base div 2 ^ (32 - len))"

definition internal_blocks :: "(ipv4 \<times> nat) list" where
  "internal_blocks =
     [(Ipv4 0 0 0 0, 8), (Ipv4 10 0 0 0, 8), (Ipv4 100 64 0 0, 10), (Ipv4 127 0 0 0, 8),
      (Ipv4 168 63 129 16, 32), (Ipv4 169 254 0 0, 16), (Ipv4 172 16 0 0, 12), (Ipv4 192 0 0 0, 24),
      (Ipv4 192 0 2 0, 24), (Ipv4 192 168 0 0, 16), (Ipv4 198 18 0 0, 15), (Ipv4 198 51 100 0, 24),
      (Ipv4 203 0 113 0, 24), (Ipv4 224 0 0 0, 4), (Ipv4 240 0 0 0, 4)]"

lemma unat_u8_less: "unat (x :: u8) < 256"
proof -
  have "unat x < 2 ^ LENGTH(8)" by (rule unsigned_less)
  then show ?thesis by simp
qed

lemma u8_eq_iff: "(x :: u8) = y \<longleftrightarrow> unat x = unat y"
  by (simp add: word_unat_eq_iff)

lemma u8_fe_bits: "bit (0xfe :: u8) n \<longleftrightarrow> 0 < n \<and> n < 8"
proof (cases "n < 8")
  case True
  then have "n = 0 \<or> n = 1 \<or> n = 2 \<or> n = 3 \<or> n = 4 \<or> n = 5 \<or> n = 6 \<or> n = 7" by linarith
  then show ?thesis by (elim disjE) simp_all
next
  case False
  then show ?thesis using bit_imp_le_length [of "0xfe :: u8" n] by auto
qed

lemma u8_and_fe: "(b :: u8) AND 0xfe = 18 \<longleftrightarrow> unat b div 2 = 9"
proof -
  have "push_bit 1 (drop_bit 1 b) = b AND 0xfe"
    by (rule bit_word_eqI)
      (unfold bit_push_bit_iff bit_drop_bit_eq bit_and_iff u8_fe_bits comp_def, auto simp: Suc_le_eq)
  then have "(b AND 0xfe = 18) \<longleftrightarrow> push_bit 1 (drop_bit 1 b) = 18" by simp
  also have "\<dots> \<longleftrightarrow> drop_bit 1 b = 9"
  proof
    assume "push_bit 1 (drop_bit 1 b) = 18"
    then have "drop_bit 1 (push_bit 1 (drop_bit 1 b)) = 9" by simp
    moreover have "drop_bit 1 (push_bit 1 (drop_bit 1 b)) = drop_bit 1 b"
      by (rule bit_word_eqI)
        (unfold bit_push_bit_iff bit_drop_bit_eq comp_def, auto dest: bit_imp_le_length)
    ultimately show "drop_bit 1 b = 9" by simp
  qed simp
  also have "\<dots> \<longleftrightarrow> unat b div 2 = 9"
    by (simp add: u8_eq_iff drop_bit_eq_div unat_div)
  finally show ?thesis .
qed

lemma digit_pair: "y < k \<Longrightarrow> j < k \<Longrightarrow> x * k + y = i * k + j \<longleftrightarrow> x = i \<and> y = (j :: nat)"
proof
  assume y: "y < k" "j < k" and eq: "x * k + y = i * k + j"
  have "(x * k + y) div k = x" "(i * k + j) div k = i" using y by simp_all
  with eq have "x = i" by simp
  with eq show "x = i \<and> y = j" by simp
qed simp

lemma div_eq_range:
  assumes "0 < k"
  shows "x div k = q \<longleftrightarrow> k * q \<le> x \<and> x < k * Suc (q :: nat)"
proof
  assume "x div k = q"
  then show "k * q \<le> x \<and> x < k * Suc q"
    using assms dividend_less_times_div [of k x] by (auto simp: mult.commute)
qed (auto intro: div_nat_eqI)

lemma v4_nat_prefixes:
  assumes "a < 256" "b < 256" "c < 256" "d < (256 :: nat)"
  defines "n \<equiv> a * 2 ^ 24 + b * 2 ^ 16 + c * 2 ^ 8 + d"
  shows "n div 2 ^ 8 = (a * 256 + b) * 256 + c" "n div 2 ^ 16 = a * 256 + b" "n div 2 ^ 24 = a"
    "n div 2 ^ 28 = a div 16" "n div 2 ^ 22 = a * 4 + b div 64" "n div 2 ^ 20 = a * 16 + b div 16"
    "n div 2 ^ 17 = a * 128 + b div 2" "n = ((a * 256 + b) * 256 + c) * 256 + d"
proof -
  show n: "n = ((a * 256 + b) * 256 + c) * 256 + d" by (simp add: n_def)
  show n8: "n div 2 ^ 8 = (a * 256 + b) * 256 + c" unfolding n using assms(4) by simp
  have step: "n div 2 ^ (i + j) = n div 2 ^ i div 2 ^ j" for i j
    by (simp add: power_add div_mult2_eq)
  show n16: "n div 2 ^ 16 = a * 256 + b" using step [of 8 8] n8 assms(3) by simp
  show n24: "n div 2 ^ 24 = a" using step [of 16 8] n16 assms(2) by simp
  show "n div 2 ^ 28 = a div 16" using step [of 24 4] n24 by simp
  show "n div 2 ^ 22 = a * 4 + b div 64" using step [of 16 6] n16 by simp
  show "n div 2 ^ 20 = a * 16 + b div 16" using step [of 16 4] n16 by simp
  show "n div 2 ^ 17 = a * 128 + b div 2" using step [of 16 1] n16 by simp
qed

lemma in_cidr_octets:
  fixes a b c d x y z w :: u8
  defines "ip \<equiv> Ipv4 a b c d" and "base \<equiv> Ipv4 x y z w"
  shows "in_cidr ip (base, 8) \<longleftrightarrow> a = x"
    "in_cidr ip (base, 4) \<longleftrightarrow> unat a div 16 = unat x div 16"
    "in_cidr ip (base, 16) \<longleftrightarrow> a = x \<and> b = y"
    "in_cidr ip (base, 24) \<longleftrightarrow> a = x \<and> b = y \<and> c = z"
    "in_cidr ip (base, 32) \<longleftrightarrow> a = x \<and> b = y \<and> c = z \<and> d = w"
    "in_cidr ip (base, 10) \<longleftrightarrow> a = x \<and> unat b div 64 = unat y div 64"
    "in_cidr ip (base, 12) \<longleftrightarrow> a = x \<and> unat b div 16 = unat y div 16"
    "in_cidr ip (base, 15) \<longleftrightarrow> a = x \<and> unat b div 2 = unat y div 2"
proof -
  note lt = unat_u8_less
  note n = v4_nat_prefixes [OF lt lt lt lt]
  have cidr: "in_cidr ip (base, len) \<longleftrightarrow> v4_nat (Ipv4 a b c d) div 2 ^ (32 - len) = v4_nat (Ipv4 x y z w) div 2 ^ (32 - len)"
    for len by (simp add: in_cidr_def ip_def base_def)
  have pair: "unat a * 256 + unat b = unat x * 256 + unat y \<longleftrightarrow> a = x \<and> b = y"
    using digit_pair [OF lt lt] by (simp add: u8_eq_iff)
  have triple: "(unat a * 256 + unat b) * 256 + unat c = (unat x * 256 + unat y) * 256 + unat z \<longleftrightarrow>
      a = x \<and> b = y \<and> c = z"
    unfolding digit_pair [OF lt lt] pair by (auto simp: u8_eq_iff)
  have less: "unat v div 64 < 4" "unat v div 16 < 16" "unat v div 2 < 128" for v :: u8
    using lt [of v] by (simp_all add: less_mult_imp_div_less)
  show "in_cidr ip (base, 8) \<longleftrightarrow> a = x" unfolding cidr using n(3) by (simp add: u8_eq_iff)
  show "in_cidr ip (base, 4) \<longleftrightarrow> unat a div 16 = unat x div 16" unfolding cidr using n(4) by simp
  show "in_cidr ip (base, 16) \<longleftrightarrow> a = x \<and> b = y" unfolding cidr using n(2) pair by simp
  show "in_cidr ip (base, 24) \<longleftrightarrow> a = x \<and> b = y \<and> c = z" unfolding cidr using n(1) triple by simp
  have "((unat a * 256 + unat b) * 256 + unat c) * 256 + unat d =
      ((unat x * 256 + unat y) * 256 + unat z) * 256 + unat w \<longleftrightarrow> a = x \<and> b = y \<and> c = z \<and> d = w"
    unfolding digit_pair [OF lt lt] triple by (auto simp: u8_eq_iff)
  then show "in_cidr ip (base, 32) \<longleftrightarrow> a = x \<and> b = y \<and> c = z \<and> d = w"
    unfolding cidr v4_nat.simps by (simp add: mult.commute)
  show "in_cidr ip (base, 10) \<longleftrightarrow> a = x \<and> unat b div 64 = unat y div 64"
    unfolding cidr using n(5) digit_pair [OF less(1) less(1)] by (simp add: u8_eq_iff)
  show "in_cidr ip (base, 12) \<longleftrightarrow> a = x \<and> unat b div 16 = unat y div 16"
    unfolding cidr using n(6) digit_pair [OF less(2) less(2)] by (simp add: u8_eq_iff)
  show "in_cidr ip (base, 15) \<longleftrightarrow> a = x \<and> unat b div 2 = unat y div 2"
    unfolding cidr using n(7) digit_pair [OF less(3) less(3)] by (simp add: u8_eq_iff)
qed

lemma octet_ranges:
  fixes v :: u8
  shows "unat v div 64 = 1 \<longleftrightarrow> 64 \<le> v \<and> v \<le> 127" "unat v div 16 = 1 \<longleftrightarrow> 16 \<le> v \<and> v \<le> 31"
    "unat v div 16 = 14 \<longleftrightarrow> 224 \<le> v \<and> v \<le> 239" "unat v div 16 = 15 \<longleftrightarrow> 240 \<le> v"
  using unat_u8_less [of v] by (auto simp: div_eq_range word_le_nat_alt)

lemma v4_is_internal_iff_cidr: "v4_is_internal ip \<longleftrightarrow> list_ex (in_cidr ip) internal_blocks"
proof (cases ip)
  case (Ipv4 a b c d)
  have high: "a = 255 \<Longrightarrow> 240 \<le> a" by simp
  show ?thesis
    unfolding Ipv4 internal_blocks_def
    using octet_ranges(1,2) [of b] octet_ranges(3,4) [of a] u8_and_fe [of b]
    by (simp add: in_cidr_octets) (use high in argo)
qed

section \<open>Embedded and encoded addresses\<close>

lemma v4_from_segments: "v4_segments v4 = (hi, lo) \<Longrightarrow> v4_from hi lo = v4"
proof (cases v4)
  case (Ipv4 a b c d)
  have hi: "ucast (drop_bit 8 (push_bit 8 (ucast x) OR ucast y :: u16)) = x" for x y :: u8
    by (rule bit_word_eqI) (auto simp: bit_simps dest: bit_imp_le_length)
  have lo: "ucast (push_bit 8 (ucast x) OR ucast y :: u16) = y" for x y :: u8
    by (rule bit_word_eqI) (auto simp: bit_simps)
  assume "v4_segments v4 = (hi, lo)"
  with Ipv4 hi lo show ?thesis by (auto simp: v4_from_def)
qed

lemma v4_nat_less: "v4_nat ip < 2 ^ 32"
proof (cases ip)
  case (Ipv4 a b c d)
  then show ?thesis
    using unat_u8_less [of a] unat_u8_less [of b] unat_u8_less [of c] unat_u8_less [of d] by simp
qed

lemma v4_of_u32_v4_nat: "v4_of_u32 (of_nat (v4_nat ip)) = ip"
proof (cases ip)
  case (Ipv4 a b c d)
  let ?n = "v4_nat ip"
  have lt: "unat a < 256" "unat b < 256" "unat c < 256" "unat d < 256" by (rule unat_u8_less)+
  note n = v4_nat_prefixes [OF lt, folded v4_nat.simps, folded Ipv4]
  have oct: "unat (ucast (drop_bit k (of_nat ?n :: u32)) :: u8) = ?n div 2 ^ k mod 256" for k
  proof -
    have "unat (of_nat ?n :: u32) = ?n"
      using v4_nat_less [of ip] by (simp add: unsigned_of_nat take_bit_eq_mod)
    moreover have "unat (ucast (drop_bit k (of_nat ?n :: u32)) :: u8) =
        take_bit 8 (drop_bit k (take_bit 32 (unat (of_nat ?n :: u32))))"
      by (simp add: unsigned_ucast_eq unsigned_drop_bit_eq)
    moreover have "take_bit 32 ?n = ?n"
      using v4_nat_less [of ip] by (simp add: take_bit_eq_mod)
    ultimately show ?thesis by (simp add: take_bit_eq_mod drop_bit_eq_div)
  qed
  have "ucast (drop_bit 24 (of_nat ?n :: u32)) = a" unfolding u8_eq_iff oct n(3) using lt by simp
  moreover have "ucast (drop_bit 16 (of_nat ?n :: u32)) = b" unfolding u8_eq_iff oct n(2) using lt by simp
  moreover have "ucast (drop_bit 8 (of_nat ?n :: u32)) = c" unfolding u8_eq_iff oct n(1) mod_mult_self3 using lt by simp
  moreover have "unat (ucast (of_nat ?n :: u32) :: u8) = unat d"
  proof -
    have "?n mod 256 = unat d" unfolding n(8) mod_mult_self3 using lt by simp
    with oct [of 0] show ?thesis by (simp only: drop_bit_0 power_0 div_by_1 id_apply)
  qed
  ultimately show ?thesis unfolding v4_of_u32_def Ipv4 by (simp add: u8_eq_iff)
qed

lemma push_bit_or_of_nat:
  assumes "r < 2 ^ k"
  shows "push_bit k (of_nat a) OR of_nat r = (of_nat (a * 2 ^ k + r) :: u32)"
proof -
  have "push_bit k (of_nat a) AND (of_nat r :: u32) = 0"
  proof (rule bit_word_eqI)
    fix n
    have "\<not> bit r n" if "k \<le> n"
    proof -
      have "r < 2 ^ n" using assms that by (meson less_le_trans one_le_numeral power_increasing)
      then show ?thesis by (simp add: bit_iff_odd)
    qed
    then show "bit (push_bit k (of_nat a) AND (of_nat r :: u32)) n = bit (0 :: u32) n"
      by (auto simp: bit_simps)
  qed
  then have "push_bit k (of_nat a) OR (of_nat r :: u32) = push_bit k (of_nat a) + of_nat r"
    by (simp add: disjunctive_add_eq_or)
  then show ?thesis by (simp add: push_bit_eq_mult)
qed

lemma numeric_addr_values:
  "a < 256 \<Longrightarrow> r < 2 ^ 24 \<Longrightarrow> numeric_addr [a, r] = Some (of_nat (a * 2 ^ 24 + r))"
  "a < 256 \<Longrightarrow> b < 256 \<Longrightarrow> r < 2 ^ 16 \<Longrightarrow> numeric_addr [a, b, r] = Some (of_nat (a * 2 ^ 24 + (b * 2 ^ 16 + r)))"
  "a < 256 \<Longrightarrow> b < 256 \<Longrightarrow> c < 256 \<Longrightarrow> d < 256 \<Longrightarrow>
   numeric_addr [a, b, c, d] = Some (of_nat (a * 2 ^ 24 + (b * 2 ^ 16 + (c * 2 ^ 8 + d))))"
  by (simp_all add: push_bit_or_of_nat del: of_nat_add of_nat_mult)

lemma nat_dec_head_zero: "nat_dec n = CHR ''0'' # r \<Longrightarrow> n = 0"
proof (induction n arbitrary: r rule: nat_dec.induct)
  case (1 n)
  show ?case
  proof (cases "n < 10")
    case True
    with "1.prems" have "digit_char n = CHR ''0''" by (subst (asm) nat_dec.simps) simp
    then have "code (digit_char n) = 48" by (simp add: char_defs)
    with True show ?thesis by simp
  next
    case False
    with "1.prems" have "nat_dec (n div 10) @ [digit_char (n mod 10)] = CHR ''0'' # r"
      by (subst (asm) nat_dec.simps) simp
    then obtain r' where "nat_dec (n div 10) = CHR ''0'' # r'"
      by (cases "nat_dec (n div 10)") auto
    with 1 False have "n div 10 = 0" by blast
    with False show ?thesis by simp
  qed
qed

lemma parse_ipv4_part_dec:
  assumes "n < 2 ^ 64"
  shows "parse_ipv4_part (nat_dec n) = Some n"
proof (cases "n = 0")
  case True
  have "nat_dec 0 = ''0''" by code_simp
  with True show ?thesis
    by (simp add: parse_ipv4_part_def strip_prefix_def str_len_def from_str_radix_def digit_val_def char_defs)
next
  case False
  then have "\<not> prefix ''0'' (nat_dec n)"
    using nat_dec_head_zero by (auto simp: prefix_def)
  moreover from this have "strip_prefix ''0x'' (nat_dec n) = None" "strip_prefix ''0X'' (nat_dec n) = None"
    by (auto simp: strip_prefix_def prefix_def)
  moreover have "from_str_radix 10 (2 ^ 64 - 1) (nat_dec n) = Some n"
    using assms by (intro parse_nat_dec) simp
  ultimately show ?thesis by (simp add: parse_ipv4_part_def)
qed

lemma nat_dec_no_dot: "CHR ''.'' \<notin> set (nat_dec n)"
proof
  assume "CHR ''.'' \<in> set (nat_dec n)"
  then have "is_ascii_digit CHR ''.''" by (rule nat_dec_digits)
  then show False by (simp add: char_defs)
qed

lemma split_dotted: "ns \<noteq> [] \<Longrightarrow> split CHR ''.'' (join ''.'' (map nat_dec ns)) = map nat_dec ns"
  using nat_dec_no_dot by (intro split_join) auto

lemma collect_parts:
  "(\<And>n. n \<in> set ns \<Longrightarrow> n < 2 ^ 64) \<Longrightarrow>
   collect_options (map parse_ipv4_part (map nat_dec ns)) = Some ns"
  by (induction ns) (simp_all add: parse_ipv4_part_dec)

lemma parse_numeric_dotted:
  assumes "0 < length ns" "length ns \<le> 4" "\<And>n. n \<in> set ns \<Longrightarrow> n < 2 ^ 64"
  shows "parse_numeric_ipv4 (join ''.'' (map nat_dec ns)) = map_option v4_of_u32 (numeric_addr ns)"
proof -
  have "ns \<noteq> []" using assms(1) by auto
  with assms collect_parts [of ns] show ?thesis
    by (simp add: parse_numeric_ipv4_def split_dotted)
qed

section \<open>Properties\<close>

text \<open>
  The internal test is membership in a fixed list of CIDR blocks: an IPv4 address counts as
  internal exactly if its leading bits agree with one of the fifteen listed prefixes.
\<close>

theorem v4_internal_cidr: "v4_is_internal ip \<longleftrightarrow> (\<exists>blk\<in>set internal_blocks. in_cidr ip blk)"
  using v4_is_internal_iff_cidr by (simp add: list_ex_iff)

text \<open>
  No IPv6 spelling hides an internal IPv4 target: the mapped, NAT64 and 6to4 forms of an IPv4
  address are internal exactly if the address is, and so is every IPv4-compatible form of an
  internal address.
\<close>

theorem embedded_internal_blocked:
  assumes "v4_segments v4 = (hi, lo)"
  shows "(ip_is_internal (V6 (Ipv6 0 0 0 0 0 0xffff hi lo)) \<longleftrightarrow> v4_is_internal v4) \<and>
    (ip_is_internal (V6 (Ipv6 0x64 0xff9b 0 0 0 0 hi lo)) \<longleftrightarrow> v4_is_internal v4) \<and>
    (ip_is_internal (V6 (Ipv6 0x2002 hi lo s3 s4 s5 s6 s7)) \<longleftrightarrow> v4_is_internal v4) \<and>
    (v4_is_internal v4 \<longrightarrow> ip_is_internal (V6 (Ipv6 0 0 0 0 0 0 hi lo)))"
proof -
  have "v4_from hi lo = v4" using assms by (rule v4_from_segments)
  then show ?thesis by (auto simp: Let_def)
qed

theorem embedded_internal_blocked_witness:
  "ip_is_internal (V6 (Ipv6 0x2002 0x7f00 1 0 0 0 0 0)) \<and>
   \<not> ip_is_internal (V6 (Ipv6 0x64 0xff9b 0 0 0 0 0x0808 0x0808))"
proof -
  have "v4_segments (Ipv4 127 0 0 1) = (0x7f00, 1)" "v4_segments (Ipv4 8 8 8 8) = (0x0808, 0x0808)"
    by simp_all
  from this [THEN embedded_internal_blocked] show ?thesis by simp
qed

text \<open>
  Numeric host spellings denote the address they encode: the single decimal number, and two,
  three and four dotted decimal parts, parse to the address with that value; so an internal address
  cannot be smuggled past the URL parser as an opaque number.
\<close>

theorem numeric_spellings_decode:
  fixes a b c d :: u8
  defines "ip \<equiv> Ipv4 a b c d"
  shows "parse_numeric_ipv4 (nat_dec (v4_nat ip)) = Some ip \<and>
    parse_numeric_ipv4 (join ''.'' (map nat_dec [unat a, v4_nat ip mod 2 ^ 24])) = Some ip \<and>
    parse_numeric_ipv4 (join ''.'' (map nat_dec [unat a, unat b, v4_nat ip mod 2 ^ 16])) = Some ip \<and>
    parse_numeric_ipv4 (join ''.'' (map nat_dec [unat a, unat b, unat c, unat d])) = Some ip"
proof -
  let ?n = "v4_nat ip"
  have lt: "unat a < 256" "unat b < 256" "unat c < 256" "unat d < 256" by (rule unat_u8_less)+
  note n = v4_nat_prefixes [OF lt, folded v4_nat.simps, folded ip_def]
  have n24: "?n mod 2 ^ 24 = unat b * 2 ^ 16 + ?n mod 2 ^ 16"
    using mod_mult2_eq [of ?n "2 ^ 16" "2 ^ 8"] n(2) lt by (simp add: mult.commute)
  have n16: "?n mod 2 ^ 16 = unat c * 2 ^ 8 + unat d"
  proof -
    have "?n = (unat c * 2 ^ 8 + unat d) + (unat a * 256 + unat b) * 2 ^ 16" unfolding n(8) by simp
    then have "?n mod 2 ^ 16 = (unat c * 2 ^ 8 + unat d) mod 2 ^ 16" by (simp only: mod_mult_self1)
    then show ?thesis using lt by simp
  qed
  have top: "?n = unat a * 2 ^ 24 + ?n mod 2 ^ 24"
    using div_mult_mod_eq [of ?n "2 ^ 24"] unfolding n(3) by (rule sym)
  have r16: "?n mod 2 ^ 16 < 2 ^ 16" and r24: "?n mod 2 ^ 24 < 2 ^ 24" by simp_all
  have two: "numeric_addr [unat a, ?n mod 2 ^ 24] = Some (of_nat ?n)"
    using numeric_addr_values(1) [OF lt(1) r24] unfolding top [symmetric] .
  have three: "numeric_addr [unat a, unat b, ?n mod 2 ^ 16] = Some (of_nat ?n)"
    using numeric_addr_values(2) [OF lt(1,2) r16] unfolding n24 [symmetric] top [symmetric] .
  have four: "numeric_addr [unat a, unat b, unat c, unat d] = Some (of_nat ?n)"
    using numeric_addr_values(3) [OF lt] unfolding n16 [symmetric] n24 [symmetric] top [symmetric] .
  have one: "numeric_addr [?n] = Some (of_nat ?n)" using v4_nat_less [of ip] by simp
  have big: "m < 2 ^ 64" if "m \<in> set ([?n] @ [unat a, ?n mod 2 ^ 24] @ [unat a, unat b, ?n mod 2 ^ 16] @ [unat c, unat d])" for m
    using that lt v4_nat_less [of ip] r16 r24 by auto
  note dec = v4_of_u32_v4_nat [of ip]
  have "parse_numeric_ipv4 (join ''.'' (map nat_dec [?n])) = Some ip"
    by (subst parse_numeric_dotted) (use big one dec in auto)
  moreover have "parse_numeric_ipv4 (join ''.'' (map nat_dec [unat a, ?n mod 2 ^ 24])) = Some ip"
    by (subst parse_numeric_dotted) (use big two dec in auto)
  moreover have "parse_numeric_ipv4 (join ''.'' (map nat_dec [unat a, unat b, ?n mod 2 ^ 16])) = Some ip"
    by (subst parse_numeric_dotted) (use big three dec in auto)
  moreover have "parse_numeric_ipv4 (join ''.'' (map nat_dec [unat a, unat b, unat c, unat d])) = Some ip"
    by (subst parse_numeric_dotted) (use big four dec in auto)
  ultimately show ?thesis by simp
qed

text \<open>The addresses the guard accepts for a host: the literal one, or what the resolver returned.\<close>

definition guarded_addrs :: "(string \<Rightarrow> string + ip_addr list) \<Rightarrow> string \<Rightarrow> ip_addr list option" where
  "guarded_addrs resolve host =
     (case parse_host_as_ip host of
        Some ip \<Rightarrow> Some [ip]
      | None \<Rightarrow> (case resolve host of Inr addrs \<Rightarrow> Some addrs | Inl _ \<Rightarrow> None))"

lemma pick_pin_ip_mem: "pick_pin_ip addrs = Some ip \<Longrightarrow> ip \<in> set addrs"
  by (auto simp: pick_pin_ip_def find_Some_iff split: option.splits list.splits)

lemma pick_pin_ip_v4:
  assumes "pick_pin_ip addrs = Some ip" "V4 v \<in> set addrs"
  shows "\<exists>w. ip = V4 w"
proof (cases "find (\<lambda>ip. case ip of V4 _ \<Rightarrow> True | V6 _ \<Rightarrow> False) addrs")
  case None
  with assms(2) show ?thesis by (auto simp: find_None_iff)
next
  case (Some a)
  with assms(1) have "case ip of V4 _ \<Rightarrow> True | V6 _ \<Rightarrow> False"
    by (auto simp: pick_pin_ip_def find_Some_iff)
  then show ?thesis by (cases ip) auto
qed

lemma pick_pin_ip_None: "pick_pin_ip addrs = None \<longleftrightarrow> addrs = []"
  by (auto simp: pick_pin_ip_def split: option.splits list.splits)

lemma guard_accepts:
  assumes "guard_git_url url_parse resolve url = Inr g"
  obtains parsed host addrs where
    "url_parse url = Inr parsed" "url_scheme parsed \<in> {''https'', ''http'', ''ssh''}"
    "validate_repo_url url_parse url = Inr ()" "host_str parsed = Some host"
    "guarded_addrs resolve host = Some addrs" "\<not> any_resolved_ip_is_internal addrs"
    "config_args g = (if url_scheme parsed = ''ssh'' then [] else
       (case pick_pin_ip addrs of
          Some ip \<Rightarrow> [''-c'', resolve_config_arg host (case port_or_known_default parsed of Some p \<Rightarrow> p | None \<Rightarrow> 443) ip]
        | None \<Rightarrow> []) @ [''-c'', ''http.followRedirects=false''])"
  using assms
  by (auto simp: guard_git_url_def guarded_addrs_def resolve_host_def Let_def
      split: sum.splits option.splits if_splits)

text \<open>
  C2. What the guard lets through is safe to dial. If it accepts a URL then the scheme is https, http or
  ssh; the host resolved (a DNS failure is a rejection); and none of the host's addresses is
  internal. The arguments handed to git are fixed exactly: none for ssh; for https and http
  redirects are always off, also when the resolver answers with no address, and when it answers
  with some the connection is pinned to one of exactly these addresses, an IPv4 one if there is
  any, at the port of the URL (the scheme's default, and 443 when it has none).
\<close>

theorem guard_never_reaches_internal:
  assumes "guard_git_url url_parse resolve url = Inr g"
  shows "\<exists>parsed host addrs. url_parse url = Inr parsed \<and> host_str parsed = Some host \<and>
    url_scheme parsed \<in> {''https'', ''http'', ''ssh''} \<and> guarded_addrs resolve host = Some addrs \<and>
    (\<forall>ip\<in>set addrs. \<not> ip_is_internal ip) \<and>
    (url_scheme parsed = ''ssh'' \<longrightarrow> config_args g = []) \<and>
    (url_scheme parsed \<noteq> ''ssh'' \<and> addrs = [] \<longrightarrow>
      config_args g = [''-c'', ''http.followRedirects=false'']) \<and>
    (url_scheme parsed \<noteq> ''ssh'' \<and> addrs \<noteq> [] \<longrightarrow>
      (\<exists>ip\<in>set addrs. ((\<exists>v. V4 v \<in> set addrs) \<longrightarrow> (\<exists>v. ip = V4 v)) \<and>
        config_args g =
          [''-c'', resolve_config_arg host (case port_or_known_default parsed of Some p \<Rightarrow> p | None \<Rightarrow> 443) ip,
           ''-c'', ''http.followRedirects=false'']))"
  using assms
proof (rule guard_accepts)
  fix parsed :: parsed_url and host addrs
  let ?port = "case port_or_known_default parsed of Some p \<Rightarrow> p | None \<Rightarrow> 443"
  assume g: "url_parse url = Inr parsed" "url_scheme parsed \<in> {''https'', ''http'', ''ssh''}"
    "host_str parsed = Some host" "guarded_addrs resolve host = Some addrs"
    "\<not> any_resolved_ip_is_internal addrs"
    and args: "config_args g = (if url_scheme parsed = ''ssh'' then [] else
       (case pick_pin_ip addrs of
          Some ip \<Rightarrow> [''-c'', resolve_config_arg host ?port ip]
        | None \<Rightarrow> []) @ [''-c'', ''http.followRedirects=false''])"
  have pin: "\<exists>ip\<in>set addrs. ((\<exists>v. V4 v \<in> set addrs) \<longrightarrow> (\<exists>v. ip = V4 v)) \<and>
      config_args g = [''-c'', resolve_config_arg host ?port ip, ''-c'', ''http.followRedirects=false'']"
    if scheme: "url_scheme parsed \<noteq> ''ssh''" and some: "addrs \<noteq> []"
  proof -
    obtain ip where ip: "pick_pin_ip addrs = Some ip"
      using some pick_pin_ip_None by blast
    with args scheme show ?thesis
      by (intro bexI [of _ ip] conjI) (auto dest: pick_pin_ip_mem pick_pin_ip_v4)
  qed
  have none: "config_args g = [''-c'', ''http.followRedirects=false'']"
    if "url_scheme parsed \<noteq> ''ssh''" "addrs = []"
    using args that pick_pin_ip_None [of addrs] by simp
  have safe: "\<forall>ip\<in>set addrs. \<not> ip_is_internal ip"
    using g(5) by (simp add: any_resolved_ip_is_internal_def list_ex_iff)
  have ssh: "url_scheme parsed = ''ssh'' \<longrightarrow> config_args g = []" using args by simp
  show ?thesis
    by (intro exI [of _ parsed] exI [of _ host] exI [of _ addrs] conjI g(1-4) safe ssh) (use pin none in blast)+
qed

definition sample_url :: parsed_url where
  "sample_url = \<lparr>url_scheme = ''https'', host_str = Some ''h'', port_or_known_default = Some 443\<rparr>"

theorem guard_never_reaches_internal_witness:
  "\<exists>g. guard_git_url (\<lambda>_. Inr sample_url) (\<lambda>_. Inr [V4 (Ipv4 8 8 8 8)]) ''https://h/a'' = Inr g \<and>
     config_args g =
       [''-c'', resolve_config_arg ''h'' 443 (V4 (Ipv4 8 8 8 8)), ''-c'', ''http.followRedirects=false'']"
proof -
  let ?r = "\<lambda>_ :: string. Inr [V4 (Ipv4 8 8 8 8)] :: string + ip_addr list"
  let ?g = "guard_git_url (\<lambda>_. Inr sample_url) ?r ''https://h/a''"
  have host: "parse_host_as_ip ''h'' = None"
  proof -
    have "read_octets 0 4 ''h'' = None"
      using read_octets.simps(2) [of 0 3 "''h''"]
      by (simp add: read_separator_def read_number_def digit_val_def char_defs)
    then have v4: "read_ipv4_addr ''h'' = None" by (simp add: read_ipv4_addr_def)
    then have "read_groups 0 8 ''h'' = ([], False, ''h'')"
      using read_groups.simps(2) [of 0 7 "''h''"]
      by (simp add: read_separator_def read_number_def digit_val_def char_defs)
    with v4 have "parse_ip_addr ''h'' = None"
      by (simp add: parse_ip_addr_def read_ipv6_addr_def strip_prefix_def)
    moreover have "parse_numeric_ipv4 ''h'' = None"
      by (simp add: parse_numeric_ipv4_def parse_ipv4_part_def strip_prefix_def from_str_radix_def
          digit_val_def str_len_def char_defs)
    ultimately show ?thesis by (simp add: parse_host_as_ip_def strip_prefix_def)
  qed
  have "validate_repo_url (\<lambda>_. Inr sample_url) ''https://h/a'' = Inr ()"
  proof -
    have "\<not> str_contains (to_ascii_lowercase ''https://h/a'') ''%5c''" "\<not> ambiguous_userinfo ''https://h/a''"
      by code_simp+
    with host show ?thesis
      by (simp add: validate_repo_url_def sample_url_def allowed_schemes_def char_defs)
  qed
  then obtain g where g: "?g = Inr g"
    using host by (simp add: guard_git_url_def sample_url_def resolve_host_def
        any_resolved_ip_is_internal_def pick_pin_ip_def)
  from guard_never_reaches_internal [OF g] host show ?thesis
    by (intro exI [of _ g] conjI g) (auto simp: sample_url_def guarded_addrs_def)
qed

end
