(* ===== verification/Blast_Radius.thy ===== *)
theory Blast_Radius
  imports Complex_Main Prelude
begin

text \<open>
  The result of a blast-radius analysis and the pure decisions taken on it
  (\<^verbatim>\<open>crates/nestweaver-engine/src/blast_radius.rs\<close>): the risk level, the gate verdict, the affected
  clusters, the presentation limit and the parser of \<^verbatim>\<open>git diff --name-only -z\<close>.

  Scores are floating-point numbers that these functions only carry or compare with constants;
  they are rational numbers here (every finite float is one). The traversal that fills the result
  runs against the graph store and is not part of this theory.
\<close>

section \<open>Data\<close>

datatype risk_level = Low | Medium | High | Unknown

record changed_symbol =
  cs_uid :: string
  cs_name :: string
  cs_file_path :: string
  cs_kind :: string
  cs_pagerank_score :: "rat option"
  cs_repo_uid :: string

record affected_symbol =
  as_uid :: string
  as_name :: string
  as_file_path :: string
  as_kind :: string
  as_depth :: u32
  as_edge_type :: string
  as_confidence :: rat
  as_start_line :: u32
  as_impact_score :: rat
  as_repo_uid :: string
  ownership_resolved :: bool

record affected_cluster =
  ac_id :: u32
  ac_name :: string
  affected_count :: nat
  total_count :: nat
  ac_cohesion :: rat

record org_impact_item =
  change_name :: string
  change_kind :: string
  change_repo_uid :: string
  affected_name :: string
  affected_repo_uid :: string
  affected_repo :: string
  affected_file :: string
  affected_line :: int
  severity :: string
  reason :: string

record org_wide_impact =
  breaking :: "org_impact_item list"
  warnings :: "org_impact_item list"
  info :: "org_impact_item list"
  impacted_repos :: "string list"
  source_server :: string

datatype analysis_status = Complete | Partial | Degraded | Failed_status

fun status_rank :: "analysis_status \<Rightarrow> nat" where
  "status_rank Complete = 0" | "status_rank Partial = 1"
| "status_rank Degraded = 2" | "status_rank Failed_status = 3"

text \<open>The derived order of the enum.\<close>

instantiation analysis_status :: linorder
begin

definition less_eq_analysis_status :: "analysis_status \<Rightarrow> analysis_status \<Rightarrow> bool" where
  "less_eq_analysis_status a b \<longleftrightarrow> status_rank a \<le> status_rank b"

definition less_analysis_status :: "analysis_status \<Rightarrow> analysis_status \<Rightarrow> bool" where
  "less_analysis_status a b \<longleftrightarrow> status_rank a < status_rank b"

lemma status_rank_inject: "status_rank a = status_rank b \<longleftrightarrow> a = b"
  by (cases a; cases b) simp_all

instance
  by standard (auto simp: less_eq_analysis_status_def less_analysis_status_def status_rank_inject)

end

fun status_label :: "analysis_status \<Rightarrow> string" where
  "status_label Complete = ''complete''"
| "status_label Partial = ''partial''"
| "status_label Degraded = ''degraded''"
| "status_label Failed_status = ''failed''"

datatype notification_level = Note_level | Warning_level | Error_level

record notification =
  level :: notification_level
  message :: string
  descriptor :: string

datatype gate_state = GateOk | DegradedUnknown | RiskFlagged

record stale_repo =
  stale_repo_uid :: string
  commits_behind :: u32

record coverage =
  repos_in_scope :: "string list"
  repos_not_indexed :: "string list"
  stale_repos :: "stale_repo list"
  traversal_truncated :: bool

datatype blind_spot =
  DynamicDispatch | Reflection | ConfigWiring | Codegen | PrunedBelowThreshold | DepthTruncated | NotIndexed

record cochanged_file =
  cc_file :: string
  coupled_to :: string
  cochange_count :: u32
  cc_confidence :: rat
  cc_note :: string

record blast_radius_result =
  changed_symbols :: "changed_symbol list"
  affected_symbols :: "affected_symbol list"
  affected_symbol_count :: nat
  affected_clusters :: "affected_cluster list"
  top_level_callees :: "affected_symbol list"
  risk_level :: risk_level
  summary :: string
  org_wide :: "org_wide_impact option"
  status :: analysis_status
  notifications :: "notification list"
  resolver_stale_repos :: "string list"
  gate_state :: gate_state
  result_coverage :: coverage
  blind_spots :: "blind_spot list"
  cochanged_files :: "cochanged_file list"
  analysis_direction :: string

section \<open>Verdicts\<close>

definition derive_gate_state :: "analysis_status \<Rightarrow> risk_level \<Rightarrow> bool \<Rightarrow> gate_state" where
  "derive_gate_state st risk bounded_only =
     (let bounded = bounded_only \<and> st \<le> Partial
      in if st \<noteq> Complete \<and> \<not> bounded then DegradedUnknown
         else if risk = High then RiskFlagged
         else GateOk)"

definition risk_if_unassessed :: "risk_level \<Rightarrow> notification list \<Rightarrow> risk_level" where
  "risk_if_unassessed computed ns =
     (if computed \<noteq> Low then computed
      else let unassessed = list_ex (\<lambda>n. descriptor n \<in> {''changed-file-no-symbols'',
                 ''changed-file-unassessed'', ''index-empty'', ''changed-file-wrong-repo-scope''}) ns
           in if unassessed then Unknown else computed)"

fun show_risk :: "risk_level \<Rightarrow> string" where
  "show_risk Low = ''Low''"
| "show_risk Medium = ''Medium''"
| "show_risk High = ''High''"
| "show_risk Unknown = ''Unknown''"

definition render_blast_summary ::
  "nat \<Rightarrow> nat \<Rightarrow> nat \<Rightarrow> nat \<Rightarrow> risk_level \<Rightarrow> analysis_status \<Rightarrow> string" where
  "render_blast_summary n_changed n_files n_affected clusters_touched risk st =
     (let s = nat_dec n_changed @ '' changed symbol(s) in '' @ nat_dec n_files @ '' file(s), '' @
        nat_dec n_affected @ '' transitively affected symbol(s), '' @
        nat_dec clusters_touched @ '' cluster(s) touched. Risk: '' @ show_risk risk @ ''.''
      in if st \<noteq> Complete then s @ '' [status: '' @ status_label st @ '']'' else s)"

definition apply_affected_symbol_limit :: "nat option \<Rightarrow> blast_radius_result \<Rightarrow> blast_radius_result" where
  "apply_affected_symbol_limit limit r =
     (case limit of
        None \<Rightarrow> r
      | Some n \<Rightarrow>
          if length (affected_symbols r) > n
          then r\<lparr>affected_symbols := take n (affected_symbols r),
                 notifications := notifications r @
                   [\<lparr>level = Note_level,
                     message = ''affected symbols truncated to '' @ nat_dec n @ '' of '' @
                       nat_dec (affected_symbol_count r) @ '' (raise `limit` for the full set)'',
                     descriptor = ''results-truncated''\<rparr>]\<rparr>
          else r)"

definition classify_org_severity :: "rat \<Rightarrow> string" where
  "classify_org_severity score =
     (if score \<ge> 1 / 2 then ''breaking'' else if score \<ge> 1 / 4 then ''warning'' else ''info'')"

definition compute_risk_level :: "nat \<Rightarrow> nat \<Rightarrow> bool \<Rightarrow> risk_level" where
  "compute_risk_level n_affected clusters_touched high_centrality =
     (let base = (if n_affected < 10 then 0 else if n_affected < 50 then 1
                  else if n_affected < 200 then 2 else 3);
          centrality_boost = (if high_centrality then 1 else 0);
          cluster_boost = (if clusters_touched > 3 then 1 else 0);
          score = base + centrality_boost + cluster_boost :: nat
      in if score = 0 then Low else if score = 1 then Medium else High)"

record cluster_member =
  cm_uid :: string
  cm_name :: string
  cm_file_path :: string
  cm_kind :: string

record community_info =
  ci_id :: u32
  ci_name :: string
  ci_cohesion :: rat
  member_count :: nat
  members :: "cluster_member list"
  key_files :: "string list"

record clustering_output =
  resolution :: rat
  modularity :: rat
  communities :: "community_info list"

definition compute_affected_clusters :: "clustering_output \<Rightarrow> string set \<Rightarrow> affected_cluster list" where
  "compute_affected_clusters clustering uids =
     sort_key (\<lambda>c. - int (affected_count c))
       (concat (map (\<lambda>com.
          let n = length (filter (\<lambda>m. cm_uid m \<in> uids) (members com))
          in if n > 0
             then [\<lparr>ac_id = ci_id com, ac_name = ci_name com, affected_count = n,
                    total_count = member_count com, ac_cohesion = ci_cohesion com\<rparr>]
             else []) (communities clustering)))"

section \<open>Changed files from git\<close>

text \<open>Well-formed UTF-8 (\<^verbatim>\<open>str::from_utf8\<close>), byte by byte.\<close>

definition utf8_cont :: "u8 \<Rightarrow> bool" where
  "utf8_cont b \<longleftrightarrow> 0x80 \<le> b \<and> b \<le> 0xBF"

fun utf8_valid :: "u8 list \<Rightarrow> bool" where
  "utf8_valid [] = True"
| "utf8_valid (a # r) =
     (if a < 0x80 then utf8_valid r
      else if 0xC2 \<le> a \<and> a \<le> 0xDF then
        (case r of b # r1 \<Rightarrow> utf8_cont b \<and> utf8_valid r1 | _ \<Rightarrow> False)
      else if 0xE0 \<le> a \<and> a \<le> 0xEF then
        (case r of b # c # r1 \<Rightarrow>
           utf8_cont b \<and> utf8_cont c \<and> (a = 0xE0 \<longrightarrow> 0xA0 \<le> b) \<and> (a = 0xED \<longrightarrow> b \<le> 0x9F) \<and> utf8_valid r1
         | _ \<Rightarrow> False)
      else if 0xF0 \<le> a \<and> a \<le> 0xF4 then
        (case r of b # c # d # r1 \<Rightarrow>
           utf8_cont b \<and> utf8_cont c \<and> utf8_cont d \<and> (a = 0xF0 \<longrightarrow> 0x90 \<le> b) \<and> (a = 0xF4 \<longrightarrow> b \<le> 0x8F) \<and>
           utf8_valid r1
         | _ \<Rightarrow> False)
      else False)"

datatype name_only_error = NotTerminated | EmptyRecord | NotUtf8

fun collect_results :: "('e + 'a) list \<Rightarrow> 'e + 'a list" where
  "collect_results [] = Inr []"
| "collect_results (Inl e # rs) = Inl e"
| "collect_results (Inr x # rs) = (case collect_results rs of Inl e \<Rightarrow> Inl e | Inr xs \<Rightarrow> Inr (x # xs))"

definition name_only_record :: "u8 list \<Rightarrow> name_only_error + u8 list" where
  "name_only_record path =
     (if path = [] then Inl EmptyRecord else if \<not> utf8_valid path then Inl NotUtf8 else Inr path)"

definition parse_name_only_z :: "u8 list \<Rightarrow> name_only_error + u8 list list" where
  "parse_name_only_z output =
     (if output = [] then Inr []
      else if last output \<noteq> 0 then Inl NotTerminated
      else collect_results (map name_only_record (split 0 (butlast output))))"

fun risk_rank :: "risk_level \<Rightarrow> nat" where
  "risk_rank Low = 0" | "risk_rank Medium = 1" | "risk_rank High = 2" | "risk_rank Unknown = 3"

section \<open>Facts\<close>

lemma collect_results_Inr: "collect_results (map Inr xs) = Inr xs"
  by (induction xs) simp_all

lemma collect_results_Inr_iff: "collect_results rs = Inr xs \<longleftrightarrow> rs = map Inr xs"
  by (induction rs arbitrary: xs rule: collect_results.induct)
    (auto simp: collect_results_Inr split: sum.splits)

lemma name_only_record_Inr: "name_only_record p = Inr q \<longleftrightarrow> q = p \<and> p \<noteq> [] \<and> utf8_valid p"
  by (auto simp: name_only_record_def)

lemma map_name_only_record: "map name_only_record ps = map Inr qs \<longleftrightarrow>
    qs = ps \<and> (\<forall>p\<in>set ps. p \<noteq> [] \<and> utf8_valid p)"
  by (induction ps arbitrary: qs) (auto simp: name_only_record_Inr Cons_eq_map_conv)

text \<open>The NUL-terminated listing of paths that git prints.\<close>

definition name_only_z :: "u8 list list \<Rightarrow> u8 list" where
  "name_only_z paths = concat (map (\<lambda>p. p @ [0]) paths)"

lemma name_only_z_join: "ps \<noteq> [] \<Longrightarrow> name_only_z ps = join [0] ps @ [0]"
  by (induction "[0] :: u8 list" ps rule: join.induct) (simp_all add: name_only_z_def)

section \<open>Properties\<close>

text \<open>
  The gate verdict never over-claims: it is \<^verbatim>\<open>Ok\<close> or \<^verbatim>\<open>RiskFlagged\<close> only if the run is complete, or
  partial for no other reason than its configured budget; the flag for that excuse cannot launder a
  degraded or failed run; and a trusted run is flagged exactly if its risk is high.
\<close>

theorem gate_state_sound:
  "(derive_gate_state st risk bounded \<noteq> DegradedUnknown \<longleftrightarrow> st = Complete \<or> (st = Partial \<and> bounded)) \<and>
   (Degraded \<le> st \<longrightarrow> derive_gate_state st risk bounded = DegradedUnknown) \<and>
   (derive_gate_state st risk bounded = RiskFlagged \<longleftrightarrow>
      derive_gate_state st risk bounded \<noteq> DegradedUnknown \<and> risk = High)"
  by (cases st) (simp_all add: derive_gate_state_def less_eq_analysis_status_def)

theorem gate_state_sound_witness:
  "derive_gate_state Failed_status Low True = DegradedUnknown \<and> derive_gate_state Partial High True = RiskFlagged"
  using gate_state_sound [of Failed_status Low True] gate_state_sound [of Partial High True]
  by (auto simp: less_eq_analysis_status_def)

text \<open>
  The risk level is monotone: more affected symbols, more clusters or a central symbol never
  lower it, where the levels are ordered Low, Medium, High. With neither boost the bands are below
  10, below 50, and everything else.
\<close>

lemma risk_level_monotone:
  assumes "n \<le> n'" and "c \<le> c'" and "h \<longrightarrow> h'"
  shows "risk_rank (compute_risk_level n c h) \<le> risk_rank (compute_risk_level n' c' h')"
  using assms by (cases h; cases h') (auto simp: compute_risk_level_def Let_def)

text \<open>
  The parser of the NUL-terminated path listing is exact: it returns a list of paths iff the
  listing is the concatenation of these paths, each followed by one NUL, each non-empty, valid
  UTF-8 and free of NUL. Everything else is an error, never a silently shortened list.
\<close>

theorem parse_name_only_z_exact:
  "parse_name_only_z output = Inr paths \<longleftrightarrow>
     output = name_only_z paths \<and> (\<forall>p\<in>set paths. p \<noteq> [] \<and> utf8_valid p \<and> 0 \<notin> set p)"
proof (cases "output = []")
  case True
  then show ?thesis
    by (cases paths) (auto simp: parse_name_only_z_def name_only_z_def)
next
  case False
  show ?thesis
  proof (cases "last output = 0")
    case True
    with False have out: "output = butlast output @ [0]"
      by (metis append_butlast_last_id)
    have "parse_name_only_z output = Inr paths \<longleftrightarrow>
        paths = split 0 (butlast output) \<and> (\<forall>p\<in>set paths. p \<noteq> [] \<and> utf8_valid p)"
      using True False by (auto simp: parse_name_only_z_def collect_results_Inr_iff map_name_only_record)
    also have "\<dots> \<longleftrightarrow> paths \<noteq> [] \<and> (\<forall>p\<in>set paths. 0 \<notin> set p) \<and> butlast output = join [0] paths \<and>
        (\<forall>p\<in>set paths. p \<noteq> [] \<and> utf8_valid p)"
      using split_eq_iff [of 0 "butlast output" paths] by (auto simp: eq_commute)
    also have "\<dots> \<longleftrightarrow> output = name_only_z paths \<and> (\<forall>p\<in>set paths. p \<noteq> [] \<and> utf8_valid p \<and> 0 \<notin> set p)"
    proof (cases "paths = []")
      case True
      with False show ?thesis by (simp add: name_only_z_def)
    next
      case ne: False
      with out have "butlast output = join [0] paths \<longleftrightarrow> output = name_only_z paths"
        by (metis butlast_snoc name_only_z_join)
      with ne show ?thesis by auto
    qed
    finally show ?thesis .
  next
    case notz: False
    have "output \<noteq> name_only_z paths"
    proof (cases "paths = []")
      case True
      with False show ?thesis by (simp add: name_only_z_def)
    next
      case ne: False
      from notz show ?thesis unfolding name_only_z_join [OF ne] by auto
    qed
    with False notz show ?thesis by (simp add: parse_name_only_z_def)
  qed
qed

theorem parse_name_only_z_exact_witness:
  "parse_name_only_z [0x61, 0, 0x62, 0] = Inr [[0x61], [0x62]]"
  by (subst parse_name_only_z_exact) (simp add: name_only_z_def)

text \<open>
  Truncation for presentation keeps the truth visible: the limit keeps a prefix of the affected
  symbols of exactly the limit's length when it cuts, leaves the total count, the risk and the gate
  untouched, and discloses the cut with a notification; without a cut the result is unchanged.
\<close>

lemma affected_limit_discloses:
  "let r' = apply_affected_symbol_limit (Some n) r in
     affected_symbols r' = take n (affected_symbols r) \<and>
     affected_symbol_count r' = affected_symbol_count r \<and> risk_level r' = risk_level r \<and>
     gate_state r' = gate_state r \<and>
     (if length (affected_symbols r) \<le> n then r' = r
      else map descriptor (notifications r') = map descriptor (notifications r) @ [''results-truncated''])"
  by (simp add: apply_affected_symbol_limit_def Let_def)

end
