(* ===== verification/Authz.thy ===== *)
theory Authz
  imports Blast_Radius
begin

text \<open>
  Per-repository authorization (\<^verbatim>\<open>crates/nestweaver-engine/src/authz.rs\<close>): who may see which
  repositories, and the redaction of a blast-radius result to that set.

  The glob matcher (crate \<^verbatim>\<open>globset\<close>) is the parameter \<open>glob\<close>: for a pattern it gives the compiled
  predicate, or nothing if the pattern does not compile. A permission source is the locale
  \<open>permission_source\<close>, the trait with the contract its documentation states; the static source is
  its interpretation.
\<close>

section \<open>Repositories and identities\<close>

record repo =
  r_uid :: string
  r_url :: string
  indexed_sha :: string
  staleness_commits_behind :: u32
  instance_id :: string
  r_name :: "string option"
  root_path :: "string option"

datatype identity = Admin | Token string | Anonymous

datatype visible_repos = All_repos | Only "string set"

fun allows :: "visible_repos \<Rightarrow> string \<Rightarrow> bool" where
  "allows All_repos uid = True"
| "allows (Only s) uid \<longleftrightarrow> uid = [] \<or> uid \<in> s"

fun repo_is_visible :: "string \<Rightarrow> visible_repos option \<Rightarrow> bool" where
  "repo_is_visible uid (Some (Only s)) \<longleftrightarrow> uid \<noteq> [] \<and> allows (Only s) uid"
| "repo_is_visible uid _ = True"

section \<open>The static permission source\<close>

definition pattern_matches :: "(string \<Rightarrow> (string \<Rightarrow> bool) option) \<Rightarrow> string \<Rightarrow> string \<Rightarrow> bool" where
  "pattern_matches glob pattern candidate =
     (case glob pattern of Some matcher \<Rightarrow> matcher candidate | None \<Rightarrow> False)"

definition repo_matches_any :: "(string \<Rightarrow> (string \<Rightarrow> bool) option) \<Rightarrow> repo \<Rightarrow> string list \<Rightarrow> bool" where
  "repo_matches_any glob r patterns =
     list_ex (\<lambda>p. pattern_matches glob p (r_url r) \<or> pattern_matches glob p (r_uid r)) patterns"

text \<open>The rules are a hash map from tokens to patterns: an association list with distinct keys.\<close>

record static_source =
  rules :: "(string \<times> string list) list"

definition static_new :: "(string \<times> string list) list \<Rightarrow> static_source" where
  "static_new rs = \<lparr>rules = rs\<rparr>"

definition static_resolve :: "(string \<Rightarrow> (string \<Rightarrow> bool) option) \<Rightarrow> string list \<Rightarrow> repo list \<Rightarrow> visible_repos" where
  "static_resolve glob patterns repos =
     Only (set (map r_uid (filter (\<lambda>r. repo_matches_any glob r patterns) repos)))"

definition static_is_enabled :: "static_source \<Rightarrow> bool" where
  "static_is_enabled src \<longleftrightarrow> rules src \<noteq> []"

definition static_visible_repos ::
  "(string \<Rightarrow> (string \<Rightarrow> bool) option) \<Rightarrow> static_source \<Rightarrow> identity \<Rightarrow> repo list \<Rightarrow> visible_repos" where
  "static_visible_repos glob src who repos =
     (if \<not> static_is_enabled src then All_repos
      else case who of
        Admin \<Rightarrow> All_repos
      | Token t \<Rightarrow>
          (case map_of (rules src) t of
             Some patterns \<Rightarrow> static_resolve glob patterns repos
           | None \<Rightarrow> Only {})
      | Anonymous \<Rightarrow> Only {})"

section \<open>Redaction\<close>

definition item_visible :: "visible_repos \<Rightarrow> org_impact_item \<Rightarrow> bool" where
  "item_visible v it \<longleftrightarrow>
     change_repo_uid it \<noteq> [] \<and> affected_repo_uid it \<noteq> [] \<and>
     allows v (change_repo_uid it) \<and> allows v (affected_repo_uid it)"

text \<open>The loop that collects the labels of the surviving items, each once, in order.\<close>

fun collect_labels :: "org_impact_item list \<Rightarrow> string set \<Rightarrow> string list \<Rightarrow> string list" where
  "collect_labels [] seen impacted = impacted"
| "collect_labels (it # its) seen impacted =
     (if affected_repo it \<in> seen then collect_labels its seen impacted
      else collect_labels its (insert (affected_repo it) seen) (impacted @ [affected_repo it]))"

definition redact_org :: "visible_repos \<Rightarrow> org_wide_impact \<Rightarrow> org_wide_impact option" where
  "redact_org v org =
     (let b = filter (item_visible v) (breaking org);
          w = filter (item_visible v) (warnings org);
          i = filter (item_visible v) (info org);
          impacted = collect_labels (b @ w @ i) {} []
      in if b = [] \<and> w = [] \<and> i = [] \<and> impacted = [] then None
         else Some (org\<lparr>breaking := b, warnings := w, info := i, impacted_repos := impacted\<rparr>))"

definition redact_coverage :: "visible_repos \<Rightarrow> coverage \<Rightarrow> coverage" where
  "redact_coverage v c =
     c\<lparr>repos_in_scope := filter (allows v) (repos_in_scope c),
       repos_not_indexed := filter (allows v) (repos_not_indexed c),
       stale_repos := filter (\<lambda>sr. allows v (stale_repo_uid sr)) (stale_repos c)\<rparr>"

definition withheld :: string where
  "withheld = ''blast-radius analysis details withheld by repository visibility policy''"

definition redact_blast_radius_for_visibility ::
  "blast_radius_result \<Rightarrow> visible_repos \<Rightarrow> blast_radius_result" where
  "redact_blast_radius_for_visibility r v =
     (case v of
        All_repos \<Rightarrow> r
      | Only _ \<Rightarrow>
          (let affected = filter (\<lambda>s. ownership_resolved s \<and> allows v (as_repo_uid s)) (affected_symbols r);
               changed = filter (\<lambda>s. allows v (cs_repo_uid s)) (changed_symbols r);
               callees = filter (\<lambda>s. ownership_resolved s \<and> allows v (as_repo_uid s)) (top_level_callees r);
               changed_files = card (set (map cs_file_path changed))
           in r\<lparr>affected_symbols := affected,
                changed_symbols := changed,
                affected_symbol_count := length affected,
                top_level_callees := callees,
                org_wide := Option.bind (org_wide r) (redact_org v),
                result_coverage := redact_coverage v (result_coverage r),
                resolver_stale_repos := filter (allows v) (resolver_stale_repos r),
                affected_clusters := [],
                cochanged_files := [],
                notifications := map (\<lambda>n. n\<lparr>message := withheld\<rparr>) (notifications r),
                summary := render_blast_summary (length changed) changed_files (length affected) 0
                  (risk_level r) (status r)\<rparr>))"

section \<open>The repository listing\<close>

datatype authz_repo_listing = Resolve "repo list" | FailLoud string

text \<open>The second argument is the lazy retry; the flag of the result says whether it was called.\<close>

definition classify_repo_listing ::
  "'e + repo list \<Rightarrow> (unit \<Rightarrow> 'e + repo list) \<Rightarrow> authz_repo_listing \<times> bool" where
  "classify_repo_listing res retry =
     (case res of
        Inr repos \<Rightarrow> (Resolve repos, False)
      | Inl first \<Rightarrow>
          (case retry () of
             Inr repos \<Rightarrow> (Resolve repos, True)
           | Inl second \<Rightarrow> (FailLoud ''authz repo listing unavailable'', True)))"

section \<open>The contract of a permission source\<close>

text \<open>
  The trait \<^verbatim>\<open>PermissionSource\<close>: a disabled source hides nothing, an enabled one lets the admin see
  everything, gives an identity it does not know nothing, and otherwise grants only repositories of
  the listing it was shown.
\<close>

locale permission_source =
  fixes visible :: "identity \<Rightarrow> repo list \<Rightarrow> visible_repos"
    and enabled :: bool
    and knows :: "string \<Rightarrow> bool"
  assumes disabled: "\<not> enabled \<Longrightarrow> visible who repos = All_repos"
    and admin: "visible Admin repos = All_repos"
    and anonymous: "enabled \<Longrightarrow> visible Anonymous repos = Only {}"
    and unknown_token: "enabled \<Longrightarrow> \<not> knows t \<Longrightarrow> visible (Token t) repos = Only {}"
    and known_token: "enabled \<Longrightarrow> knows t \<Longrightarrow> \<exists>s. visible (Token t) repos = Only s \<and> s \<subseteq> r_uid ` set repos"
begin

lemma scoped:
  assumes "enabled" and "who \<noteq> Admin"
  shows "\<exists>s. visible who repos = Only s \<and> s \<subseteq> r_uid ` set repos"
proof (cases who)
  case (Token t)
  then show ?thesis
    using assms(1) unknown_token known_token by (cases "knows t") (blast, fastforce)
qed (use assms anonymous in auto)

lemma stranger_sees_nothing:
  assumes "enabled" and "who = Anonymous \<or> (\<exists>t. who = Token t \<and> \<not> knows t)"
  shows "visible who repos = Only {}"
  using assms anonymous unknown_token by blast

end

interpretation static_authz:
  permission_source "static_visible_repos glob src" "static_is_enabled src"
    "\<lambda>t. map_of (rules src) t \<noteq> None"
  for glob and src
proof unfold_locales
  fix t repos
  assume "static_is_enabled src" "map_of (rules src) t \<noteq> None"
  then show "\<exists>s. static_visible_repos glob src (Token t) repos = Only s \<and> s \<subseteq> r_uid ` set repos"
    by (auto simp: static_visible_repos_def static_resolve_def)
qed (simp_all add: static_visible_repos_def)

section \<open>Facts about redaction\<close>

text \<open>Every repository UID a result names.\<close>

definition named_repos :: "blast_radius_result \<Rightarrow> string set" where
  "named_repos r =
     cs_repo_uid ` set (changed_symbols r) \<union> as_repo_uid ` set (affected_symbols r) \<union>
     as_repo_uid ` set (top_level_callees r) \<union>
     (case org_wide r of None \<Rightarrow> {} | Some org \<Rightarrow>
        change_repo_uid ` set (breaking org @ warnings org @ info org) \<union>
        affected_repo_uid ` set (breaking org @ warnings org @ info org)) \<union>
     set (repos_in_scope (result_coverage r)) \<union> set (repos_not_indexed (result_coverage r)) \<union>
     stale_repo_uid ` set (stale_repos (result_coverage r)) \<union> set (resolver_stale_repos r)"

lemma allows_Only: "allows (Only s) uid \<longleftrightarrow> uid \<in> insert [] s"
  by auto

lemma redact_org_items:
  assumes "redact_org v org = Some org'"
  shows "it \<in> set (breaking org' @ warnings org' @ info org') \<Longrightarrow> item_visible v it"
  using assms by (auto simp: redact_org_def Let_def split: if_splits)

lemma redacted_org_names:
  assumes "Option.bind o' (redact_org (Only s)) = Some org"
    and "it \<in> set (breaking org) \<or> it \<in> set (warnings org) \<or> it \<in> set (info org)"
  shows "change_repo_uid it \<in> s \<and> affected_repo_uid it \<in> s"
proof -
  from assms(1) obtain org0 where "redact_org (Only s) org0 = Some org"
    by (auto simp: Option.bind_eq_Some_conv)
  then have "item_visible (Only s) it"
    using assms(2) by (intro redact_org_items) auto
  then show ?thesis by (auto simp: item_visible_def)
qed

text \<open>What a caller restricted to \<open>v\<close> may learn of a result before redaction.\<close>

definition org_view :: "visible_repos \<Rightarrow> org_wide_impact option \<Rightarrow>
    ((org_impact_item list \<times> org_impact_item list \<times> org_impact_item list) \<times> string) option" where
  "org_view v o' = Option.bind o' (\<lambda>org.
     let ls = (filter (item_visible v) (breaking org), filter (item_visible v) (warnings org),
               filter (item_visible v) (info org))
     in if ls = ([], [], []) then None else Some (ls, source_server org))"

definition same_view :: "visible_repos \<Rightarrow> blast_radius_result \<Rightarrow> blast_radius_result \<Rightarrow> bool" where
  "same_view v r r' \<longleftrightarrow>
     filter (\<lambda>s. allows v (cs_repo_uid s)) (changed_symbols r) =
       filter (\<lambda>s. allows v (cs_repo_uid s)) (changed_symbols r') \<and>
     filter (\<lambda>s. ownership_resolved s \<and> allows v (as_repo_uid s)) (affected_symbols r) =
       filter (\<lambda>s. ownership_resolved s \<and> allows v (as_repo_uid s)) (affected_symbols r') \<and>
     filter (\<lambda>s. ownership_resolved s \<and> allows v (as_repo_uid s)) (top_level_callees r) =
       filter (\<lambda>s. ownership_resolved s \<and> allows v (as_repo_uid s)) (top_level_callees r') \<and>
     org_view v (org_wide r) = org_view v (org_wide r') \<and>
     redact_coverage v (result_coverage r) = redact_coverage v (result_coverage r') \<and>
     filter (allows v) (resolver_stale_repos r) = filter (allows v) (resolver_stale_repos r') \<and>
     map level (notifications r) = map level (notifications r') \<and>
     map descriptor (notifications r) = map descriptor (notifications r') \<and>
     risk_level r = risk_level r' \<and> status r = status r' \<and> gate_state r = gate_state r' \<and>
     blind_spots r = blind_spots r' \<and> analysis_direction r = analysis_direction r'"

lemma redact_org_view:
  assumes "org_view v o1 = org_view v o2"
  shows "Option.bind o1 (redact_org v) = Option.bind o2 (redact_org v)"
proof -
  have via: "Option.bind o' (redact_org v) =
      map_option (\<lambda>((b, w, i), srv). \<lparr>breaking = b, warnings = w, info = i,
        impacted_repos = collect_labels (b @ w @ i) {} [], source_server = srv\<rparr>) (org_view v o')" for o'
    by (cases o') (auto simp: org_view_def redact_org_def Let_def)
  show ?thesis using assms by (simp add: via)
qed

lemma withhold_messages:
  "map level ns = map level ns' \<Longrightarrow> map descriptor ns = map descriptor ns' \<Longrightarrow>
   map (\<lambda>n. n\<lparr>message := withheld\<rparr>) ns = map (\<lambda>n. n\<lparr>message := withheld\<rparr>) (ns' :: notification list)"
proof (induction ns arbitrary: ns')
  case (Cons n ns)
  then obtain m ms where ns': "ns' = m # ms" by (cases ns') auto
  with Cons.prems have "n\<lparr>message := withheld\<rparr> = m\<lparr>message := withheld\<rparr>" by simp
  with Cons ns' show ?case by simp
qed simp

section \<open>Properties\<close>

text \<open>
  C3. Redaction is non-interfering: two results that agree on what a restricted caller may see (the rows
  of visible repositories, the verdicts, and the codes and levels of the notifications) are redacted
  to the same answer, so nothing about a hidden repository can be inferred from it, not even a count
  in the summary. And the answer names no repository outside the visible set.
\<close>

theorem redaction_noninterference:
  assumes "same_view (Only s) r r'"
  shows "redact_blast_radius_for_visibility r (Only s) = redact_blast_radius_for_visibility r' (Only s) \<and>
    named_repos (redact_blast_radius_for_visibility r (Only s)) \<subseteq> insert [] s"
proof
  have org: "Option.bind (org_wide r) (redact_org (Only s)) = Option.bind (org_wide r') (redact_org (Only s))"
    using assms by (intro redact_org_view) (simp add: same_view_def)
  have msgs: "map (\<lambda>n. n\<lparr>message := withheld\<rparr>) (notifications r) =
      map (\<lambda>n. n\<lparr>message := withheld\<rparr>) (notifications r')"
    using assms by (intro withhold_messages) (simp_all add: same_view_def)
  show "redact_blast_radius_for_visibility r (Only s) = redact_blast_radius_for_visibility r' (Only s)"
    using assms org msgs
    by (cases r; cases r')
      (simp add: same_view_def redact_blast_radius_for_visibility_def Let_def del: allows.simps)
next
  show "named_repos (redact_blast_radius_for_visibility r (Only s)) \<subseteq> insert [] s"
    by (auto simp: named_repos_def redact_blast_radius_for_visibility_def redact_coverage_def Let_def
        split: option.splits dest: redacted_org_names)
qed

definition sample_result :: "string \<Rightarrow> blast_radius_result" where
  "sample_result hidden =
     \<lparr>changed_symbols = [], affected_symbols =
        [\<lparr>as_uid = ''s'', as_name = ''f'', as_file_path = ''x'', as_kind = ''fn'', as_depth = 1,
          as_edge_type = ''CALLS'', as_confidence = 1, as_start_line = 1, as_impact_score = 1,
          as_repo_uid = hidden, ownership_resolved = True\<rparr>],
      affected_symbol_count = 1, affected_clusters = [], top_level_callees = [], risk_level = Low,
      summary = ''1'', org_wide = None, status = Complete, notifications = [],
      resolver_stale_repos = [hidden], gate_state = GateOk,
      result_coverage = \<lparr>repos_in_scope = [hidden], repos_not_indexed = [], stale_repos = [],
        traversal_truncated = False\<rparr>,
      blind_spots = [], cochanged_files = [], analysis_direction = ''''\<rparr>"

theorem redaction_noninterference_witness:
  "redact_blast_radius_for_visibility (sample_result ''repo:i:a'') (Only {''repo:i:c''}) =
   redact_blast_radius_for_visibility (sample_result ''repo:i:b'') (Only {''repo:i:c''})"
proof -
  have "same_view (Only {''repo:i:c''}) (sample_result ''repo:i:a'') (sample_result ''repo:i:b'')"
    by (simp add: same_view_def sample_result_def redact_coverage_def)
  from redaction_noninterference [OF this] show ?thesis by simp
qed

text \<open>
  An enabled policy fails closed: a caller without a known token sees no repository at all, any
  caller but the admin sees only repositories of the listing, and a repository becomes visible to a
  token only through one of that token's patterns, compiled and matching its URL or UID.
\<close>

theorem static_policy_fails_closed:
  assumes "static_is_enabled src"
  shows "static_visible_repos glob src Anonymous repos = Only {} \<and>
    (map_of (rules src) t = None \<longrightarrow> static_visible_repos glob src (Token t) repos = Only {}) \<and>
    (\<exists>s. static_visible_repos glob src (Token t) repos = Only s \<and> s \<subseteq> r_uid ` set repos \<and>
      (\<forall>uid\<in>s. \<exists>r p m. r \<in> set repos \<and> r_uid r = uid \<and> map_of (rules src) t \<noteq> None \<and>
         p \<in> set (the (map_of (rules src) t)) \<and> glob p = Some m \<and> (m (r_url r) \<or> m uid)))"
proof (intro conjI impI)
  show "static_visible_repos glob src Anonymous repos = Only {}"
    using assms by (rule static_authz.stranger_sees_nothing) simp
  show "static_visible_repos glob src (Token t) repos = Only {}" if "map_of (rules src) t = None"
    using assms by (rule static_authz.stranger_sees_nothing) (use that in simp)
  from static_authz.scoped [OF assms, of "Token t" glob repos] obtain s where
    s: "static_visible_repos glob src (Token t) repos = Only s" "s \<subseteq> r_uid ` set repos" by auto
  have "\<exists>r p m. r \<in> set repos \<and> r_uid r = uid \<and> map_of (rules src) t \<noteq> None \<and>
      p \<in> set (the (map_of (rules src) t)) \<and> glob p = Some m \<and> (m (r_url r) \<or> m uid)" if uid: "uid \<in> s" for uid
  proof -
    obtain patterns where p: "map_of (rules src) t = Some patterns"
      using s(1) uid assms by (cases "map_of (rules src) t") (auto simp: static_visible_repos_def)
    with s(1) uid assms obtain r where r: "r \<in> set repos" "r_uid r = uid" "repo_matches_any glob r patterns"
      by (auto simp: static_visible_repos_def static_resolve_def)
    from r(3) obtain q m where "q \<in> set patterns" "glob q = Some m" "m (r_url r) \<or> m (r_uid r)"
      by (auto simp: repo_matches_any_def pattern_matches_def list_ex_iff split: option.splits)
    with p r show ?thesis by auto
  qed
  with s show "\<exists>s. static_visible_repos glob src (Token t) repos = Only s \<and> s \<subseteq> r_uid ` set repos \<and>
      (\<forall>uid\<in>s. \<exists>r p m. r \<in> set repos \<and> r_uid r = uid \<and> map_of (rules src) t \<noteq> None \<and>
         p \<in> set (the (map_of (rules src) t)) \<and> glob p = Some m \<and> (m (r_url r) \<or> m uid))" by blast
qed

definition exact_glob :: "string \<Rightarrow> (string \<Rightarrow> bool) option" where
  "exact_glob p = Some (\<lambda>c. c = p)"

theorem static_policy_fails_closed_witness:
  "static_is_enabled (static_new [(''tok'', [''https://h/a''])]) \<and>
   static_visible_repos exact_glob (static_new [(''tok'', [''https://h/a''])]) (Token ''other'')
     [\<lparr>r_uid = ''repo:i:a'', r_url = ''https://h/a'', indexed_sha = [], staleness_commits_behind = 0,
       instance_id = ''i'', r_name = None, root_path = None\<rparr>] = Only {}"
proof -
  have en: "static_is_enabled (static_new [(''tok'', [''https://h/a''])])"
    by (simp add: static_is_enabled_def static_new_def)
  moreover have "map_of (rules (static_new [(''tok'', [''https://h/a''])])) ''other'' = None"
    by (simp add: static_new_def)
  ultimately show ?thesis
    using static_policy_fails_closed [OF en] by blast
qed

end
