(* ===== verification/Node_Scope.thy ===== *)
theory Node_Scope
  imports Uid Authz
begin

text \<open>
  Scoping of results to repositories and vaults: the repository selector
  (\<^verbatim>\<open>resolve_repo_selector\<close> and its errors in \<^verbatim>\<open>crates/nestweaver-engine/src/lib.rs\<close>), the names derived
  from URLs (\<^verbatim>\<open>pull.rs\<close>), and the scope filters (\<^verbatim>\<open>node_scope.rs\<close>).

  Error values carry the failure class and the candidates. The rendered messages are left out: they
  contain characters beyond the text range of the model (an ellipsis and a dash), and no code reads
  them back. The graph store is the list of repositories or vaults it returns, or its error.
\<close>

section \<open>Names derived from URLs\<close>

text \<open>\<^verbatim>\<open>str::replace\<close> of a pattern by the empty text: matches do not overlap, left to right.\<close>

function str_remove :: "'a list \<Rightarrow> 'a list \<Rightarrow> 'a list" where
  "str_remove p [] = []"
| "str_remove p (x # xs) =
     (if p \<noteq> [] \<and> prefix p (x # xs) then str_remove p (drop (length p) (x # xs))
      else x # str_remove p xs)"
  by pat_completeness auto

termination
proof (relation "measure (\<lambda>(p, s). length s)")
  fix p xs :: "'a list" and x
  assume "p \<noteq> [] \<and> prefix p (x # xs)"
  then show "((p, drop (length p) (x # xs)), p, x # xs) \<in> measure (\<lambda>(p, s). length s)"
    by (cases p) auto
qed simp_all

definition trim_end_matches_str :: "'a list \<Rightarrow> 'a list \<Rightarrow> 'a list" where
  "trim_end_matches_str p s = rev (trim_start_matches_str (rev p) (rev s))"

definition repo_name_from_url :: "string \<Rightarrow> string" where
  "repo_name_from_url url =
     (let raw = trim_end_matches_str ''.git'' (last (split CHR ''/'' url))
      in map (\<lambda>c. if c = CHR ''/'' \<or> c = CHR 0x5C then CHR ''_'' else c) (str_remove ''..'' raw))"

text \<open>The hexadecimal BLAKE3 digest of a text is the parameter \<open>blake3_hex\<close>; eight bytes are kept.\<close>

definition clone_dir_name_from_url :: "(string \<Rightarrow> string) \<Rightarrow> string \<Rightarrow> string" where
  "clone_dir_name_from_url blake3_hex url = repo_name_from_url url @ ''_'' @ take 8 (blake3_hex url)"

definition repo_display_name :: "repo \<Rightarrow> string" where
  "repo_display_name r = (case r_name r of Some n \<Rightarrow> n | None \<Rightarrow> repo_name_from_url (r_url r))"

definition local_root :: "repo \<Rightarrow> string option" where
  "local_root r =
     (case root_path r of
        Some p \<Rightarrow> if p \<noteq> [] then Some p else strip_prefix ''file://'' (r_url r)
      | None \<Rightarrow> strip_prefix ''file://'' (r_url r))"

section \<open>Repository selectors\<close>

datatype repo_selector_failure = NotFound | Ambiguous | Malformed

fun failure_status :: "repo_selector_failure \<Rightarrow> string" where
  "failure_status NotFound = ''not_found''"
| "failure_status Ambiguous = ''ambiguous''"
| "failure_status Malformed = ''malformed''"

definition failure_from_status :: "string \<Rightarrow> repo_selector_failure option" where
  "failure_from_status s =
     (if s = ''not_found'' then Some NotFound
      else if s = ''ambiguous'' then Some Ambiguous
      else if s = ''malformed'' then Some Malformed
      else None)"

definition MAX_REPO_SELECTOR_LEN :: nat where
  "MAX_REPO_SELECTOR_LEN = 512"

record repo_selector_error =
  sel_failure :: repo_selector_failure
  sel_candidates :: "string list"

definition selector_error :: "repo_selector_failure \<Rightarrow> string list \<Rightarrow> repo_selector_error" where
  "selector_error failure candidates = \<lparr>sel_failure = failure, sel_candidates = candidates\<rparr>"

definition selector_ambiguous :: "repo list \<Rightarrow> repo_selector_error" where
  "selector_ambiguous matches = selector_error Ambiguous (map r_uid matches)"

text \<open>\<^verbatim>\<open>str::contains\<close>.\<close>

definition contains_text :: "'a list \<Rightarrow> 'a list \<Rightarrow> bool" where
  "contains_text s p \<longleftrightarrow> split_once_str p s \<noteq> None"

definition by_name :: "string \<Rightarrow> repo \<Rightarrow> bool" where
  "by_name sel r \<longleftrightarrow> to_lowercase (repo_display_name r) = to_lowercase sel"

definition by_location :: "string \<Rightarrow> repo \<Rightarrow> bool" where
  "by_location sel r \<longleftrightarrow> r_url r = sel \<or> local_root r = Some sel"

definition by_substring :: "string \<Rightarrow> repo \<Rightarrow> bool" where
  "by_substring sel r \<longleftrightarrow>
     contains_text (r_url r) sel \<or> (case local_root r of Some dir \<Rightarrow> contains_text dir sel | None \<Rightarrow> False)"

definition resolve_repo_selector :: "repo list \<Rightarrow> string \<Rightarrow> repo_selector_error + repo" where
  "resolve_repo_selector repos sel =
     (if trim sel = [] then Inl (selector_error Malformed [])
      else if str_len sel > MAX_REPO_SELECTOR_LEN then Inl (selector_error Malformed [])
      else case find (\<lambda>r. r_uid r = sel) repos of
        Some r \<Rightarrow> Inr r
      | None \<Rightarrow>
     (case filter (by_name sel) repos of
        [r] \<Rightarrow> Inr r
      | x # y # zs \<Rightarrow> Inl (selector_ambiguous (x # y # zs))
      | [] \<Rightarrow>
     (case filter (by_location sel) repos of
        [r] \<Rightarrow> Inr r
      | x # y # zs \<Rightarrow> Inl (selector_ambiguous (x # y # zs))
      | [] \<Rightarrow>
     (case filter (by_substring sel) repos of
        [r] \<Rightarrow> Inr r
      | [] \<Rightarrow> Inl (selector_error NotFound [])
      | x # y # zs \<Rightarrow> Inl (selector_ambiguous (x # y # zs))))))"

section \<open>Owners\<close>

datatype node_owner = RepoOwner string | VaultOwner string | Unattributable

definition owner_head :: "string \<Rightarrow> string option" where
  "owner_head rest =
     (let parts = splitn 4 CHR '':'' rest
      in if length parts \<ge> 3 then Some (parts ! 0 @ '':'' @ parts ! 1 @ '':'' @ parts ! 2) else None)"

definition node_owner_of :: "string \<Rightarrow> node_owner" where
  "node_owner_of uid =
     (case uid_kind_of uid of
        None \<Rightarrow> Unattributable
      | Some kind \<Rightarrow>
          (let rest = drop (length (uid_prefix kind)) uid;
               head_as = (\<lambda>owner s. case owner_head s of Some h \<Rightarrow> owner h | None \<Rightarrow> Unattributable)
           in case kind of
                KRepo \<Rightarrow> RepoOwner uid
              | KVault \<Rightarrow> VaultOwner uid
              | KFile \<Rightarrow> head_as RepoOwner rest
              | KService \<Rightarrow> head_as RepoOwner rest
              | KSymbol \<Rightarrow> head_as RepoOwner rest
              | KNote \<Rightarrow> head_as VaultOwner rest
              | KTag \<Rightarrow> head_as VaultOwner rest
              | KSection \<Rightarrow> (case strip_prefix (uid_prefix KNote) rest of
                               Some s \<Rightarrow> head_as VaultOwner s | None \<Rightarrow> Unattributable)
              | KHeading \<Rightarrow> (case strip_prefix (uid_prefix KNote) rest of
                               Some s \<Rightarrow> head_as VaultOwner s | None \<Rightarrow> Unattributable)
              | KProject \<Rightarrow> Unattributable
              | KContract \<Rightarrow> Unattributable))"

section \<open>Scope filters\<close>

text \<open>An over-long selector is echoed only up to a character boundary; the flag stands for the ellipsis.\<close>

fun floor_prefix :: "nat \<Rightarrow> string \<Rightarrow> string" where
  "floor_prefix n [] = []"
| "floor_prefix n (c # cs) = (if utf8_len_char c \<le> n then c # floor_prefix (n - utf8_len_char c) cs else [])"

record repo_filter_unresolved =
  echoed :: string
  echo_cut :: bool
  failure :: repo_selector_failure
  candidates :: "string list"

definition filter_unresolved :: "string \<Rightarrow> repo_selector_error \<Rightarrow> repo_filter_unresolved" where
  "filter_unresolved sel e =
     (let cut = str_len sel > MAX_REPO_SELECTOR_LEN
      in \<lparr>echoed = (if cut then floor_prefix (MAX_REPO_SELECTOR_LEN div 8) sel else sel), echo_cut = cut,
          failure = sel_failure e, candidates = sel_candidates e\<rparr>)"

datatype 'e filter_error = ListingFailed 'e | Unresolved repo_filter_unresolved

definition resolve_repo_filter ::
  "'e + repo list \<Rightarrow> string list \<Rightarrow> visible_repos option \<Rightarrow> 'e filter_error + string set" where
  "resolve_repo_filter listing selectors visible =
     (case listing of
        Inl e \<Rightarrow> Inl (ListingFailed e)
      | Inr all_repos \<Rightarrow>
          (let repos = filter (\<lambda>r. repo_is_visible (r_uid r) visible) all_repos
           in case collect_results (map (\<lambda>sel.
                  case resolve_repo_selector repos sel of
                    Inr r \<Rightarrow> Inr (r_uid r)
                  | Inl e \<Rightarrow> Inl (Unresolved (filter_unresolved sel e))) selectors) of
                Inl e \<Rightarrow> Inl e
              | Inr uids \<Rightarrow> Inr (set uids)))"

record vault =
  v_uid :: string
  v_name :: string
  v_root_path :: string
  v_instance_id :: string

definition vault_name_key :: "string \<Rightarrow> string" where
  "vault_name_key name = to_lowercase name"

datatype 'e vault_filter_error =
  VaultListingFailed 'e
| VaultUnknown string "string list"
| VaultAmbiguous string "(string \<times> string) list"

definition resolve_vault_entry :: "vault list \<Rightarrow> string \<Rightarrow> 'e vault_filter_error + string" where
  "resolve_vault_entry vaults sel =
     (let needle = vault_name_key sel;
          matches = filter (\<lambda>v. v_uid v = sel \<or> vault_name_key (v_name v) = needle \<or> v_root_path v = sel) vaults
      in case matches of
           [v] \<Rightarrow> Inr (v_uid v)
         | [] \<Rightarrow> Inl (VaultUnknown sel (map v_name vaults))
         | _ \<Rightarrow> Inl (VaultAmbiguous sel (map (\<lambda>v. (v_name v, v_uid v)) matches)))"

definition resolve_vault_filter :: "'e + vault list \<Rightarrow> string list \<Rightarrow> 'e vault_filter_error + string set" where
  "resolve_vault_filter listing selectors =
     (case listing of
        Inl e \<Rightarrow> Inl (VaultListingFailed e)
      | Inr vaults \<Rightarrow>
          (case collect_results (map (resolve_vault_entry vaults) selectors) of
             Inl e \<Rightarrow> Inl e
           | Inr uids \<Rightarrow> Inr (set uids)))"

record brain_node =
  n_uid :: string
  n_kind :: string
  title :: string
  location :: string
  relevance :: rat

definition retain_nodes_in_repos :: "string set \<Rightarrow> brain_node list \<Rightarrow> brain_node list" where
  "retain_nodes_in_repos repo_uids nodes =
     filter (\<lambda>n. case node_owner_of (n_uid n) of RepoOwner uid \<Rightarrow> uid \<in> repo_uids | _ \<Rightarrow> False) nodes"

definition retain_nodes_in_vaults :: "string set \<Rightarrow> brain_node list \<Rightarrow> brain_node list" where
  "retain_nodes_in_vaults vault_uids nodes =
     filter (\<lambda>n. case node_owner_of (n_uid n) of VaultOwner uid \<Rightarrow> uid \<in> vault_uids | _ \<Rightarrow> False) nodes"

definition retain_nodes_under_path_prefix :: "string \<Rightarrow> brain_node list \<Rightarrow> brain_node list" where
  "retain_nodes_under_path_prefix pre nodes =
     filter (\<lambda>n. location n = [] \<or> prefix pre (location n)) nodes"

section \<open>Facts about selectors\<close>

lemma resolve_repo_selector_Inr:
  assumes "resolve_repo_selector repos sel = Inr r"
  shows "r \<in> set repos"
proof -
  have one: "x \<in> set repos" if "filter P repos = [x]" for P x
  proof -
    have "x \<in> set (filter P repos)" using that by simp
    then show ?thesis by simp
  qed
  from assms show ?thesis
    by (auto simp: resolve_repo_selector_def find_Some_iff split: if_splits option.splits list.splits dest: one)
qed

lemma resolve_repo_selector_candidates:
  assumes "resolve_repo_selector repos sel = Inl e"
  shows "set (sel_candidates e) \<subseteq> r_uid ` set repos"
proof -
  have many: "r_uid ` set (x # y # zs) \<subseteq> r_uid ` set repos" if "filter P repos = x # y # zs" for P x y zs
  proof -
    have "set (x # y # zs) \<subseteq> set repos" using that by (metis filter_is_subset)
    then show ?thesis by blast
  qed
  from assms show ?thesis
    by (auto simp: resolve_repo_selector_def selector_error_def selector_ambiguous_def
        split: if_splits option.splits list.splits dest!: many)
qed

lemma collect_results_Inl: "collect_results rs = Inl e \<Longrightarrow> Inl e \<in> set rs"
  by (induction rs rule: collect_results.induct) (auto split: sum.splits)

lemma visible_repos_filter:
  "r \<in> set (filter (\<lambda>r. repo_is_visible (r_uid r) (Some (Only s))) repos) \<Longrightarrow> r_uid r \<in> s"
  by auto

section \<open>Facts about owners\<close>

lemma owner_head_three:
  assumes "CHR '':'' \<notin> set a" "CHR '':'' \<notin> set b" "CHR '':'' \<notin> set c"
  shows "owner_head (a @ '':'' @ b @ '':'' @ c @ '':'' @ t) = Some (a @ '':'' @ b @ '':'' @ c)"
proof -
  have "splitn 4 CHR '':'' (a @ CHR '':'' # b @ CHR '':'' # c @ CHR '':'' # t) = [a, b, c, t]"
    using assms by (simp add: numeral_eq_Suc split_once_append)
  then show ?thesis by (simp add: owner_head_def)
qed

lemma uid_kind_of_prefix: "uid_kind_of (uid_prefix k @ s) = Some k"
  by (cases k) (simp_all add: uid_kind_of_def uid_kind_all_def)

lemma str_remove_dots: "\<not> sublist ''..'' (str_remove ''..'' s)"
proof -
  have "\<not> sublist ''..'' (str_remove ''..'' s) \<and>
      (\<not> prefix ''.'' s \<longrightarrow> \<not> prefix ''.'' (str_remove ''..'' s))"
  proof (induction "''..''" s rule: str_remove.induct)
    case 1
    then show ?case by simp
  next
    case (2 x xs)
    show ?case
    proof (cases "prefix ''..'' (x # xs)")
      case True
      with 2 show ?thesis by (auto simp: prefix_def)
    next
      case False
      then have "\<not> prefix ''.'' xs \<or> x \<noteq> CHR ''.''" by (cases xs) (auto simp: prefix_def)
      moreover have IH: "\<not> sublist ''..'' (str_remove ''..'' xs)"
        "\<not> prefix ''.'' xs \<longrightarrow> \<not> prefix ''.'' (str_remove ''..'' xs)"
        using 2(2) False by simp_all
      ultimately have "\<not> prefix ''..'' (x # str_remove ''..'' xs)" by auto
      with IH(1) False show ?thesis by (auto simp: sublist_Cons_right)
    qed
  qed
  then show ?thesis by simp
qed

section \<open>Properties\<close>

text \<open>
  C36. A repository filter never leaves the caller's scope: under a visible set, the repositories a
  filter resolves to lie in that set, and so do all candidates an error reports; the names of
  invisible repositories cannot be probed through selectors.
\<close>

theorem repo_filter_stays_visible:
  fixes listing :: "'e + repo list"
  shows "(case resolve_repo_filter listing selectors (Some (Only s)) of
      Inr uids \<Rightarrow> uids \<subseteq> s
    | Inl (Unresolved e) \<Rightarrow> set (candidates e) \<subseteq> s
    | Inl (ListingFailed _) \<Rightarrow> True)"
proof (cases listing)
  case (Inr all_repos)
  let ?repos = "filter (\<lambda>r. repo_is_visible (r_uid r) (Some (Only s))) all_repos"
  let ?rs = "map (\<lambda>sel. case resolve_repo_selector ?repos sel of
      Inr r \<Rightarrow> Inr (r_uid r)
    | Inl e \<Rightarrow> Inl (Unresolved (filter_unresolved sel e))) selectors :: ('e filter_error + string) list"
  have ok: "uid \<in> s" if "Inr uid \<in> set ?rs" for uid
    using that by (auto split: sum.splits dest!: resolve_repo_selector_Inr)
  have err: "\<exists>u. e = Unresolved u \<and> set (candidates u) \<subseteq> s" if "Inl e \<in> set ?rs" for e
  proof -
    have sub: "r_uid ` set ?repos \<subseteq> s" using visible_repos_filter by auto
    from that obtain sel f where "resolve_repo_selector ?repos sel = Inl f" "e = Unresolved (filter_unresolved sel f)"
      by (auto split: sum.splits)
    with resolve_repo_selector_candidates [of ?repos sel f] sub show ?thesis
      by (auto simp: filter_unresolved_def Let_def)
  qed
  show ?thesis
  proof (cases "collect_results ?rs")
    case (Inl e)
    then have "Inl e \<in> set ?rs" by (rule collect_results_Inl)
    from err [OF this] Inl \<open>listing = Inr all_repos\<close> show ?thesis
      by (auto simp: resolve_repo_filter_def Let_def)
  next
    case (Inr uids)
    then have eq: "?rs = map Inr uids" by (simp only: collect_results_Inr_iff)
    have "uid \<in> s" if "uid \<in> set uids" for uid
    proof -
      have "Inr uid \<in> set (map Inr uids :: ('e filter_error + string) list)" using that by simp
      then have "Inr uid \<in> set ?rs" unfolding eq .
      then show ?thesis by (rule ok)
    qed
    with Inr \<open>listing = Inr all_repos\<close> show ?thesis
      by (auto simp: resolve_repo_filter_def Let_def)
  qed
qed (simp add: resolve_repo_filter_def)

text \<open>
  A selector resolves without guessing: for a well-formed selector an exact UID always wins;
  otherwise the first of the three tiers (display name, exact location, substring) that matches any
  repository decides, with the repository if it is the only match and with an ambiguity error that
  lists all matches otherwise.
\<close>

theorem selector_resolution:
  fixes repos :: "repo list"
  assumes "trim sel \<noteq> []" and "str_len sel \<le> MAX_REPO_SELECTOR_LEN"
  defines "tier \<equiv> (if filter (by_name sel) repos \<noteq> [] then filter (by_name sel) repos
      else if filter (by_location sel) repos \<noteq> [] then filter (by_location sel) repos
      else filter (by_substring sel) repos)"
  shows "resolve_repo_selector repos sel =
    (if \<exists>r\<in>set repos. r_uid r = sel then Inr (the (find (\<lambda>r. r_uid r = sel) repos))
     else if tier = [] then Inl (selector_error NotFound [])
     else if length tier = 1 then Inr (hd tier)
     else Inl (selector_error Ambiguous (map r_uid tier)))"
proof (cases "find (\<lambda>r. r_uid r = sel) repos")
  case None
  then have "\<not> (\<exists>r\<in>set repos. r_uid r = sel)" by (auto simp: find_None_iff)
  with None assms(1,2) show ?thesis
    unfolding resolve_repo_selector_def tier_def
    by (auto simp: selector_ambiguous_def split: list.splits)
next
  case (Some r)
  then have "\<exists>r\<in>set repos. r_uid r = sel" by (auto simp: find_Some_iff)
  with Some assms(1,2) show ?thesis by (simp add: resolve_repo_selector_def)
qed

definition sample_repo :: "string \<Rightarrow> string \<Rightarrow> repo" where
  "sample_repo uid url = \<lparr>r_uid = uid, r_url = url, indexed_sha = [], staleness_commits_behind = 0,
     instance_id = ''i'', r_name = None, root_path = None\<rparr>"

theorem selector_resolution_witness:
  "resolve_repo_selector [sample_repo ''repo:i:1'' ''h/a/web'', sample_repo ''repo:i:2'' ''h/b/web''] ''web'' =
     Inl (selector_error Ambiguous [''repo:i:1'', ''repo:i:2''])"
proof -
  let ?rs = "[sample_repo ''repo:i:1'' ''h/a/web'', sample_repo ''repo:i:2'' ''h/b/web'']"
  have "trim ''web'' \<noteq> []" "str_len ''web'' \<le> MAX_REPO_SELECTOR_LEN"
    by (simp_all add: text_defs MAX_REPO_SELECTOR_LEN_def)
  note sel = selector_resolution [OF this, of ?rs]
  have "filter (by_name ''web'') ?rs = ?rs" by code_simp
  with sel show ?thesis by (simp add: sample_repo_def)
qed

text \<open>
  Ownership is read correctly off every minted UID: for instance names without a colon, files,
  services and symbols belong to the repository they were minted under, and notes, tags, headings and
  sections to their vault; so a repository filter keeps exactly the nodes of the named
  repositories among them and drops all vault content.
\<close>

theorem minted_node_owner:
  fixes url dir :: string
  assumes "hash_lib H" and "CHR '':'' \<notin> set i"
  defines "r \<equiv> repo_uid H i url" and "v \<equiv> vault_uid H i dir"
  shows "node_owner_of (file_uid H r path) = RepoOwner r \<and>
    node_owner_of (service_uid H r name) = RepoOwner r \<and>
    node_owner_of (symbol_uid H r path name l) = RepoOwner r \<and>
    node_owner_of (note_uid H v path) = VaultOwner v \<and>
    node_owner_of (tag_uid H v name) = VaultOwner v \<and>
    node_owner_of (heading_uid H (note_uid H v path) name l) = VaultOwner v \<and>
    node_owner_of (section_uid (note_uid H v path) l c) = VaultOwner v"
proof -
  have nc: "CHR '':'' \<notin> set (truncated_hash H x)" for x
    using assms(1) by (rule truncated_hash_no_colon)
  have r: "owner_head (r @ '':'' @ t) = Some r" for t
    using owner_head_three [of "''repo''" i "truncated_hash H (normalized_repo_key url)" t] nc assms(2)
    by (simp add: r_def repo_uid_def)
  have v: "owner_head (v @ '':'' @ t) = Some v" for t
    using owner_head_three [of "''vlt''" i "truncated_hash H dir" t] nc assms(2)
    by (simp add: v_def vault_uid_def)
  have kinds: "uid_kind_of (file_uid H r path) = Some KFile" "uid_kind_of (service_uid H r name) = Some KService"
    "uid_kind_of (symbol_uid H r path name l) = Some KSymbol" "uid_kind_of (note_uid H v path) = Some KNote"
    "uid_kind_of (tag_uid H v name) = Some KTag"
    "uid_kind_of (heading_uid H (note_uid H v path) name l) = Some KHeading"
    "uid_kind_of (section_uid (note_uid H v path) l c) = Some KSection"
    using uid_kind_of_prefix [of KFile] uid_kind_of_prefix [of KService] uid_kind_of_prefix [of KSymbol]
      uid_kind_of_prefix [of KNote] uid_kind_of_prefix [of KTag] uid_kind_of_prefix [of KHeading]
      uid_kind_of_prefix [of KSection]
    by (simp_all add: file_uid_def service_uid_def symbol_uid_def note_uid_def tag_uid_def heading_uid_def
        section_uid_def)
  from r have "owner_head (r @ CHR '':'' # t) = Some r" for t by simp
  moreover from v have "owner_head (v @ CHR '':'' # t) = Some v" for t by simp
  ultimately show ?thesis
    unfolding node_owner_of_def kinds
    by (simp add: file_uid_def service_uid_def symbol_uid_def note_uid_def tag_uid_def heading_uid_def
        section_uid_def strip_prefix_def)
qed

theorem minted_node_owner_witness:
  "node_owner_of (symbol_uid sample_hash (repo_uid sample_hash ''i'' ''https://h/a'') ''x'' ''f'' 3) =
     RepoOwner (repo_uid sample_hash ''i'' ''https://h/a'') \<and>
   node_owner_of (section_uid (note_uid sample_hash (vault_uid sample_hash ''i'' ''/v'') ''x'') 3 ''00aa11'') =
     VaultOwner (vault_uid sample_hash ''i'' ''/v'')"
  using minted_node_owner [OF sample_hash_lib, of "''i''"] by simp

text \<open>
  The name derived from a repository URL is one safe path component: it contains no slash, no
  backslash and no two consecutive dots, whatever the URL was.
\<close>

theorem repo_name_path_safe:
  "CHR ''/'' \<notin> set (repo_name_from_url url) \<and> CHR 0x5C \<notin> set (repo_name_from_url url) \<and>
   \<not> sublist ''..'' (repo_name_from_url url)"
proof -
  let ?f = "\<lambda>c. if c = CHR ''/'' \<or> c = CHR 0x5C then CHR ''_'' else c"
  let ?s = "str_remove ''..'' (trim_end_matches_str ''.git'' (last (split CHR ''/'' url)))"
  have dots: "sublist ''..'' (map ?f s) \<Longrightarrow> sublist ''..'' s" for s
    by (auto simp: sublist_def map_eq_append_conv Cons_eq_map_conv split: if_splits)
  have "repo_name_from_url url = map ?f ?s"
    by (simp add: repo_name_from_url_def Let_def)
  then show ?thesis
    using dots [of ?s] str_remove_dots by auto
qed

end
