(* ===== verification/Job_Queue.thy ===== *)
theory Job_Queue
  imports Prelude
begin

text \<open>
  The indexing job queue (\<^verbatim>\<open>crates/nestweaver-engine/src/jobs.rs\<close>).

  The queue is one SQLite table. A row is a record with the columns of its schema, the table is the
  list of its rows in row-id order, and every SQL statement is the function on tables it denotes:
  the assignments of an \<^verbatim>\<open>UPDATE\<close> read the old row, an \<^verbatim>\<open>INSERT\<close> without an id takes one more than the
  largest, \<^verbatim>\<open>IS\<close> compares \<^verbatim>\<open>NULL\<close>s as equal. Where \<^verbatim>\<open>ORDER BY\<close> leaves a tie, the first row in table order
  is taken. A statement is atomic and evaluates \<^verbatim>\<open>strftime('%s','now')\<close> once, so an operation takes the
  time \<open>now\<close>; a claim takes the random token it mints. SQLite's own failures are outside the model.
\<close>

section \<open>Triggers, statuses, rows\<close>

definition DEFAULT_LEASE_SECS :: int where
  "DEFAULT_LEASE_SECS = 1800"

definition STALE_RECOVERY_SECS :: int where
  "STALE_RECOVERY_SECS = DEFAULT_LEASE_SECS"

datatype job_trigger = Unindexed | Webhook | Poll | Scheduled | Retry

fun priority :: "job_trigger \<Rightarrow> int" where
  "priority Unindexed = 0"
| "priority Webhook = 1"
| "priority Poll = 2"
| "priority Scheduled = 3"
| "priority Retry = 4"

fun trigger_as_str :: "job_trigger \<Rightarrow> string" where
  "trigger_as_str Unindexed = ''unindexed''"
| "trigger_as_str Webhook = ''webhook''"
| "trigger_as_str Poll = ''poll''"
| "trigger_as_str Scheduled = ''scheduled''"
| "trigger_as_str Retry = ''retry''"

definition trigger_from_str :: "string \<Rightarrow> job_trigger" where
  "trigger_from_str s =
     (if s = ''unindexed'' then Unindexed
      else if s = ''webhook'' then Webhook
      else if s = ''poll'' then Poll
      else if s = ''scheduled'' then Scheduled
      else if s = ''retry'' then Retry
      else Scheduled)"

datatype job_status = Pending | Running | Succeeded | DeadLetter | Cancelled

definition status_from_str :: "string \<Rightarrow> job_status" where
  "status_from_str s =
     (if s = ''pending'' then Pending
      else if s = ''running'' then Running
      else if s = ''succeeded'' then Succeeded
      else if s = ''dead_letter'' then DeadLetter
      else if s = ''cancelled'' then Cancelled
      else if s = ''failed'' then DeadLetter
      else Pending)"

text \<open>A row of \<^verbatim>\<open>index_jobs\<close>.\<close>

record job_row =
  c_id :: int
  c_repo_id :: string
  c_repo_url :: string
  c_trigger :: string
  c_priority :: int
  c_status :: string
  c_attempt :: int
  c_max_attempts :: int
  c_error_msg :: "string option"
  c_branch :: "string option"
  c_requeue_needed :: int
  c_claimed_by :: "string option"
  c_lease_expires_at :: "int option"
  c_created_at :: int
  c_updated_at :: int
  c_started_at :: "int option"
  c_completed_at :: "int option"

record index_job =
  j_id :: int
  j_repo_id :: string
  j_repo_url :: string
  j_trigger :: job_trigger
  j_priority :: int
  j_status :: job_status
  j_attempt :: int
  j_max_attempts :: int
  j_error_msg :: "string option"
  j_branch :: "string option"
  j_claimed_by :: "string option"
  j_created_at :: int
  j_updated_at :: int
  j_started_at :: "int option"
  j_completed_at :: "int option"

definition row_to_job :: "job_row \<Rightarrow> index_job" where
  "row_to_job r =
     \<lparr>j_id = c_id r, j_repo_id = c_repo_id r, j_repo_url = c_repo_url r,
      j_trigger = trigger_from_str (c_trigger r), j_priority = c_priority r,
      j_status = status_from_str (c_status r), j_attempt = c_attempt r,
      j_max_attempts = c_max_attempts r, j_error_msg = c_error_msg r, j_branch = c_branch r,
      j_claimed_by = c_claimed_by r, j_created_at = c_created_at r, j_updated_at = c_updated_at r,
      j_started_at = c_started_at r, j_completed_at = c_completed_at r\<rparr>"

type_synonym queue = "job_row list"

section \<open>Statements\<close>

text \<open>\<^verbatim>\<open>UPDATE ... SET ... WHERE ...\<close>: the new table and the number of changed rows.\<close>

definition update_where :: "(job_row \<Rightarrow> bool) \<Rightarrow> (job_row \<Rightarrow> job_row) \<Rightarrow> queue \<Rightarrow> queue \<times> nat" where
  "update_where P f q = (map (\<lambda>r. if P r then f r else r) q, length (filter P q))"

definition next_rowid :: "queue \<Rightarrow> int" where
  "next_rowid q = (if q = [] then 1 else Max (set (map c_id q)) + 1)"

definition inserted_row :: "int \<Rightarrow> int \<Rightarrow> string \<Rightarrow> string \<Rightarrow> job_trigger \<Rightarrow> string option \<Rightarrow> job_row" where
  "inserted_row now rowid repo_id repo_url trig branch =
     \<lparr>c_id = rowid, c_repo_id = repo_id, c_repo_url = repo_url, c_trigger = trigger_as_str trig,
      c_priority = priority trig, c_status = ''pending'', c_attempt = 0, c_max_attempts = 4,
      c_error_msg = None, c_branch = branch, c_requeue_needed = 0, c_claimed_by = None,
      c_lease_expires_at = None, c_created_at = now, c_updated_at = now, c_started_at = None,
      c_completed_at = None\<rparr>"

definition conflict_update :: "int \<Rightarrow> job_trigger \<Rightarrow> string option \<Rightarrow> job_row \<Rightarrow> job_row" where
  "conflict_update now trig branch r =
     (let s = c_status r; p = priority trig
      in r\<lparr>c_priority :=
             (if s \<in> {''pending'', ''failed''} then min p (c_priority r)
              else if s \<in> {''succeeded'', ''dead_letter'', ''cancelled''} then p
              else if s = ''running'' then min p (c_priority r)
              else c_priority r),
           c_trigger :=
             (if s \<in> {''pending'', ''failed''} \<and> p < c_priority r then trigger_as_str trig
              else if s \<in> {''succeeded'', ''dead_letter'', ''cancelled''} then trigger_as_str trig
              else c_trigger r),
           c_status :=
             (if s \<in> {''pending'', ''failed'', ''succeeded'', ''dead_letter'', ''cancelled''}
              then ''pending'' else s),
           c_attempt := (if s \<in> {''succeeded'', ''dead_letter'', ''cancelled''} then 0 else c_attempt r),
           c_branch := (if branch \<noteq> None then branch else c_branch r),
           c_requeue_needed := (if s = ''running'' then 1 else c_requeue_needed r),
           c_updated_at := now\<rparr>)"

definition upsert :: "int \<Rightarrow> string \<Rightarrow> string \<Rightarrow> job_trigger \<Rightarrow> string option \<Rightarrow> queue \<Rightarrow> queue" where
  "upsert now repo_id repo_url trig branch q =
     (if list_ex (\<lambda>r. c_repo_id r = repo_id) q
      then fst (update_where (\<lambda>r. c_repo_id r = repo_id) (conflict_update now trig branch) q)
      else q @ [inserted_row now (next_rowid q) repo_id repo_url trig branch])"

text \<open>The sub-select of a claim: the first pending row past its debounce, by priority, then age.\<close>

definition claimable :: "int \<Rightarrow> int \<Rightarrow> job_row \<Rightarrow> bool" where
  "claimable now debounce_secs r \<longleftrightarrow> c_status r = ''pending'' \<and> c_updated_at r + debounce_secs \<le> now"

definition before :: "job_row \<Rightarrow> job_row \<Rightarrow> bool" where
  "before a b \<longleftrightarrow>
     c_priority a < c_priority b \<or> (c_priority a = c_priority b \<and> c_created_at a \<le> c_created_at b)"

fun first_by :: "job_row list \<Rightarrow> job_row option" where
  "first_by [] = None"
| "first_by (r # rs) =
     (case first_by rs of None \<Rightarrow> Some r | Some b \<Rightarrow> if before r b then Some r else Some b)"

definition claimed_row :: "int \<Rightarrow> string \<Rightarrow> int \<Rightarrow> job_row \<Rightarrow> job_row" where
  "claimed_row now token lease_secs r =
     r\<lparr>c_status := ''running'', c_started_at := Some now, c_attempt := c_attempt r + 1,
       c_requeue_needed := 0, c_claimed_by := Some token, c_lease_expires_at := Some (now + lease_secs),
       c_updated_at := now\<rparr>"

definition claim_next_with_lease :: "int \<Rightarrow> string \<Rightarrow> int \<Rightarrow> int \<Rightarrow> queue \<Rightarrow> index_job option \<times> queue" where
  "claim_next_with_lease now token debounce_secs lease_secs q =
     (case first_by (filter (claimable now debounce_secs) q) of
        None \<Rightarrow> (None, q)
      | Some r \<Rightarrow>
          (Some (row_to_job (claimed_row now token lease_secs r)),
           fst (update_where (\<lambda>x. c_id x = c_id r) (claimed_row now token lease_secs) q)))"

definition claim_next :: "int \<Rightarrow> string \<Rightarrow> int \<Rightarrow> queue \<Rightarrow> index_job option \<times> queue" where
  "claim_next now token debounce_secs q = claim_next_with_lease now token debounce_secs DEFAULT_LEASE_SECS q"

definition complete :: "int \<Rightarrow> int \<Rightarrow> string \<Rightarrow> string option \<Rightarrow> queue \<Rightarrow> queue" where
  "complete now job_id repo_id claimed_by q =
     fst (update_where (\<lambda>r. c_id r = job_id \<and> c_repo_id r = repo_id \<and> c_status r = ''running'' \<and>
            c_claimed_by r = claimed_by)
       (\<lambda>r. r\<lparr>c_status := ''succeeded'', c_completed_at := Some now\<rparr>) q)"

definition requeue_if_stale :: "int \<Rightarrow> string \<Rightarrow> queue \<Rightarrow> queue \<times> bool" where
  "requeue_if_stale now repo_id q =
     (case update_where (\<lambda>r. c_repo_id r = repo_id \<and> c_status r = ''succeeded'' \<and> c_requeue_needed r = 1)
        (\<lambda>r. r\<lparr>c_status := ''pending'', c_attempt := 0, c_requeue_needed := 0, c_updated_at := now\<rparr>) q of
        (q', changed) \<Rightarrow> (q', changed > 0))"

definition cancel_repo :: "int \<Rightarrow> string \<Rightarrow> queue \<Rightarrow> queue \<times> nat" where
  "cancel_repo now repo_id q =
     update_where (\<lambda>r. c_repo_id r = repo_id \<and> c_status r \<noteq> ''cancelled'')
       (\<lambda>r. r\<lparr>c_status := ''cancelled'', c_updated_at := now\<rparr>) q"

definition job_for_repo :: "string \<Rightarrow> queue \<Rightarrow> index_job option" where
  "job_for_repo repo_id q = map_option row_to_job (find (\<lambda>r. c_repo_id r = repo_id) q)"

definition set_branch :: "int \<Rightarrow> string \<Rightarrow> string \<Rightarrow> queue \<Rightarrow> queue" where
  "set_branch now repo_id branch q =
     fst (update_where (\<lambda>r. c_repo_id r = repo_id)
       (\<lambda>r. r\<lparr>c_branch := Some branch, c_updated_at := now\<rparr>) q)"

definition clear_branch :: "int \<Rightarrow> string \<Rightarrow> queue \<Rightarrow> queue" where
  "clear_branch now repo_id q =
     fst (update_where (\<lambda>r. c_repo_id r = repo_id) (\<lambda>r. r\<lparr>c_branch := None, c_updated_at := now\<rparr>) q)"

definition enqueue_declared_repo ::
  "int \<Rightarrow> string \<Rightarrow> string \<Rightarrow> job_trigger \<Rightarrow> string option \<Rightarrow> queue \<Rightarrow> queue \<times> bool" where
  "enqueue_declared_repo now repo_id repo_url trig branch q =
     (let enqueue = (upsert now repo_id repo_url trig branch q, True)
      in case job_for_repo repo_id q of
        None \<Rightarrow> enqueue
      | Some job \<Rightarrow>
          if j_status job = DeadLetter
          then ((case branch of
                   Some b \<Rightarrow> if j_branch job \<noteq> Some b then set_branch now repo_id b q else q
                 | None \<Rightarrow> if j_branch job \<noteq> None then clear_branch now repo_id q else q), False)
          else enqueue)"

text \<open>The loop over the active repositories; each iteration is a statement of its own.\<close>

fun cancel_each :: "int \<Rightarrow> string set \<Rightarrow> string list \<Rightarrow> queue \<Rightarrow> queue \<times> string list" where
  "cancel_each now keep [] q = (q, [])"
| "cancel_each now keep (repo_id # rest) q =
     (if repo_id \<notin> keep
      then (case cancel_repo now repo_id q of (q1, changed) \<Rightarrow>
              (case cancel_each now keep rest q1 of (q2, cancelled) \<Rightarrow>
                 (q2, if changed > 0 then repo_id # cancelled else cancelled)))
      else cancel_each now keep rest q)"

definition cancel_repos_not_in :: "int \<Rightarrow> string set \<Rightarrow> queue \<Rightarrow> queue \<times> string list" where
  "cancel_repos_not_in now keep q =
     cancel_each now keep
       (map c_repo_id (filter (\<lambda>r. c_status r \<in> {''pending'', ''running'', ''failed'', ''dead_letter''}) q)) q"

definition job_is_active :: "int \<Rightarrow> string \<Rightarrow> queue \<Rightarrow> bool" where
  "job_is_active job_id repo_id q \<longleftrightarrow>
     length (filter (\<lambda>r. c_id r = job_id \<and> c_repo_id r = repo_id \<and> c_status r = ''running'') q) > 0"

definition claim_is_active :: "index_job \<Rightarrow> queue \<Rightarrow> bool" where
  "claim_is_active job q \<longleftrightarrow>
     length (filter (\<lambda>r. c_id r = j_id job \<and> c_repo_id r = j_repo_id job \<and> c_status r = ''running'' \<and>
       c_claimed_by r = j_claimed_by job) q) > 0"

text \<open>\<^verbatim>\<open>fail\<close> first reads the row; a missing row is the error \<^verbatim>\<open>QueryReturnedNoRows\<close>, here \<open>None\<close>.\<close>

definition fail_job :: "int \<Rightarrow> int \<Rightarrow> string option \<Rightarrow> string \<Rightarrow> bool \<Rightarrow> queue \<Rightarrow> queue option" where
  "fail_job now job_id claimed_by err is_poison q =
     (case find (\<lambda>r. c_id r = job_id) q of
        None \<Rightarrow> None
      | Some row \<Rightarrow>
          Some (fst (update_where (\<lambda>r. c_id r = job_id \<and> c_status r = ''running'' \<and> c_claimed_by r = claimed_by)
            (if is_poison \<or> c_attempt row \<ge> c_max_attempts row
             then (\<lambda>r. r\<lparr>c_status := ''dead_letter'', c_error_msg := Some err, c_completed_at := Some now,
                         c_updated_at := now\<rparr>)
             else (\<lambda>r. r\<lparr>c_status := ''pending'', c_trigger := ''retry'', c_priority := 4,
                         c_error_msg := Some err, c_updated_at := now\<rparr>)) q)))"

definition defer_job :: "int \<Rightarrow> int \<Rightarrow> string option \<Rightarrow> queue \<Rightarrow> queue" where
  "defer_job now job_id claimed_by q =
     fst (update_where (\<lambda>r. c_id r = job_id \<and> c_status r = ''running'' \<and> c_claimed_by r = claimed_by)
       (\<lambda>r. r\<lparr>c_status := ''pending'', c_attempt := max 0 (c_attempt r - 1), c_claimed_by := None,
              c_lease_expires_at := None, c_started_at := None, c_created_at := now, c_updated_at := now\<rparr>) q)"

definition recover_stale :: "int \<Rightarrow> int \<Rightarrow> queue \<Rightarrow> queue \<times> nat" where
  "recover_stale now timeout_secs q =
     update_where (\<lambda>r. c_status r = ''running'' \<and>
         (case c_started_at r of Some t \<Rightarrow> t + timeout_secs \<le> now | None \<Rightarrow> False))
       (\<lambda>r. r\<lparr>c_status := ''pending'', c_started_at := None, c_updated_at := now\<rparr>) q"

definition recover_all_running_at_startup :: "int \<Rightarrow> queue \<Rightarrow> queue \<times> nat" where
  "recover_all_running_at_startup now q =
     update_where (\<lambda>r. c_status r = ''running'')
       (\<lambda>r. r\<lparr>c_status := ''pending'', c_started_at := None, c_updated_at := now\<rparr>) q"

text \<open>The reaper compares leases with its argument \<open>cutoff\<close>; the stamps it writes are \<open>now\<close>.\<close>

definition reaped_row :: "int \<Rightarrow> job_row \<Rightarrow> job_row" where
  "reaped_row now r =
     (let spent = c_attempt r \<ge> c_max_attempts r
      in r\<lparr>c_status := (if spent then ''dead_letter'' else ''pending''),
           c_error_msg := (if spent then Some ''lease expired: max attempts exceeded'' else c_error_msg r),
           c_completed_at := (if spent then Some now else c_completed_at r),
           c_started_at := (if spent then c_started_at r else None),
           c_claimed_by := None, c_lease_expires_at := None, c_updated_at := now\<rparr>)"

definition reap_expired_leases :: "int \<Rightarrow> int \<Rightarrow> queue \<Rightarrow> queue \<times> nat" where
  "reap_expired_leases now cutoff q =
     update_where (\<lambda>r. c_status r = ''running'' \<and>
         (case c_lease_expires_at r of Some l \<Rightarrow> l < cutoff | None \<Rightarrow> False))
       (reaped_row now) q"

record queue_depth =
  d_pending :: int
  d_running :: int
  d_succeeded :: int
  d_dead_letter :: int

definition count_status :: "string \<Rightarrow> queue \<Rightarrow> int" where
  "count_status s q = int (length (filter (\<lambda>r. c_status r = s) q))"

definition queue_depth_of :: "queue \<Rightarrow> queue_depth" where
  "queue_depth_of q =
     \<lparr>d_pending = count_status ''pending'' q, d_running = count_status ''running'' q,
      d_succeeded = count_status ''succeeded'' q, d_dead_letter = count_status ''dead_letter'' q\<rparr>"

text \<open>Durations are differences of whole seconds here; the code converts them to floats.\<close>

record running_job_info =
  ri_repo :: string
  ri_started_at :: "int option"
  ri_duration_s :: int

definition running_jobs :: "int \<Rightarrow> queue \<Rightarrow> running_job_info list" where
  "running_jobs now q =
     map (\<lambda>r. \<lparr>ri_repo = c_repo_id r, ri_started_at = c_started_at r,
                ri_duration_s = (case c_started_at r of Some t \<Rightarrow> now - t | None \<Rightarrow> 0)\<rparr>)
       (filter (\<lambda>r. c_status r = ''running'') q)"

record completed_job_metric =
  m_id :: int
  m_status :: job_status
  m_duration_s :: int
  m_completed_at :: int

definition completed_job_metrics_after :: "int \<Rightarrow> queue \<Rightarrow> completed_job_metric list" where
  "completed_job_metrics_after since q =
     sort_key m_completed_at (sort_key m_id (concat (map (\<lambda>r.
       case (c_completed_at r, c_started_at r) of
         (Some c, Some t) \<Rightarrow>
           if c > since
           then [\<lparr>m_id = c_id r, m_status = status_from_str (c_status r), m_duration_s = max 0 (c - t),
                  m_completed_at = c\<rparr>]
           else []
       | _ \<Rightarrow> []) q)))"

definition dead_letters :: "queue \<Rightarrow> index_job list" where
  "dead_letters q =
     map row_to_job (sort_key (\<lambda>r. - c_updated_at r) (filter (\<lambda>r. c_status r = ''dead_letter'') q))"

definition reset_row :: "int \<Rightarrow> job_row \<Rightarrow> job_row" where
  "reset_row now r =
     r\<lparr>c_status := ''pending'', c_attempt := 0, c_error_msg := None, c_started_at := None,
       c_completed_at := None, c_updated_at := now\<rparr>"

definition reset_dead_letter :: "int \<Rightarrow> string \<Rightarrow> queue \<Rightarrow> queue" where
  "reset_dead_letter now repo_id q =
     fst (update_where (\<lambda>r. c_repo_id r = repo_id \<and> c_status r = ''dead_letter'') (reset_row now) q)"

definition reset_dead_letter_by_id :: "int \<Rightarrow> int \<Rightarrow> queue \<Rightarrow> queue \<times> bool" where
  "reset_dead_letter_by_id now job_id q =
     (case update_where (\<lambda>r. c_id r = job_id \<and> c_status r = ''dead_letter'') (reset_row now) q of
        (q', updated) \<Rightarrow> (q', updated > 0))"

definition dismiss_dead_letter :: "int \<Rightarrow> queue \<Rightarrow> queue \<times> bool" where
  "dismiss_dead_letter job_id q =
     (filter (\<lambda>r. \<not> (c_id r = job_id \<and> c_status r = ''dead_letter'')) q,
      list_ex (\<lambda>r. c_id r = job_id \<and> c_status r = ''dead_letter'') q)"

text \<open>The persisted state of the re-index tracker, keyed by repository.\<close>

type_synonym reindex_rows = "(string \<times> int \<times> int option) list"

definition load_reindex_state :: "reindex_rows \<Rightarrow> (string \<times> u32 \<times> int option) list" where
  "load_reindex_state rows = map (\<lambda>(repo_id, count, last_full). (repo_id, of_int (max 0 count), last_full)) rows"

fun upsert_reindex_state :: "string \<Rightarrow> u32 \<Rightarrow> int option \<Rightarrow> reindex_rows \<Rightarrow> reindex_rows" where
  "upsert_reindex_state repo_id count last_full [] = [(repo_id, uint count, last_full)]"
| "upsert_reindex_state repo_id count last_full ((k, v) # rows) =
     (if k = repo_id then (k, uint count, last_full) # rows
      else (k, v) # upsert_reindex_state repo_id count last_full rows)"

fun pop_slashes :: "string \<Rightarrow> string" where
  "pop_slashes rev_s = (case rev_s of c # r \<Rightarrow> if c = CHR ''/'' then pop_slashes r else rev_s | [] \<Rightarrow> [])"

declare pop_slashes.simps [simp del]

definition canonical_repo_id :: "string \<Rightarrow> string" where
  "canonical_repo_id url =
     (let s = rev (pop_slashes (rev url))
      in if suffix ''.git'' s then take (length s - 4) s else s)"

section \<open>Runs of the queue\<close>

text \<open>Every operation that changes the table, executed at its own time.\<close>

datatype job_op =
  OUpsert string string job_trigger "string option"
| OEnqueue string string job_trigger "string option"
| OClaim string int int
| OComplete int string "string option"
| ORequeue string
| OCancel string
| OCancelNotIn "string set"
| OSetBranch string string
| OClearBranch string
| OFail int "string option" string bool
| ODefer int "string option"
| ORecoverStale int
| ORecoverAll
| OReap int
| OReset string
| OResetId int
| ODismiss int

fun job_exec :: "int \<times> job_op \<Rightarrow> queue \<Rightarrow> queue" where
  "job_exec (now, OUpsert repo_id url trig branch) q = upsert now repo_id url trig branch q"
| "job_exec (now, OEnqueue repo_id url trig branch) q = fst (enqueue_declared_repo now repo_id url trig branch q)"
| "job_exec (now, OClaim token debounce lease) q = snd (claim_next_with_lease now token debounce lease q)"
| "job_exec (now, OComplete job_id repo_id tok) q = complete now job_id repo_id tok q"
| "job_exec (now, ORequeue repo_id) q = fst (requeue_if_stale now repo_id q)"
| "job_exec (now, OCancel repo_id) q = fst (cancel_repo now repo_id q)"
| "job_exec (now, OCancelNotIn keep) q = fst (cancel_repos_not_in now keep q)"
| "job_exec (now, OSetBranch repo_id b) q = set_branch now repo_id b q"
| "job_exec (now, OClearBranch repo_id) q = clear_branch now repo_id q"
| "job_exec (now, OFail job_id tok err poison) q =
     (case fail_job now job_id tok err poison q of Some q' \<Rightarrow> q' | None \<Rightarrow> q)"
| "job_exec (now, ODefer job_id tok) q = defer_job now job_id tok q"
| "job_exec (now, ORecoverStale secs) q = fst (recover_stale now secs q)"
| "job_exec (now, ORecoverAll) q = fst (recover_all_running_at_startup now q)"
| "job_exec (now, OReap cutoff) q = fst (reap_expired_leases now cutoff q)"
| "job_exec (now, OReset repo_id) q = reset_dead_letter now repo_id q"
| "job_exec (now, OResetId job_id) q = fst (reset_dead_letter_by_id now job_id q)"
| "job_exec (now, ODismiss job_id) q = fst (dismiss_dead_letter job_id q)"

text \<open>What an operation can make of one row.\<close>

inductive row_step :: "int \<Rightarrow> job_op \<Rightarrow> job_row \<Rightarrow> job_row \<Rightarrow> bool" for now where
  upserted: "row_step now (OUpsert i u tr br) r (conflict_update now tr br r)"
| declared: "status_from_str (c_status r) \<noteq> DeadLetter \<Longrightarrow>
    row_step now (OEnqueue i u tr br) r (conflict_update now tr br r)"
| branched: "op = OEnqueue i u tr br \<or> op = OSetBranch i b' \<or> op = OClearBranch i \<Longrightarrow>
    row_step now op r (r\<lparr>c_branch := b, c_updated_at := now\<rparr>)"
| claimed: "c_status r = ''pending'' \<Longrightarrow> row_step now (OClaim tok d l) r (claimed_row now tok l r)"
| completed: "c_status r = ''running'' \<Longrightarrow> c_claimed_by r = tok \<Longrightarrow>
    row_step now (OComplete j i tok) r (r\<lparr>c_status := ''succeeded'', c_completed_at := Some now\<rparr>)"
| requeued: "c_status r = ''succeeded'' \<Longrightarrow>
    row_step now (ORequeue i) r
      (r\<lparr>c_status := ''pending'', c_attempt := 0, c_requeue_needed := 0, c_updated_at := now\<rparr>)"
| cancelled: "op = OCancel i \<or> op = OCancelNotIn keep \<Longrightarrow>
    row_step now op r (r\<lparr>c_status := ''cancelled'', c_updated_at := now\<rparr>)"
| buried: "c_status r = ''running'' \<Longrightarrow> c_claimed_by r = tok \<Longrightarrow>
    row_step now (OFail j tok e p) r
      (r\<lparr>c_status := ''dead_letter'', c_error_msg := Some e, c_completed_at := Some now, c_updated_at := now\<rparr>)"
| retried: "c_status r = ''running'' \<Longrightarrow> c_claimed_by r = tok \<Longrightarrow> c_attempt r < c_max_attempts r \<Longrightarrow>
    row_step now (OFail j tok e p) r
      (r\<lparr>c_status := ''pending'', c_trigger := ''retry'', c_priority := 4, c_error_msg := Some e,
         c_updated_at := now\<rparr>)"
| deferred: "c_status r = ''running'' \<Longrightarrow> c_claimed_by r = tok \<Longrightarrow>
    row_step now (ODefer j tok) r
      (r\<lparr>c_status := ''pending'', c_attempt := max 0 (c_attempt r - 1), c_claimed_by := None,
         c_lease_expires_at := None, c_started_at := None, c_created_at := now, c_updated_at := now\<rparr>)"
| recovered: "c_status r = ''running'' \<Longrightarrow> op = ORecoverStale secs \<or> op = ORecoverAll \<Longrightarrow>
    row_step now op r (r\<lparr>c_status := ''pending'', c_started_at := None, c_updated_at := now\<rparr>)"
| reaped: "c_status r = ''running'' \<Longrightarrow> c_lease_expires_at r = Some l \<Longrightarrow> l < cutoff \<Longrightarrow>
    row_step now (OReap cutoff) r
      (reaped_row now r)"
| reset: "c_status r = ''dead_letter'' \<Longrightarrow> op = OReset i \<or> op = OResetId j \<Longrightarrow>
    row_step now op r (reset_row now r)"

inductive_cases row_stepE: "row_step now op r r'"

lemma update_where_rows:
  "r' \<in> set (fst (update_where P f q)) \<Longrightarrow> r' \<in> set q \<or> (\<exists>r\<in>set q. P r \<and> r' = f r)"
  by (auto simp: update_where_def)

lemma update_where_keys:
  assumes "\<And>r. c_id (f r) = c_id r" and "\<And>r. c_repo_id (f r) = c_repo_id r"
  shows "map c_id (fst (update_where P f q)) = map c_id q"
    and "map c_repo_id (fst (update_where P f q)) = map c_repo_id q"
  using assms by (simp_all add: update_where_def)

lemma first_by_mem: "first_by rs = Some r \<Longrightarrow> r \<in> set rs"
  by (induction rs arbitrary: r) (auto split: option.splits if_splits)

lemma first_by_None: "first_by rs = None \<longleftrightarrow> rs = []"
  by (cases rs) (auto split: option.splits)

lemma before_trans: "before a b \<Longrightarrow> before b c \<Longrightarrow> before a c"
  by (auto simp: before_def)

lemma before_total: "before a b \<or> before b a"
  by (auto simp: before_def)

lemma first_by_least: "first_by rs = Some r \<Longrightarrow> s \<in> set rs \<Longrightarrow> before r s"
proof (induction rs arbitrary: r s)
  case (Cons a rs)
  show ?case
  proof (cases "first_by rs")
    case None
    then have "rs = []" by (simp add: first_by_None)
    with Cons.prems show ?thesis by (simp add: before_def)
  next
    case (Some b)
    have b: "before b s" if "s \<in> set rs" using Cons.IH [OF Some that] .
    show ?thesis
    proof (cases "before a b")
      case True
      with Some Cons.prems have "r = a" by simp
      with True Cons.prems(2) b before_trans show ?thesis by (auto simp: before_def)
    next
      case False
      with Some Cons.prems have "r = b" by simp
      moreover have "before b a" using False before_total by blast
      ultimately show ?thesis using Cons.prems(2) b by auto
    qed
  qed
qed simp

lemma cancel_each_rows:
  "r' \<in> set (fst (cancel_each now keep ids q)) \<Longrightarrow>
   r' \<in> set q \<or> (\<exists>r\<in>set q. r' = r\<lparr>c_status := ''cancelled'', c_updated_at := now\<rparr>)"
proof (induction ids arbitrary: q)
  case (Cons i ids)
  show ?case
  proof (cases "i \<in> keep")
    case True
    with Cons show ?thesis by simp
  next
    case False
    let ?q1 = "fst (cancel_repo now i q)"
    have "r' \<in> set (fst (cancel_each now keep ids ?q1))"
      using Cons.prems False by (auto split: prod.splits)
    from Cons.IH [OF this] show ?thesis
    proof
      assume "r' \<in> set ?q1"
      then show ?thesis unfolding cancel_repo_def by (auto dest!: update_where_rows)
    next
      assume "\<exists>r\<in>set ?q1. r' = r\<lparr>c_status := ''cancelled'', c_updated_at := now\<rparr>"
      then obtain r where r: "r \<in> set ?q1" "r' = r\<lparr>c_status := ''cancelled'', c_updated_at := now\<rparr>" by blast
      then have "r \<in> set q \<or> (\<exists>s\<in>set q. r = s\<lparr>c_status := ''cancelled'', c_updated_at := now\<rparr>)"
        unfolding cancel_repo_def by (auto dest!: update_where_rows)
      with r(2) show ?thesis by auto
    qed
  qed
qed simp

lemma cancel_each_keys:
  "map c_id (fst (cancel_each now keep ids q)) = map c_id q \<and>
   map c_repo_id (fst (cancel_each now keep ids q)) = map c_repo_id q"
proof (induction ids arbitrary: q)
  case (Cons i ids)
  have "map c_id (fst (cancel_repo now i q)) = map c_id q"
    "map c_repo_id (fst (cancel_repo now i q)) = map c_repo_id q"
    unfolding cancel_repo_def by (simp_all add: update_where_keys)
  with Cons [of "fst (cancel_repo now i q)"] Cons [of q] show ?case by (auto split: prod.splits)
qed simp

lemma find_mem: "find P xs = Some x \<Longrightarrow> x \<in> set xs \<and> P x"
  by (induction xs) (auto split: if_splits)

definition queue_keys :: "queue \<Rightarrow> bool" where
  "queue_keys q \<longleftrightarrow> distinct (map c_id q) \<and> distinct (map c_repo_id q)"

lemma same_row: "queue_keys q \<Longrightarrow> r \<in> set q \<Longrightarrow> s \<in> set q \<Longrightarrow> c_id r = c_id s \<Longrightarrow> r = s"
  by (auto simp: queue_keys_def distinct_map dest: inj_onD)

lemma same_repo: "queue_keys q \<Longrightarrow> r \<in> set q \<Longrightarrow> s \<in> set q \<Longrightarrow> c_repo_id r = c_repo_id s \<Longrightarrow> r = s"
  by (auto simp: queue_keys_def distinct_map dest: inj_onD)

lemma upsert_rows:
  "r' \<in> set (upsert now i u tr br q) \<Longrightarrow>
   r' \<in> set q \<or> (\<exists>r\<in>set q. c_repo_id r = i \<and> r' = conflict_update now tr br r) \<or>
   r' = inserted_row now (next_rowid q) i u tr br"
  by (auto simp: upsert_def split: if_splits dest!: update_where_rows)

lemma enqueue_rows:
  assumes "queue_keys q" and "r' \<in> set (fst (enqueue_declared_repo now i u tr br q))"
  shows "r' \<in> set q \<or> (\<exists>r\<in>set q. row_step now (OEnqueue i u tr br) r r') \<or>
    r' = inserted_row now (next_rowid q) i u tr br"
proof (cases "job_for_repo i q")
  case None
  then have "\<not> (\<exists>r\<in>set q. c_repo_id r = i)"
    by (auto simp: job_for_repo_def find_None_iff)
  with None assms(2) show ?thesis
    by (auto simp: enqueue_declared_repo_def dest!: upsert_rows)
next
  case (Some job)
  then obtain r where r: "r \<in> set q" "c_repo_id r = i" "job = row_to_job r"
    by (auto simp: job_for_repo_def dest: find_mem)
  show ?thesis
  proof (cases "j_status job = DeadLetter")
    case True
    with Some assms(2) show ?thesis
      by (auto simp: enqueue_declared_repo_def set_branch_def clear_branch_def split: option.splits if_splits
          dest!: update_where_rows intro: branched)
  next
    case False
    then have "status_from_str (c_status r) \<noteq> DeadLetter"
      using r(3) by (simp add: row_to_job_def)
    moreover have "s = r" if "s \<in> set q" "c_repo_id s = i" for s
      using same_repo [OF assms(1) that(1) r(1)] that(2) r(2) by simp
    ultimately show ?thesis
      using Some False assms(2) by (auto simp: enqueue_declared_repo_def dest!: upsert_rows intro: declared)
  qed
qed

lemma fail_rows:
  assumes "queue_keys q" and "fail_job now j tok e p q = Some q'" and "r' \<in> set q'"
  shows "r' \<in> set q \<or> (\<exists>r\<in>set q. row_step now (OFail j tok e p) r r')"
proof -
  obtain row where row: "row \<in> set q" "c_id row = j" "find (\<lambda>r. c_id r = j) q = Some row"
    using assms(2) by (auto simp: fail_job_def split: option.splits dest: find_mem)
  have uniq: "s = row" if "s \<in> set q" "c_id s = j" for s
    using same_row [OF assms(1) that(1) row(1)] that(2) row(2) by simp
  have only: "r' \<in> set q \<or> (c_status row = ''running'' \<and> c_claimed_by row = tok \<and> r' = f row)"
    if "r' \<in> set (fst (update_where (\<lambda>r. c_id r = j \<and> c_status r = ''running'' \<and> c_claimed_by r = tok) f q))"
    for f using update_where_rows [OF that] uniq by blast
  show ?thesis
  proof (cases "p \<or> c_attempt row \<ge> c_max_attempts row")
    case True
    then have "r' \<in> set (fst (update_where (\<lambda>r. c_id r = j \<and> c_status r = ''running'' \<and> c_claimed_by r = tok)
        (\<lambda>r. r\<lparr>c_status := ''dead_letter'', c_error_msg := Some e, c_completed_at := Some now,
          c_updated_at := now\<rparr>) q))"
      using assms(2,3) row(3) by (simp add: fail_job_def)
    from only [OF this] show ?thesis using buried [of row tok now j e p] row(1) by blast
  next
    case False
    then have "r' \<in> set (fst (update_where (\<lambda>r. c_id r = j \<and> c_status r = ''running'' \<and> c_claimed_by r = tok)
        (\<lambda>r. r\<lparr>c_status := ''pending'', c_trigger := ''retry'', c_priority := 4,
          c_error_msg := Some e, c_updated_at := now\<rparr>) q))"
      using assms(2,3) row(3) by (simp add: fail_job_def)
    from only [OF this] show ?thesis using retried [of row tok now j e p] row(1) False by force
  qed
qed

lemma claim_rows:
  assumes "queue_keys q" and "r' \<in> set (snd (claim_next_with_lease now tok d l q))"
  shows "r' \<in> set q \<or> (\<exists>r\<in>set q. row_step now (OClaim tok d l) r r')"
proof (cases "first_by (filter (claimable now d) q)")
  case None
  with assms(2) show ?thesis by (simp add: claim_next_with_lease_def)
next
  case (Some r)
  then have r: "r \<in> set q" "c_status r = ''pending''"
    using first_by_mem [OF Some] by (auto simp: claimable_def)
  have "s = r" if "s \<in> set q" "c_id s = c_id r" for s
    using same_row [OF assms(1) that(1) r(1) that(2)] .
  with Some assms(2) r show ?thesis
    by (auto simp: claim_next_with_lease_def dest!: update_where_rows intro: claimed)
qed

lemma job_exec_rows:
  assumes "queue_keys q" and "r' \<in> set (job_exec (now, op) q)"
  shows "r' \<in> set q \<or> (\<exists>r\<in>set q. row_step now op r r') \<or>
    (\<exists>rowid i u tr br. r' = inserted_row now rowid i u tr br)"
proof (cases op)
  case (OUpsert i u tr br)
  with assms(2) have "r' \<in> set (upsert now i u tr br q)" by simp
  from upsert_rows [OF this] OUpsert show ?thesis using upserted by blast
next
  case (OEnqueue i u tr br)
  with assms show ?thesis using enqueue_rows by fastforce
next
  case (OClaim tok d l)
  with assms show ?thesis using claim_rows by fastforce
next
  case (OFail j tok e p)
  with assms show ?thesis using fail_rows by (fastforce split: option.splits)
next
  case (OCancelNotIn keep)
  with assms(2) show ?thesis
    by (auto simp: cancel_repos_not_in_def dest!: cancel_each_rows intro: row_step.cancelled)
next
  case (OReap cutoff)
  with assms(2) have "r' \<in> set q \<or> (\<exists>r\<in>set q. c_status r = ''running'' \<and>
      (\<exists>l. c_lease_expires_at r = Some l \<and> l < cutoff) \<and> r' = reaped_row now r)"
    by (auto simp: reap_expired_leases_def dest!: update_where_rows split: option.splits)
  with OReap show ?thesis using reaped by metis
next
  case (ORecoverStale secs)
  with assms(2) have "r' \<in> set q \<or> (\<exists>r\<in>set q. c_status r = ''running'' \<and>
      r' = r\<lparr>c_status := ''pending'', c_started_at := None, c_updated_at := now\<rparr>)"
    by (auto simp: recover_stale_def dest!: update_where_rows split: option.splits)
  with ORecoverStale show ?thesis using recovered [of _ op secs now] by blast
qed (use assms(2) in \<open>auto simp: complete_def requeue_if_stale_def cancel_repo_def set_branch_def
    clear_branch_def defer_job_def recover_all_running_at_startup_def
    reset_dead_letter_def reset_dead_letter_by_id_def dismiss_dead_letter_def split_beta
    dest!: update_where_rows
    intro: completed requeued row_step.cancelled branched deferred recovered reset\<close>)

section \<open>Keys\<close>

lemma row_functions_keys [simp]:
  "c_id (conflict_update now tr br r) = c_id r" "c_repo_id (conflict_update now tr br r) = c_repo_id r"
  "c_id (claimed_row now tok l r) = c_id r" "c_repo_id (claimed_row now tok l r) = c_repo_id r"
  "c_id (reaped_row now r) = c_id r" "c_repo_id (reaped_row now r) = c_repo_id r"
  "c_id (reset_row now r) = c_id r" "c_repo_id (reset_row now r) = c_repo_id r"
  by (simp_all add: conflict_update_def claimed_row_def reaped_row_def reset_row_def Let_def)

lemma next_rowid_fresh: "next_rowid q \<notin> set (map c_id q)"
proof
  assume mem: "next_rowid q \<in> set (map c_id q)"
  then have "q \<noteq> []" by auto
  moreover have "next_rowid q \<le> Max (set (map c_id q))" using mem by (intro Max_ge) auto
  ultimately show False by (simp add: next_rowid_def)
qed

lemma queue_keys_update:
  assumes "queue_keys q" and "\<And>r. c_id (f r) = c_id r" and "\<And>r. c_repo_id (f r) = c_repo_id r"
  shows "queue_keys (fst (update_where P f q))"
  using assms update_where_keys [of f P q] by (simp add: queue_keys_def)

lemma queue_keys_upsert: "queue_keys q \<Longrightarrow> queue_keys (upsert now i u tr br q)"
proof -
  assume keys: "queue_keys q"
  have "c_id (inserted_row now n i u tr br) = n" "c_repo_id (inserted_row now n i u tr br) = i" for n
    by (simp_all add: inserted_row_def)
  then have "queue_keys (q @ [inserted_row now (next_rowid q) i u tr br])" if "\<not> list_ex (\<lambda>r. c_repo_id r = i) q"
    using keys that next_rowid_fresh [of q] by (auto simp: queue_keys_def list_ex_iff)
  with queue_keys_update [OF keys] show ?thesis by (simp add: upsert_def)
qed

lemma queue_keys_exec: "queue_keys q \<Longrightarrow> queue_keys (job_exec step q)"
proof -
  assume keys: "queue_keys q"
  obtain now op where step: "step = (now, op)" by (cases step)
  show ?thesis
  proof (cases op)
    case (OUpsert i u tr br)
    with step keys show ?thesis by (simp add: queue_keys_upsert)
  next
    case (OEnqueue i u tr br)
    with step keys show ?thesis
      by (auto simp: enqueue_declared_repo_def set_branch_def clear_branch_def Let_def queue_keys_upsert
          queue_keys_update split: option.splits)
  next
    case (OClaim tok d l)
    with step keys show ?thesis
      by (auto simp: claim_next_with_lease_def queue_keys_update split: option.splits)
  next
    case (OCancelNotIn keep)
    with step keys cancel_each_keys show ?thesis
      by (simp add: cancel_repos_not_in_def queue_keys_def)
  next
    case (OFail j tok e p)
    with step keys show ?thesis
      by (auto simp: fail_job_def queue_keys_update split: option.splits)
  next
    case (ODismiss j)
    with step keys show ?thesis
      by (simp add: dismiss_dead_letter_def queue_keys_def distinct_map_filter)
  qed (use step keys in \<open>simp_all add: complete_def requeue_if_stale_def cancel_repo_def set_branch_def
      clear_branch_def defer_job_def recover_stale_def recover_all_running_at_startup_def
      reap_expired_leases_def reset_dead_letter_def reset_dead_letter_by_id_def split_beta queue_keys_update\<close>)
qed

interpretation queue_runs: step_system job_exec queue_keys
  by unfold_locales (rule queue_keys_exec)

lemma queue_keys_Nil [simp]: "queue_keys []"
  by (simp add: queue_keys_def)

section \<open>Row invariants\<close>

text \<open>
  A property of single rows that insertion establishes and every step of an allowed operation keeps
  holds of all rows after every run of allowed operations.
\<close>

locale row_invariant =
  fixes row_ok :: "job_row \<Rightarrow> bool" and allowed :: "job_op \<Rightarrow> bool"
  assumes inserted_ok: "row_ok (inserted_row now rowid i u tr br)"
    and step_ok: "allowed op \<Longrightarrow> row_ok r \<Longrightarrow> row_step now op r r' \<Longrightarrow> row_ok r'"
begin

lemma run_ok:
  assumes "queue_keys q" and "\<forall>r\<in>set q. row_ok r" and "\<forall>(now, op)\<in>set steps. allowed op"
  shows "\<forall>r\<in>set (fold job_exec steps q). row_ok r"
  using assms
proof (induction steps arbitrary: q)
  case (Cons step steps)
  obtain now op where step: "step = (now, op)" by (cases step)
  have "\<forall>r\<in>set (job_exec step q). row_ok r"
  proof
    fix r'
    assume "r' \<in> set (job_exec step q)"
    from job_exec_rows [OF Cons.prems(1) this [unfolded step]] Cons.prems(2,3) step
    show "row_ok r'" using inserted_ok step_ok by auto
  qed
  moreover have "queue_keys (job_exec step q)" using Cons.prems(1) by (rule queue_keys_exec)
  ultimately show ?case using Cons.IH Cons.prems(3) by simp
qed simp

end

definition holds_token :: "string \<Rightarrow> job_row \<Rightarrow> bool" where
  "holds_token t r \<longleftrightarrow> c_status r = ''running'' \<and> c_claimed_by r = Some t"

fun mints :: "string \<Rightarrow> job_op \<Rightarrow> bool" where
  "mints t (OClaim tok d l) \<longleftrightarrow> tok = t"
| "mints t op = False"

definition token_dead :: "string \<Rightarrow> queue \<Rightarrow> bool" where
  "token_dead t q \<longleftrightarrow> (\<forall>r\<in>set q. \<not> holds_token t r)"

lemmas row_updates = conflict_update_def claimed_row_def reaped_row_def reset_row_def Let_def

interpretation dead_tokens: row_invariant "\<lambda>r. \<not> holds_token t r" "\<lambda>op. \<not> mints t op"
  for t
proof unfold_locales
  fix op r now r'
  assume "\<not> mints t op" "\<not> holds_token t r" "row_step now op r r'"
  then show "\<not> holds_token t r'"
    by (elim row_stepE) (auto simp: holds_token_def row_updates split: if_splits)
qed (simp add: holds_token_def inserted_row_def)

text \<open>A running row carries the token and the lease of its claim.\<close>

definition leased :: "job_row \<Rightarrow> bool" where
  "leased r \<longleftrightarrow> (c_status r = ''running'' \<longrightarrow>
     c_claimed_by r \<noteq> None \<and> c_lease_expires_at r \<noteq> None \<and> c_started_at r \<noteq> None)"

interpretation leases: row_invariant leased "\<lambda>op. True"
proof unfold_locales
  fix op r now r'
  assume "leased r" "row_step now op r r'"
  then show "leased r'"
    by (elim row_stepE) (auto simp: leased_def row_updates split: if_splits)
qed (simp add: leased_def inserted_row_def)

text \<open>The attempt budget, under every operation but the two recoveries that skip it.\<close>

definition in_budget :: "job_row \<Rightarrow> bool" where
  "in_budget r \<longleftrightarrow> c_max_attempts r = 4 \<and> 0 \<le> c_attempt r \<and> c_attempt r \<le> 4 \<and>
     (c_status r = ''pending'' \<longrightarrow> c_attempt r < 4) \<and> (c_status r = ''running'' \<longrightarrow> 1 \<le> c_attempt r) \<and>
     c_status r \<in> {''pending'', ''running'', ''succeeded'', ''dead_letter'', ''cancelled''}"

fun recovers :: "job_op \<Rightarrow> bool" where
  "recovers (ORecoverStale secs) = True"
| "recovers ORecoverAll = True"
| "recovers op = False"

interpretation budget: row_invariant in_budget "\<lambda>op. \<not> recovers op"
proof unfold_locales
  fix op r now r'
  assume "\<not> recovers op" "in_budget r" "row_step now op r r'"
  then show "in_budget r'"
    by (elim row_stepE) (auto simp: in_budget_def row_updates split: if_splits)
qed (simp add: in_budget_def inserted_row_def)

lemma update_where_mem: "r \<in> set q \<Longrightarrow> P r \<Longrightarrow> f r \<in> set (fst (update_where P f q))"
  by (auto simp: update_where_def)

lemma update_where_none: "(\<And>r. r \<in> set q \<Longrightarrow> \<not> P r) \<Longrightarrow> fst (update_where P f q) = q"
  by (simp add: update_where_def map_idI)

section \<open>Properties\<close>

text \<open>
  C25. One job per repository: after any sequence of operations on an empty queue, at any times, no two
  rows have the same repository or the same id, and every running row carries the token, the lease
  and the start time of its claim, so that the reaper can see it.
\<close>

theorem queue_well_formed:
  "let q = fold job_exec steps [] in
     distinct (map c_repo_id q) \<and> distinct (map c_id q) \<and>
     (\<forall>r\<in>set q. c_status r = ''running'' \<longrightarrow>
        c_claimed_by r \<noteq> None \<and> c_lease_expires_at r \<noteq> None \<and> c_started_at r \<noteq> None)"
proof -
  have "queue_keys (fold job_exec steps [])" by (rule queue_runs.run_inv) simp
  moreover have "\<forall>r\<in>set (fold job_exec steps []). leased r" by (rule leases.run_ok) auto
  ultimately show ?thesis by (simp add: Let_def queue_keys_def leased_def)
qed

theorem queue_well_formed_witness:
  "let q = fold job_exec [(0, OUpsert ''r'' ''u'' Poll None), (10, OClaim ''t'' 5 1800)] [] in
     map c_status q = [''running''] \<and> distinct (map c_id q) \<and> (\<forall>r\<in>set q. c_claimed_by r \<noteq> None)"
proof -
  let ?q = "fold job_exec [(0, OUpsert ''r'' ''u'' Poll None), (10, OClaim ''t'' 5 1800)] []"
  have run: "map c_status ?q = [''running'']" "length ?q = 1"
    by (simp_all add: upsert_def inserted_row_def next_rowid_def claim_next_with_lease_def claimable_def
        update_where_def claimed_row_def)
  then have "c_status r = ''running''" if "r \<in> set ?q" for r
    using that by (metis (no_types, lifting) image_eqI list.set_map set_ConsD empty_iff empty_set)
  with run queue_well_formed [of "[(0, OUpsert ''r'' ''u'' Poll None), (10, OClaim ''t'' 5 1800)]"]
  show ?thesis unfolding Let_def by blast
qed

text \<open>
  C1. Fencing: once no running row carries a claim's token (the job was completed, failed, deferred,
  cancelled, reaped, recovered, or re-issued under another token), nothing its holder does can touch
  the queue, whatever happens in between, as long as the token is not minted again: completing, failing
  and deferring with it leave the table as it is, and the claim never counts as active.
\<close>

theorem stale_token_is_fenced:
  assumes "queue_keys q" and "token_dead t q" and "\<forall>(now, op)\<in>set steps. \<not> mints t op"
  defines "q' \<equiv> fold job_exec steps q"
  shows "complete now job_id repo_id (Some t) q' = q' \<and> defer_job now job_id (Some t) q' = q' \<and>
    fail_job now job_id (Some t) err poison q' \<in> {None, Some q'} \<and>
    (j_claimed_by job = Some t \<longrightarrow> \<not> claim_is_active job q')"
proof -
  have "\<forall>r\<in>set q'. \<not> holds_token t r"
    unfolding q'_def using assms(1) _ assms(3) by (rule dead_tokens.run_ok) (use assms(2) in \<open>simp add: token_dead_def\<close>)
  then have dead: "\<not> (c_status r = ''running'' \<and> c_claimed_by r = Some t)" if "r \<in> set q'" for r
    using that by (auto simp: holds_token_def)
  have "complete now job_id repo_id (Some t) q' = q'"
    unfolding complete_def by (rule update_where_none) (use dead in blast)
  moreover have "defer_job now job_id (Some t) q' = q'"
    unfolding defer_job_def by (rule update_where_none) (use dead in blast)
  moreover have "fst (update_where (\<lambda>r. c_id r = job_id \<and> c_status r = ''running'' \<and> c_claimed_by r = Some t) f q') = q'"
    for f by (rule update_where_none) (use dead in blast)
  moreover have "\<not> claim_is_active job q'" if "j_claimed_by job = Some t"
    using dead that by (auto simp: claim_is_active_def filter_empty_conv)
  ultimately show ?thesis
    by (auto simp: fail_job_def split: option.splits)
qed

definition reclaimed_run :: "(int \<times> job_op) list" where
  "reclaimed_run = [(0, OUpsert ''r'' ''u'' Poll None), (10, OClaim ''t1'' 5 1800), (1811, OReap 1811)]"

theorem stale_token_is_fenced_witness:
  "let q = fold job_exec [(1820, OClaim ''t2'' 5 1800)] (fold job_exec reclaimed_run []) in
     complete 1900 1 ''r'' (Some ''t1'') q = q \<and> map c_claimed_by q = [Some ''t2'']"
proof -
  let ?q = "fold job_exec reclaimed_run []"
  have keys: "queue_keys ?q" by (rule queue_runs.run_inv) simp
  have row: "?q = [(inserted_row 0 1 ''r'' ''u'' Poll None)\<lparr>c_attempt := 1, c_updated_at := 1811\<rparr>]"
    by (simp add: reclaimed_run_def upsert_def inserted_row_def next_rowid_def claim_next_with_lease_def
        claimable_def update_where_def claimed_row_def reap_expired_leases_def reaped_row_def)
  then have dead: "token_dead ''t1'' ?q" by (simp add: token_dead_def holds_token_def inserted_row_def)
  have "map c_claimed_by (fold job_exec [(1820, OClaim ''t2'' 5 1800)] ?q) = [Some ''t2'']"
    unfolding row by (simp add: inserted_row_def claim_next_with_lease_def claimable_def update_where_def
        claimed_row_def)
  with stale_token_is_fenced [OF keys dead, of "[(1820, OClaim ''t2'' 5 1800)]" 1900 1 "''r''"]
  show ?thesis by (simp add: Let_def)
qed

text \<open>
  C37. A claim takes the right job: it returns nothing exactly if no pending row is past its debounce
  window; otherwise it takes such a row with the least priority number and, among those, the oldest,
  marks exactly this row as running under the new token and lease with one more attempt, and leaves
  every other row alone.
\<close>

theorem claim_takes_best:
  assumes "queue_keys q"
  shows "case claim_next_with_lease now token debounce lease q of
      (None, q') \<Rightarrow> q' = q \<and> (\<forall>r\<in>set q. \<not> claimable now debounce r)
    | (Some job, q') \<Rightarrow> (\<exists>r\<in>set q. claimable now debounce r \<and>
        (\<forall>s\<in>set q. claimable now debounce s \<longrightarrow> before r s) \<and>
        job = row_to_job (claimed_row now token lease r) \<and>
        q' = map (\<lambda>s. if s = r then claimed_row now token lease s else s) q)"
proof (cases "first_by (filter (claimable now debounce) q)")
  case None
  then show ?thesis by (auto simp: claim_next_with_lease_def first_by_None filter_empty_conv)
next
  case (Some r)
  have r: "r \<in> set q" "claimable now debounce r" using first_by_mem [OF Some] by auto
  have least: "before r s" if "s \<in> set q" "claimable now debounce s" for s
    using first_by_least [OF Some] that by simp
  have "(\<lambda>s. if c_id s = c_id r then claimed_row now token lease s else s) s =
      (if s = r then claimed_row now token lease s else s)" if "s \<in> set q" for s
    using same_row [OF assms that r(1)] by auto
  then have "fst (update_where (\<lambda>x. c_id x = c_id r) (claimed_row now token lease) q) =
      map (\<lambda>s. if s = r then claimed_row now token lease s else s) q"
    by (simp add: update_where_def)
  with Some r least show ?thesis by (auto simp: claim_next_with_lease_def)
qed

theorem claim_takes_best_witness:
  "let q = fold job_exec [(0, OUpsert ''a'' ''u'' Poll None), (1, OUpsert ''b'' ''u'' Webhook None)] [];
       res = claim_next_with_lease 60 ''t'' 30 1800 q
   in (case res of (Some job, q') \<Rightarrow> (\<exists>r\<in>set q. (\<forall>s\<in>set q. claimable 60 30 s \<longrightarrow> before r s) \<and>
         job = row_to_job (claimed_row 60 ''t'' 1800 r)) | (None, q') \<Rightarrow> False)"
proof -
  let ?q = "fold job_exec [(0, OUpsert ''a'' ''u'' Poll None), (1, OUpsert ''b'' ''u'' Webhook None)] []"
  have keys: "queue_keys ?q" by (rule queue_runs.run_inv) simp
  have some: "fst (claim_next_with_lease 60 ''t'' 30 1800 ?q) \<noteq> None"
    by (simp add: upsert_def inserted_row_def next_rowid_def claim_next_with_lease_def claimable_def before_def)
  from claim_takes_best [OF keys, where now = 60 and token = "''t''" and debounce = 30 and lease = 1800] some
  show ?thesis
    unfolding Let_def by (auto split: prod.splits option.splits)
qed

text \<open>
  No event is lost: if a webhook or poll arrives for a repository while its job is running, then
  completing the job and the re-queue check that follows put it back to pending with a fresh attempt
  budget and the event's branch; without such an event the job stays succeeded.
\<close>

theorem event_during_run_requeues:
  fixes t1 t2 t3 :: int and url :: string and trig :: job_trigger and branch :: "string option"
  assumes "queue_keys q" and "r \<in> set q" and "c_status r = ''running''"
  defines "q1 \<equiv> upsert t1 (c_repo_id r) url trig branch q"
  defines "q2 \<equiv> fst (requeue_if_stale t3 (c_repo_id r) (complete t2 (c_id r) (c_repo_id r) (c_claimed_by r) q1))"
  shows "\<exists>r'\<in>set q2. c_id r' = c_id r \<and> c_status r' = ''pending'' \<and> c_attempt r' = 0 \<and>
    c_requeue_needed r' = 0 \<and> (branch \<noteq> None \<longrightarrow> c_branch r' = branch)"
proof -
  let ?u = "conflict_update t1 trig branch"
  let ?done = "\<lambda>x. x\<lparr>c_status := ''succeeded'', c_completed_at := Some t2\<rparr>"
  let ?again = "\<lambda>x. x\<lparr>c_status := ''pending'', c_attempt := 0, c_requeue_needed := 0, c_updated_at := t3\<rparr>"
  have u: "c_status (?u r) = ''running''" "c_requeue_needed (?u r) = 1" "c_claimed_by (?u r) = c_claimed_by r"
    "branch \<noteq> None \<longrightarrow> c_branch (?u r) = branch"
    using assms(3) by (simp_all add: conflict_update_def Let_def)
  have "?u r \<in> set q1"
    using assms(2) by (auto simp: q1_def upsert_def update_where_def list_ex_iff)
  then have "?done (?u r) \<in> set (complete t2 (c_id r) (c_repo_id r) (c_claimed_by r) q1)"
    unfolding complete_def using u by (intro update_where_mem) simp_all
  then have "?again (?done (?u r)) \<in> set q2"
    unfolding q2_def requeue_if_stale_def split_beta fst_conv using u by (intro update_where_mem) simp_all
  then show ?thesis using u by (intro bexI [of _ "?again (?done (?u r))"]) simp_all
qed

theorem event_during_run_requeues_witness:
  "let q = fold job_exec [(0, OUpsert ''r'' ''u'' Poll None), (10, OClaim ''t'' 5 1800)] [] in
   \<exists>r'\<in>set (fst (requeue_if_stale 40 ''r'' (complete 30 1 ''r'' (Some ''t'') (upsert 20 ''r'' ''u'' Webhook (Some ''main'') q)))).
     c_id r' = 1 \<and> c_status r' = ''pending'' \<and> c_branch r' = Some ''main''"
proof -
  let ?q = "fold job_exec [(0, OUpsert ''r'' ''u'' Poll None), (10, OClaim ''t'' 5 1800)] []"
  let ?r = "claimed_row 10 ''t'' 1800 (inserted_row 0 1 ''r'' ''u'' Poll None)"
  have keys: "queue_keys ?q" by (rule queue_runs.run_inv) simp
  have q: "?q = [?r]"
    by (simp add: upsert_def inserted_row_def next_rowid_def claim_next_with_lease_def claimable_def
        update_where_def claimed_row_def)
  have r: "?r \<in> set ?q" "c_status ?r = ''running''" "c_id ?r = 1" "c_repo_id ?r = ''r''" "c_claimed_by ?r = Some ''t''"
    unfolding q by (simp_all add: claimed_row_def inserted_row_def)
  from event_during_run_requeues [OF keys r(1,2), of 40 30 20 "''u''" Webhook "Some ''main''"] r(3-5)
  show ?thesis by (auto simp: Let_def)
qed

text \<open>
  C38. The retry budget holds while workers report back or are reaped: in every run from an empty queue
  without the two crash recoveries, no row exceeds its four attempts, a pending row has at least one
  attempt left, and so a job that keeps failing ends in the dead letters.
\<close>

theorem attempts_bounded:
  assumes "\<forall>(now, op)\<in>set steps. \<not> recovers op"
  shows "\<forall>r\<in>set (fold job_exec steps []). 0 \<le> c_attempt r \<and> c_attempt r \<le> c_max_attempts r \<and>
    (c_status r = ''pending'' \<longrightarrow> c_attempt r < c_max_attempts r)"
proof -
  have "\<forall>r\<in>set (fold job_exec steps []). in_budget r"
    using _ _ assms by (rule budget.run_ok) simp_all
  then show ?thesis by (auto simp: in_budget_def)
qed

theorem attempts_bounded_witness:
  "list_all (\<lambda>r. c_attempt r \<le> c_max_attempts r)
     (fold job_exec [(0, OUpsert ''r'' ''u'' Poll None), (10, OClaim ''t'' 5 1800),
       (20, OFail 1 (Some ''t'') ''boom'' False)] [])"
  using attempts_bounded [of "[(0, OUpsert ''r'' ''u'' Poll None), (10, OClaim ''t'' 5 1800),
    (20, OFail 1 (Some ''t'') ''boom'' False)]"] by (auto simp: list_all_iff)

definition crash_rounds :: "nat \<Rightarrow> (int \<times> job_op) list" where
  "crash_rounds n = concat (map (\<lambda>k. [(100 * int k, OClaim (nat_dec k) 0 1800), (100 * int k + 50, ORecoverAll)]) [0..<n])"

lemma crash_round:
  assumes "c_status r = ''pending''" and "c_updated_at r \<le> now"
  shows "fold job_exec [(now, OClaim tok 0 1800), (now + 50, ORecoverAll)] [r] =
    [(claimed_row now tok 1800 r)\<lparr>c_status := ''pending'', c_started_at := None, c_updated_at := now + 50\<rparr>]"
  using assms by (simp add: claim_next_with_lease_def claimable_def update_where_def claimed_row_def
      recover_all_running_at_startup_def)

lemma crash_rounds_rows:
  "\<exists>r. fold job_exec (crash_rounds n) (upsert 0 ''r'' ''u'' Poll None []) = [r] \<and> c_status r = ''pending'' \<and>
     c_attempt r = int n \<and> c_max_attempts r = 4 \<and> c_updated_at r \<le> 100 * int n"
proof (induction n)
  case 0
  then show ?case by (simp add: crash_rounds_def upsert_def inserted_row_def next_rowid_def)
next
  case (Suc n)
  then obtain r where r: "fold job_exec (crash_rounds n) (upsert 0 ''r'' ''u'' Poll None []) = [r]"
    "c_status r = ''pending''" "c_attempt r = int n" "c_max_attempts r = 4" "c_updated_at r \<le> 100 * int n" by blast
  have rounds: "crash_rounds (Suc n) =
      crash_rounds n @ [(100 * int n, OClaim (nat_dec n) 0 1800), (100 * int n + 50, ORecoverAll)]"
    by (simp add: crash_rounds_def)
  show ?case
    unfolding rounds fold_append comp_apply r(1) crash_round [OF r(2,5)]
    using r by (simp add: claimed_row_def)
qed

text \<open>
  The recovery at startup is outside that budget: a job that takes the daemon down on each run is
  claimed again after every restart, so after \<open>n\<close> crashes it is pending with \<open>n\<close> attempts, for every
  \<open>n\<close>, and never reaches the dead letters.
\<close>

theorem startup_recovery_unbounded:
  "map (\<lambda>r. (c_status r, c_attempt r, c_max_attempts r))
     (fold job_exec (crash_rounds n) (upsert 0 ''r'' ''u'' Poll None [])) = [(''pending'', int n, 4)]"
  using crash_rounds_rows [of n] by auto

text \<open>
  An outage of the host costs no attempt: claiming a job and deferring it with the token of that
  claim puts exactly this row back to pending, unclaimed and unleased, with the attempts it had
  before the claim, and moves it to the back of its priority tier.
\<close>

theorem defer_is_attempt_neutral:
  assumes "queue_keys q" and "\<forall>r\<in>set q. 0 \<le> c_attempt r"
    and "claim_next_with_lease t1 token debounce lease q = (Some job, q1)"
  shows "\<exists>r\<in>set q. c_id r = j_id job \<and> c_status r = ''pending'' \<and>
    defer_job t2 (j_id job) (Some token) q1 =
      map (\<lambda>s. if s = r then s\<lparr>c_status := ''pending'', c_requeue_needed := 0, c_claimed_by := None,
          c_lease_expires_at := None, c_started_at := None, c_created_at := t2, c_updated_at := t2\<rparr> else s) q"
proof -
  obtain r where r: "first_by (filter (claimable t1 debounce) q) = Some r" "job = row_to_job (claimed_row t1 token lease r)"
      "q1 = map (\<lambda>s. if c_id s = c_id r then claimed_row t1 token lease s else s) q"
    using assms(3) by (auto simp: claim_next_with_lease_def update_where_def split: option.splits)
  have mem: "r \<in> set q" "c_status r = ''pending''" using first_by_mem [OF r(1)] by (auto simp: claimable_def)
  have id: "j_id job = c_id r" using r(2) by (simp add: row_to_job_def)
  have attempt: "0 \<le> c_attempt r" using assms(2) mem(1) by blast
  have "defer_job t2 (j_id job) (Some token) q1 =
      map (\<lambda>s. if s = r then s\<lparr>c_status := ''pending'', c_requeue_needed := 0, c_claimed_by := None,
          c_lease_expires_at := None, c_started_at := None, c_created_at := t2, c_updated_at := t2\<rparr> else s) q"
    unfolding defer_job_def update_where_def r(3) fst_conv map_map id
  proof (rule map_cong)
    fix s
    assume "s \<in> set q"
    then have "c_id s = c_id r \<longleftrightarrow> s = r" using same_row [OF assms(1) _ mem(1)] by blast
    with attempt show "((\<lambda>x. if c_id x = c_id r \<and> c_status x = ''running'' \<and> c_claimed_by x = Some token
          then x\<lparr>c_status := ''pending'', c_attempt := max 0 (c_attempt x - 1), c_claimed_by := None,
            c_lease_expires_at := None, c_started_at := None, c_created_at := t2, c_updated_at := t2\<rparr> else x)
        \<circ> (\<lambda>s. if c_id s = c_id r then claimed_row t1 token lease s else s)) s =
      (if s = r then s\<lparr>c_status := ''pending'', c_requeue_needed := 0, c_claimed_by := None,
          c_lease_expires_at := None, c_started_at := None, c_created_at := t2, c_updated_at := t2\<rparr> else s)"
      by (simp add: claimed_row_def)
  qed simp
  with mem id show ?thesis by (intro bexI [of _ r]) simp_all
qed

theorem defer_is_attempt_neutral_witness:
  "map c_attempt (defer_job 20 1 (Some ''t'') (snd (claim_next_with_lease 10 ''t'' 5 1800
     (upsert 0 ''r'' ''u'' Poll None [])))) = [0]"
proof -
  let ?q = "upsert 0 ''r'' ''u'' Poll None []"
  let ?c = "claim_next_with_lease 10 ''t'' 5 1800 ?q"
  have q: "?q = [inserted_row 0 1 ''r'' ''u'' Poll None]" by (simp add: upsert_def next_rowid_def)
  have keys: "queue_keys ?q" by (intro queue_keys_upsert) simp
  have nonneg: "\<forall>r\<in>set ?q. 0 \<le> c_attempt r" unfolding q by (simp add: inserted_row_def)
  obtain job where c: "?c = (Some job, snd ?c)" "j_id job = 1"
    unfolding q by (simp add: claim_next_with_lease_def claimable_def inserted_row_def row_to_job_def claimed_row_def)
  from defer_is_attempt_neutral [OF keys nonneg c(1), of 20] show ?thesis
    unfolding c(2) q by (auto simp: inserted_row_def)
qed

text \<open>
  Quarantine survives a reload: declaring a repository from the configuration never takes its job
  out of the dead letters. The call reports that nothing was enqueued exactly if the repository's row
  is dead-lettered, and then every row keeps its status and attempts; only the configured branch is
  recorded, for the explicit retry.
\<close>

theorem declared_repo_stays_quarantined:
  assumes "queue_keys q" and "r \<in> set q" and "c_repo_id r = i"
  shows "(snd (enqueue_declared_repo now i url trig branch q) = False \<longleftrightarrow> status_from_str (c_status r) = DeadLetter) \<and>
    (status_from_str (c_status r) = DeadLetter \<longrightarrow>
       map (\<lambda>x. (c_id x, c_status x, c_attempt x)) (fst (enqueue_declared_repo now i url trig branch q)) =
       map (\<lambda>x. (c_id x, c_status x, c_attempt x)) q)"
proof -
  obtain s where s: "find (\<lambda>x. c_repo_id x = i) q = Some s" "s \<in> set q" "c_repo_id s = i"
    using assms(2,3) find_mem [of "\<lambda>x. c_repo_id x = i" q] by (cases "find (\<lambda>x. c_repo_id x = i) q") (auto simp: find_None_iff)
  then have "s = r" using same_repo [OF assms(1) s(2) assms(2)] assms(3) by simp
  with s have job: "job_for_repo i q = Some (row_to_job r)" by (simp add: job_for_repo_def)
  have keep: "map (\<lambda>x. (c_id x, c_status x, c_attempt x)) (fst (update_where P (\<lambda>x. x\<lparr>c_branch := b, c_updated_at := now\<rparr>) q)) =
      map (\<lambda>x. (c_id x, c_status x, c_attempt x)) q" for P b
    by (simp add: update_where_def)
  show ?thesis
    unfolding enqueue_declared_repo_def job set_branch_def clear_branch_def
    using keep by (auto simp: Let_def row_to_job_def split: option.splits)
qed

theorem declared_repo_stays_quarantined_witness:
  "let q = fold job_exec [(0, OUpsert ''r'' ''u'' Poll None), (10, OClaim ''t'' 5 1800),
       (20, OFail 1 (Some ''t'') ''poison'' True)] []
   in map c_status q = [''dead_letter''] \<and>
      snd (enqueue_declared_repo 30 ''r'' ''u'' Unindexed (Some ''main'') q) = False"
proof -
  let ?q = "fold job_exec [(0, OUpsert ''r'' ''u'' Poll None), (10, OClaim ''t'' 5 1800),
       (20, OFail 1 (Some ''t'') ''poison'' True)] []"
  have keys: "queue_keys ?q" by (rule queue_runs.run_inv) simp
  have q: "?q = [(claimed_row 10 ''t'' 1800 (inserted_row 0 1 ''r'' ''u'' Poll None))\<lparr>c_status := ''dead_letter'',
      c_error_msg := Some ''poison'', c_completed_at := Some 20, c_updated_at := 20\<rparr>]" (is "_ = [?r]")
    by (simp add: upsert_def inserted_row_def next_rowid_def claim_next_with_lease_def claimable_def
        update_where_def claimed_row_def fail_job_def)
  have r: "?r \<in> set ?q" "c_repo_id ?r = ''r''" "status_from_str (c_status ?r) = DeadLetter"
    unfolding q by (simp_all add: claimed_row_def inserted_row_def status_from_str_def)
  from declared_repo_stays_quarantined [OF keys r(1,2), where now = 30 and url = "''u''" and trig = Unindexed
      and branch = "Some ''main''"] r(3) q show ?thesis by (simp add: Let_def)
qed

end
