(* ===== verification/Poll_Scheduler.thy ===== *)
theory Poll_Scheduler
  imports Job_Queue Uid
begin

text \<open>
  Adaptive polling and periodic full re-indexing: the scheduler and the re-index tracker
  (\<^verbatim>\<open>crates/nestweaver-engine/src/scheduler.rs\<close>), the tracker's write-through
  (\<^verbatim>\<open>crates/nestweaver-engine/src/worker.rs\<close>), the duration syntax of the configuration
  (\<^verbatim>\<open>crates/nestweaver-engine/src/config.rs\<close>) and the poll loop with its probe bookkeeping
  (\<^verbatim>\<open>crates/nestweaver-daemon/src/server.rs\<close>).

  A \<^verbatim>\<open>Duration\<close> and a monotonic \<^verbatim>\<open>Instant\<close> are numbers of nanoseconds. Adding a duration to an instant
  panics beyond 2^63 seconds, as the standard library does on Linux; the millisecond arithmetic of
  the jitter wraps at 2^64. Readings of the clock are arguments, and so is the generator behind
  \<^verbatim>\<open>rand::random_range(0..n)\<close>: a function that gives the draw for the row at hand and the bound \<open>n\<close>.
  Counts of the tracker are 32-bit words; wall-clock seconds are 64-bit signed numbers.
\<close>

section \<open>Durations and instants\<close>

type_synonym duration = nat
type_synonym instant = nat

datatype poll_panic = InstantOverflow | CharBoundary

definition from_millis :: "nat \<Rightarrow> duration" where
  "from_millis n = n * 10 ^ 6"

definition from_secs :: "nat \<Rightarrow> duration" where
  "from_secs n = n * 10 ^ 9"

definition DURATION_MAX :: duration where
  "DURATION_MAX = 2 ^ 64 * 10 ^ 9 - 1"

definition INSTANT_END :: instant where
  "INSTANT_END = 2 ^ 63 * 10 ^ 9"

definition instant_add :: "instant \<Rightarrow> duration \<Rightarrow> poll_panic + instant" where
  "instant_add t d = (if t + d < INSTANT_END then Inr (t + d) else Inl InstantOverflow)"

definition DEFAULT_MIN_POLL :: duration where
  "DEFAULT_MIN_POLL = from_secs 45"

definition DEFAULT_MAX_POLL :: duration where
  "DEFAULT_MAX_POLL = from_secs (8 * 3600)"

definition WEBHOOK_HEALTHY_FLOOR :: duration where
  "WEBHOOK_HEALTHY_FLOOR = from_secs 300"

text \<open>
  The duration syntax: a number and one of \<open>ms\<close>, \<open>s\<close>, \<open>m\<close>, \<open>h\<close>. The slice that drops the last byte is
  taken before the unit is looked at, and slicing inside a character panics.
\<close>

definition parse_duration :: "string \<Rightarrow> poll_panic + duration option" where
  "parse_duration s0 =
     (let s = trim s0
      in if s = [] then Inr None
         else case strip_suffix ''ms'' s of
           Some stripped \<Rightarrow> Inr (map_option from_millis (parse_u64 stripped))
         | None \<Rightarrow>
             (let u = last s
              in if utf8_len_char u \<noteq> 1 then Inl CharBoundary
                 else if u = CHR ''s'' then Inr (map_option from_secs (parse_u64 (butlast s)))
                 else if u = CHR ''m'' then Inr (Option.bind (parse_u64 (butlast s)) (\<lambda>num.
                   if num * 60 < 2 ^ 64 then Some (from_secs (num * 60)) else None))
                 else if u = CHR ''h'' then Inr (Option.bind (parse_u64 (butlast s)) (\<lambda>num.
                   if num * 3600 < 2 ^ 64 then Some (from_secs (num * 3600)) else None))
                 else Inr None))"

section \<open>The scheduler\<close>

datatype poll_override = Fixed duration | Never | Manual

record repo_schedule =
  s_repo_id :: string
  s_repo_url :: string
  s_branch :: "string option"
  s_poll_override :: "poll_override option"
  s_last_commit_time :: "instant option"
  s_next_poll_at :: instant

record poll_scheduler =
  s_repos :: "repo_schedule list"
  s_min_poll :: duration
  s_max_poll :: duration
  s_webhook_healthy :: bool

definition new_scheduler :: "duration \<Rightarrow> duration \<Rightarrow> poll_scheduler" where
  "new_scheduler min_poll max_poll =
     \<lparr>s_repos = [], s_min_poll = min_poll, s_max_poll = max_poll, s_webhook_healthy = False\<rparr>"

definition with_defaults :: poll_scheduler where
  "with_defaults = new_scheduler DEFAULT_MIN_POLL DEFAULT_MAX_POLL"

definition set_webhook_healthy :: "bool \<Rightarrow> poll_scheduler \<Rightarrow> poll_scheduler" where
  "set_webhook_healthy healthy s = s\<lparr>s_webhook_healthy := healthy\<rparr>"

text \<open>Change the first element that satisfies a predicate (\<^verbatim>\<open>iter_mut().find(..)\<close>).\<close>

fun update_first :: "('a \<Rightarrow> bool) \<Rightarrow> ('a \<Rightarrow> 'a) \<Rightarrow> 'a list \<Rightarrow> 'a list" where
  "update_first P f [] = []"
| "update_first P f (x # xs) = (if P x then f x # xs else x # update_first P f xs)"

definition readded_row ::
  "instant \<Rightarrow> string \<Rightarrow> poll_override option \<Rightarrow> string option \<Rightarrow> repo_schedule \<Rightarrow> repo_schedule" where
  "readded_row now url ovr branch r =
     (let new_branch = branch \<noteq> None \<and> branch \<noteq> s_branch r;
          new_override = ovr \<noteq> None \<and> ovr \<noteq> s_poll_override r
      in r\<lparr>s_branch := if new_branch then branch else s_branch r,
           s_poll_override := if new_override then ovr else s_poll_override r,
           s_repo_url := url,
           s_next_poll_at := if new_branch \<or> new_override then now else s_next_poll_at r\<rparr>)"

definition same_schedule :: "string \<Rightarrow> string \<Rightarrow> repo_schedule \<Rightarrow> bool" where
  "same_schedule repo_id url r \<longleftrightarrow>
     s_repo_id r = repo_id \<and> canonical_repo_id (s_repo_url r) = canonical_repo_id url"

definition add_repo ::
  "instant \<Rightarrow> string \<Rightarrow> string \<Rightarrow> poll_override option \<Rightarrow> string option \<Rightarrow> poll_scheduler \<Rightarrow> poll_scheduler" where
  "add_repo now repo_id url ovr branch s =
     (if list_ex (same_schedule repo_id url) (s_repos s)
      then s\<lparr>s_repos := update_first (same_schedule repo_id url) (readded_row now url ovr branch) (s_repos s)\<rparr>
      else s\<lparr>s_repos := s_repos s @
             [\<lparr>s_repo_id = repo_id, s_repo_url = url, s_branch = branch, s_poll_override = ovr,
               s_last_commit_time = None, s_next_poll_at = now\<rparr>]\<rparr>)"

definition compute_interval ::
  "instant \<Rightarrow> repo_schedule \<Rightarrow> duration \<Rightarrow> duration \<Rightarrow> bool \<Rightarrow> duration" where
  "compute_interval clock r min_poll max_poll webhook_healthy =
     (case s_poll_override r of
        Some (Fixed d) \<Rightarrow> d
      | Some Never \<Rightarrow> DURATION_MAX
      | Some Manual \<Rightarrow> DURATION_MAX
      | None \<Rightarrow>
          (let since_last = (case s_last_commit_time r of Some t \<Rightarrow> clock - t | None \<Rightarrow> max_poll);
               base = max since_last 0 div 2;
               floor = (if webhook_healthy then WEBHOOK_HEALTHY_FLOOR else min_poll)
           in min (max base floor) max_poll))"

definition next_interval :: "instant \<Rightarrow> poll_scheduler \<Rightarrow> repo_schedule \<Rightarrow> duration" where
  "next_interval clock s r = compute_interval clock r (s_min_poll s) (s_max_poll s) (s_webhook_healthy s)"

definition jittered :: "(nat \<Rightarrow> nat) \<Rightarrow> duration \<Rightarrow> duration" where
  "jittered random_range interval =
     (if interval \<ge> DURATION_MAX div 2 then interval
      else let millis = (interval div 10 ^ 6) mod 2 ^ 64
           in if millis = 0 then interval
              else from_millis ((millis div 2 + random_range (max millis 1)) mod 2 ^ 64))"

text \<open>
  One row of \<^verbatim>\<open>due_repos\<close>: \<open>now\<close> was read once before the loop, \<open>clock\<close> is the later reading behind
  \<^verbatim>\<open>elapsed()\<close> in the row's interval.
\<close>

definition due_row ::
  "instant \<Rightarrow> instant \<Rightarrow> (nat \<Rightarrow> nat) \<Rightarrow> poll_scheduler \<Rightarrow> repo_schedule
    \<Rightarrow> poll_panic + repo_schedule \<times> (string \<times> string \<times> string option) option" where
  "due_row now clock random_range s r =
     (if s_next_poll_at r \<le> now then
        (let interval = compute_interval clock r (s_min_poll s) (s_max_poll s) (s_webhook_healthy s)
         in if interval = DURATION_MAX then Inr (r, None)
            else case instant_add now (jittered random_range interval) of
              Inl e \<Rightarrow> Inl e
            | Inr t \<Rightarrow> Inr (r\<lparr>s_next_poll_at := t\<rparr>, Some (s_repo_id r, s_repo_url r, s_branch r)))
      else Inr (r, None))"

fun due_rows ::
  "instant \<Rightarrow> (nat \<Rightarrow> instant) \<Rightarrow> (nat \<Rightarrow> nat \<Rightarrow> nat) \<Rightarrow> poll_scheduler \<Rightarrow> nat \<Rightarrow> repo_schedule list
    \<Rightarrow> poll_panic + (repo_schedule \<times> (string \<times> string \<times> string option) option) list" where
  "due_rows now clock random_range s k [] = Inr []"
| "due_rows now clock random_range s k (r # rs) =
     (case due_row now (clock k) (random_range k) s r of
        Inl e \<Rightarrow> Inl e
      | Inr x \<Rightarrow>
          (case due_rows now clock random_range s (Suc k) rs of Inl e \<Rightarrow> Inl e | Inr xs \<Rightarrow> Inr (x # xs)))"

definition due_repos ::
  "instant \<Rightarrow> (nat \<Rightarrow> instant) \<Rightarrow> (nat \<Rightarrow> nat \<Rightarrow> nat) \<Rightarrow> poll_scheduler
    \<Rightarrow> poll_panic + poll_scheduler \<times> (string \<times> string \<times> string option) list" where
  "due_repos now clock random_range s =
     (case due_rows now clock random_range s 0 (s_repos s) of
        Inl e \<Rightarrow> Inl e
      | Inr xs \<Rightarrow> Inr (s\<lparr>s_repos := map fst xs\<rparr>, List.map_filter snd xs))"

definition update_commit_time :: "string \<Rightarrow> instant \<Rightarrow> poll_scheduler \<Rightarrow> poll_scheduler" where
  "update_commit_time repo_id time s =
     s\<lparr>s_repos := update_first (\<lambda>r. s_repo_id r = repo_id) (\<lambda>r. r\<lparr>s_last_commit_time := Some time\<rparr>) (s_repos s)\<rparr>"

definition remove_repo :: "string \<Rightarrow> poll_scheduler \<Rightarrow> poll_scheduler" where
  "remove_repo repo_id s = s\<lparr>s_repos := filter (\<lambda>r. s_repo_id r \<noteq> repo_id) (s_repos s)\<rparr>"

definition repo_count :: "poll_scheduler \<Rightarrow> nat" where
  "repo_count s = length (s_repos s)"

section \<open>Probes in flight\<close>

record poll_in_flight =
  f_generation :: u64
  f_entries :: "string \<rightharpoonup> u64 \<times> string"
  f_tasks :: "nat \<rightharpoonup> string \<times> u64"

definition no_probes :: poll_in_flight where
  "no_probes = \<lparr>f_generation = 0, f_entries = Map.empty, f_tasks = Map.empty\<rparr>"

definition try_dispatch :: "string \<Rightarrow> string \<Rightarrow> poll_in_flight \<Rightarrow> u64 option \<times> poll_in_flight" where
  "try_dispatch repo_id url f =
     (if f_entries f repo_id \<noteq> None then (None, f)
      else (Some (f_generation f), f\<lparr>f_entries := (f_entries f)(repo_id \<mapsto> (f_generation f, url))\<rparr>))"

definition track :: "nat \<Rightarrow> string \<Rightarrow> u64 \<Rightarrow> poll_in_flight \<Rightarrow> poll_in_flight" where
  "track task repo_id generation f = f\<lparr>f_tasks := (f_tasks f)(task \<mapsto> (repo_id, generation))\<rparr>"

definition forget_repo :: "string \<Rightarrow> poll_in_flight \<Rightarrow> poll_in_flight" where
  "forget_repo repo_id f =
     f\<lparr>f_entries := (f_entries f)(repo_id := None), f_generation := f_generation f + 1\<rparr>"

definition reset_probes :: "poll_in_flight \<Rightarrow> poll_in_flight" where
  "reset_probes f = f\<lparr>f_entries := Map.empty, f_generation := f_generation f + 1\<rparr>"

definition finish :: "nat \<Rightarrow> string \<Rightarrow> u64 \<Rightarrow> bool \<Rightarrow> poll_in_flight \<Rightarrow> bool \<times> poll_in_flight" where
  "finish task repo_id generation drained f0 =
     (let f = f0\<lparr>f_tasks := (f_tasks f0)(task := None)\<rparr>
      in case f_entries f repo_id of
           Some (entry_generation, _) \<Rightarrow>
             if entry_generation = generation
             then (\<not> drained, f\<lparr>f_entries := (f_entries f)(repo_id := None)\<rparr>) else (False, f)
         | None \<Rightarrow> (False, f))"

definition failed :: "nat \<Rightarrow> poll_in_flight \<Rightarrow> poll_in_flight" where
  "failed task f0 =
     (let f = f0\<lparr>f_tasks := (f_tasks f0)(task := None)\<rparr>
      in case f_tasks f0 task of
           None \<Rightarrow> f
         | Some (repo_id, generation) \<Rightarrow>
             (case f_entries f repo_id of
                Some (entry_generation, _) \<Rightarrow>
                  if entry_generation = generation
                  then f\<lparr>f_entries := (f_entries f)(repo_id := None)\<rparr> else f
              | None \<Rightarrow> f))"

text \<open>Every call of the poll loop into this bookkeeping, so that runs of it are lists.\<close>

datatype flight_op =
  FDispatch string string
| FTrack nat string u64
| FForget string
| FReset
| FFinish nat string u64 bool
| FFailed nat

fun flight_exec :: "flight_op \<Rightarrow> poll_in_flight \<Rightarrow> poll_in_flight" where
  "flight_exec (FDispatch repo_id url) f = snd (try_dispatch repo_id url f)"
| "flight_exec (FTrack task repo_id generation) f = track task repo_id generation f"
| "flight_exec (FForget repo_id) f = forget_repo repo_id f"
| "flight_exec FReset f = reset_probes f"
| "flight_exec (FFinish task repo_id generation drained) f = snd (finish task repo_id generation drained f)"
| "flight_exec (FFailed task) f = failed task f"

section \<open>The poll loop\<close>

datatype scheduler_command =
  AddRepo string string "poll_override option" "string option"
| RemoveRepo string
| ReloadConfig "(string \<times> string \<times> poll_override option \<times> string option) list" "duration option" "duration option"

record poll_probe_outcome =
  o_repo_id :: string
  o_url :: string
  o_branch :: "string option"
  o_generation :: u64
  o_result :: "string + string option"

text \<open>
  The variables of the loop, and the job queue it feeds (absent when the daemon runs without one, or when its lock is poisoned).
  An event carries what the outside world supplies: the instants read, the draws, the drain flag,
  the identities tokio gives to spawned probes, the outcome of a probe and the wall clock.
\<close>

record poll_loop =
  l_min_poll :: duration
  l_max_poll :: duration
  l_scheduler :: poll_scheduler
  l_in_flight :: poll_in_flight
  l_queue :: "queue option"

datatype poll_event =
  Command instant scheduler_command
| Tick instant "nat \<Rightarrow> instant" "nat \<Rightarrow> nat \<Rightarrow> nat" bool "nat \<Rightarrow> nat"
| ProbeDone instant int nat poll_probe_outcome bool
| ProbeFailed nat

definition reload_config ::
  "instant \<Rightarrow> (string \<times> string \<times> poll_override option \<times> string option) list \<Rightarrow> duration option \<Rightarrow> duration option
    \<Rightarrow> poll_loop \<Rightarrow> poll_loop" where
  "reload_config now repos new_min new_max l =
     (let min_poll = (case new_min of Some m \<Rightarrow> m | None \<Rightarrow> l_min_poll l);
          max_poll = (case new_max of Some m \<Rightarrow> m | None \<Rightarrow> l_max_poll l)
      in l\<lparr>l_min_poll := min_poll, l_max_poll := max_poll,
           l_scheduler := fold (\<lambda>(repo_id, url, ovr, branch). add_repo now repo_id url ovr branch) repos
                            (new_scheduler min_poll max_poll),
           l_in_flight := reset_probes (l_in_flight l)\<rparr>)"

fun handle_command :: "instant \<Rightarrow> scheduler_command \<Rightarrow> poll_loop \<Rightarrow> poll_loop" where
  "handle_command now (AddRepo repo_id url ovr branch) l =
     l\<lparr>l_scheduler := add_repo now repo_id url ovr branch (l_scheduler l)\<rparr>"
| "handle_command now (RemoveRepo repo_id) l =
     l\<lparr>l_scheduler := remove_repo repo_id (l_scheduler l),
       l_in_flight := forget_repo repo_id (l_in_flight l)\<rparr>"
| "handle_command now (ReloadConfig repos new_min new_max) l = reload_config now repos new_min new_max l"

text \<open>Spawn a probe for every due repository that has none running; \<open>k\<close> counts the due list.\<close>

fun dispatch_due ::
  "(nat \<Rightarrow> nat) \<Rightarrow> nat \<Rightarrow> (string \<times> string \<times> string option) list \<Rightarrow> poll_in_flight \<Rightarrow> poll_in_flight" where
  "dispatch_due task_id k [] f = f"
| "dispatch_due task_id k ((repo_id, url, branch) # due) f =
     (case try_dispatch repo_id url f of
        (None, f') \<Rightarrow> dispatch_due task_id (Suc k) due f'
      | (Some generation, f') \<Rightarrow>
          dispatch_due task_id (Suc k) due (track (task_id k) repo_id generation f'))"

definition handle_tick ::
  "instant \<Rightarrow> (nat \<Rightarrow> instant) \<Rightarrow> (nat \<Rightarrow> nat \<Rightarrow> nat) \<Rightarrow> bool \<Rightarrow> (nat \<Rightarrow> nat) \<Rightarrow> poll_loop
    \<Rightarrow> poll_panic + poll_loop" where
  "handle_tick now clock random_range drained task_id l =
     (if drained then Inr l
      else case due_repos now clock random_range (l_scheduler l) of
        Inl e \<Rightarrow> Inl e
      | Inr (s, due) \<Rightarrow>
          Inr (l\<lparr>l_scheduler := s, l_in_flight := dispatch_due task_id 0 due (l_in_flight l)\<rparr>))"

text \<open>
  A probe came back. \<open>indexed_sha\<close> is the store's answer for a repository uid; an error or a missing
  row reads as the empty text.
\<close>

definition handle_done ::
  "hasher \<Rightarrow> string \<Rightarrow> (string \<Rightarrow> string option) \<Rightarrow> instant \<Rightarrow> int \<Rightarrow> nat \<Rightarrow> poll_probe_outcome \<Rightarrow> bool
    \<Rightarrow> poll_loop \<Rightarrow> poll_loop" where
  "handle_done H inst indexed_sha now unix_now task out drained l0 =
     (case finish task (o_repo_id out) (o_generation out) drained (l_in_flight l0) of
        (accepted, f) \<Rightarrow>
          (let l = l0\<lparr>l_in_flight := f\<rparr>
           in if \<not> accepted then l
              else case o_result out of
                Inr (Some remote_sha) \<Rightarrow>
                  (let known = (case indexed_sha (repo_uid H inst (o_url out)) of Some s \<Rightarrow> s | None \<Rightarrow> [])
                   in case l_queue l of
                        Some q \<Rightarrow>
                          if remote_sha \<noteq> known
                          then l\<lparr>l_queue := Some (upsert unix_now (canonical_repo_id (o_url out)) (o_url out) Poll (o_branch out) q),
                                 l_scheduler := update_commit_time (o_repo_id out) now (l_scheduler l)\<rparr>
                          else l
                      | None \<Rightarrow> l)
              | Inr None \<Rightarrow> l
              | Inl _ \<Rightarrow> l))"

text \<open>One turn of the loop; a panic ends the task, so nothing happens after it.\<close>

fun poll_step ::
  "hasher \<Rightarrow> string \<Rightarrow> (string \<Rightarrow> string option) \<Rightarrow> poll_event \<Rightarrow> poll_panic + poll_loop \<Rightarrow> poll_panic + poll_loop" where
  "poll_step H inst indexed_sha ev (Inl e) = Inl e"
| "poll_step H inst indexed_sha (Command now cmd) (Inr l) = Inr (handle_command now cmd l)"
| "poll_step H inst indexed_sha (Tick now clock random_range drained task_id) (Inr l) =
     handle_tick now clock random_range drained task_id l"
| "poll_step H inst indexed_sha (ProbeDone now unix_now task out drained) (Inr l) =
     Inr (handle_done H inst indexed_sha now unix_now task out drained l)"
| "poll_step H inst indexed_sha (ProbeFailed task) (Inr l) =
     Inr (l\<lparr>l_in_flight := failed task (l_in_flight l)\<rparr>)"

section \<open>The re-index tracker\<close>

record reindex_tracker =
  t_counts :: "string \<rightharpoonup> u32"
  t_last_full_reindex :: "string \<rightharpoonup> int"

definition FULL_REINDEX_INTERVAL_SECS :: int where
  "FULL_REINDEX_INTERVAL_SECS = 7 * 24 * 3600"

definition new_tracker :: reindex_tracker where
  "new_tracker = \<lparr>t_counts = Map.empty, t_last_full_reindex = Map.empty\<rparr>"

fun load_row :: "string \<times> u32 \<times> int option \<Rightarrow> reindex_tracker \<Rightarrow> reindex_tracker" where
  "load_row (repo_id, n, last_full) t =
     t\<lparr>t_counts := if n > 0 then (t_counts t)(repo_id \<mapsto> n) else t_counts t,
       t_last_full_reindex :=
         (case last_full of Some ts \<Rightarrow> (t_last_full_reindex t)(repo_id \<mapsto> ts) | None \<Rightarrow> t_last_full_reindex t)\<rparr>"

definition load_persisted :: "(string \<times> u32 \<times> int option) list \<Rightarrow> reindex_tracker \<Rightarrow> reindex_tracker" where
  "load_persisted rows t = fold load_row rows (t\<lparr>t_counts := Map.empty, t_last_full_reindex := Map.empty\<rparr>)"

definition from_persisted :: "(string \<times> u32 \<times> int option) list \<Rightarrow> reindex_tracker" where
  "from_persisted rows = load_persisted rows new_tracker"

definition tracker_count :: "string \<Rightarrow> reindex_tracker \<Rightarrow> u32" where
  "tracker_count repo_id t = (case t_counts t repo_id of Some n \<Rightarrow> n | None \<Rightarrow> 0)"

definition last_full_unix :: "string \<Rightarrow> reindex_tracker \<Rightarrow> int option" where
  "last_full_unix repo_id t = t_last_full_reindex t repo_id"

definition record_incremental :: "string \<Rightarrow> reindex_tracker \<Rightarrow> reindex_tracker" where
  "record_incremental repo_id t = t\<lparr>t_counts := (t_counts t)(repo_id \<mapsto> tracker_count repo_id t + 1)\<rparr>"

text \<open>
  The threshold. The product \<open>file_count as f64 * 0.005\<close> truncated and saturated to 32 bits is exactly
  the saturated quotient by 200: a multiple of 200 rounds to its quotient, and below the saturation
  point the error of the product is smaller than the distance of any other count to the next integer.
\<close>

definition reindex_threshold :: "nat \<Rightarrow> nat" where
  "reindex_threshold file_count = max 150 (min (2 ^ 32 - 1) (file_count div 200))"

definition i64_sub :: "int \<Rightarrow> int \<Rightarrow> int" where
  "i64_sub a b = sint (word_of_int (a - b) :: 64 word)"

definition needs_full_reindex :: "int \<Rightarrow> string \<Rightarrow> nat \<Rightarrow> reindex_tracker \<Rightarrow> bool" where
  "needs_full_reindex now repo_id file_count t =
     (if unat (tracker_count repo_id t) \<ge> reindex_threshold file_count then True
      else case t_last_full_reindex t repo_id of
        Some ts \<Rightarrow> i64_sub now ts \<ge> FULL_REINDEX_INTERVAL_SECS
      | None \<Rightarrow> False)"

definition reset_tracker :: "int \<Rightarrow> string \<Rightarrow> reindex_tracker \<Rightarrow> reindex_tracker" where
  "reset_tracker now repo_id t =
     t\<lparr>t_counts := (t_counts t)(repo_id := None),
       t_last_full_reindex := (t_last_full_reindex t)(repo_id \<mapsto> now)\<rparr>"

datatype reindex_outcome = Skipped | Full | Incremental

definition should_force_full_reindex ::
  "int \<Rightarrow> reindex_tracker option \<Rightarrow> string \<Rightarrow> nat \<Rightarrow> bool \<Rightarrow> bool" where
  "should_force_full_reindex now tracker repo_id file_count spot_check =
     (case tracker of None \<Rightarrow> False | Some t \<Rightarrow> needs_full_reindex now repo_id file_count t \<or> spot_check)"

definition record_reindex_outcome :: "int \<Rightarrow> string \<Rightarrow> reindex_outcome \<Rightarrow> reindex_tracker \<Rightarrow> reindex_tracker" where
  "record_reindex_outcome now repo_id outcome t =
     (case outcome of
        Incremental \<Rightarrow> record_incremental repo_id t
      | Full \<Rightarrow> reset_tracker now repo_id t
      | Skipped \<Rightarrow> t)"

text \<open>The write-through; \<open>written\<close> says whether the database accepted the row, a failure is only logged.\<close>

definition persist_reindex_outcome ::
  "int \<Rightarrow> bool \<Rightarrow> string \<Rightarrow> reindex_outcome \<Rightarrow> reindex_rows \<times> reindex_tracker \<Rightarrow> reindex_rows \<times> reindex_tracker" where
  "persist_reindex_outcome now written repo_id outcome st =
     (case st of (rows, t) \<Rightarrow>
        if outcome = Skipped then (rows, t)
        else let t' = record_reindex_outcome now repo_id outcome t
             in (if written then upsert_reindex_state repo_id (tracker_count repo_id t') (last_full_unix repo_id t') rows
                 else rows, t'))"

section \<open>Lemmas: schedule rows\<close>

abbreviation schedule_key :: "repo_schedule \<Rightarrow> string \<times> string" where
  "schedule_key r \<equiv> (s_repo_id r, canonical_repo_id (s_repo_url r))"

definition rows_distinct :: "poll_scheduler \<Rightarrow> bool" where
  "rows_distinct s \<longleftrightarrow> distinct (map schedule_key (s_repos s))"

lemma map_update_first:
  "(\<And>x. P x \<Longrightarrow> g (f x) = g x) \<Longrightarrow> map g (update_first P f xs) = map g xs"
  by (induction xs) auto

lemma update_first_append:
  "(\<And>x. x \<in> set a \<Longrightarrow> \<not> P x) \<Longrightarrow> P x \<Longrightarrow> update_first P f (a @ x # b) = a @ f x # b"
  by (induction a) auto

lemma readded_row_key:
  "same_schedule repo_id url r \<Longrightarrow> schedule_key (readded_row now url ovr branch r) = schedule_key r"
  by (simp add: same_schedule_def readded_row_def Let_def)

lemma add_repo_distinct: "rows_distinct s \<Longrightarrow> rows_distinct (add_repo now repo_id url ovr branch s)"
proof -
  have "map schedule_key (update_first (same_schedule repo_id url) (readded_row now url ovr branch) rs)
          = map schedule_key rs" for rs
    by (rule map_update_first) (rule readded_row_key)
  then show "rows_distinct s \<Longrightarrow> ?thesis"
    by (auto simp: rows_distinct_def add_repo_def list_ex_iff same_schedule_def)
qed

lemma remove_repo_distinct: "rows_distinct s \<Longrightarrow> rows_distinct (remove_repo repo_id s)"
  by (simp add: rows_distinct_def remove_repo_def distinct_map_filter)

lemma update_commit_time_distinct: "rows_distinct s \<Longrightarrow> rows_distinct (update_commit_time repo_id t s)"
  by (simp add: rows_distinct_def update_commit_time_def map_update_first)

lemma due_row_key: "due_row now clock rnd s r = Inr (r', d) \<Longrightarrow> schedule_key r' = schedule_key r"
  by (auto simp: due_row_def Let_def split: if_splits sum.splits)

lemma due_rows_keys:
  "due_rows now clock rnd s k rs = Inr xs \<Longrightarrow> map (schedule_key \<circ> fst) xs = map schedule_key rs"
  by (induction rs arbitrary: k xs) (auto split: sum.splits dest: due_row_key)

lemma due_repos_distinct:
  "rows_distinct s \<Longrightarrow> due_repos now clock rnd s = Inr (s', due) \<Longrightarrow> rows_distinct s'"
  by (auto simp: rows_distinct_def due_repos_def split: sum.splits dest: due_rows_keys)

lemma seeded_distinct:
  "rows_distinct s \<Longrightarrow>
   rows_distinct (fold (\<lambda>(repo_id, url, ovr, branch). add_repo now repo_id url ovr branch) repos s)"
  by (induction repos arbitrary: s) (auto simp: add_repo_distinct)

lemma new_scheduler_distinct [simp]: "rows_distinct (new_scheduler a b)"
  by (simp add: rows_distinct_def new_scheduler_def)

fun loop_ok :: "poll_panic + poll_loop \<Rightarrow> bool" where
  "loop_ok (Inl e) \<longleftrightarrow> True"
| "loop_ok (Inr l) \<longleftrightarrow> rows_distinct (l_scheduler l)"

lemma handle_command_distinct:
  "rows_distinct (l_scheduler l) \<Longrightarrow> rows_distinct (l_scheduler (handle_command now cmd l))"
  by (cases cmd) (auto simp: add_repo_distinct remove_repo_distinct reload_config_def Let_def seeded_distinct)

lemma handle_done_scheduler:
  "l_scheduler (handle_done H inst indexed_sha now unow task out drained l)
     \<in> {l_scheduler l, update_commit_time (o_repo_id out) now (l_scheduler l)}"
  by (auto simp: handle_done_def Let_def split: prod.splits sum.splits option.splits)

lemma poll_step_ok: "loop_ok st \<Longrightarrow> loop_ok (poll_step H inst indexed_sha ev st)"
proof (cases st)
  case (Inr l)
  assume "loop_ok st"
  with Inr have ok: "rows_distinct (l_scheduler l)" by simp
  show ?thesis
  proof (cases ev)
    case (Command now cmd)
    with Inr ok show ?thesis by (simp add: handle_command_distinct)
  next
    case (Tick now clock rnd drained ids)
    with Inr ok show ?thesis
      by (auto simp: handle_tick_def split: sum.splits dest: due_repos_distinct)
  next
    case (ProbeDone now unow task out drained)
    with Inr ok show ?thesis
      using handle_done_scheduler [of H inst indexed_sha now unow task out drained l]
      by (auto simp: update_commit_time_distinct)
  qed (use Inr ok in simp)
qed simp

interpretation poll_runs: step_system "poll_step H inst indexed_sha" loop_ok for H inst indexed_sha
  by unfold_locales (rule poll_step_ok)

section \<open>Lemmas: probes\<close>

lemmas flight_defs = try_dispatch_def track_def forget_repo_def reset_probes_def finish_def failed_def

text \<open>What makes a running probe of a repository stale.\<close>

fun invalidates :: "string \<Rightarrow> flight_op \<Rightarrow> bool" where
  "invalidates repo_id (FForget r) \<longleftrightarrow> r = repo_id"
| "invalidates repo_id FReset \<longleftrightarrow> True"
| "invalidates repo_id _ \<longleftrightarrow> False"

text \<open>The repository has no entry of generation \<open>n\<close> or less, and none can appear.\<close>

definition only_newer :: "string \<Rightarrow> nat \<Rightarrow> poll_in_flight \<Rightarrow> bool" where
  "only_newer repo_id n f \<longleftrightarrow>
     n < unat (f_generation f) \<and> (\<forall>g u. f_entries f repo_id = Some (g, u) \<longrightarrow> n < unat g)"

lemma generation_step:
  "f_generation (flight_exec op f) = f_generation f \<or> f_generation (flight_exec op f) = f_generation f + 1"
  by (cases op) (auto simp: flight_defs Let_def split: option.splits)

lemma unat_Suc_word: "unat (x :: u64) + 1 < 2 ^ 64 \<Longrightarrow> unat (x + 1) = unat x + 1"
  by (simp add: unat_word_ariths)

lemma generation_grows:
  "unat (f_generation f) + 1 < 2 ^ 64 \<Longrightarrow>
   unat (f_generation (flight_exec op f)) \<in> {unat (f_generation f), unat (f_generation f) + 1}"
  using generation_step [of op f] unat_Suc_word [of "f_generation f"] by auto

lemma entry_step:
  "f_entries (flight_exec op f) r = Some (g, u) \<Longrightarrow> f_entries f r = Some (g, u) \<or> g = f_generation f"
  by (cases op) (auto simp: flight_defs Let_def split: option.splits if_splits)

lemma only_newer_step:
  assumes "only_newer r n f" "unat (f_generation f) + 1 < 2 ^ 64"
  shows "only_newer r n (flight_exec op f)"
  using assms generation_grows [OF assms(2), of op]
  by (auto simp: only_newer_def dest: entry_step)

lemma only_newer_run:
  "only_newer r n f \<Longrightarrow> unat (f_generation f) + length ops < 2 ^ 64 \<Longrightarrow> only_newer r n (fold flight_exec ops f)"
proof (induction ops arbitrary: f)
  case (Cons op ops)
  then have "unat (f_generation f) + 1 < 2 ^ 64" by simp
  with Cons.prems(2) have "unat (f_generation (flight_exec op f)) + length ops < 2 ^ 64"
    using generation_grows [of f op] by auto
  with Cons show ?case by (simp add: only_newer_step)
qed simp

lemma invalidates_only_newer:
  assumes "invalidates r op" "unat (f_generation f) + 1 < 2 ^ 64" "n \<le> unat (f_generation f)"
  shows "only_newer r n (flight_exec op f)"
  using assms by (cases op) (auto simp: only_newer_def flight_defs unat_Suc_word)

lemma stale_after_invalidation:
  "\<lbrakk>\<exists>op\<in>set ops. invalidates r op; n \<le> unat (f_generation f); unat (f_generation f) + length ops < 2 ^ 64\<rbrakk>
   \<Longrightarrow> only_newer r n (fold flight_exec ops f)"
proof (induction ops arbitrary: f)
  case (Cons op ops)
  then have one: "unat (f_generation f) + 1 < 2 ^ 64" by simp
  from generation_grows [OF this, of op] Cons.prems
  have room: "unat (f_generation (flight_exec op f)) + length ops < 2 ^ 64"
    and le: "n \<le> unat (f_generation (flight_exec op f))" by auto
  show ?case
  proof (cases "invalidates r op")
    case True
    from invalidates_only_newer [OF True one Cons.prems(2)] room show ?thesis
      by (simp add: only_newer_run)
  next
    case False
    with Cons.prems(1) have "\<exists>op\<in>set ops. invalidates r op" by auto
    from Cons.IH [OF this le room] show ?thesis by simp
  qed
qed simp

text \<open>An operation that can release the entry of a running probe without invalidating it.\<close>

fun releases :: "string \<Rightarrow> flight_op \<Rightarrow> bool" where
  "releases repo_id (FFinish task r g drained) \<longleftrightarrow> r = repo_id"
| "releases repo_id (FFailed task) \<longleftrightarrow> True"
| "releases repo_id _ \<longleftrightarrow> False"

lemma entry_kept:
  "f_entries f r = Some e \<Longrightarrow> \<not> invalidates r op \<Longrightarrow> \<not> releases r op \<Longrightarrow> f_entries (flight_exec op f) r = Some e"
  by (cases op; cases e) (auto simp: flight_defs Let_def split: option.splits if_splits)

lemma entry_kept_run:
  "f_entries f r = Some e \<Longrightarrow> (\<And>op. op \<in> set ops \<Longrightarrow> \<not> invalidates r op \<and> \<not> releases r op)
   \<Longrightarrow> f_entries (fold flight_exec ops f) r = Some e"
  by (induction ops arbitrary: f) (auto simp: entry_kept)

section \<open>Lemmas: intervals and due rows\<close>

lemma jittered_bounds:
  assumes draw: "\<And>n. 0 < n \<Longrightarrow> rnd n < n" and small: "interval div 10 ^ 6 < 2 ^ 63"
  shows "interval < 2 * jittered rnd interval + 2 * 10 ^ 6" "2 * jittered rnd interval \<le> 3 * interval"
proof -
  define millis where "millis = interval div 10 ^ 6"
  have lt: "millis < 2 ^ 63" using small by (simp add: millis_def)
  have whole: "interval < DURATION_MAX div 2"
    using small by (simp add: DURATION_MAX_def)
  have bounds: "millis * 10 ^ 6 \<le> interval" "interval < (millis + 1) * 10 ^ 6"
    unfolding millis_def by simp_all
  have wrap: "interval div 10 ^ 6 mod 2 ^ 64 = millis"
    using lt by (simp add: millis_def)
  have draw': "millis \<noteq> 0 \<Longrightarrow> rnd millis < millis" using draw by simp
  have no_wrap: "(millis div 2 + rnd millis) mod 2 ^ 64 = millis div 2 + rnd millis" if "millis \<noteq> 0"
    using draw' [OF that] lt by (intro mod_less) simp
  have "jittered rnd interval = (if millis = 0 then interval else (millis div 2 + rnd millis) * 10 ^ 6)"
    unfolding jittered_def Let_def wrap using whole no_wrap
    by (cases "millis = 0") (simp_all add: from_millis_def max_absorb1)
  then show "interval < 2 * jittered rnd interval + 2 * 10 ^ 6" "2 * jittered rnd interval \<le> 3 * interval"
    using bounds draw' by (auto split: if_splits)
qed

lemma adaptive_interval:
  assumes "s_poll_override r = None"
  shows "compute_interval clock r lo hi healthy \<le> hi"
    and "lo \<le> hi \<Longrightarrow> \<not> healthy \<Longrightarrow> lo \<le> compute_interval clock r lo hi healthy"
    and "WEBHOOK_HEALTHY_FLOOR \<le> hi \<Longrightarrow> healthy \<Longrightarrow> WEBHOOK_HEALTHY_FLOOR \<le> compute_interval clock r lo hi healthy"
  using assms by (auto simp: compute_interval_def Let_def)

text \<open>A row the tick polls: its time has come and its interval is a real one.\<close>

definition polled :: "instant \<Rightarrow> instant \<Rightarrow> poll_scheduler \<Rightarrow> repo_schedule \<Rightarrow> bool" where
  "polled now clock s r \<longleftrightarrow> s_next_poll_at r \<le> now \<and> next_interval clock s r \<noteq> DURATION_MAX"

lemma due_row_cases:
  assumes "polled now clock s r \<Longrightarrow> now + jittered rnd (next_interval clock s r) < INSTANT_END"
  shows "due_row now clock rnd s r =
     Inr (if polled now clock s r
          then (r\<lparr>s_next_poll_at := now + jittered rnd (next_interval clock s r)\<rparr>,
                Some (s_repo_id r, s_repo_url r, s_branch r))
          else (r, None))"
  using assms by (auto simp: due_row_def Let_def polled_def next_interval_def instant_add_def)

lemma due_rows_exact:
  assumes "\<And>i. i < length rs \<Longrightarrow> polled now (clock (k + i)) s (rs ! i) \<Longrightarrow>
             now + jittered (rnd (k + i)) (next_interval (clock (k + i)) s (rs ! i)) < INSTANT_END"
  shows "\<exists>xs. due_rows now clock rnd s k rs = Inr xs \<and> length xs = length rs \<and>
           (\<forall>i < length rs. xs ! i =
              (if polled now (clock (k + i)) s (rs ! i)
               then ((rs ! i)\<lparr>s_next_poll_at := now + jittered (rnd (k + i)) (next_interval (clock (k + i)) s (rs ! i))\<rparr>,
                     Some (s_repo_id (rs ! i), s_repo_url (rs ! i), s_branch (rs ! i)))
               else (rs ! i, None)))"
  using assms
proof (induction rs arbitrary: k)
  case (Cons r rs)
  have hd: "due_row now (clock k) (rnd k) s r =
     Inr (if polled now (clock k) s r
          then (r\<lparr>s_next_poll_at := now + jittered (rnd k) (next_interval (clock k) s r)\<rparr>,
                Some (s_repo_id r, s_repo_url r, s_branch r))
          else (r, None))"
    using Cons.prems [of 0] by (intro due_row_cases) simp
  from Cons.prems [of "Suc i" for i] obtain xs where
    "due_rows now clock rnd s (Suc k) rs = Inr xs" "length xs = length rs"
    "\<forall>i < length rs. xs ! i =
       (if polled now (clock (Suc k + i)) s (rs ! i)
        then ((rs ! i)\<lparr>s_next_poll_at := now + jittered (rnd (Suc k + i)) (next_interval (clock (Suc k + i)) s (rs ! i))\<rparr>,
              Some (s_repo_id (rs ! i), s_repo_url (rs ! i), s_branch (rs ! i)))
        else (rs ! i, None))"
    using Cons.IH [of "Suc k"] by auto
  with hd show ?case by (auto simp: nth_Cons split: nat.split)
qed simp

lemma map_filter_nth:
  "length xs = length ys \<Longrightarrow> (\<And>i. i < length ys \<Longrightarrow> xs ! i = (if P i then (a i, Some (b (ys ! i))) else (c i, None)))
   \<Longrightarrow> List.map_filter snd xs = map (\<lambda>i. b (ys ! i)) (filter P [0 ..< length ys])"
proof (induction xs arbitrary: ys rule: rev_induct)
  case (snoc x xs)
  then obtain y zs where ys: "ys = zs @ [y]" by (metis length_0_conv rev_exhaust snoc_eq_iff_butlast)
  with snoc.prems(1) have len: "length xs = length zs" by simp
  have "xs ! i = (if P i then (a i, Some (b (zs ! i))) else (c i, None))" if "i < length zs" for i
    using snoc.prems(2) [of i] that len ys by (simp add: nth_append)
  from snoc.IH [OF len this] snoc.prems(2) [of "length zs"] len ys show ?case
    by (auto simp: map_filter_def nth_append cong: map_cong)
qed (simp add: map_filter_def)

section \<open>Lemmas: the tracker and its table\<close>

text \<open>What the table says of a repository, and that the tracker says the same.\<close>

definition stored :: "reindex_rows \<Rightarrow> string \<Rightarrow> u32 \<times> int option" where
  "stored rows repo_id =
     (case map_of rows repo_id of Some (n, last_full) \<Rightarrow> (of_int (max 0 n), last_full) | None \<Rightarrow> (0, None))"

definition observed :: "reindex_tracker \<Rightarrow> string \<Rightarrow> u32 \<times> int option" where
  "observed t repo_id = (tracker_count repo_id t, last_full_unix repo_id t)"

fun mirrored :: "reindex_rows \<times> reindex_tracker \<Rightarrow> bool" where
  "mirrored (rows, t) \<longleftrightarrow> distinct (map fst rows) \<and> observed t = stored rows"

lemma load_row_other: "k \<noteq> repo_id \<Longrightarrow> observed (load_row (k, v) t) repo_id = observed t repo_id"
  by (cases v) (auto simp: observed_def tracker_count_def last_full_unix_def split: option.splits)

lemma load_rows_other:
  "repo_id \<notin> fst ` set rows \<Longrightarrow> observed (fold load_row rows t) repo_id = observed t repo_id"
  by (induction rows arbitrary: t) (auto simp: load_row_other simp del: load_row.simps)

lemma load_row_same: "observed t k = (0, None) \<Longrightarrow> observed (load_row (k, n, l) t) k = (n, l)"
  by (auto simp: observed_def tracker_count_def last_full_unix_def word_gt_0 split: option.splits)

lemma load_rows_observed:
  "distinct (map fst rows) \<Longrightarrow> observed t repo_id = (0, None) \<Longrightarrow>
   observed (fold load_row (load_reindex_state rows) t) repo_id = stored rows repo_id"
proof (induction rows arbitrary: t)
  case (Cons row rows)
  obtain k n l where row: "row = (k, n, l)" by (cases row)
  show ?case
  proof (cases "k = repo_id")
    case True
    with Cons.prems(1) row have "repo_id \<notin> fst ` set (load_reindex_state rows)"
      by (force simp: load_reindex_state_def)
    with True Cons.prems row show ?thesis
      by (simp add: load_reindex_state_def load_rows_other load_row_same stored_def del: load_row.simps)
  next
    case False
    with Cons.IH [of "load_row (k, of_int (max 0 n), l) t"] Cons.prems row show ?thesis
      by (simp add: load_reindex_state_def load_row_other stored_def del: load_row.simps)
  qed
qed (simp add: load_reindex_state_def stored_def)

lemma from_persisted_observed:
  "distinct (map fst rows) \<Longrightarrow> observed (from_persisted (load_reindex_state rows)) = stored rows"
  unfolding from_persisted_def load_persisted_def
  by (rule ext, rule load_rows_observed) (simp_all add: observed_def tracker_count_def last_full_unix_def)

lemma upsert_keys:
  "fst ` set (upsert_reindex_state repo_id n l rows) = insert repo_id (fst ` set rows)"
  by (induction repo_id n l rows rule: upsert_reindex_state.induct) auto

lemma upsert_distinct:
  "distinct (map fst rows) \<Longrightarrow> distinct (map fst (upsert_reindex_state repo_id n l rows))"
  by (induction repo_id n l rows rule: upsert_reindex_state.induct)
     (auto simp: upsert_keys simp flip: image_set)

lemma upsert_stored:
  "stored (upsert_reindex_state repo_id n l rows) = (stored rows)(repo_id := (n, l))"
  by (rule ext, induction repo_id n l rows rule: upsert_reindex_state.induct) (auto simp: stored_def)

lemma outcome_other:
  "r \<noteq> repo_id \<Longrightarrow> observed (record_reindex_outcome now repo_id outcome t) r = observed t r"
  by (cases outcome) (auto simp: record_reindex_outcome_def record_incremental_def reset_tracker_def
      observed_def tracker_count_def last_full_unix_def)

lemma persist_mirrored:
  assumes "mirrored st"
  shows "mirrored (persist_reindex_outcome now True repo_id outcome st)"
proof -
  obtain rows t where st: "st = (rows, t)" by (cases st)
  have "observed t' = (observed t)(repo_id := (tracker_count repo_id t', last_full_unix repo_id t'))"
    if "t' = record_reindex_outcome now repo_id outcome t" for t'
    using that by (auto simp: outcome_other fun_eq_iff) (auto simp: observed_def)
  with assms st show ?thesis
    by (auto simp: persist_reindex_outcome_def Let_def upsert_distinct upsert_stored)
qed

fun persist_step ::
  "int \<times> string \<times> reindex_outcome \<Rightarrow> reindex_rows \<times> reindex_tracker \<Rightarrow> reindex_rows \<times> reindex_tracker" where
  "persist_step (now, repo_id, outcome) st = persist_reindex_outcome now True repo_id outcome st"

interpretation tracker_runs: step_system persist_step mirrored
proof
  fix st :: "reindex_rows \<times> reindex_tracker" and e :: "int \<times> string \<times> reindex_outcome"
  assume "mirrored st"
  then show "mirrored (persist_step e st)" by (cases e) (simp add: persist_mirrored del: mirrored.simps)
qed

lemma needs_full_observed:
  "observed t repo_id = observed t' repo_id \<Longrightarrow>
   needs_full_reindex now repo_id file_count t = needs_full_reindex now repo_id file_count t'"
  by (simp add: observed_def needs_full_reindex_def last_full_unix_def)

lemma full_clears: "\<not> needs_full_reindex now repo_id file_count (record_reindex_outcome now repo_id Full t)"
  by (simp add: record_reindex_outcome_def reset_tracker_def needs_full_reindex_def tracker_count_def
      reindex_threshold_def i64_sub_def FULL_REINDEX_INTERVAL_SECS_def)

section \<open>Lemmas: the duration syntax\<close>

lemma ms_ends_in_ascii: "strip_suffix ''ms'' s = Some r \<Longrightarrow> last s = CHR ''s''"
  by (simp add: strip_suffix_Some_iff)

lemma parse_duration_panics:
  "parse_duration s = Inl e \<longleftrightarrow> e = CharBoundary \<and> trim s \<noteq> [] \<and> 128 \<le> code (last (trim s))"
proof (cases "strip_suffix ''ms'' (trim s)")
  case None
  then show ?thesis by (auto simp: parse_duration_def Let_def utf8_len_char_def not_less)
next
  case (Some r)
  then have "last (trim s) = CHR ''s''" by (rule ms_ends_in_ascii)
  then have "\<not> 128 \<le> code (last (trim s))" by (simp add: code_def)
  with Some show ?thesis by (auto simp: parse_duration_def Let_def)
qed

lemma trim_number_unit: "u \<noteq> [] \<Longrightarrow> \<not> is_whitespace (last u) \<Longrightarrow> trim (nat_dec n @ u) = nat_dec n @ u"
proof -
  have "is_ascii_digit (hd (nat_dec n))" by (intro nat_dec_digits [of _ n]) simp
  then have "\<not> is_whitespace (hd (nat_dec n))" using digit_not_sep by blast
  then show "u \<noteq> [] \<Longrightarrow> \<not> is_whitespace (last u) \<Longrightarrow> ?thesis"
    by (simp add: trim_def trim_by_id hd_append)
qed

lemma not_ms: "strip_suffix ''ms'' (nat_dec n @ [u]) = None"
proof -
  have "is_ascii_digit CHR ''m''" if "nat_dec n @ [u] = zs @ ''ms''" for zs
    using that by (intro nat_dec_digits [of _ n]) (metis append_butlast_last_id butlast_append butlast_snoc
        append.assoc append_Cons append_Nil in_set_conv_decomp list.distinct(1) butlast.simps(2))
  then show ?thesis by (auto simp: strip_suffix_def suffix_def is_ascii_digit_def code_def)
qed

lemma parse_duration_ms:
  "n < 2 ^ 64 \<Longrightarrow> parse_duration (nat_dec n @ ''ms'') = Inr (Some (from_millis n))"
  by (simp add: parse_duration_def Let_def trim_number_unit is_whitespace_def code_def strip_suffix_def suffix_def)

lemma parse_duration_unit:
  assumes "n < 2 ^ 64"
  shows "parse_duration (nat_dec n @ ''s'') = Inr (Some (from_secs n)) \<and>
    parse_duration (nat_dec n @ ''m'') = Inr (if n * 60 < 2 ^ 64 then Some (from_secs (n * 60)) else None) \<and>
    parse_duration (nat_dec n @ ''h'') = Inr (if n * 3600 < 2 ^ 64 then Some (from_secs (n * 3600)) else None)"
  using assms by (simp add: parse_duration_def trim_number_unit not_ms is_whitespace_def code_def utf8_len_char_def)

section \<open>Properties\<close>



text \<open>
  However the poll loop runs (commands, ticks, finished and failed probes, configuration
  reloads, in any order), the scheduler never holds two rows for one repository: the pairs of
  repository id and canonical URL stay distinct, so no repository is probed twice per interval.
\<close>

theorem schedule_rows_distinct:
  assumes "rows_distinct (l_scheduler l)"
    and "fold (poll_step H inst indexed_sha) events (Inr l) = Inr l'"
  shows "distinct (map (\<lambda>r. (s_repo_id r, canonical_repo_id (s_repo_url r))) (s_repos (l_scheduler l')))"
  using poll_runs.run_inv [of "Inr l" H inst indexed_sha events] assms by (simp add: rows_distinct_def)

definition sample_loop :: poll_loop where
  "sample_loop = \<lparr>l_min_poll = 10, l_max_poll = 20, l_scheduler = new_scheduler 10 20,
     l_in_flight = no_probes, l_queue = None\<rparr>"

theorem schedule_rows_distinct_witness:
  "length (s_repos (l_scheduler (handle_command 5 (AddRepo ''r'' ''h/r/'' None None)
      (handle_command 4 (AddRepo ''r'' ''h/r.git'' None None) sample_loop)))) = 1 \<and>
   distinct (map (\<lambda>r. (s_repo_id r, canonical_repo_id (s_repo_url r)))
     (s_repos (l_scheduler (handle_command 5 (AddRepo ''r'' ''h/r/'' None None)
      (handle_command 4 (AddRepo ''r'' ''h/r.git'' None None) sample_loop)))))"
  using schedule_rows_distinct [of sample_loop "(\<lambda>b. b, \<lambda>_. [])" "''i''" "\<lambda>_. None"
      "[Command 4 (AddRepo ''r'' ''h/r.git'' None None), Command 5 (AddRepo ''r'' ''h/r/'' None None)]"]
  by (simp add: sample_loop_def new_scheduler_def rows_distinct_def add_repo_def same_schedule_def
      canonical_repo_id_def pop_slashes.simps suffix_def readded_row_def)

text \<open>
  A tick returns exactly the repositories whose time has come and that are not configured
  \<open>never\<close> or \<open>manual\<close>, in row order, moves each of them to a time between half and one and a half of
  its interval later (half: to the millisecond), and leaves every other row as it is; it does not
  panic as long as the interval times one and a half still fits the clock.
\<close>

theorem due_repos_reschedules:
  fixes s :: poll_scheduler
  defines "rs \<equiv> s_repos s"
  assumes draw: "\<And>k n. 0 < n \<Longrightarrow> rnd k n < n"
    and fits: "\<And>i. i < length rs \<Longrightarrow> polled now (clock i) s (rs ! i) \<Longrightarrow>
          next_interval (clock i) s (rs ! i) div 10 ^ 6 < 2 ^ 63 \<and>
          2 * now + 3 * next_interval (clock i) s (rs ! i) < 2 * INSTANT_END"
  shows "\<exists>s'. due_repos now clock rnd s =
      Inr (s', map (\<lambda>i. (s_repo_id (rs ! i), s_repo_url (rs ! i), s_branch (rs ! i)))
                 (filter (\<lambda>i. polled now (clock i) s (rs ! i)) [0 ..< length rs])) \<and>
    length (s_repos s') = length rs \<and>
    (\<forall>i < length rs.
      if polled now (clock i) s (rs ! i)
      then \<exists>wait. s_repos s' ! i = (rs ! i)\<lparr>s_next_poll_at := now + wait\<rparr> \<and>
             next_interval (clock i) s (rs ! i) < 2 * wait + 2 * 10 ^ 6 \<and>
             2 * wait \<le> 3 * next_interval (clock i) s (rs ! i)
      else s_repos s' ! i = rs ! i)"
proof -
  let ?wait = "\<lambda>i. jittered (rnd i) (next_interval (clock i) s (rs ! i))"
  have wait: "next_interval (clock i) s (rs ! i) < 2 * ?wait i + 2 * 10 ^ 6"
    "2 * ?wait i \<le> 3 * next_interval (clock i) s (rs ! i)"
    if "i < length rs" "polled now (clock i) s (rs ! i)" for i
    using jittered_bounds [of "rnd i" "next_interval (clock i) s (rs ! i)"] fits [OF that] draw by blast+
  have "now + ?wait i < INSTANT_END" if "i < length rs" "polled now (clock i) s (rs ! i)" for i
    using wait(2) [OF that] fits [OF that] by linarith
  with due_rows_exact [of rs now clock 0 s rnd] obtain xs where
    xs: "due_rows now clock rnd s 0 rs = Inr xs" "length xs = length rs" and
    nth: "\<And>i. i < length rs \<Longrightarrow> xs ! i =
       (if polled now (clock i) s (rs ! i)
        then ((rs ! i)\<lparr>s_next_poll_at := now + ?wait i\<rparr>, Some (s_repo_id (rs ! i), s_repo_url (rs ! i), s_branch (rs ! i)))
        else (rs ! i, None))"
    by auto
  have due: "List.map_filter snd xs = map (\<lambda>i. (s_repo_id (rs ! i), s_repo_url (rs ! i), s_branch (rs ! i)))
      (filter (\<lambda>i. polled now (clock i) s (rs ! i)) [0 ..< length rs])"
    by (rule map_filter_nth [where b = "\<lambda>r. (s_repo_id r, s_repo_url r, s_branch r)", OF xs(2)]) (rule nth)
  show ?thesis
    using xs(1) due wait nth unfolding rs_def
    by (auto simp: due_repos_def xs(2) [unfolded rs_def] split: if_splits)
qed

definition sample_scheduler :: poll_scheduler where
  "sample_scheduler = add_repo 0 ''b'' ''u'' (Some Never) None (add_repo 0 ''a'' ''t'' None None (new_scheduler 10000000 40000000))"

theorem due_repos_reschedules_witness:
  "\<exists>s'. due_repos 5 (\<lambda>_. 5) (\<lambda>_ _. 0) sample_scheduler = Inr (s', [(''a'', ''t'', None)]) \<and>
     s_repos s' ! 1 = s_repos sample_scheduler ! 1"
proof -
  have rows: "s_repos sample_scheduler =
     [\<lparr>s_repo_id = ''a'', s_repo_url = ''t'', s_branch = None, s_poll_override = None,
       s_last_commit_time = None, s_next_poll_at = 0\<rparr>,
      \<lparr>s_repo_id = ''b'', s_repo_url = ''u'', s_branch = None, s_poll_override = Some Never,
       s_last_commit_time = None, s_next_poll_at = 0\<rparr>]"
    by (simp add: sample_scheduler_def add_repo_def new_scheduler_def same_schedule_def)
  have cfg: "s_min_poll sample_scheduler = 10000000" "s_max_poll sample_scheduler = 40000000"
    "\<not> s_webhook_healthy sample_scheduler"
    by (simp_all add: sample_scheduler_def add_repo_def new_scheduler_def same_schedule_def)
  have p: "polled 5 5 sample_scheduler (s_repos sample_scheduler ! 0)"
    "\<not> polled 5 5 sample_scheduler (s_repos sample_scheduler ! 1)"
    "next_interval 5 sample_scheduler (s_repos sample_scheduler ! 0) = 20000000"
    by (simp_all add: rows cfg polled_def next_interval_def compute_interval_def DURATION_MAX_def)
  have only: "i = 0" if "i < length (s_repos sample_scheduler)" "polled 5 5 sample_scheduler (s_repos sample_scheduler ! i)" for i
    using that p(2) rows by (auto simp: less_Suc_eq)
  have fits: "next_interval 5 sample_scheduler (s_repos sample_scheduler ! i) div 10 ^ 6 < 2 ^ 63 \<and>
      2 * 5 + 3 * next_interval 5 sample_scheduler (s_repos sample_scheduler ! i) < 2 * INSTANT_END"
    if "i < length (s_repos sample_scheduler)" "polled 5 5 sample_scheduler (s_repos sample_scheduler ! i)" for i
    using only [OF that] p(3) by (simp add: INSTANT_END_def)
  have two: "1 < length (s_repos sample_scheduler)" by (simp add: rows)
  have "\<exists>s'. due_repos 5 (\<lambda>_. 5) (\<lambda>_ _. 0) sample_scheduler =
      Inr (s', map (\<lambda>i. (s_repo_id (s_repos sample_scheduler ! i), s_repo_url (s_repos sample_scheduler ! i),
          s_branch (s_repos sample_scheduler ! i)))
        (filter (\<lambda>i. polled 5 5 sample_scheduler (s_repos sample_scheduler ! i)) [0 ..< length (s_repos sample_scheduler)])) \<and>
      s_repos s' ! 1 = s_repos sample_scheduler ! 1"
    using due_repos_reschedules [of "\<lambda>_ _. 0" sample_scheduler 5 "\<lambda>_. 5", OF _ fits] p(2) two by fastforce
  with p show ?thesis by (simp add: rows upt_rec)
qed

text \<open>
  A repository id is not an identity, yet the loop treats it as one. Of two scheduled
  repositories with the same id, a new commit on either shortens the interval of the first one only
  (the row of the second keeps its interval), removing either removes both, and while a probe of
  one runs the other is not probed although a tick has already moved its next poll.
\<close>

theorem shared_id_is_one_identity:
  assumes "s_repos s = a @ r1 # b @ r2 # c" and "s_repo_id r1 = s_repo_id r2"
    and "s_repo_id r2 \<notin> s_repo_id ` set a"
  shows "s_repos (update_commit_time (s_repo_id r2) t s) = a @ r1\<lparr>s_last_commit_time := Some t\<rparr> # b @ r2 # c \<and>
         s_repos (remove_repo (s_repo_id r2) s) =
           a @ filter (\<lambda>r. s_repo_id r \<noteq> s_repo_id r2) b @ filter (\<lambda>r. s_repo_id r \<noteq> s_repo_id r2) c \<and>
         (f_entries f (s_repo_id r1) \<noteq> None \<longrightarrow>
           dispatch_due ids k ((s_repo_id r2, s_repo_url r2, s_branch r2) # due) f = dispatch_due ids (Suc k) due f)"
proof -
  have other: "x \<in> set a \<Longrightarrow> s_repo_id x \<noteq> s_repo_id r2" for x
    using assms(3) by (metis image_eqI)
  then have "s_repos (update_commit_time (s_repo_id r2) t s) = a @ r1\<lparr>s_last_commit_time := Some t\<rparr> # b @ r2 # c"
    using assms(1,2) by (simp add: update_commit_time_def update_first_append)
  moreover
  have "filter (\<lambda>r. s_repo_id r \<noteq> s_repo_id r2) a = a"
    using other by (auto simp: filter_id_conv)
  then have "s_repos (remove_repo (s_repo_id r2) s) =
      a @ filter (\<lambda>r. s_repo_id r \<noteq> s_repo_id r2) b @ filter (\<lambda>r. s_repo_id r \<noteq> s_repo_id r2) c"
    using assms(1,2) by (simp add: remove_repo_def)
  moreover have "dispatch_due ids k ((s_repo_id r2, s_repo_url r2, s_branch r2) # due) f = dispatch_due ids (Suc k) due f"
    if "f_entries f (s_repo_id r1) \<noteq> None"
    using that assms(2) by (simp add: try_dispatch_def)
  ultimately show ?thesis by blast
qed

theorem shared_id_is_one_identity_witness:
  "s_repos (remove_repo ''api'' (add_repo 0 ''api'' ''gitlab.com/vendor/api'' None None
      (add_repo 0 ''api'' ''github.com/acme/api'' None None with_defaults))) = []"
proof -
  define r1 where "r1 = \<lparr>s_repo_id = ''api'', s_repo_url = ''github.com/acme/api'', s_branch = None,
    s_poll_override = None, s_last_commit_time = None, s_next_poll_at = 0\<rparr>"
  define r2 where "r2 = \<lparr>s_repo_id = ''api'', s_repo_url = ''gitlab.com/vendor/api'', s_branch = None,
    s_poll_override = None, s_last_commit_time = None, s_next_poll_at = 0\<rparr>"
  define s where "s = add_repo 0 ''api'' ''gitlab.com/vendor/api'' None None
      (add_repo 0 ''api'' ''github.com/acme/api'' None None with_defaults)"
  have "s_repos s = [] @ r1 # [] @ r2 # []"
    by (simp add: s_def r1_def r2_def add_repo_def with_defaults_def new_scheduler_def same_schedule_def
        canonical_repo_id_def pop_slashes.simps suffix_def)
  from shared_id_is_one_identity [OF this] show ?thesis
    by (simp add: r1_def r2_def s_def)
qed

text \<open>
  The duration syntax of the configuration: a decimal number with a unit denotes that many
  milliseconds, seconds, minutes or hours (none beyond 2^64 seconds), and reading any other text
  fails softly, except that a text ending in a character outside ASCII panics: the byte before its
  end is taken as a boundary before the unit is checked.
\<close>

theorem parse_duration_total_but_for_non_ascii:
  "(parse_duration s = Inl e \<longleftrightarrow> e = CharBoundary \<and> trim s \<noteq> [] \<and> 128 \<le> code (last (trim s))) \<and>
   (n < 2 ^ 64 \<longrightarrow>
      parse_duration (nat_dec n @ ''ms'') = Inr (Some (from_millis n)) \<and>
      parse_duration (nat_dec n @ ''s'') = Inr (Some (from_secs n)) \<and>
      parse_duration (nat_dec n @ ''m'') = Inr (if n * 60 < 2 ^ 64 then Some (from_secs (n * 60)) else None) \<and>
      parse_duration (nat_dec n @ ''h'') = Inr (if n * 3600 < 2 ^ 64 then Some (from_secs (n * 3600)) else None))"
  using parse_duration_panics [of s e] parse_duration_ms [of n] parse_duration_unit [of n] by simp

theorem parse_duration_total_but_for_non_ascii_witness:
  "parse_duration ''5h'' = Inr (Some (from_secs 18000)) \<and>
   parse_duration [CHR ''5'', CHR 0xB5] = Inl CharBoundary"
proof -
  have five: "nat_dec 5 = ''5''" by code_simp
  show ?thesis
    using parse_duration_total_but_for_non_ascii [of "[CHR ''5'', CHR 0xB5]" CharBoundary 5]
    by (simp add: five trim_def trim_by_def trim_start_by_def trim_end_by_def is_whitespace_def code_def)
qed

text \<open>
  The re-index counters survive a restart. Starting from the persisted rows, run any sequence of
  indexing outcomes with their write-through; a tracker rebuilt from the rows then on disk shows the
  same count and the same time of the last full index for every repository, hence takes the same
  decision to re-index in full, and a full index clears both triggers.
\<close>

theorem tracker_survives_restart:
  assumes "distinct (map fst rows)"
    and "fold persist_step outcomes (rows, from_persisted (load_reindex_state rows)) = (rows', t)"
  shows "tracker_count repo_id (from_persisted (load_reindex_state rows')) = tracker_count repo_id t \<and>
         last_full_unix repo_id (from_persisted (load_reindex_state rows')) = last_full_unix repo_id t \<and>
         needs_full_reindex now repo_id file_count (from_persisted (load_reindex_state rows'))
           = needs_full_reindex now repo_id file_count t \<and>
         \<not> needs_full_reindex now repo_id file_count (record_reindex_outcome now repo_id Full t)"
proof -
  have "mirrored (rows, from_persisted (load_reindex_state rows))"
    using assms(1) by (simp add: from_persisted_observed)
  from tracker_runs.run_inv [OF this, of outcomes] assms(2)
  have m: "distinct (map fst rows')" "observed t = stored rows'" by simp_all
  then have "observed (from_persisted (load_reindex_state rows')) repo_id = observed t repo_id"
    by (simp add: from_persisted_observed)
  moreover from this have "needs_full_reindex now repo_id file_count (from_persisted (load_reindex_state rows'))
      = needs_full_reindex now repo_id file_count t"
    by (rule needs_full_observed)
  ultimately show ?thesis by (simp add: observed_def full_clears)
qed

theorem tracker_survives_restart_witness:
  "tracker_count ''r'' (from_persisted (load_reindex_state
     (fst (fold persist_step [(9, ''r'', Incremental), (10, ''q'', Full)] ([(''r'', 4, Some 3)],
        from_persisted (load_reindex_state [(''r'', 4, Some 3)])))))) = 5"
proof -
  let ?r = "fold persist_step [(9, ''r'', Incremental), (10, ''q'', Full)] ([(''r'', 4, Some 3)],
        from_persisted (load_reindex_state [(''r'', 4, Some 3)]))"
  have "tracker_count ''r'' (snd ?r) = 5"
    by (simp add: persist_reindex_outcome_def record_reindex_outcome_def record_incremental_def Let_def
        reset_tracker_def tracker_count_def from_persisted_def load_persisted_def load_reindex_state_def
        new_tracker_def)
  with tracker_survives_restart [of "[(''r'', 4, Some 3)]" "[(9, ''r'', Incremental), (10, ''q'', Full)]"
      "fst ?r" "snd ?r" "''r''"] show ?thesis by simp
qed

text \<open>
  A fixed interval that does not fit the clock passes the configuration and panics the tick that
  polls it: only the largest duration is recognised as never.
\<close>

lemma huge_override_panics:
  assumes "INSTANT_END \<le> d" "d < DURATION_MAX"
  shows "due_repos now clock rnd (add_repo now repo_id url (Some (Fixed d)) None (new_scheduler lo hi)) = Inl InstantOverflow"
proof -
  have "\<not> now + d < INSTANT_END" "DURATION_MAX div 2 \<le> d"
    using assms(1) by (simp_all add: INSTANT_END_def DURATION_MAX_def)
  with assms(2) show ?thesis
    by (simp add: due_repos_def add_repo_def new_scheduler_def due_row_def Let_def compute_interval_def
        jittered_def instant_add_def)
qed

end
