(* ===== verification/Resolution_Cache.thy ===== *)
theory Resolution_Cache
  imports Prelude "HOL-Library.AList"
begin

text \<open>
  The resolution cache (\<^verbatim>\<open>crates/nestweaver-engine/src/resolution_cache.rs\<close>): per repository, which files
  the resolved edges of a file point to and which of its import specifiers did not resolve. It
  decides which files an incremental index resolves again.

  A \<^verbatim>\<open>HashMap\<close> is an association list without repeated keys (its order is arbitrary and no result
  depends on it), a \<^verbatim>\<open>HashSet\<close> is a set. Reading and writing the sidecar file and its MessagePack
  encoding are arguments of \<open>load_deps\<close> and \<open>save_deps\<close>.
\<close>

section \<open>The cache\<close>

type_synonym file_sets = "(string \<times> string set) list"

definition CACHE_VERSION :: u32 where
  "CACHE_VERSION = 5"

definition MAX_HOPS :: nat where
  "MAX_HOPS = 2"

record resolution_cache_file =
  cf_version :: u32
  cf_repos :: "(string \<times> file_sets) list"
  cf_unresolved :: "(string \<times> file_sets) list"

record resolution_deps =
  d_repos :: "(string \<times> file_sets) list"
  d_unresolved :: "(string \<times> file_sets) list"

definition empty_deps :: resolution_deps where
  "empty_deps = \<lparr>d_repos = [], d_unresolved = []\<rparr>"

text \<open>\<open>read\<close> is what reading the path gives, \<open>decode\<close> the MessagePack reader.\<close>

definition load_deps :: "('bytes \<Rightarrow> resolution_cache_file option) \<Rightarrow> 'bytes option \<Rightarrow> resolution_deps" where
  "load_deps decode read =
     (case read of
        Some data \<Rightarrow>
          (case decode data of
             Some file \<Rightarrow>
               if cf_version file = CACHE_VERSION
               then \<lparr>d_repos = cf_repos file, d_unresolved = cf_unresolved file\<rparr> else empty_deps
           | None \<Rightarrow> empty_deps)
      | None \<Rightarrow> empty_deps)"

text \<open>\<open>encode\<close> is the MessagePack writer, \<open>write\<close> the atomic replacement of the file.\<close>

datatype save_error = Serialize string | Write string

definition save_deps ::
  "(resolution_cache_file \<Rightarrow> string + 'bytes) \<Rightarrow> ('bytes \<Rightarrow> string option) \<Rightarrow> resolution_deps
    \<Rightarrow> save_error + unit" where
  "save_deps encode write d =
     (case encode \<lparr>cf_version = CACHE_VERSION, cf_repos = d_repos d, cf_unresolved = d_unresolved d\<rparr> of
        Inl e \<Rightarrow> Inl (Serialize e)
      | Inr data \<Rightarrow> (case write data of Some e \<Rightarrow> Inl (Write e) | None \<Rightarrow> Inr ()))"

text \<open>\<^verbatim>\<open>entry(k).or_default()\<close> changed in place, and \<^verbatim>\<open>get_mut(k)\<close> changed if present.\<close>

definition get_or_default :: "('k \<times> 'v list) list \<Rightarrow> 'k \<Rightarrow> 'v list" where
  "get_or_default m k = (case map_of m k of Some v \<Rightarrow> v | None \<Rightarrow> [])"

definition alter :: "'k \<Rightarrow> ('v list \<Rightarrow> 'v list) \<Rightarrow> ('k \<times> 'v list) list \<Rightarrow> ('k \<times> 'v list) list" where
  "alter k f m = AList.update k (f (get_or_default m k)) m"

definition alter_existing :: "'k \<Rightarrow> ('v \<Rightarrow> 'v) \<Rightarrow> ('k \<times> 'v) list \<Rightarrow> ('k \<times> 'v) list" where
  "alter_existing k f m = (case map_of m k of Some v \<Rightarrow> AList.update k (f v) m | None \<Rightarrow> m)"

definition set_deps_for_repo :: "string \<Rightarrow> string \<Rightarrow> string set \<Rightarrow> resolution_deps \<Rightarrow> resolution_deps" where
  "set_deps_for_repo r_uid file_path depends_on d =
     d\<lparr>d_repos := alter r_uid (AList.update file_path depends_on) (d_repos d)\<rparr>"

definition add_deps_for_repo :: "string \<Rightarrow> string \<Rightarrow> string set \<Rightarrow> resolution_deps \<Rightarrow> resolution_deps" where
  "add_deps_for_repo r_uid file_path depends_on d =
     d\<lparr>d_repos := alter r_uid
        (\<lambda>sl. AList.update file_path
           ((case map_of sl file_path of Some old \<Rightarrow> old | None \<Rightarrow> {}) \<union> depends_on) sl) (d_repos d)\<rparr>"

definition newly_added :: "file_sets \<Rightarrow> string set \<Rightarrow> string list" where
  "newly_added sl affected =
     map fst (filter (\<lambda>(file, deps). file \<notin> affected \<and> (\<exists>x\<in>deps. x \<in> affected)) sl)"

fun expand :: "nat \<Rightarrow> file_sets \<Rightarrow> string set \<Rightarrow> string set" where
  "expand 0 sl affected = affected"
| "expand (Suc hops) sl affected =
     (if newly_added sl affected = [] then affected
      else expand hops sl (affected \<union> set (newly_added sl affected)))"

definition affected_files_for_repo :: "string \<Rightarrow> string set \<Rightarrow> resolution_deps \<Rightarrow> string set" where
  "affected_files_for_repo r_uid changed d =
     (case map_of (d_repos d) r_uid of
        None \<Rightarrow> changed
      | Some sl \<Rightarrow> expand MAX_HOPS sl changed)"

definition deps_is_empty :: "resolution_deps \<Rightarrow> bool" where
  "deps_is_empty d = list_all (\<lambda>(_, sl). sl = []) (d_repos d)"

definition is_empty_for_repo :: "string \<Rightarrow> resolution_deps \<Rightarrow> bool" where
  "is_empty_for_repo r_uid d = (case map_of (d_repos d) r_uid of None \<Rightarrow> True | Some sl \<Rightarrow> sl = [])"

definition set_unresolved_for_repo :: "string \<Rightarrow> string \<Rightarrow> string set \<Rightarrow> resolution_deps \<Rightarrow> resolution_deps" where
  "set_unresolved_for_repo r_uid file_path specifiers d =
     d\<lparr>d_unresolved := alter r_uid
        (if specifiers = {} then AList.delete file_path else AList.update file_path specifiers)
        (d_unresolved d)\<rparr>"

definition unresolved_for_repo :: "string \<Rightarrow> resolution_deps \<Rightarrow> file_sets option" where
  "unresolved_for_repo r_uid d = map_of (d_unresolved d) r_uid"

definition drop_files_for_repo :: "string \<Rightarrow> string set \<Rightarrow> resolution_deps \<Rightarrow> resolution_deps" where
  "drop_files_for_repo r_uid files d =
     d\<lparr>d_repos := alter_existing r_uid (filter (\<lambda>(file, _). file \<notin> files)) (d_repos d),
       d_unresolved := alter_existing r_uid (filter (\<lambda>(file, _). file \<notin> files)) (d_unresolved d)\<rparr>"

definition retain_files_for_repo :: "string \<Rightarrow> string set \<Rightarrow> resolution_deps \<Rightarrow> resolution_deps" where
  "retain_files_for_repo r_uid live_files d =
     d\<lparr>d_repos := alter_existing r_uid (filter (\<lambda>(file, _). file \<in> live_files)) (d_repos d),
       d_unresolved := alter_existing r_uid (filter (\<lambda>(file, _). file \<in> live_files)) (d_unresolved d)\<rparr>"

definition remove_repo_slice :: "string \<Rightarrow> resolution_deps \<Rightarrow> resolution_deps \<times> bool" where
  "remove_repo_slice r_uid d =
     (d\<lparr>d_repos := AList.delete r_uid (d_repos d), d_unresolved := AList.delete r_uid (d_unresolved d)\<rparr>,
      map_of (d_repos d) r_uid \<noteq> None \<or> map_of (d_unresolved d) r_uid \<noteq> None)"

section \<open>Runs\<close>

datatype cache_op =
  CSet string string "string set"
| CAdd string string "string set"
| CUnresolved string string "string set"
| CDrop string "string set"
| CRetain string "string set"
| CRemove string

fun cache_repo :: "cache_op \<Rightarrow> string" where
  "cache_repo (CSet r _ _) = r"
| "cache_repo (CAdd r _ _) = r"
| "cache_repo (CUnresolved r _ _) = r"
| "cache_repo (CDrop r _) = r"
| "cache_repo (CRetain r _) = r"
| "cache_repo (CRemove r) = r"

fun cache_exec :: "cache_op \<Rightarrow> resolution_deps \<Rightarrow> resolution_deps" where
  "cache_exec (CSet r f deps) d = set_deps_for_repo r f deps d"
| "cache_exec (CAdd r f deps) d = add_deps_for_repo r f deps d"
| "cache_exec (CUnresolved r f specs) d = set_unresolved_for_repo r f specs d"
| "cache_exec (CDrop r files) d = drop_files_for_repo r files d"
| "cache_exec (CRetain r live) d = retain_files_for_repo r live d"
| "cache_exec (CRemove r) d = fst (remove_repo_slice r d)"

lemmas cache_defs =
  set_deps_for_repo_def add_deps_for_repo_def set_unresolved_for_repo_def drop_files_for_repo_def
  retain_files_for_repo_def remove_repo_slice_def

section \<open>Lemmas: slices\<close>

definition repo_slice :: "string \<Rightarrow> resolution_deps \<Rightarrow> file_sets option \<times> file_sets option" where
  "repo_slice r_uid d = (map_of (d_repos d) r_uid, map_of (d_unresolved d) r_uid)"

lemma map_of_alter:
  "map_of (alter k f m) k' = (if k' = k then Some (f (get_or_default m k)) else map_of m k')"
  by (simp add: alter_def update_conv')

lemma map_of_alter_existing:
  "map_of (alter_existing k f m) k' = (if k' = k then map_option f (map_of m k) else map_of m k')"
  by (simp add: alter_existing_def update_conv' split: option.split)

lemma map_of_delete: "map_of (AList.delete k m) k' = (if k' = k then None else map_of m k')"
  by (simp add: delete_conv')

lemmas slice_rules = map_of_alter map_of_alter_existing map_of_delete get_or_default_def

interpretation cache_slices: keyed_store cache_exec cache_repo repo_slice
proof
  fix a k s assume "cache_repo a \<noteq> k"
  then show "repo_slice k (cache_exec a s) = repo_slice k s"
    by (cases a) (auto simp: cache_defs repo_slice_def slice_rules)
next
  fix k and s t :: resolution_deps and a
  assume "repo_slice k s = repo_slice k t" "cache_repo a = k"
  then show "repo_slice k (cache_exec a s) = repo_slice k (cache_exec a t)"
    by (cases a) (auto simp: cache_defs repo_slice_def slice_rules)
qed

definition keys_ok :: "(string \<times> file_sets) list \<Rightarrow> bool" where
  "keys_ok m \<longleftrightarrow> distinct (map fst m) \<and> (\<forall>sl \<in> snd ` set m. distinct (map fst sl))"

definition cache_ok :: "resolution_deps \<Rightarrow> bool" where
  "cache_ok d \<longleftrightarrow> keys_ok (d_repos d) \<and> keys_ok (d_unresolved d)"

lemma keys_ok_slice: "keys_ok m \<Longrightarrow> map_of m k = Some sl \<Longrightarrow> distinct (map fst sl)"
  by (force simp: keys_ok_def dest: map_of_SomeD)

lemma update_subset: "set (AList.update k v m) \<subseteq> insert (k, v) (set m)"
  by (induction m) auto

lemma keys_ok_update: "keys_ok m \<Longrightarrow> distinct (map fst sl) \<Longrightarrow> keys_ok (AList.update k sl m)"
  using update_subset [of k sl m] by (fastforce simp: keys_ok_def distinct_update)

lemma keys_ok_alter:
  "keys_ok m \<Longrightarrow> (\<And>sl. distinct (map fst sl) \<Longrightarrow> distinct (map fst (f sl))) \<Longrightarrow> keys_ok (alter k f m)"
  by (auto simp: alter_def get_or_default_def intro!: keys_ok_update dest: keys_ok_slice split: option.splits)

lemma keys_ok_alter_existing:
  "keys_ok m \<Longrightarrow> (\<And>sl. distinct (map fst sl) \<Longrightarrow> distinct (map fst (f sl))) \<Longrightarrow> keys_ok (alter_existing k f m)"
  by (auto simp: alter_existing_def intro!: keys_ok_update dest: keys_ok_slice split: option.splits)

lemma keys_ok_delete: "keys_ok m \<Longrightarrow> keys_ok (AList.delete k m)"
  by (auto simp: keys_ok_def AList.delete_eq distinct_map_filter)

interpretation cache_runs: step_system cache_exec cache_ok
proof
  fix d e assume "cache_ok d"
  then show "cache_ok (cache_exec e d)"
    by (cases e) (auto simp: cache_defs cache_ok_def intro!: keys_ok_alter keys_ok_alter_existing
        keys_ok_delete distinct_update distinct_delete distinct_map_filter)
qed

section \<open>Lemmas: reverse dependencies\<close>

definition depends :: "file_sets \<Rightarrow> (string \<times> string) set" where
  "depends sl = {(file, x). \<exists>deps. map_of sl file = Some deps \<and> x \<in> deps}"

lemma newly_added_set:
  "distinct (map fst sl) \<Longrightarrow> set (newly_added sl A) = {f. f \<notin> A \<and> (\<exists>x\<in>A. (f, x) \<in> depends sl)}"
  by (force simp: newly_added_def depends_def)

lemma closed_under_hops:
  "(\<And>f x. (f, x) \<in> R \<Longrightarrow> x \<in> A \<Longrightarrow> f \<in> A) \<Longrightarrow> (f, c) \<in> R ^^ m \<Longrightarrow> c \<in> A \<Longrightarrow> f \<in> A"
  by (induction m arbitrary: c) auto

lemma one_more_hop:
  "(\<exists>m\<le>n. \<exists>c \<in> A \<union> {f. \<exists>x\<in>A. (f, x) \<in> R}. (f, c) \<in> R ^^ m) \<longleftrightarrow> (\<exists>m\<le>Suc n. \<exists>c\<in>A. (f, c) \<in> R ^^ m)"
proof
  assume "\<exists>m\<le>n. \<exists>c \<in> A \<union> {f. \<exists>x\<in>A. (f, x) \<in> R}. (f, c) \<in> R ^^ m"
  then obtain m c where m: "m \<le> n" "(f, c) \<in> R ^^ m" and "c \<in> A \<or> (\<exists>x\<in>A. (c, x) \<in> R)" by auto
  then show "\<exists>m\<le>Suc n. \<exists>c\<in>A. (f, c) \<in> R ^^ m"
    by (meson le_SucI Suc_le_mono relpow_Suc_I)
next
  assume "\<exists>m\<le>Suc n. \<exists>c\<in>A. (f, c) \<in> R ^^ m"
  then obtain m c where m: "m \<le> Suc n" "c \<in> A" "(f, c) \<in> R ^^ m" by blast
  show "\<exists>m\<le>n. \<exists>c \<in> A \<union> {f. \<exists>x\<in>A. (f, x) \<in> R}. (f, c) \<in> R ^^ m"
  proof (cases m)
    case 0
    with m show ?thesis by (intro exI [of _ 0]) auto
  next
    case (Suc k)
    with m show ?thesis by (intro exI [of _ k]) auto
  qed
qed

lemma expand_hops:
  assumes "distinct (map fst sl)"
  shows "expand n sl A = {f. \<exists>m\<le>n. \<exists>c\<in>A. (f, c) \<in> depends sl ^^ m}"
proof (induction n arbitrary: A)
  case (Suc n)
  let ?A = "A \<union> {f. \<exists>x\<in>A. (f, x) \<in> depends sl}"
  have new: "A \<union> set (newly_added sl A) = ?A"
    using newly_added_set [OF assms] by auto
  show ?case
  proof (cases "newly_added sl A = []")
    case True
    with newly_added_set [OF assms, of A] have "\<And>f x. (f, x) \<in> depends sl \<Longrightarrow> x \<in> A \<Longrightarrow> f \<in> A" by auto
    from closed_under_hops [OF this] True show ?thesis
      by (force intro: exI [of _ 0])
  next
    case False
    with Suc.IH [of ?A] new show ?thesis by (simp add: one_more_hop)
  qed
qed simp

section \<open>Properties\<close>

text \<open>
  An incremental index resolves again exactly the changed files and the files of the same
  repository that depend on a changed file through at most two dependency edges. The dependencies
  are the ones the operations recorded, in any order of operations on any repositories; the early
  exit at a fixed point loses nothing.
\<close>

theorem affected_files_within_hops:
  "affected_files_for_repo r_uid changed (fold cache_exec ops empty_deps) =
     {f. \<exists>m\<le>2. \<exists>c\<in>changed. (f, c) \<in> depends (get_or_default (d_repos (fold cache_exec ops empty_deps)) r_uid) ^^ m}"
proof -
  let ?d = "fold cache_exec ops empty_deps"
  have "cache_ok empty_deps" by (simp add: cache_ok_def empty_deps_def keys_ok_def)
  then have ok: "cache_ok ?d" by (rule cache_runs.run_inv)
  show ?thesis
  proof (cases "map_of (d_repos ?d) r_uid")
    case None
    have "expand 2 [] changed = changed" by (simp add: numeral_2_eq_2 newly_added_def)
    with None expand_hops [of "[]" 2 changed] show ?thesis
      by (simp add: affected_files_for_repo_def get_or_default_def)
  next
    case (Some sl)
    with ok have "distinct (map fst sl)" by (auto simp: cache_ok_def dest: keys_ok_slice)
    from expand_hops [OF this] Some show ?thesis
      by (simp add: affected_files_for_repo_def get_or_default_def MAX_HOPS_def)
  qed
qed

text \<open>
  Repositories that share a database never see each other's records: after any sequence of
  operations, the decision for a repository, its emptiness and its unresolved specifiers are those
  of the operations on that repository alone.
\<close>

theorem cache_repos_independent:
  "let own = filter (\<lambda>op. cache_repo op = r_uid) ops in
     affected_files_for_repo r_uid changed (fold cache_exec ops d) =
       affected_files_for_repo r_uid changed (fold cache_exec own d) \<and>
     is_empty_for_repo r_uid (fold cache_exec ops d) = is_empty_for_repo r_uid (fold cache_exec own d) \<and>
     unresolved_for_repo r_uid (fold cache_exec ops d) = unresolved_for_repo r_uid (fold cache_exec own d)"
  using cache_slices.run_projection [of r_uid ops d]
  by (simp add: repo_slice_def affected_files_for_repo_def is_empty_for_repo_def unresolved_for_repo_def)

text \<open>
  A saved cache loads as itself, a sidecar of any other version loads as empty, where the decoder
  inverts the encoder.
\<close>

lemma save_load_roundtrip:
  assumes "\<And>file data. encode file = Inr data \<Longrightarrow> decode data = Some file"
    and "save_deps encode (\<lambda>data. if stored = Some data then None else Some e) d = Inr ()"
  shows "load_deps decode stored = d"
  using assms by (auto simp: save_deps_def load_deps_def split: sum.splits if_splits)

lemma other_version_loads_empty:
  "decode data = Some file \<Longrightarrow> cf_version file \<noteq> CACHE_VERSION \<Longrightarrow>
   load_deps decode (Some data) = empty_deps \<and> is_empty_for_repo r_uid (load_deps decode (Some data))"
  by (simp add: load_deps_def is_empty_for_repo_def empty_deps_def)

end
