(* ===== verification/Impact.thy ===== *)
theory Impact
  imports Prelude Complex_Main "HOL-Library.Multiset"
begin

text \<open>
  The in-memory graph and impact analysis (\<^verbatim>\<open>crates/nestweaver-algorithms/src/graph.rs\<close> and
  \<^verbatim>\<open>impact.rs\<close>): a breadth-first search from seed symbols over the edges above a confidence threshold.

  Confidences are rational numbers (a \<^verbatim>\<open>NaN\<close> confidence is outside the model). A \<^verbatim>\<open>HashMap\<close> collected
  from pairs keeps the last value of a key. The visited map is an association list in insertion
  order; the order in which the hash map is iterated at the end is an argument of \<open>impact_analysis\<close>.
\<close>

section \<open>The graph\<close>

datatype edge_kind =
  Calls | Imports | Extends | Implements | Uses | Accesses | MemberOf | Includes
| ProjectIncludesNote | ProjectIncludesSymbol | WikilinkToNote | WikilinkToHeading | OtherEdge

record node_meta =
  nm_name :: string
  nm_kind :: string
  nm_file_path :: "string option"
  nm_pagerank_score :: "rat option"
  nm_is_entry_point :: bool

record in_memory_graph =
  g_uids :: "string list"
  g_nodes :: "node_meta list"
  g_edges :: "(u32 \<times> u32 \<times> rat \<times> edge_kind) list"
  g_generation :: u64

definition uid_to_idx :: "string list \<Rightarrow> string \<rightharpoonup> nat" where
  "uid_to_idx uids = map_of (rev (zip uids [0 ..< length uids]))"

section \<open>Impact analysis\<close>

text \<open>The forward adjacency lists, filled by pushing every edge above the threshold.\<close>

definition push_edge :: "nat \<Rightarrow> rat \<Rightarrow> u32 \<times> u32 \<times> rat \<times> edge_kind \<Rightarrow> nat list list \<Rightarrow> nat list list" where
  "push_edge n threshold e forward =
     (case e of (src, tgt, conf, _) \<Rightarrow>
        if conf \<ge> threshold \<and> unat src < n \<and> unat tgt < n
        then forward[unat src := forward ! unat src @ [unat tgt]] else forward)"

definition forward_edges :: "in_memory_graph \<Rightarrow> rat \<Rightarrow> nat list list" where
  "forward_edges g threshold =
     fold (push_edge (length (g_uids g)) threshold) (g_edges g) (replicate (length (g_uids g)) [])"

type_synonym bfs_state = "(nat \<times> nat) list \<times> (nat \<times> nat) list"

text \<open>Visit a node at a depth: record and enqueue it unless it was visited before.\<close>

definition visit :: "nat \<Rightarrow> nat \<Rightarrow> bfs_state \<Rightarrow> bfs_state" where
  "visit depth node st =
     (case st of (visited, queue) \<Rightarrow>
        if map_of visited node = None then (visited @ [(node, depth)], queue @ [(node, depth)])
        else (visited, queue))"

definition seed_queue :: "(string \<rightharpoonup> nat) \<Rightarrow> string list \<Rightarrow> bfs_state" where
  "seed_queue idx seeds =
     fold (\<lambda>seed st. case idx seed of Some i \<Rightarrow> visit 0 i st | None \<Rightarrow> st) seeds ([], [])"

text \<open>
  The loop. Every node in the queue indexes \<open>forward\<close> (seeds come from the index, neighbours were
  checked when the lists were filled), so the access never panics.
\<close>

lemma visit_run_measure:
  assumes "finite U" and "set ns \<subseteq> U" and "fold (visit d) ns (vis, q) = (vis', q')"
  shows "2 * card (U - fst ` set vis') + length q' \<le> 2 * card (U - fst ` set vis) + length q"
  using assms(2,3)
proof (induction ns arbitrary: vis q)
  case (Cons x ns)
  show ?case
  proof (cases "map_of vis x = None")
    case True
    have "card (U - fst ` set (vis @ [(x, d)])) < card (U - fst ` set vis)"
      using True Cons.prems(1) assms(1) by (intro psubset_card_mono) (auto simp: map_of_eq_None_iff)
    with Cons.IH [of "vis @ [(x, d)]" "q @ [(x, d)]"] True Cons.prems show ?thesis
      by (simp add: visit_def)
  next
    case False
    with Cons show ?thesis by (simp add: visit_def)
  qed
qed simp

function bfs :: "nat list list \<Rightarrow> nat \<Rightarrow> bfs_state \<Rightarrow> (nat \<times> nat) list" where
  "bfs forward max_depth (visited, []) = visited"
| "bfs forward max_depth (visited, (node, depth) # queue) =
     bfs forward max_depth
       (if depth \<ge> max_depth then (visited, queue)
        else fold (visit (depth + 1)) (if node < length forward then forward ! node else []) (visited, queue))"
  by pat_completeness auto
termination
proof (relation "measure (\<lambda>(forward, max_depth, visited, queue).
    2 * card (\<Union> (set ` set forward) - fst ` set visited) + length queue)", goal_cases)
  case (2 forward max_depth visited node depth queue)
  let ?U = "\<Union> (set ` set forward)"
  let ?ns = "if node < length forward then forward ! node else []"
  obtain vis' q' where r: "fold (visit (depth + 1)) ?ns (visited, queue) = (vis', q')"
    by (cases "fold (visit (depth + 1)) ?ns (visited, queue)")
  have "set ?ns \<subseteq> ?U" by (auto intro: nth_mem)
  from visit_run_measure [OF _ this r] r show ?case by simp
qed simp

definition impact_analysis ::
  "((nat \<times> nat) list \<Rightarrow> (nat \<times> nat) list) \<Rightarrow> in_memory_graph \<Rightarrow> string list \<Rightarrow> u32 \<Rightarrow> rat \<Rightarrow> (string \<times> nat) list" where
  "impact_analysis iteration_order g seeds max_depth threshold =
     (let visited = bfs (forward_edges g threshold) (unat max_depth) (seed_queue (uid_to_idx (g_uids g)) seeds)
      in sort_key snd (map (\<lambda>(i, depth). (g_uids g ! i, depth)) (iteration_order visited)))"

section \<open>Lemmas: adjacency\<close>

lemma push_edge_length [simp]: "length (push_edge n t e fwd) = length fwd"
  by (simp add: push_edge_def split: prod.split)

lemma forward_fold_length [simp]: "length (fold (push_edge n t) es fwd) = length fwd"
  by (induction es arbitrary: fwd) simp_all

lemma forward_length [simp]: "length (forward_edges g t) = length (g_uids g)"
  by (simp add: forward_edges_def)

definition confident_edge :: "in_memory_graph \<Rightarrow> rat \<Rightarrow> (nat \<times> nat) set" where
  "confident_edge g threshold =
     {(u, v). u < length (g_uids g) \<and> v < length (g_uids g) \<and>
        (\<exists>src tgt conf kind. (src, tgt, conf, kind) \<in> set (g_edges g) \<and> conf \<ge> threshold \<and>
           u = unat src \<and> v = unat tgt)}"

lemma forward_fold_nth:
  "i < length fwd \<Longrightarrow> length fwd = n \<Longrightarrow>
   set (fold (push_edge n t) es fwd ! i) = set (fwd ! i) \<union>
     {v. v < n \<and> (\<exists>src tgt conf kind. (src, tgt, conf, kind) \<in> set es \<and> conf \<ge> t \<and> i = unat src \<and> v = unat tgt)}"
proof (induction es arbitrary: fwd)
  case (Cons e es)
  obtain src tgt conf kind where e: "e = (src, tgt, conf, kind)" by (cases e)
  have "set (push_edge n t e fwd ! i) = set (fwd ! i) \<union>
      (if conf \<ge> t \<and> unat src < n \<and> unat tgt < n \<and> i = unat src then {unat tgt} else {})"
    using Cons.prems by (auto simp: push_edge_def e nth_list_update)
  with Cons.IH [of "push_edge n t e fwd"] Cons.prems e show ?case by auto
qed simp

lemma forward_nth:
  "i < length (g_uids g) \<Longrightarrow> set (forward_edges g t ! i) = {v. (i, v) \<in> confident_edge g t}"
  by (simp add: forward_edges_def forward_fold_nth confident_edge_def)

section \<open>Lemmas: the search\<close>

lemma sorted_const [simp]: "sorted (map (\<lambda>_. c) xs)"
  by (induction xs) auto

lemma visit_new: "map_of vis x = None \<Longrightarrow> visit d x (vis, q) = (vis @ [(x, d)], q @ [(x, d)])"
  by (simp add: visit_def)

lemma visit_old: "map_of vis x \<noteq> None \<Longrightarrow> visit d x (vis, q) = (vis, q)"
  by (simp add: visit_def)

lemma visit_run:
  "\<exists>new. fold (visit d) ns (vis, q) = (vis @ map (\<lambda>w. (w, d)) new, q @ map (\<lambda>w. (w, d)) new) \<and>
     distinct new \<and> set new = set ns - fst ` set vis"
proof (induction ns arbitrary: vis q)
  case (Cons x ns)
  show ?case
  proof (cases "map_of vis x = None")
    case True
    from Cons.IH [of "vis @ [(x, d)]" "q @ [(x, d)]"] obtain new where
      new: "fold (visit d) ns (vis @ [(x, d)], q @ [(x, d)]) =
        ((vis @ [(x, d)]) @ map (\<lambda>w. (w, d)) new, (q @ [(x, d)]) @ map (\<lambda>w. (w, d)) new)"
      "distinct new" "set new = set ns - fst ` set (vis @ [(x, d)])" by blast
    have "x \<notin> fst ` set vis" using True by (simp add: map_of_eq_None_iff)
    with new True show ?thesis
      by (intro exI [of _ "x # new"]) (auto simp: visit_new)
  next
    case False
    then have "x \<in> fst ` set vis" by (simp add: map_of_eq_None_iff)
    with Cons.IH [of vis q] False show ?thesis by (auto simp: visit_old insert_Diff_if)
  qed
qed simp

text \<open>
  The loop invariant, for the edge relation \<open>R\<close>, the seeds \<open>S\<close> and the depth limit \<open>m\<close>: every visited
  node has a path of its depth, the queue holds visited nodes by increasing depth and at most one
  level apart, and a node that left the queue has all its successors visited in time.
\<close>

definition bfs_inv :: "(nat \<times> nat) set \<Rightarrow> nat set \<Rightarrow> nat \<Rightarrow> bfs_state \<Rightarrow> bool" where
  "bfs_inv R S m st \<longleftrightarrow>
     (case st of (vis, q) \<Rightarrow>
        distinct (map fst vis) \<and> distinct (map fst q) \<and> set q \<subseteq> set vis \<and> sorted (map snd q) \<and>
        (\<forall>(v, d)\<in>set vis. (\<exists>s\<in>S. (s, v) \<in> R ^^ d) \<and> d \<le> m) \<and>
        (\<forall>s\<in>S. (s, 0) \<in> set vis) \<and>
        (\<forall>(v, d)\<in>set vis. q \<noteq> [] \<longrightarrow> d \<le> Suc (snd (hd q))) \<and>
        (\<forall>(v, d)\<in>set vis - set q. d < m \<longrightarrow> (\<forall>w. (v, w) \<in> R \<longrightarrow> (\<exists>d'\<le>Suc d. (w, d') \<in> set vis))))"

lemma bfs_invI:
  assumes "distinct (map fst vis)" "distinct (map fst q)" "set q \<subseteq> set vis" "sorted (map snd q)"
    and "\<And>v d. (v, d) \<in> set vis \<Longrightarrow> (\<exists>s\<in>S. (s, v) \<in> R ^^ d) \<and> d \<le> m"
    and "\<And>s. s \<in> S \<Longrightarrow> (s, 0) \<in> set vis"
    and "\<And>v d. (v, d) \<in> set vis \<Longrightarrow> q \<noteq> [] \<Longrightarrow> d \<le> Suc (snd (hd q))"
    and "\<And>v d w. (v, d) \<in> set vis - set q \<Longrightarrow> d < m \<Longrightarrow> (v, w) \<in> R \<Longrightarrow> \<exists>d'\<le>Suc d. (w, d') \<in> set vis"
  shows "bfs_inv R S m (vis, q)"
  unfolding bfs_inv_def prod.case using assms by (intro conjI) (assumption | blast)+

lemma bfs_inv_skip:
  assumes inv: "bfs_inv R S m (vis, (node, d) # q)" and "m \<le> d"
  shows "bfs_inv R S m (vis, q)"
proof -
  have hd: "d \<le> snd (hd q)" if "q \<noteq> []"
    using inv that by (cases q) (auto simp: bfs_inv_def)
  have "(\<forall>(v, d')\<in>set vis - set q. d' < m \<longrightarrow> (\<forall>w. (v, w) \<in> R \<longrightarrow> (\<exists>e\<le>Suc d'. (w, e) \<in> set vis)))"
    using inv assms(2) by (auto simp: bfs_inv_def)
  moreover have "d' \<le> Suc (snd (hd q))" if "(v, d') \<in> set vis" "q \<noteq> []" for v d'
  proof -
    have "d' \<le> Suc d" using inv that(1) by (auto simp: bfs_inv_def)
    with hd [OF that(2)] show ?thesis by simp
  qed
  ultimately show ?thesis using inv unfolding bfs_inv_def prod.case by simp blast
qed

lemma bfs_inv_expand:
  assumes inv: "bfs_inv R S m (vis, (node, d) # q)" and "d < m" and ns: "set ns = {w. (node, w) \<in> R}"
  shows "bfs_inv R S m (fold (visit (d + 1)) ns (vis, q))"
proof -
  obtain new where run: "fold (visit (d + 1)) ns (vis, q) =
      (vis @ map (\<lambda>w. (w, d + 1)) new, q @ map (\<lambda>w. (w, d + 1)) new)"
    and new: "distinct new" "set new = set ns - fst ` set vis"
    using visit_run by blast
  let ?zs = "map (\<lambda>w. (w, d + 1)) new"
  have fresh: "fst ` set vis \<inter> set new = {}" using new by auto
  have sub: "set q \<subseteq> set vis" and at: "(node, d) \<in> set vis" "(node, d) \<notin> set q"
    and sorted: "sorted (map snd q)" "\<And>x. x \<in> set q \<Longrightarrow> d \<le> snd x"
    and paths: "\<And>v e. (v, e) \<in> set vis \<Longrightarrow> (\<exists>s\<in>S. (s, v) \<in> R ^^ e) \<and> e \<le> m"
    and level: "\<And>v e. (v, e) \<in> set vis \<Longrightarrow> e \<le> Suc d"
    and seeds: "\<And>s. s \<in> S \<Longrightarrow> (s, 0) \<in> set vis"
    and closed: "\<And>v e w. (v, e) \<in> set vis \<Longrightarrow> (v, e) \<notin> set q \<Longrightarrow> (v, e) \<noteq> (node, d) \<Longrightarrow> e < m \<Longrightarrow>
        (v, w) \<in> R \<Longrightarrow> \<exists>e'\<le>Suc e. (w, e') \<in> set vis"
    and dist: "distinct (map fst vis)" "distinct (map fst q)"
    using inv by (auto simp: bfs_inv_def dest: image_eqI [of node fst, OF fst_conv [symmetric]])
  have path_new: "\<exists>s\<in>S. (s, w) \<in> R ^^ Suc d" if "w \<in> set new" for w
    using paths [OF at(1)] that new ns by auto
  have dq: "distinct (map fst (q @ ?zs))"
    using dist(2) new(1) fresh sub by (auto simp: comp_def) 
  have sq: "sorted (map snd (q @ ?zs))"
  proof -
    have "snd x \<le> Suc d" if "x \<in> set q" for x
      using that sub level [of "fst x" "snd x"] by auto
    with sorted(1) show ?thesis by (auto simp: sorted_append comp_def)
  qed
  have head: "e \<le> Suc (snd (hd (q @ ?zs)))" if "(v, e) \<in> set (vis @ ?zs)" "q @ ?zs \<noteq> []" for v e
  proof -
    have "d \<le> snd (hd (q @ ?zs))"
      using sorted(2) that(2) by (cases q) (auto simp: hd_map)
    moreover have "e \<le> Suc d" using that(1) level by auto
    ultimately show ?thesis by simp
  qed
  have done_: "\<exists>e'\<le>Suc e. (w, e') \<in> set (vis @ ?zs)"
    if "(v, e) \<in> set (vis @ ?zs) - set (q @ ?zs)" "e < m" "(v, w) \<in> R" for v e w
  proof (cases "(v, e) = (node, d)")
    case True
    show ?thesis
    proof (cases "w \<in> fst ` set vis")
      case True
      then obtain e' where "(w, e') \<in> set vis" by auto
      with level \<open>(v, e) = (node, d)\<close> show ?thesis by auto
    next
      case False
      with that(3) \<open>(v, e) = (node, d)\<close> ns new have "w \<in> set new" by auto
      with \<open>(v, e) = (node, d)\<close> show ?thesis by auto
    qed
  next
    case False
    with that closed [of v e w] show ?thesis by auto
  qed
  have pos: "(\<exists>s\<in>S. (s, v) \<in> R ^^ e) \<and> e \<le> m" if "(v, e) \<in> set (vis @ ?zs)" for v e
    using that paths path_new assms(2) by (auto simp: Suc_le_eq)
  show ?thesis
    unfolding run
  proof (rule bfs_invI [OF _ dq _ sq])
    show "distinct (map fst (vis @ ?zs))" using dist(1) new(1) fresh by (auto simp: comp_def)
    show "set (q @ ?zs) \<subseteq> set (vis @ ?zs)" using sub by auto
  qed (fact pos head done_ | use seeds in simp)+
qed

lemma bfs_inv_final:
  "bfs_inv R S m st \<Longrightarrow> (\<And>u. u < length fwd \<Longrightarrow> set (fwd ! u) = {w. (u, w) \<in> R}) \<Longrightarrow>
   (\<And>u w. (u, w) \<in> R \<Longrightarrow> u < length fwd) \<Longrightarrow> bfs_inv R S m (bfs fwd m st, [])"
proof (induction fwd m st rule: bfs.induct)
  case (2 fwd m vis node d q)
  let ?ns = "if node < length fwd then fwd ! node else []"
  have ns: "set ?ns = {w. (node, w) \<in> R}" using 2(3,4) by auto
  have "bfs_inv R S m (if m \<le> d then (vis, q) else fold (visit (d + 1)) ?ns (vis, q))"
    using bfs_inv_skip [OF 2(2)] bfs_inv_expand [OF 2(2) _ ns] by auto
  from 2(1) [OF this 2(3,4)] show ?case by simp
qed simp

text \<open>The distance of a node from a set of seeds.\<close>

definition at_distance :: "(nat \<times> nat) set \<Rightarrow> nat set \<Rightarrow> nat \<Rightarrow> nat \<Rightarrow> bool" where
  "at_distance R S v d \<longleftrightarrow> (\<exists>s\<in>S. (s, v) \<in> R ^^ d) \<and> (\<forall>k<d. \<forall>s\<in>S. (s, v) \<notin> R ^^ k)"

lemma bfs_inv_reached:
  assumes "bfs_inv R S m (vis, [])"
  shows "k \<le> m \<Longrightarrow> s \<in> S \<Longrightarrow> (s, v) \<in> R ^^ k \<Longrightarrow> \<exists>d\<le>k. (v, d) \<in> set vis"
proof (induction k arbitrary: v)
  case 0
  with assms show ?case by (auto simp: bfs_inv_def)
next
  case (Suc k)
  then obtain u where u: "(s, u) \<in> R ^^ k" "(u, v) \<in> R" by auto
  with Suc obtain d where d: "d \<le> k" "(u, d) \<in> set vis" by auto
  with assms u(2) Suc.prems(1) obtain d' where "d' \<le> Suc d" "(v, d') \<in> set vis"
    by (fastforce simp: bfs_inv_def)
  with d(1) show ?case by (intro exI [of _ d']) simp
qed

lemma bfs_inv_exact:
  assumes inv: "bfs_inv R S m (vis, [])"
  shows "(v, d) \<in> set vis \<longleftrightarrow> d \<le> m \<and> at_distance R S v d"
proof
  assume vd: "(v, d) \<in> set vis"
  then have path: "\<exists>s\<in>S. (s, v) \<in> R ^^ d" "d \<le> m" using inv by (auto simp: bfs_inv_def)
  have "(s, v) \<notin> R ^^ k" if "k < d" "s \<in> S" for k s
  proof
    assume "(s, v) \<in> R ^^ k"
    with bfs_inv_reached [OF inv, of k s v] that path(2) obtain d' where "d' \<le> k" "(v, d') \<in> set vis" by auto
    moreover have "distinct (map fst vis)" using inv by (simp add: bfs_inv_def)
    ultimately have "d' = d" using vd by (metis eq_key_imp_eq_value)
    with \<open>d' \<le> k\<close> that(1) show False by simp
  qed
  with path show "d \<le> m \<and> at_distance R S v d" by (auto simp: at_distance_def)
next
  assume d: "d \<le> m \<and> at_distance R S v d"
  then obtain s where "s \<in> S" "(s, v) \<in> R ^^ d" by (auto simp: at_distance_def)
  with bfs_inv_reached [OF inv] d obtain d' where d': "d' \<le> d" "(v, d') \<in> set vis" by blast
  with inv have "\<exists>s\<in>S. (s, v) \<in> R ^^ d'" by (auto simp: bfs_inv_def)
  with d d'(1) have "d' = d" by (auto simp: at_distance_def dest: le_neq_implies_less)
  with d'(2) show "(v, d) \<in> set vis" by simp
qed

definition seed_indices :: "in_memory_graph \<Rightarrow> string list \<Rightarrow> nat set" where
  "seed_indices g seeds = {i. \<exists>seed\<in>set seeds. uid_to_idx (g_uids g) seed = Some i}"

lemma seed_queue_fold:
  "fold (\<lambda>seed st. case idx seed of Some i \<Rightarrow> visit 0 i st | None \<Rightarrow> st) seeds st =
   fold (visit 0) (List.map_filter idx seeds) st"
  by (induction seeds arbitrary: st) (auto simp: map_filter_simps split: option.split)

lemma seed_queue_inv:
  "bfs_inv R {i. \<exists>seed\<in>set seeds. idx seed = Some i} m (seed_queue idx seeds)"
proof -
  obtain new where new: "seed_queue idx seeds = (map (\<lambda>w. (w, 0)) new, map (\<lambda>w. (w, 0)) new)"
    "distinct new" "set new = set (List.map_filter idx seeds)"
    using visit_run [of 0 "List.map_filter idx seeds" "[]" "[]"] by (auto simp: seed_queue_def seed_queue_fold)
  have "set (List.map_filter idx seeds) = {i. \<exists>seed\<in>set seeds. idx seed = Some i}"
    by (force simp: map_filter_def)
  then show ?thesis using new by (auto simp: bfs_inv_def comp_def)
qed

lemma uid_to_idx_bound: "uid_to_idx uids u = Some i \<Longrightarrow> i < length uids \<and> uids ! i = u"
  unfolding uid_to_idx_def by (drule map_of_SomeD) (auto simp: set_zip)

lemma search_exact:
  "distinct (map fst (bfs (forward_edges g t) m (seed_queue (uid_to_idx (g_uids g)) seeds))) \<and>
   ((v, d) \<in> set (bfs (forward_edges g t) m (seed_queue (uid_to_idx (g_uids g)) seeds)) \<longleftrightarrow>
      d \<le> m \<and> at_distance (confident_edge g t) (seed_indices g seeds) v d)"
proof -
  have inv: "bfs_inv (confident_edge g t) (seed_indices g seeds) m
      (bfs (forward_edges g t) m (seed_queue (uid_to_idx (g_uids g)) seeds), [])"
    unfolding seed_indices_def
    by (rule bfs_inv_final [OF seed_queue_inv]) (auto simp: forward_nth, simp add: confident_edge_def)
  then have "distinct (map fst (bfs (forward_edges g t) m (seed_queue (uid_to_idx (g_uids g)) seeds)))"
    by (simp add: bfs_inv_def)
  with bfs_inv_exact [OF inv] show ?thesis by blast
qed

section \<open>Properties\<close>

text \<open>
  C21. Impact analysis is exact: in whatever order the visited map is iterated, it returns once every
  symbol whose distance from the seeds over the edges at or above the threshold is within the depth
  limit, with that distance, nearest first, and nothing else. The search always ends.
\<close>

theorem impact_analysis_exact:
  assumes "\<And>xs. mset (iteration_order xs) = mset xs"
  shows "\<exists>nodes. distinct nodes \<and>
      set nodes = {v. \<exists>d \<le> unat max_depth. at_distance (confident_edge g threshold) (seed_indices g seeds) v d} \<and>
      mset (impact_analysis iteration_order g seeds max_depth threshold) =
        mset (map (\<lambda>v. (g_uids g ! v, LEAST d. \<exists>s\<in>seed_indices g seeds. (s, v) \<in> confident_edge g threshold ^^ d)) nodes) \<and>
      sorted (map snd (impact_analysis iteration_order g seeds max_depth threshold))"
proof -
  let ?vis = "bfs (forward_edges g threshold) (unat max_depth) (seed_queue (uid_to_idx (g_uids g)) seeds)"
  let ?S = "seed_indices g seeds" and ?R = "confident_edge g threshold"
  have dist: "distinct (map fst ?vis)"
    and exact: "\<And>v d. (v, d) \<in> set ?vis \<longleftrightarrow> d \<le> unat max_depth \<and> at_distance ?R ?S v d"
    using search_exact by blast+
  have depth: "(LEAST d. \<exists>s\<in>?S. (s, v) \<in> ?R ^^ d) = d" if "(v, d) \<in> set ?vis" for v d
    using that exact by (intro Least_equality) (auto simp: at_distance_def not_less [symmetric])
  have "map (\<lambda>(i, depth). (g_uids g ! i, depth)) ?vis =
      map (\<lambda>v. (g_uids g ! v, LEAST d. \<exists>s\<in>?S. (s, v) \<in> ?R ^^ d)) (map fst ?vis)"
    using depth by auto
  moreover have "mset (map (\<lambda>(i, depth). (g_uids g ! i, depth)) (iteration_order ?vis)) =
      mset (map (\<lambda>(i, depth). (g_uids g ! i, depth)) ?vis)"
    using assms by simp
  moreover have "set (map fst ?vis) = {v. \<exists>d \<le> unat max_depth. at_distance ?R ?S v d}"
    using exact by force
  ultimately show ?thesis
    using dist by (intro exI [of _ "map fst ?vis"]) (simp add: impact_analysis_def Let_def del: mset_map map_map)
qed

definition sample_graph :: in_memory_graph where
  "sample_graph = \<lparr>g_uids = [''a'', ''b'', ''c''], g_nodes = [],
     g_edges = [(0, 1, 1, Calls), (1, 2, 1 / 2, Calls), (0, 2, 1 / 10, Uses)], g_generation = 0\<rparr>"

theorem impact_analysis_exact_witness:
  "sorted (map snd (impact_analysis (\<lambda>xs. xs) sample_graph [''a''] 2 (1 / 5))) \<and>
   impact_analysis (\<lambda>xs. xs) sample_graph [''a''] 2 (1 / 5) = [(''a'', 0), (''b'', 1), (''c'', 2)]"
proof -
  have "impact_analysis (\<lambda>xs. xs) sample_graph [''a''] 2 (1 / 5) = [(''a'', 0), (''b'', 1), (''c'', 2)]"
    by (simp add: impact_analysis_def sample_graph_def forward_edges_def push_edge_def seed_queue_def
        uid_to_idx_def visit_def upt_rec)
  with impact_analysis_exact [of "\<lambda>xs. xs" 2 sample_graph "1 / 5" "[''a'']"] show ?thesis by auto
qed

end
