(* ===== verification/Page_Rank.thy ===== *)
theory Page_Rank
  imports Impact
begin

text \<open>
  Edge weights and Personalized PageRank (\<^verbatim>\<open>crates/nestweaver-algorithms/src/graph.rs\<close> and
  \<^verbatim>\<open>ppr.rs\<close>): the adjacency built from the edge list, the power iteration, the forward push with its
  push limit and cancellation, and the interaction re-rank both end with.

  Floating-point scores are exact rational numbers here, so rounding, infinities and \<^verbatim>\<open>NaN\<close> are outside
  the model (\<^verbatim>\<open>is_finite\<close> holds of every score). Vectors are lists of the length of the node list. The
  cancellation closure is a function of the number of pushes done when it is asked.
\<close>

section \<open>Weights and adjacency\<close>

record edge_weight_config =
  calls_multiplier :: rat
  project_includes_multiplier :: rat

definition default_weights :: edge_weight_config where
  "default_weights = \<lparr>calls_multiplier = 1, project_includes_multiplier = 1\<rparr>"

fun base_weight :: "edge_kind \<Rightarrow> rat" where
  "base_weight Calls = 1"
| "base_weight Extends = 9 / 10"
| "base_weight Implements = 9 / 10"
| "base_weight Imports = 7 / 10"
| "base_weight Uses = 5 / 10"
| "base_weight Accesses = 4 / 10"
| "base_weight MemberOf = 2 / 10"
| "base_weight Includes = 2 / 10"
| "base_weight ProjectIncludesNote = 1"
| "base_weight ProjectIncludesSymbol = 1"
| "base_weight _ = 1"

fun intent_multiplier :: "edge_weight_config \<Rightarrow> edge_kind \<Rightarrow> rat" where
  "intent_multiplier c Calls = calls_multiplier c"
| "intent_multiplier c ProjectIncludesNote = project_includes_multiplier c"
| "intent_multiplier c ProjectIncludesSymbol = project_includes_multiplier c"
| "intent_multiplier c _ = 1"

record adjacency_data =
  a_uid_to_idx :: "string \<rightharpoonup> nat"
  a_incoming :: "(nat \<times> rat) list list"
  a_out_weight :: "rat list"

definition bump :: "nat \<Rightarrow> rat \<Rightarrow> rat list \<Rightarrow> rat list" where
  "bump i x xs = xs[i := xs ! i + x]"

definition add_edge ::
  "nat \<Rightarrow> edge_weight_config \<Rightarrow> u32 \<times> u32 \<times> rat \<times> edge_kind
    \<Rightarrow> (nat \<times> rat) list list \<times> rat list \<Rightarrow> (nat \<times> rat) list list \<times> rat list" where
  "add_edge n weights e st =
     (case e of (src, tgt, conf, kind) \<Rightarrow>
      case st of (incoming, out_weight) \<Rightarrow>
        (let si = unat src; ti = unat tgt
         in if si \<ge> n \<or> ti \<ge> n \<or> conf \<le> 0 then (incoming, out_weight)
            else let w = conf * base_weight kind * intent_multiplier weights kind;
                     out_weight = bump si w out_weight;
                     incoming = incoming[ti := incoming ! ti @ [(si, w)]];
                     rw = w * (3 / 10);
                     out_weight = bump ti rw out_weight;
                     incoming = incoming[si := incoming ! si @ [(ti, rw)]]
                 in (incoming, out_weight)))"

definition build_adjacency :: "in_memory_graph \<Rightarrow> edge_weight_config \<Rightarrow> adjacency_data" where
  "build_adjacency g weights =
     (let n = length (g_uids g)
      in case fold (add_edge n weights) (g_edges g) (replicate n [], replicate n 0) of
           (incoming, out_weight) \<Rightarrow>
             \<lparr>a_uid_to_idx = uid_to_idx (g_uids g), a_incoming = incoming, a_out_weight = out_weight\<rparr>)"

section \<open>Power iteration\<close>

record ppr_config =
  damping :: rat
  max_iterations :: u32
  min_score :: rat
  interaction_scores :: "(string \<times> rat) list option"
  interaction_bias_weight :: rat

definition default_ppr_config :: ppr_config where
  "default_ppr_config = \<lparr>damping = 3 / 4, max_iterations = 20, min_score = 1 / 10 ^ 4,
     interaction_scores = None, interaction_bias_weight = 5 / 100\<rparr>"

definition seed_set :: "adjacency_data \<Rightarrow> string list \<Rightarrow> nat set" where
  "seed_set adj seeds = set (List.map_filter (a_uid_to_idx adj) seeds)"

definition personalization :: "nat \<Rightarrow> nat set \<Rightarrow> rat list" where
  "personalization n seeds = map (\<lambda>i. if i \<in> seeds then 1 / of_nat (card seeds) else 0) [0 ..< n]"

definition dangling_sum :: "adjacency_data \<Rightarrow> rat list \<Rightarrow> rat" where
  "dangling_sum adj scores =
     sum_list (map (\<lambda>i. scores ! i) (filter (\<lambda>i. a_out_weight adj ! i = 0) [0 ..< length scores]))"

definition power_step :: "adjacency_data \<Rightarrow> rat \<Rightarrow> rat list \<Rightarrow> rat list \<Rightarrow> rat list" where
  "power_step adj d pers scores =
     (let dangling = dangling_sum adj scores
      in map (\<lambda>v. (1 - d) * pers ! v + d * dangling * pers ! v +
                 sum_list (map (\<lambda>(u, w). if a_out_weight adj ! u > 0
                    then d * scores ! u * w / a_out_weight adj ! u else 0) (a_incoming adj ! v)))
           [0 ..< length scores])"

definition max_change :: "rat list \<Rightarrow> rat list \<Rightarrow> rat" where
  "max_change new old = foldl max 0 (map (\<lambda>(x, y). \<bar>x - y\<bar>) (zip new old))"

fun power_loop :: "nat \<Rightarrow> adjacency_data \<Rightarrow> rat \<Rightarrow> rat list \<Rightarrow> rat list \<Rightarrow> rat list" where
  "power_loop 0 adj d pers scores = scores"
| "power_loop (Suc k) adj d pers scores =
     (let new_scores = power_step adj d pers scores
      in if max_change new_scores scores < 1 / 10 ^ 6 then new_scores
         else power_loop k adj d pers new_scores)"

definition apply_interaction_rerank :: "string list \<Rightarrow> ppr_config \<Rightarrow> rat list \<Rightarrow> rat list" where
  "apply_interaction_rerank uids cfg estimate =
     (case interaction_scores cfg of
        None \<Rightarrow> estimate
      | Some scores \<Rightarrow>
          (let max_s = foldl max 0 (filter (\<lambda>s. s > 0) (map snd scores))
           in if max_s \<le> 0 then estimate
              else map (\<lambda>i. case map_of scores (uids ! i) of
                          Some s \<Rightarrow> if estimate ! i > 0 \<and> s > 0
                            then estimate ! i * (1 + interaction_bias_weight cfg * s / max_s) else estimate ! i
                        | None \<Rightarrow> estimate ! i) [0 ..< length estimate]))"

definition collect_scores :: "string list \<Rightarrow> nat set \<Rightarrow> ppr_config \<Rightarrow> rat list \<Rightarrow> (string \<times> rat) list" where
  "collect_scores uids seeds cfg scores =
     sort_key (\<lambda>x. - snd x)
       (map (\<lambda>i. (uids ! i, scores ! i))
          (filter (\<lambda>i. i \<in> seeds \<or> scores ! i > min_score cfg) [0 ..< length uids]))"

definition power_scores :: "string list \<Rightarrow> adjacency_data \<Rightarrow> nat set \<Rightarrow> ppr_config \<Rightarrow> rat list" where
  "power_scores uids adj seeds cfg =
     (let pers = personalization (length uids) seeds
      in power_loop (unat (max_iterations cfg)) adj (damping cfg) pers pers)"

definition personalized_pagerank ::
  "string list \<Rightarrow> adjacency_data \<Rightarrow> string list \<Rightarrow> ppr_config \<Rightarrow> (string \<times> rat) list" where
  "personalized_pagerank uids adj seed_uids cfg =
     (if uids = [] then []
      else let seeds = seed_set adj seed_uids
           in if card seeds = 0 then []
              else collect_scores uids seeds cfg
                     (apply_interaction_rerank uids cfg (power_scores uids adj seeds cfg)))"

section \<open>Forward push\<close>

definition CANCEL_POLL_INTERVAL :: nat where
  "CANCEL_POLL_INTERVAL = 1024"

definition R_MAX :: rat where
  "R_MAX = 1 / 10 ^ 6"

definition outgoing_edges :: "adjacency_data \<Rightarrow> nat \<Rightarrow> nat \<Rightarrow> (nat \<times> rat) list" where
  "outgoing_edges adj n u =
     concat (map (\<lambda>v. map (\<lambda>(u', w). (v, w)) (filter (\<lambda>(u', w). u' = u) (a_incoming adj ! v))) [0 ..< n])"

record push_state =
  p_estimate :: "rat list"
  p_residual :: "rat list"
  p_queue :: "nat list"
  p_in_queue :: "bool list"

text \<open>Add mass to the residual of a node and enqueue it if that takes it over the threshold.\<close>

definition deposit :: "nat \<times> rat \<Rightarrow> push_state \<Rightarrow> push_state" where
  "deposit x st =
     (case x of (i, delta) \<Rightarrow>
        let residual = bump i delta (p_residual st)
        in if \<not> p_in_queue st ! i \<and> \<bar>residual ! i\<bar> > R_MAX
           then st\<lparr>p_residual := residual, p_queue := p_queue st @ [i], p_in_queue := (p_in_queue st)[i := True]\<rparr>
           else st\<lparr>p_residual := residual\<rparr>)"

text \<open>Absorb and push the residual of a node that is over the threshold.\<close>

definition push_node :: "adjacency_data \<Rightarrow> rat \<Rightarrow> rat list \<Rightarrow> nat \<Rightarrow> push_state \<Rightarrow> push_state" where
  "push_node adj alpha pers v st =
     (let r_v = p_residual st ! v
      in if \<bar>r_v\<bar> < R_MAX then st
         else let st = st\<lparr>p_estimate := bump v (alpha * r_v) (p_estimate st)\<rparr>;
                  push_mass = (1 - alpha) * r_v;
                  st = (if a_out_weight adj ! v > 0
                        then fold deposit (map (\<lambda>(u, w). (u, push_mass * w / a_out_weight adj ! v))
                               (outgoing_edges adj (length pers) v)) st
                        else fold deposit (map (\<lambda>i. (i, push_mass * pers ! i))
                               (filter (\<lambda>i. pers ! i > 0) [0 ..< length pers])) st)
              in st\<lparr>p_residual := (p_residual st)[v := 0]\<rparr>)"

function push_loop ::
  "adjacency_data \<Rightarrow> rat \<Rightarrow> rat list \<Rightarrow> (nat \<Rightarrow> bool) option \<Rightarrow> nat \<Rightarrow> nat \<Rightarrow> push_state \<Rightarrow> push_state option" where
  "push_loop adj alpha pers cancel max_pushes push_count st =
     (case p_queue st of
        [] \<Rightarrow> Some st
      | v # queue \<Rightarrow>
          (let st = st\<lparr>p_queue := queue, p_in_queue := (p_in_queue st)[v := False]\<rparr>;
               count = push_count + 1
           in if count > max_pushes then Some st
              else if count mod CANCEL_POLL_INTERVAL = 0 \<and> (case cancel of Some c \<Rightarrow> c count | None \<Rightarrow> False) then None
              else push_loop adj alpha pers cancel max_pushes count (push_node adj alpha pers v st)))"
  by pat_completeness auto
termination
  by (relation "measure (\<lambda>(adj, alpha, pers, cancel, max_pushes, push_count, st). max_pushes - push_count)") auto

declare push_loop.simps [simp del]

definition push_start :: "rat list \<Rightarrow> push_state" where
  "push_start pers =
     \<lparr>p_estimate = replicate (length pers) 0, p_residual = pers,
      p_queue = filter (\<lambda>i. pers ! i > 0) [0 ..< length pers], p_in_queue = map (\<lambda>x. x > 0) pers\<rparr>"

definition forward_push_ppr_cancellable ::
  "string list \<Rightarrow> adjacency_data \<Rightarrow> string list \<Rightarrow> ppr_config \<Rightarrow> (nat \<Rightarrow> bool) option \<Rightarrow> (string \<times> rat) list option" where
  "forward_push_ppr_cancellable uids adj seed_uids cfg cancel =
     (if (case cancel of Some c \<Rightarrow> c 0 | None \<Rightarrow> False) then None
      else let n = length uids
           in if n = 0 then Some []
              else let seeds = seed_set adj seed_uids
                   in if card seeds = 0 then Some []
                      else let pers = personalization n seeds
                           in map_option (\<lambda>st. collect_scores uids seeds cfg
                                  (apply_interaction_rerank uids cfg (p_estimate st)))
                                (push_loop adj (1 - damping cfg) pers cancel (n * 10) 0 (push_start pers)))"

definition forward_push_ppr :: "string list \<Rightarrow> adjacency_data \<Rightarrow> string list \<Rightarrow> ppr_config \<Rightarrow> (string \<times> rat) list" where
  "forward_push_ppr uids adj seed_uids cfg = the (forward_push_ppr_cancellable uids adj seed_uids cfg None)"

section \<open>Lemmas: the adjacency is consistent\<close>

definition weight_from :: "nat \<Rightarrow> (nat \<times> rat) list \<Rightarrow> rat" where
  "weight_from u xs = sum_list (map (\<lambda>(u', w). if u' = u then w else 0) xs)"

definition flow :: "nat \<Rightarrow> (nat \<times> rat) list list \<Rightarrow> nat \<Rightarrow> rat" where
  "flow n incoming u = (\<Sum>v<n. weight_from u (incoming ! v))"

text \<open>Weights are non-negative, nodes are in range and the outgoing weight is what flows out.\<close>

definition consistent :: "nat \<Rightarrow> (nat \<times> rat) list list \<times> rat list \<Rightarrow> bool" where
  "consistent n st \<longleftrightarrow> length (fst st) = n \<and> length (snd st) = n \<and>
     (\<forall>v<n. \<forall>(u, w)\<in>set (fst st ! v). u < n \<and> 0 \<le> w) \<and> (\<forall>u<n. snd st ! u = flow n (fst st) u)"

lemma weight_from_append: "weight_from u (xs @ [(v, w)]) = weight_from u xs + (if v = u then w else 0)"
  by (simp add: weight_from_def)

lemma flow_push:
  assumes "length inc = n" "t < n"
  shows "flow n (inc[t := inc ! t @ [(s, w)]]) u = flow n inc u + (if s = u then w else 0)"
proof -
  have "flow n (inc[t := inc ! t @ [(s, w)]]) u =
      (\<Sum>v<n. weight_from u (inc ! v) + (if v = t then (if s = u then w else 0) else 0))"
    unfolding flow_def using assms by (intro sum.cong) (auto simp: nth_list_update weight_from_append)
  also have "\<dots> = flow n inc u + (if s = u then w else 0)"
    using assms(2) by (simp add: sum.distrib flow_def sum.delta)
  finally show ?thesis .
qed

lemma bump_nth: "i < length xs \<Longrightarrow> bump i x xs ! j = (if j = i then xs ! i + x else xs ! j)"
  by (auto simp: bump_def nth_list_update)

lemma length_bump [simp]: "length (bump i x xs) = length xs"
  by (simp add: bump_def)

lemma base_weight_pos: "0 < base_weight k"
  by (cases k) simp_all

lemma multiplier_nonneg:
  "0 \<le> calls_multiplier c \<Longrightarrow> 0 \<le> project_includes_multiplier c \<Longrightarrow> 0 \<le> intent_multiplier c k"
  by (cases k) simp_all

lemma push_entry:
  "(a, x) \<in> set (inc[t := inc ! t @ [(s, w)]] ! v) \<Longrightarrow> t < length inc \<Longrightarrow>
   (a, x) \<in> set (inc ! v) \<or> a = s \<and> x = w"
  by (auto simp: nth_list_update split: if_splits)

text \<open>One directed half of an edge.\<close>

lemma consistent_push:
  assumes ok: "consistent n (inc, out)" and "s < n" "t < n" "0 \<le> w"
  shows "consistent n (inc[t := inc ! t @ [(s, w)]], bump s w out)"
proof -
  have len: "length inc = n" "length out = n" using ok by (simp_all add: consistent_def)
  have "u < n \<and> 0 \<le> x" if "v < n" "(u, x) \<in> set (inc[t := inc ! t @ [(s, w)]] ! v)" for u v x
    using push_entry [OF that(2)] ok that(1) assms(2-4) len by (auto simp: consistent_def)
  moreover have "bump s w out ! u = flow n (inc[t := inc ! t @ [(s, w)]]) u" if "u < n" for u
    using ok that assms(2,3) len by (simp add: flow_push bump_nth consistent_def)
  ultimately show ?thesis using len by (auto simp: consistent_def)
qed

lemma add_edge_consistent:
  assumes "0 \<le> calls_multiplier c" "0 \<le> project_includes_multiplier c" "consistent n st"
  shows "consistent n (add_edge n c e st)"
proof -
  obtain src tgt conf kind inc out where e: "e = (src, tgt, conf, kind)" and st: "st = (inc, out)"
    by (cases e, cases st)
  show ?thesis
  proof (cases "n \<le> unat src \<or> n \<le> unat tgt \<or> conf \<le> 0")
    case True
    with assms(3) e st show ?thesis by (simp add: add_edge_def)
  next
    case False
    let ?w = "conf * base_weight kind * intent_multiplier c kind"
    have w: "0 \<le> ?w"
      using False base_weight_pos [of kind] multiplier_nonneg [OF assms(1,2), of kind] by simp
    have "consistent n (inc[unat tgt := inc ! unat tgt @ [(unat src, ?w)]], bump (unat src) ?w out)"
      using assms(3) False w st by (intro consistent_push) auto
    then have "consistent n ((inc[unat tgt := inc ! unat tgt @ [(unat src, ?w)]])
        [unat src := inc[unat tgt := inc ! unat tgt @ [(unat src, ?w)]] ! unat src @ [(unat tgt, ?w * (3 / 10))]],
        bump (unat tgt) (?w * (3 / 10)) (bump (unat src) ?w out))"
      by (rule consistent_push) (use False w in auto)
    with False e st show ?thesis by (simp add: add_edge_def Let_def)
  qed
qed

lemma build_adjacency_consistent:
  assumes "0 \<le> calls_multiplier c" "0 \<le> project_includes_multiplier c"
  shows "consistent (length (g_uids g)) (a_incoming (build_adjacency g c), a_out_weight (build_adjacency g c))"
proof -
  let ?n = "length (g_uids g)"
  have start: "consistent ?n (replicate ?n [], replicate ?n 0)"
    by (auto simp: consistent_def flow_def weight_from_def)
  have "consistent ?n (fold (add_edge ?n c) es st)" if "consistent ?n st" for es st
    using that by (induction es arbitrary: st) (simp_all add: add_edge_consistent [OF assms])
  from this [OF start, of "g_edges g"] show ?thesis
    by (auto simp: build_adjacency_def Let_def split_beta)
qed

lemma weight_from_nonneg: "(\<And>a w. (a, w) \<in> set xs \<Longrightarrow> 0 \<le> w) \<Longrightarrow> 0 \<le> weight_from u xs"
  unfolding weight_from_def by (rule sum_list_nonneg) auto

lemma out_weight_nonneg:
  assumes "consistent n (inc, out)" "u < n"
  shows "0 \<le> out ! u"
proof -
  have "0 \<le> flow n inc u"
    unfolding flow_def using assms(1)
    by (intro sum_nonneg weight_from_nonneg) (auto simp: consistent_def)
  with assms show ?thesis by (simp add: consistent_def)
qed

section \<open>Lemmas: mass of the power iteration\<close>

lemma sum_list_by_source:
  assumes "\<And>a w. (a, w) \<in> set xs \<Longrightarrow> a < n"
  shows "sum_list (map (\<lambda>(a, w). g a * w) xs) = (\<Sum>u<n. g u * weight_from u xs)"
  using assms
proof (induction xs)
  case (Cons x xs)
  obtain a w where x: "x = (a, w)" by (cases x)
  with Cons.prems have a: "a < n" by auto
  have "(\<Sum>u<n. g u * weight_from u (x # xs)) = (\<Sum>u<n. (if u = a then g a * w else 0) + g u * weight_from u xs)"
    by (intro sum.cong) (auto simp: weight_from_def x algebra_simps)
  also have "\<dots> = g a * w + (\<Sum>u<n. g u * weight_from u xs)"
    using a by (simp add: sum.distrib sum.delta)
  finally show ?case using Cons x by auto
qed (simp add: weight_from_def)

lemma dangling_sum_eq: "dangling_sum adj s = (\<Sum>u<length s. if a_out_weight adj ! u = 0 then s ! u else 0)"
proof -
  have "sum_list (map f (filter P [0 ..< n])) = (\<Sum>u<n. if P u then f u else 0)" for f :: "nat \<Rightarrow> rat" and P n
    by (induction n) auto
  then show ?thesis by (simp add: dangling_sum_def)
qed

lemma pushed_mass:
  assumes ok: "consistent n (a_incoming adj, a_out_weight adj)" and len: "length s = n"
  shows "(\<Sum>v<n. sum_list (map (\<lambda>(u, w). if a_out_weight adj ! u > 0
      then d * s ! u * w / a_out_weight adj ! u else 0) (a_incoming adj ! v))) =
    d * (\<Sum>u<n. if a_out_weight adj ! u > 0 then s ! u else 0)"
proof -
  let ?out = "\<lambda>u. a_out_weight adj ! u"
  let ?g = "\<lambda>u. if ?out u > 0 then d * s ! u / ?out u else 0"
  have form: "(\<lambda>(u, w). if ?out u > 0 then d * s ! u * w / ?out u else 0) = (\<lambda>(u, w). ?g u * w)"
    by (auto simp: fun_eq_iff)
  have "(\<Sum>v<n. sum_list (map (\<lambda>(u, w). ?g u * w) (a_incoming adj ! v))) =
      (\<Sum>v<n. \<Sum>u<n. ?g u * weight_from u (a_incoming adj ! v))"
    using ok by (intro sum.cong sum_list_by_source) (auto simp: consistent_def)
  also have "\<dots> = (\<Sum>u<n. ?g u * flow n (a_incoming adj) u)"
    by (subst sum.swap) (simp add: flow_def sum_distrib_left)
  also have "\<dots> = (\<Sum>u<n. d * (if ?out u > 0 then s ! u else 0))"
    using ok by (intro sum.cong) (auto simp: consistent_def)
  finally show ?thesis by (simp add: form sum_distrib_left)
qed

lemma power_step_sum:
  assumes ok: "consistent n (a_incoming adj, a_out_weight adj)"
    and len: "length s = n" "length pers = n" and "(\<Sum>v<n. pers ! v) = 1" and "(\<Sum>v<n. s ! v) = 1"
  shows "(\<Sum>v<n. power_step adj d pers s ! v) = 1"
proof -
  let ?out = "\<lambda>u. a_out_weight adj ! u"
  have "(\<Sum>v<n. power_step adj d pers s ! v) = (1 - d) + d * dangling_sum adj s +
      d * (\<Sum>u<n. if ?out u > 0 then s ! u else 0)"
    using len assms(4)
    by (simp add: power_step_def Let_def sum.distrib pushed_mass [OF ok len(1)] flip: sum_distrib_left)
  also have "dangling_sum adj s = (\<Sum>u<n. if ?out u > 0 then 0 else s ! u)"
    unfolding dangling_sum_eq len(1)
    by (intro sum.cong) (use out_weight_nonneg [OF ok] in \<open>force simp: less_le\<close>)+
  also have "(1 - d) + d * (\<Sum>u<n. if ?out u > 0 then 0 else s ! u) + d * (\<Sum>u<n. if ?out u > 0 then s ! u else 0) =
      (1 - d) + d * (\<Sum>u<n. (if ?out u > 0 then 0 else s ! u) + (if ?out u > 0 then s ! u else 0))"
    by (simp add: sum.distrib distrib_left)
  also have "(\<Sum>u<n. (if ?out u > 0 then 0 else s ! u) + (if ?out u > 0 then s ! u else 0)) = 1"
    using assms(5) by (subst assms(5) [symmetric]) (intro sum.cong, auto)
  finally show ?thesis by simp
qed

lemma power_step_nonneg:
  assumes ok: "consistent n (a_incoming adj, a_out_weight adj)"
    and len: "length s = n" and "\<And>v. v < n \<Longrightarrow> 0 \<le> s ! v" "\<And>v. v < n \<Longrightarrow> 0 \<le> pers ! v"
    and "0 \<le> d" "d \<le> 1" "v < n"
  shows "0 \<le> power_step adj d pers s ! v"
proof -
  have "0 \<le> dangling_sum adj s"
    unfolding dangling_sum_def using assms(2,3) by (intro sum_list_nonneg) auto
  moreover have "0 \<le> sum_list (map (\<lambda>(u, w). if a_out_weight adj ! u > 0
      then d * s ! u * w / a_out_weight adj ! u else 0) (a_incoming adj ! v))"
  proof (rule sum_list_nonneg, clarsimp)
    fix u w assume "(u, w) \<in> set (a_incoming adj ! v)" and pos: "0 < a_out_weight adj ! u"
    with ok assms(7) have "u < n" "0 \<le> w" by (auto simp: consistent_def)
    with assms(3,5) pos show "0 \<le> d * s ! u * w / a_out_weight adj ! u" by simp
  qed
  ultimately show ?thesis
    using assms len by (simp add: power_step_def Let_def)
qed

text \<open>A score vector is a distribution over the nodes.\<close>

definition distribution :: "nat \<Rightarrow> rat list \<Rightarrow> bool" where
  "distribution n s \<longleftrightarrow> length s = n \<and> (\<forall>v<n. 0 \<le> s ! v) \<and> (\<Sum>v<n. s ! v) = 1"

lemma power_loop_distribution:
  assumes ok: "consistent n (a_incoming adj, a_out_weight adj)" and "0 \<le> d" "d \<le> 1"
    and "distribution n pers" "distribution n s"
  shows "distribution n (power_loop k adj d pers s)"
  using assms(5)
proof (induction k arbitrary: s)
  case (Suc k)
  have "distribution n (power_step adj d pers s)"
    using Suc.prems assms power_step_sum [OF ok] power_step_nonneg [OF ok, of s pers d]
    by (auto simp: distribution_def) (simp add: power_step_def Let_def)
  with Suc.IH show ?case by (simp add: Let_def)
qed simp

lemma personalization_distribution:
  assumes "finite seeds" "seeds \<noteq> {}" "seeds \<subseteq> {..<n}"
  shows "distribution n (personalization n seeds)"
proof -
  have "(\<Sum>v<n. personalization n seeds ! v) = (\<Sum>v<n. if v \<in> seeds then 1 / of_nat (card seeds) else 0)"
    by (intro sum.cong) (simp_all add: personalization_def)
  also have "\<dots> = (\<Sum>v\<in>seeds. 1 / of_nat (card seeds))"
    using assms(3) by (subst sum.inter_restrict [symmetric]) (simp_all add: Int_absorb1)
  also have "\<dots> = 1" using assms(1,2) by simp
  finally show ?thesis by (simp add: distribution_def personalization_def)
qed

section \<open>Lemmas: mass of the forward push\<close>

definition push_inv :: "nat \<Rightarrow> push_state \<Rightarrow> bool" where
  "push_inv n st \<longleftrightarrow> length (p_estimate st) = n \<and> length (p_residual st) = n \<and>
     (\<forall>v<n. 0 \<le> p_estimate st ! v \<and> 0 \<le> p_residual st ! v) \<and> (\<forall>v\<in>set (p_queue st). v < n)"

definition mass :: "nat \<Rightarrow> push_state \<Rightarrow> rat" where
  "mass n st = (\<Sum>v<n. p_estimate st ! v) + (\<Sum>v<n. p_residual st ! v)"

lemma sum_bump: "i < n \<Longrightarrow> length xs = n \<Longrightarrow> (\<Sum>v<n. bump i x xs ! v) = (\<Sum>v<n. xs ! v) + x"
proof -
  assume a: "i < n" "length xs = n"
  have "(\<Sum>v<n. bump i x xs ! v) = (\<Sum>v<n. xs ! v + (if v = i then x else 0))"
    using a by (intro sum.cong) (auto simp: bump_nth)
  then show ?thesis using a by (simp add: sum.distrib sum.delta)
qed

lemma deposit_simps [simp]:
  "p_estimate (deposit (i, x) st) = p_estimate st"
  "p_residual (deposit (i, x) st) = bump i x (p_residual st)"
  "set (p_queue (deposit (i, x) st)) \<subseteq> insert i (set (p_queue st))"
  by (auto simp: deposit_def Let_def)

lemma deposit_inv:
  assumes "push_inv n st" "i < n" "0 \<le> x"
  shows "push_inv n (deposit (i, x) st)" "mass n (deposit (i, x) st) = mass n st + x"
    "p_residual st ! v \<le> p_residual (deposit (i, x) st) ! v"
proof -
  show "push_inv n (deposit (i, x) st)"
    using assms by (auto simp: push_inv_def bump_nth dest!: subsetD [OF deposit_simps(3)])
  show "mass n (deposit (i, x) st) = mass n st + x"
    using assms by (simp add: push_inv_def mass_def sum_bump)
  show "p_residual st ! v \<le> p_residual (deposit (i, x) st) ! v"
    using assms by (auto simp: push_inv_def bump_nth)
qed

lemma deposits_inv:
  "push_inv n st \<Longrightarrow> (\<And>i x. (i, x) \<in> set ds \<Longrightarrow> i < n \<and> 0 \<le> x) \<Longrightarrow>
   push_inv n (fold deposit ds st) \<and> mass n (fold deposit ds st) = mass n st + sum_list (map snd ds) \<and>
   p_residual st ! v \<le> p_residual (fold deposit ds st) ! v"
proof (induction ds arbitrary: st)
  case (Cons y ds)
  obtain i x where y: "y = (i, x)" by (cases y)
  with Cons.prems have ix: "i < n" "0 \<le> x" by auto
  note d = deposit_inv [OF Cons.prems(1) ix]
  from Cons.IH [OF d(1)] Cons.prems(2)
  have "push_inv n (fold deposit ds (deposit (i, x) st)) \<and>
      mass n (fold deposit ds (deposit (i, x) st)) = mass n (deposit (i, x) st) + sum_list (map snd ds) \<and>
      p_residual (deposit (i, x) st) ! v \<le> p_residual (fold deposit ds (deposit (i, x) st)) ! v" by auto
  with d(2) d(3) [of v] y show ?case by (auto intro: order_trans)
qed simp

lemma outgoing_entry:
  "(v, w) \<in> set (outgoing_edges adj n u) \<longleftrightarrow> v < n \<and> (u, w) \<in> set (a_incoming adj ! v)"
  by (force simp: outgoing_edges_def)

lemma outgoing_total: "sum_list (map snd (outgoing_edges adj n u)) = flow n (a_incoming adj) u"
proof -
  have one: "sum_list (map snd (map (\<lambda>(u', w). (v, w)) (filter (\<lambda>(u', w). u' = u) xs))) = weight_from u xs"
    for v :: nat and xs :: "(nat \<times> rat) list"
    by (induction xs) (auto simp: weight_from_def)
  have "sum_list (map snd (concat (map f [0 ..< n]))) = (\<Sum>v<n. sum_list (map snd (f v)))"
    for f :: "nat \<Rightarrow> (nat \<times> rat) list" by (induction n) auto
  then show ?thesis by (simp add: outgoing_edges_def flow_def one del: map_map)
qed

text \<open>What a node pushes is its residual less the absorbed part.\<close>

definition pushed :: "adjacency_data \<Rightarrow> rat list \<Rightarrow> nat \<Rightarrow> rat \<Rightarrow> (nat \<times> rat) list" where
  "pushed adj pers v m =
     (if a_out_weight adj ! v > 0
      then map (\<lambda>(u, w). (u, m * w / a_out_weight adj ! v)) (outgoing_edges adj (length pers) v)
      else map (\<lambda>i. (i, m * pers ! i)) (filter (\<lambda>i. pers ! i > 0) [0 ..< length pers]))"

lemma pushed_total:
  assumes ok: "consistent n (a_incoming adj, a_out_weight adj)" and "distribution n pers" "v < n"
  shows "sum_list (map snd (pushed adj pers v m)) = m"
proof (cases "a_out_weight adj ! v > 0")
  case True
  have len: "length pers = n" using assms(2) by (simp add: distribution_def)
  have "sum_list (map snd (pushed adj pers v m)) =
      sum_list (map (\<lambda>e. m / a_out_weight adj ! v * snd e) (outgoing_edges adj n v))"
    using True len by (simp add: pushed_def split_def comp_def)
  also have "\<dots> = m / a_out_weight adj ! v * flow n (a_incoming adj) v"
    unfolding outgoing_total [symmetric] by (rule sum_list_const_mult)
  finally show ?thesis using ok True assms(3) by (simp add: consistent_def)
next
  case False
  have "sum_list (map f (filter P [0 ..< n])) = (\<Sum>u<n. if P u then f u else 0)" for f :: "nat \<Rightarrow> rat" and P n
    by (induction n) auto
  then have "sum_list (map snd (pushed adj pers v m)) = (\<Sum>i<n. if pers ! i > 0 then m * pers ! i else 0)"
    using False assms(2) by (simp add: pushed_def comp_def distribution_def)
  also have "\<dots> = m * (\<Sum>i<n. pers ! i)"
    unfolding sum_distrib_left using assms(2) by (intro sum.cong) (force simp: distribution_def less_le)+
  finally show ?thesis using assms(2) by (simp add: distribution_def)
qed

lemma pushed_entries:
  assumes ok: "consistent n (a_incoming adj, a_out_weight adj)" and "distribution n pers" "0 \<le> m"
    and "(i, x) \<in> set (pushed adj pers v m)"
  shows "i < n \<and> 0 \<le> x"
  using assms by (fastforce simp: pushed_def outgoing_entry distribution_def consistent_def split: if_splits)

lemma push_node_eq:
  "push_node adj alpha pers v st =
     (if \<bar>p_residual st ! v\<bar> < R_MAX then st
      else let st' = fold deposit (pushed adj pers v ((1 - alpha) * p_residual st ! v))
                       (st\<lparr>p_estimate := bump v (alpha * p_residual st ! v) (p_estimate st)\<rparr>)
           in st'\<lparr>p_residual := (p_residual st')[v := 0]\<rparr>)"
  by (simp add: push_node_def pushed_def Let_def)

lemma sum_clear: "v < n \<Longrightarrow> length xs = n \<Longrightarrow> (\<Sum>i<n. xs[v := 0] ! i) = (\<Sum>i<n. xs ! i) - (xs ! v :: rat)"
  using sum_bump [of v n xs "- xs ! v"] by (simp add: bump_def)

lemma clear_inv: "push_inv n st \<Longrightarrow> push_inv n (st\<lparr>p_residual := (p_residual st)[v := 0]\<rparr>)"
  by (cases "v < n") (simp_all add: push_inv_def nth_list_update)

lemma push_node_inv:
  assumes ok: "consistent n (a_incoming adj, a_out_weight adj)" and pers: "distribution n pers"
    and inv: "push_inv n st" and v: "v < n" and alpha: "0 \<le> alpha" "alpha \<le> 1"
  shows "push_inv n (push_node adj alpha pers v st) \<and> mass n (push_node adj alpha pers v st) \<le> mass n st"
proof (cases "\<bar>p_residual st ! v\<bar> < R_MAX")
  case False
  define r where "r = p_residual st ! v"
  have r: "0 \<le> r" using inv v by (simp add: r_def push_inv_def)
  let ?st1 = "st\<lparr>p_estimate := bump v (alpha * r) (p_estimate st)\<rparr>"
  let ?ds = "pushed adj pers v ((1 - alpha) * r)"
  let ?st2 = "fold deposit ?ds ?st1"
  have inv1: "push_inv n ?st1"
    using inv v alpha r by (auto simp: push_inv_def bump_nth)
  have mass1: "mass n ?st1 = mass n st + alpha * r"
    using inv v by (simp add: mass_def push_inv_def sum_bump)
  have "0 \<le> (1 - alpha) * r" using alpha r by simp
  from deposits_inv [OF inv1 pushed_entries [OF ok pers this]]
  have d: "push_inv n ?st2" "mass n ?st2 = mass n ?st1 + sum_list (map snd ?ds)" "r \<le> p_residual ?st2 ! v"
    by (auto simp: r_def)
  have "mass n ?st2 = mass n st + r"
    using d(2) mass1 pushed_total [OF ok pers v] by (simp add: algebra_simps)
  moreover have "push_node adj alpha pers v st = ?st2\<lparr>p_residual := (p_residual ?st2)[v := 0]\<rparr>"
    using False by (simp add: push_node_eq r_def Let_def)
  moreover have "push_inv n (?st2\<lparr>p_residual := (p_residual ?st2)[v := 0]\<rparr>)"
    using d(1) by (rule clear_inv)
  moreover have "mass n (?st2\<lparr>p_residual := (p_residual ?st2)[v := 0]\<rparr>) = mass n ?st2 - p_residual ?st2 ! v"
    using d(1) v by (simp add: mass_def push_inv_def sum_clear)
  ultimately show ?thesis using d(3) by simp
qed (simp add: push_node_eq inv)

lemma push_loop_inv:
  assumes ok: "consistent n (a_incoming adj, a_out_weight adj)" and pers: "distribution n pers"
    and alpha: "0 \<le> alpha" "alpha \<le> 1"
  shows "push_inv n st \<Longrightarrow>
    \<exists>st'. push_loop adj alpha pers None max_pushes k st = Some st' \<and> push_inv n st' \<and> mass n st' \<le> mass n st"
proof (induction "max_pushes - k" arbitrary: k st rule: less_induct)
  case less
  show ?case
  proof (cases "p_queue st")
    case Nil
    with less.prems show ?thesis by (subst push_loop.simps) simp
  next
    case (Cons v queue)
    let ?st = "st\<lparr>p_queue := queue, p_in_queue := (p_in_queue st)[v := False]\<rparr>"
    have inv: "push_inv n ?st" and v: "v < n" and m: "mass n ?st = mass n st"
      using less.prems Cons by (auto simp: push_inv_def mass_def)
    show ?thesis
    proof (cases "k + 1 > max_pushes")
      case True
      with Cons inv m show ?thesis by (subst push_loop.simps) (simp add: Let_def)
    next
      case False
      note step = push_node_inv [OF ok pers inv v alpha]
      have "max_pushes - (k + 1) < max_pushes - k" using False by simp
      from less.hyps [OF this, of "push_node adj alpha pers v ?st"] step obtain st' where
        "push_loop adj alpha pers None max_pushes (k + 1) (push_node adj alpha pers v ?st) = Some st'"
        "push_inv n st'" "mass n st' \<le> mass n (push_node adj alpha pers v ?st)" by blast
      with False Cons step m show ?thesis
        by (subst push_loop.simps) (auto simp: Let_def)
    qed
  qed
qed

lemma push_start_inv:
  "distribution n pers \<Longrightarrow> push_inv n (push_start pers) \<and> mass n (push_start pers) = 1"
  by (auto simp: push_inv_def mass_def push_start_def distribution_def)

section \<open>Lemmas: scores stay where the seeds reach\<close>

definition walk :: "nat \<Rightarrow> adjacency_data \<Rightarrow> (nat \<times> nat) set" where
  "walk n adj = {(u, v). v < n \<and> (\<exists>w. (u, w) \<in> set (a_incoming adj ! v))}"

definition reached :: "nat \<Rightarrow> adjacency_data \<Rightarrow> nat set \<Rightarrow> nat set" where
  "reached n adj seeds = (walk n adj)\<^sup>* `` seeds"

lemma reached_seed: "s \<in> seeds \<Longrightarrow> s \<in> reached n adj seeds"
  by (auto simp: reached_def)

lemma reached_step: "u \<in> reached n adj seeds \<Longrightarrow> v < n \<Longrightarrow> (u, w) \<in> set (a_incoming adj ! v) \<Longrightarrow> v \<in> reached n adj seeds"
  by (auto simp: reached_def walk_def intro: rtrancl_into_rtrancl)

definition zero_off :: "nat set \<Rightarrow> rat list \<Rightarrow> bool" where
  "zero_off X s \<longleftrightarrow> (\<forall>v<length s. v \<notin> X \<longrightarrow> s ! v = 0)"

lemma personalization_zero_off: "zero_off (reached n adj seeds) (personalization n seeds)"
  by (auto simp: zero_off_def personalization_def reached_seed)

lemma power_step_zero_off:
  assumes "zero_off (reached n adj seeds) s" "length s = n" "zero_off (reached n adj seeds) pers" "length pers = n"
    and range: "\<And>v u w. v < n \<Longrightarrow> (u, w) \<in> set (a_incoming adj ! v) \<Longrightarrow> u < n"
  shows "zero_off (reached n adj seeds) (power_step adj d pers s)"
proof -
  have "sum_list (map (\<lambda>(u, w). if a_out_weight adj ! u > 0
      then d * s ! u * w / a_out_weight adj ! u else 0) (a_incoming adj ! v)) = 0"
    if v: "v < n" "v \<notin> reached n adj seeds" for v
  proof -
    have "s ! u = 0" if "(u, w) \<in> set (a_incoming adj ! v)" for u w
    proof -
      have "u \<notin> reached n adj seeds" using reached_step [OF _ v(1) that] v(2) by blast
      with assms(1,2) range [OF v(1) that] show ?thesis by (simp add: zero_off_def)
    qed
    then have "map (\<lambda>(u, w). if a_out_weight adj ! u > 0 then d * s ! u * w / a_out_weight adj ! u else 0)
        (a_incoming adj ! v) = map (\<lambda>_. 0) (a_incoming adj ! v)" by auto
    then show ?thesis by (simp only: sum_list_0)
  qed
  with assms show ?thesis by (auto simp: zero_off_def power_step_def Let_def)
qed

lemma power_loop_zero_off:
  assumes "length pers = n" "zero_off (reached n adj seeds) pers"
    and "\<And>v u w. v < n \<Longrightarrow> (u, w) \<in> set (a_incoming adj ! v) \<Longrightarrow> u < n"
  shows "zero_off (reached n adj seeds) s \<Longrightarrow> length s = n \<Longrightarrow>
    zero_off (reached n adj seeds) (power_loop k adj d pers s) \<and> length (power_loop k adj d pers s) = n"
proof (induction k arbitrary: s)
  case (Suc k)
  have "zero_off (reached n adj seeds) (power_step adj d pers s)" "length (power_step adj d pers s) = n"
    using power_step_zero_off [OF Suc.prems assms(2,1,3)] Suc.prems by (simp_all add: power_step_def Let_def)
  with Suc.IH show ?case by (simp add: Let_def)
qed simp

text \<open>In the push only reached nodes hold an estimate, a residual or a place in the queue.\<close>

definition push_local :: "nat \<Rightarrow> nat set \<Rightarrow> push_state \<Rightarrow> bool" where
  "push_local n X st \<longleftrightarrow> length (p_estimate st) = n \<and> zero_off X (p_estimate st) \<and> set (p_queue st) \<subseteq> X"

lemma deposit_local: "push_local n X st \<Longrightarrow> i \<in> X \<Longrightarrow> push_local n X (deposit (i, x) st)"
  by (auto simp: push_local_def dest!: subsetD [OF deposit_simps(3)])

lemma deposits_local:
  "push_local n X st \<Longrightarrow> fst ` set ds \<subseteq> X \<Longrightarrow> push_local n X (fold deposit ds st)"
  by (induction ds arbitrary: st) (auto simp: deposit_local)

lemma zero_off_bump: "zero_off X s \<Longrightarrow> v \<in> X \<Longrightarrow> zero_off X (bump v x s)"
  by (cases "v < length s") (auto simp: zero_off_def bump_nth, simp add: bump_def)

lemma push_node_local:
  assumes "push_local n (reached n adj seeds) st" "v \<in> reached n adj seeds"
    and "length pers = n" "zero_off (reached n adj seeds) pers"
  shows "push_local n (reached n adj seeds) (push_node adj alpha pers v st)"
proof -
  have "fst ` set (pushed adj pers v m) \<subseteq> reached n adj seeds" for m
    using assms(2,3,4) reached_step [of v n adj seeds]
    by (auto simp: pushed_def outgoing_entry zero_off_def)
  moreover have "push_local n (reached n adj seeds) (st\<lparr>p_estimate := bump v x (p_estimate st)\<rparr>)" for x
    using assms(1,2) by (simp add: push_local_def zero_off_bump)
  ultimately have "push_local n (reached n adj seeds)
      (fold deposit (pushed adj pers v m) (st\<lparr>p_estimate := bump v x (p_estimate st)\<rparr>))" for m x
    by (intro deposits_local)
  with assms(1) show ?thesis by (simp add: push_node_eq Let_def push_local_def)
qed

lemma push_loop_local:
  assumes "length pers = n" "zero_off (reached n adj seeds) pers"
  shows "push_local n (reached n adj seeds) st \<Longrightarrow>
    push_loop adj alpha pers cancel max_pushes k st = Some st' \<Longrightarrow> push_local n (reached n adj seeds) st'"
proof (induction "max_pushes - k" arbitrary: k st rule: less_induct)
  case less
  show ?case
  proof (cases "p_queue st")
    case Nil
    with less.prems show ?thesis by (subst (asm) push_loop.simps) simp
  next
    case (Cons v queue)
    let ?st = "st\<lparr>p_queue := queue, p_in_queue := (p_in_queue st)[v := False]\<rparr>"
    have l: "push_local n (reached n adj seeds) ?st" "v \<in> reached n adj seeds"
      using less.prems(1) Cons by (auto simp: push_local_def)
    show ?thesis
    proof (cases "k + 1 > max_pushes")
      case True
      with less.prems(2) Cons l(1) show ?thesis by (subst (asm) push_loop.simps) (auto simp: Let_def)
    next
      case False
      then have "max_pushes - (k + 1) < max_pushes - k" by simp
      from less.hyps [OF this push_node_local [OF l assms]] less.prems(2) Cons False show ?thesis
        by (subst (asm) push_loop.simps) (auto simp: Let_def split: if_splits)
    qed
  qed
qed

lemma rerank_zero_off:
  "zero_off X s \<Longrightarrow> zero_off X (apply_interaction_rerank uids cfg s) \<and>
   length (apply_interaction_rerank uids cfg s) = length s"
  by (auto simp: zero_off_def apply_interaction_rerank_def Let_def split: option.splits)

lemma collect_scores_mem:
  assumes "(u, x) \<in> set (collect_scores uids seeds cfg s)"
  obtains i where "i < length uids" "u = uids ! i" "x = s ! i" "i \<in> seeds \<or> x > min_score cfg"
  using assms by (auto simp: collect_scores_def)

lemma collect_zero_off:
  assumes "zero_off (reached n adj seeds) s" "length s = n" "length uids = n" "0 \<le> min_score cfg"
    and "(u, x) \<in> set (collect_scores uids seeds cfg s)"
  shows "\<exists>i\<in>reached n adj seeds. i < n \<and> u = uids ! i"
proof -
  obtain i where i: "i < length uids" "u = uids ! i" "x = s ! i" "i \<in> seeds \<or> x > min_score cfg"
    using assms(5) by (rule collect_scores_mem)
  have "i \<in> reached n adj seeds"
  proof (rule ccontr)
    assume no: "i \<notin> reached n adj seeds"
    with i assms(1-4) have "x = 0" by (auto simp: zero_off_def)
    with no i(4) assms(4) show False by (auto intro: reached_seed)
  qed
  with i assms(3) show ?thesis by blast
qed

section \<open>Properties\<close>

lemma seed_set_props:
  assumes "card (seed_set (build_adjacency g c) seeds) \<noteq> 0"
  shows "finite (seed_set (build_adjacency g c) seeds)" "seed_set (build_adjacency g c) seeds \<noteq> {}"
    "seed_set (build_adjacency g c) seeds \<subseteq> {..<length (g_uids g)}"
proof -
  have "a_uid_to_idx (build_adjacency g c) = uid_to_idx (g_uids g)"
    by (simp add: build_adjacency_def Let_def split_beta)
  then show "seed_set (build_adjacency g c) seeds \<subseteq> {..<length (g_uids g)}"
    by (auto simp: seed_set_def map_filter_def dest: uid_to_idx_bound)
qed (use assms in \<open>auto simp: seed_set_def\<close>)

text \<open>
  C30. PageRank never makes score out of nothing. On the adjacency of any graph, with non-negative
  multipliers and a damping factor between 0 and 1, the power iteration keeps a probability
  distribution over the nodes for any number of iterations; the forward push always returns when it
  is not cancelled, and its estimates are non-negative and sum to at most 1.
\<close>

theorem ppr_mass:
  assumes "0 \<le> calls_multiplier c" "0 \<le> project_includes_multiplier c"
    and "0 \<le> damping cfg" "damping cfg \<le> 1"
    and "card (seed_set (build_adjacency g c) seeds) \<noteq> 0"
  defines "S \<equiv> seed_set (build_adjacency g c) seeds" and "n \<equiv> length (g_uids g)"
  shows "distribution n (power_scores (g_uids g) (build_adjacency g c) S cfg) \<and>
    (\<exists>st. push_loop (build_adjacency g c) (1 - damping cfg) (personalization n S) None (n * 10) 0
            (push_start (personalization n S)) = Some st \<and>
       (\<forall>v<n. 0 \<le> p_estimate st ! v) \<and> (\<Sum>v<n. p_estimate st ! v) \<le> 1)"
proof -
  let ?adj = "build_adjacency g c" and ?pers = "personalization n S"
  have ok: "consistent n (a_incoming ?adj, a_out_weight ?adj)"
    unfolding n_def by (rule build_adjacency_consistent) (fact assms(1,2))+
  have pers: "distribution n ?pers"
    unfolding n_def S_def using seed_set_props [OF assms(5)] by (intro personalization_distribution)
  have "distribution n (power_scores (g_uids g) ?adj S cfg)"
    unfolding power_scores_def Let_def using power_loop_distribution [OF ok assms(3,4) pers pers]
    by (simp add: n_def)
  moreover obtain st where "push_loop ?adj (1 - damping cfg) ?pers None (n * 10) 0 (push_start ?pers) = Some st"
    "push_inv n st" "mass n st \<le> 1"
    using push_loop_inv [OF ok pers, of "1 - damping cfg" "push_start ?pers" "n * 10" 0] push_start_inv [OF pers] assms(3,4)
    by auto
  moreover from this(2) have "0 \<le> (\<Sum>v<n. p_residual st ! v)"
    by (intro sum_nonneg) (auto simp: push_inv_def)
  ultimately show ?thesis
    by (auto simp: push_inv_def mass_def)
qed

theorem ppr_mass_witness:
  "distribution 3 (power_scores (g_uids sample_graph) (build_adjacency sample_graph default_weights)
     (seed_set (build_adjacency sample_graph default_weights) [''a'']) default_ppr_config)"
proof -
  have idx: "a_uid_to_idx (build_adjacency sample_graph default_weights) = uid_to_idx (g_uids sample_graph)"
    by (simp add: build_adjacency_def Let_def split_beta)
  have "seed_set (build_adjacency sample_graph default_weights) [''a''] = {0}"
    unfolding seed_set_def idx by (simp add: sample_graph_def uid_to_idx_def upt_rec map_filter_simps)
  moreover have "0 \<le> calls_multiplier default_weights" "0 \<le> project_includes_multiplier default_weights"
    "0 \<le> damping default_ppr_config" "damping default_ppr_config \<le> 1" "length (g_uids sample_graph) = 3"
    by (simp_all add: default_weights_def default_ppr_config_def sample_graph_def)
  ultimately show ?thesis
    using ppr_mass [of default_weights default_ppr_config sample_graph "[''a'']"] by simp
qed

text \<open>
  Ranking is local: with a non-negative score threshold, neither algorithm returns a symbol that
  no chain of edges connects with a seed. Interaction memory cannot bring in an unrelated symbol.
\<close>

theorem ppr_returns_only_reached:
  assumes "0 \<le> calls_multiplier c" "0 \<le> project_includes_multiplier c" "0 \<le> min_score cfg"
    and "(u, x) \<in> set (personalized_pagerank (g_uids g) (build_adjacency g c) seeds cfg) \<or>
         forward_push_ppr_cancellable (g_uids g) (build_adjacency g c) seeds cfg cancel = Some res \<and> (u, x) \<in> set res"
  defines "n \<equiv> length (g_uids g)"
  shows "\<exists>i\<in>reached n (build_adjacency g c) (seed_set (build_adjacency g c) seeds). i < n \<and> u = g_uids g ! i"
proof -
  let ?adj = "build_adjacency g c"
  let ?S = "seed_set ?adj seeds"
  let ?X = "reached n ?adj ?S" and ?pers = "personalization n ?S"
  have ok: "consistent n (a_incoming ?adj, a_out_weight ?adj)"
    unfolding n_def by (rule build_adjacency_consistent) (fact assms(1,2))+
  then have range: "\<And>v u w. v < n \<Longrightarrow> (u, w) \<in> set (a_incoming ?adj ! v) \<Longrightarrow> u < n"
    by (auto simp: consistent_def)
  have pers: "zero_off ?X ?pers" "length ?pers = n"
    by (rule personalization_zero_off) (simp add: personalization_def)
  have only: "\<exists>i\<in>?X. i < n \<and> u = g_uids g ! i"
    if "zero_off ?X s" "length s = n" "(u, x) \<in> set (collect_scores (g_uids g) ?S cfg (apply_interaction_rerank (g_uids g) cfg s))" for s
    using collect_zero_off [OF _ _ _ assms(3) that(3)] rerank_zero_off [OF that(1), of "g_uids g" cfg] that(2)
    by (simp add: n_def)
  from assms(4) show ?thesis
  proof
    assume "(u, x) \<in> set (personalized_pagerank (g_uids g) ?adj seeds cfg)"
    moreover have "zero_off ?X (power_scores (g_uids g) ?adj ?S cfg) \<and> length (power_scores (g_uids g) ?adj ?S cfg) = n"
      unfolding power_scores_def Let_def n_def [symmetric]
      using power_loop_zero_off [OF pers(2,1) range pers] .
    ultimately show ?thesis using only by (auto simp: personalized_pagerank_def Let_def split: if_splits)
  next
    assume push: "forward_push_ppr_cancellable (g_uids g) ?adj seeds cfg cancel = Some res \<and> (u, x) \<in> set res"
    then obtain st where st: "push_loop ?adj (1 - damping cfg) ?pers cancel (n * 10) 0 (push_start ?pers) = Some st"
      "(u, x) \<in> set (collect_scores (g_uids g) ?S cfg (apply_interaction_rerank (g_uids g) cfg (p_estimate st)))"
      by (auto simp: forward_push_ppr_cancellable_def Let_def n_def split: if_splits)
    have "push_local n ?X (push_start ?pers)"
      using pers by (auto simp: push_local_def push_start_def zero_off_def)
    from push_loop_local [OF pers(2,1) this st(1)] only [OF _ _ st(2)] show ?thesis
      by (simp add: push_local_def)
  qed
qed

theorem ppr_returns_only_reached_witness:
  "\<exists>i\<in>reached 3 (build_adjacency sample_graph default_weights)
      (seed_set (build_adjacency sample_graph default_weights) [''a'']). i < 3 \<and> ''a'' = g_uids sample_graph ! i"
proof -
  let ?adj = "build_adjacency sample_graph default_weights"
  have idx: "a_uid_to_idx ?adj = uid_to_idx (g_uids sample_graph)"
    by (simp add: build_adjacency_def Let_def split_beta)
  have "seed_set ?adj [''a''] = {0}"
    unfolding seed_set_def idx by (simp add: sample_graph_def uid_to_idx_def upt_rec map_filter_simps)
  then have "(''a'', apply_interaction_rerank (g_uids sample_graph) default_ppr_config
      (power_scores (g_uids sample_graph) ?adj {0} default_ppr_config) ! 0)
      \<in> set (personalized_pagerank (g_uids sample_graph) ?adj [''a''] default_ppr_config)"
    by (auto simp: personalized_pagerank_def Let_def collect_scores_def sample_graph_def image_iff)
  moreover have "0 \<le> calls_multiplier default_weights" "0 \<le> project_includes_multiplier default_weights"
    "0 \<le> min_score default_ppr_config" "length (g_uids sample_graph) = 3"
    by (simp_all add: default_weights_def default_ppr_config_def sample_graph_def)
  ultimately show ?thesis
    using ppr_returns_only_reached [of default_weights default_ppr_config "''a''" _ sample_graph "[''a'']"] by auto
qed

text \<open>
  The two algorithms disagree on a seed that pushes mass to itself. For a graph of one symbol
  without edges, the power iteration gives the seed the whole score, but the forward push gives it
  one minus the damping factor only: the residual of the pushed node is cleared after its own share
  came back, so that share is lost.
\<close>

theorem push_loses_self_mass:
  fixes u :: string
  assumes "0 < damping cfg" "damping cfg < 1" "interaction_scores cfg = None"
  defines "g \<equiv> \<lparr>g_uids = [u], g_nodes = [], g_edges = [], g_generation = 0\<rparr>"
  shows "personalized_pagerank [u] (build_adjacency g c) [u] cfg = [(u, 1)] \<and>
    forward_push_ppr [u] (build_adjacency g c) [u] cfg = [(u, 1 - damping cfg)]"
proof -
  let ?adj = "build_adjacency g c"
  have adj: "a_uid_to_idx ?adj = [u \<mapsto> 0]" "a_incoming ?adj = [[]]" "a_out_weight ?adj = [0]"
    by (simp_all add: build_adjacency_def g_def uid_to_idx_def)
  have S: "seed_set ?adj [u] = {0}" by (simp add: seed_set_def adj map_filter_simps)
  have pers: "personalization (Suc 0) {0} = [1]" by (simp add: personalization_def)
  have "power_loop k ?adj (damping cfg) [1] [1] = [1]" for k
    by (induction k) (simp_all add: Let_def power_step_def dangling_sum_def adj max_change_def)
  then have "personalized_pagerank [u] ?adj [u] cfg = [(u, 1)]"
    by (simp add: personalized_pagerank_def S power_scores_def pers apply_interaction_rerank_def assms(3)
        collect_scores_def)
  moreover
  have big: "R_MAX < 1 + damping cfg" "\<not> 1 < R_MAX" "0 < R_MAX" using assms(1) by (simp_all add: R_MAX_def)
  have start: "push_start [1] = \<lparr>p_estimate = [0], p_residual = [1], p_queue = [0], p_in_queue = [True]\<rparr>"
    by (simp add: push_start_def)
  have first: "push_node ?adj (1 - damping cfg) [1] 0
      \<lparr>p_estimate = [0], p_residual = [1], p_queue = [], p_in_queue = [False]\<rparr> =
      \<lparr>p_estimate = [1 - damping cfg], p_residual = [0], p_queue = [0], p_in_queue = [True]\<rparr>"
    using big assms(1) by (simp add: push_node_def Let_def adj deposit_def bump_def)
  have second: "push_node ?adj (1 - damping cfg) [1] 0
      \<lparr>p_estimate = [1 - damping cfg], p_residual = [0], p_queue = [], p_in_queue = [False]\<rparr> =
      \<lparr>p_estimate = [1 - damping cfg], p_residual = [0], p_queue = [], p_in_queue = [False]\<rparr>"
    using big(3) by (simp add: push_node_def)
  have "push_loop ?adj (1 - damping cfg) [1] None 10 0 (push_start [1]) =
      Some \<lparr>p_estimate = [1 - damping cfg], p_residual = [0], p_queue = [], p_in_queue = [False]\<rparr>"
    unfolding start by (subst push_loop.simps, simp add: first, subst push_loop.simps, simp add: second,
        subst push_loop.simps, simp)
  then have "forward_push_ppr [u] ?adj [u] cfg = [(u, 1 - damping cfg)]"
    by (simp add: forward_push_ppr_def forward_push_ppr_cancellable_def S pers apply_interaction_rerank_def
        assms(3) collect_scores_def)
  ultimately show ?thesis by blast
qed

theorem push_loses_self_mass_witness:
  "forward_push_ppr [''a''] (build_adjacency \<lparr>g_uids = [''a''], g_nodes = [], g_edges = [], g_generation = 0\<rparr> default_weights)
     [''a''] default_ppr_config = [(''a'', 1 / 4)]"
  using push_loses_self_mass [of default_ppr_config "''a''" default_weights] by (simp add: default_ppr_config_def)

end
