(* ===== verification/Write_Gate.thy ===== *)
theory Write_Gate
  imports Prelude
begin

text \<open>
  The single-writer gate (\<^verbatim>\<open>crates/nestweaver-engine/src/write_gate.rs\<close>) and the shutdown drain
  (\<^verbatim>\<open>crates/nestweaver-engine/src/drain.rs\<close>).

  Any number of callers run \<^verbatim>\<open>lock\<close> (or \<^verbatim>\<open>blocking_lock\<close>, which has the same accounting) and drop their
  leases concurrently. A caller is a number, where it stands in the code is its location, and every
  access to the shared mutex, counter and stamp is one atomic step, so all interleavings are runs of
  \<open>gate_step\<close>. A waiting caller may be cancelled (its future is dropped). Logging is not modelled.

  The drain loop reads its counters every half second; a run of it is a list of such observations.
\<close>

section \<open>The gate\<close>

record write_gate =
  mutex :: "nat option"
  waiting :: u32
  holder :: "(string \<times> nat) option"

definition new_gate :: write_gate where
  "new_gate = \<lparr>mutex = None, waiting = 0, holder = None\<rparr>"

definition ticket_new :: "write_gate \<Rightarrow> write_gate" where
  "ticket_new g = g\<lparr>waiting := waiting g + 1\<rparr>"

definition ticket_drop :: "write_gate \<Rightarrow> write_gate" where
  "ticket_drop g = g\<lparr>waiting := waiting g - 1\<rparr>"

definition stamp :: "string \<Rightarrow> nat \<Rightarrow> write_gate \<Rightarrow> write_gate" where
  "stamp what now g = g\<lparr>holder := Some (what, now)\<rparr>"

definition lease_drop :: "write_gate \<Rightarrow> write_gate" where
  "lease_drop g = g\<lparr>holder := None\<rparr>"

definition holder_snapshot :: "nat \<Rightarrow> write_gate \<Rightarrow> (string \<times> nat) option" where
  "holder_snapshot now g = map_option (\<lambda>(what, since). (what, now - since)) (holder g)"

text \<open>
  The locations: outside; blocked with a ticket; holding the guard with the ticket still to drop;
  holding the guard, not stamped yet; holding the stamped lease; stamp cleared, guard still held.
\<close>

datatype location =
  Outside | Blocked string | Woken string | Guarded string | Holding string | Clearing

type_synonym gate_config = "write_gate \<times> (nat \<Rightarrow> location)"

inductive gate_step :: "gate_config \<Rightarrow> gate_config \<Rightarrow> bool" where
  try_lock_ok: "at c = Outside \<Longrightarrow> mutex g = None \<Longrightarrow>
     gate_step (g, at) (g\<lparr>mutex := Some c\<rparr>, at(c := Guarded what))"
| try_lock_err: "at c = Outside \<Longrightarrow> mutex g = Some d \<Longrightarrow>
     gate_step (g, at) (ticket_new g, at(c := Blocked what))"
| lock_owned: "at c = Blocked what \<Longrightarrow> mutex g = None \<Longrightarrow>
     gate_step (g, at) (g\<lparr>mutex := Some c\<rparr>, at(c := Woken what))"
| drop_ticket: "at c = Woken what \<Longrightarrow> gate_step (g, at) (ticket_drop g, at(c := Guarded what))"
| cancel_wait: "at c = Blocked what \<Longrightarrow> gate_step (g, at) (ticket_drop g, at(c := Outside))"
| stamp_holder: "at c = Guarded what \<Longrightarrow> gate_step (g, at) (stamp what now g, at(c := Holding what))"
| clear_holder: "at c = Holding what \<Longrightarrow> gate_step (g, at) (lease_drop g, at(c := Clearing))"
| drop_guard: "at c = Clearing \<Longrightarrow> gate_step (g, at) (g\<lparr>mutex := None\<rparr>, at(c := Outside))"

inductive gate_reachable :: "gate_config \<Rightarrow> bool" where
  start: "gate_reachable (new_gate, \<lambda>_. Outside)"
| next_step: "gate_reachable cfg \<Longrightarrow> gate_step cfg cfg' \<Longrightarrow> gate_reachable cfg'"

lemmas gate_ops = ticket_new_def ticket_drop_def stamp_def lease_drop_def new_gate_def

section \<open>The drain\<close>

record drain_observation =
  ob_elapsed :: nat
  ob_writes :: nat
  ob_indexing :: bool
  ob_in_flight :: nat
  ob_queue_hint :: "nat option"

record drain_state =
  next_progress :: nat
  warned_half :: bool
  warned_ninety :: bool
  next_over_ceiling_report :: nat

datatype drain_event =
  Progress nat nat "nat option" nat
| OverCeilingWrites nat nat bool nat
| OverCeilingIndexing nat nat
| WarnHalf nat
| WarnNinety nat
| DrainComplete "nat option" bool
| ShutdownBroadcast

definition DRAIN_OVER_CEILING_REPORT_FLOOR_SECS :: nat where
  "DRAIN_OVER_CEILING_REPORT_FLOOR_SECS = 60"

definition secs :: "nat \<Rightarrow> nat" where
  "secs n = n * 10 ^ 9"

definition drain_start :: "nat \<Rightarrow> drain_state" where
  "drain_start ceiling = \<lparr>next_progress = 0, warned_half = False, warned_ninety = False,
     next_over_ceiling_report = secs ceiling\<rparr>"

text \<open>
  One turn of the loop on what it observed (elapsed times in nanoseconds): the lines it logs, and
  the state it goes on with, or none when it leaves the loop and broadcasts.
\<close>

definition drain_turn :: "nat \<Rightarrow> drain_observation \<Rightarrow> drain_state \<Rightarrow> drain_event list \<times> drain_state option" where
  "drain_turn ceiling ob st =
     (let queued = map_option (\<lambda>depth. depth - ob_in_flight ob) (ob_queue_hint ob)
      in if ob_writes ob = 0 \<and> ob_in_flight ob = 0 then ([DrainComplete queued (ob_indexing ob), ShutdownBroadcast], None)
         else
           let elapsed = ob_elapsed ob;
               ceiling_at = secs ceiling;
               half = secs (ceiling div 2);
               ninety = secs ((ceiling * 9) mod 2 ^ 64 div 10);
               repeat_every = secs (max ceiling DRAIN_OVER_CEILING_REPORT_FLOOR_SECS);
               progress = elapsed \<ge> next_progress st;
               over = elapsed \<ge> next_over_ceiling_report st;
               at_half = elapsed < ceiling_at \<and> \<not> warned_half st \<and> elapsed \<ge> half;
               at_ninety = elapsed < ceiling_at \<and> \<not> warned_ninety st \<and> elapsed \<ge> ninety
           in ((if progress then [Progress (ob_writes ob) (ob_in_flight ob) queued elapsed] else []) @
               (if over then
                  (if ob_writes ob > 0 then [OverCeilingWrites (ob_writes ob) (ob_in_flight ob) (ob_indexing ob) elapsed]
                   else [OverCeilingIndexing (ob_in_flight ob) elapsed]) else []) @
               (if at_half then [WarnHalf (ob_writes ob)] else []) @
               (if at_ninety then [WarnNinety (ob_writes ob)] else []),
               Some (st\<lparr>next_progress := if progress then elapsed + secs 30 else next_progress st,
                        next_over_ceiling_report := if over then elapsed + repeat_every else next_over_ceiling_report st,
                        warned_half := warned_half st \<or> at_half,
                        warned_ninety := warned_ninety st \<or> at_ninety\<rparr>)))"

text \<open>The loop over the observations it gets to make: what it logs, and whether it has left the loop.\<close>

fun drain_loop :: "nat \<Rightarrow> drain_observation list \<Rightarrow> drain_state \<Rightarrow> (nat \<times> drain_event) list \<times> bool" where
  "drain_loop ceiling [] st = ([], False)"
| "drain_loop ceiling (ob # obs) st =
     (case drain_turn ceiling ob st of
        (events, None) \<Rightarrow> (map (Pair (ob_elapsed ob)) events, True)
      | (events, Some st') \<Rightarrow>
          (case drain_loop ceiling obs st' of
             (later, ended) \<Rightarrow> (map (Pair (ob_elapsed ob)) events @ later, ended)))"

definition run_drain :: "nat \<Rightarrow> drain_observation list \<Rightarrow> (nat \<times> drain_event) list \<times> bool" where
  "run_drain ceiling obs = drain_loop ceiling obs (drain_start ceiling)"

section \<open>Lemmas: the gate\<close>

fun has_guard :: "location \<Rightarrow> bool" where
  "has_guard (Woken what) = True"
| "has_guard (Guarded what) = True"
| "has_guard (Holding what) = True"
| "has_guard Clearing = True"
| "has_guard _ = False"

fun has_ticket :: "location \<Rightarrow> bool" where
  "has_ticket (Blocked what) = True"
| "has_ticket (Woken what) = True"
| "has_ticket _ = False"

definition ticketed :: "(nat \<Rightarrow> location) \<Rightarrow> nat set" where
  "ticketed at = {c. has_ticket (at c)}"

text \<open>What the stamp should say: the purpose of the caller that holds a stamped lease.\<close>

definition stamped :: "(nat \<Rightarrow> location) \<Rightarrow> nat option \<Rightarrow> string option" where
  "stamped at owner =
     (case owner of Some c \<Rightarrow> (case at c of Holding what \<Rightarrow> Some what | _ \<Rightarrow> None) | None \<Rightarrow> None)"

definition gate_inv :: "gate_config \<Rightarrow> bool" where
  "gate_inv cfg \<longleftrightarrow>
     (case cfg of (g, at) \<Rightarrow>
        (\<forall>c. has_guard (at c) \<longleftrightarrow> mutex g = Some c) \<and>
        map_option fst (holder g) = stamped at (mutex g) \<and>
        finite (ticketed at) \<and> waiting g = of_nat (card (ticketed at)))"

lemma ticketed_update:
  "ticketed (at(c := l)) = (if has_ticket l then insert c (ticketed at) else ticketed at - {c})"
  by (auto simp: ticketed_def)

lemma card_word_remove:
  assumes "finite A" "c \<in> A"
  shows "(of_nat (card A - Suc 0) :: u32) = of_nat (card A) - 1"
proof -
  have "Suc 0 \<le> card A" using assms by (auto simp: Suc_le_eq card_gt_0_iff)
  then show ?thesis by (simp add: of_nat_diff)
qed

lemma gate_inv_guard: "gate_inv (g, at) \<Longrightarrow> at c = l \<Longrightarrow> has_guard l \<longleftrightarrow> mutex g = Some c"
  by (auto simp: gate_inv_def)

lemma gate_step_inv: "gate_step cfg cfg' \<Longrightarrow> gate_inv cfg \<Longrightarrow> gate_inv cfg'"
proof (induction rule: gate_step.induct)
  case (try_lock_ok at c g what)
  then have "c \<notin> ticketed at" by (simp add: ticketed_def)
  with try_lock_ok show ?case by (auto simp: gate_inv_def ticketed_update stamped_def)
next
  case (try_lock_err at c g d what)
  then have "c \<notin> ticketed at" "has_guard (at d)" by (simp_all add: ticketed_def gate_inv_def)
  moreover from this(2) try_lock_err(1) have "d \<noteq> c" by (cases "d = c") simp_all
  ultimately show ?case using try_lock_err by (auto simp: gate_inv_def ticketed_update stamped_def gate_ops)
next
  case (lock_owned at c what g)
  have t: "ticketed (at(c := Woken what)) = ticketed at" using lock_owned(1) by (auto simp: ticketed_def)
  have free: "\<not> has_guard (at d)" for d using lock_owned(2,3) by (simp add: gate_inv_def)
  have rest: "finite (ticketed at)" "waiting g = of_nat (card (ticketed at))" "map_option fst (holder g) = None"
    using lock_owned(2,3) unfolding gate_inv_def prod.case by (blast, blast, simp add: stamped_def)
  show ?case
    unfolding gate_inv_def prod.case t using rest free by (simp add: stamped_def)
next
  case (drop_ticket at c what g)
  then have "c \<in> ticketed at" "mutex g = Some c" using gate_inv_guard [OF drop_ticket(2,1)] by (simp_all add: ticketed_def)
  with drop_ticket show ?case
    by (auto simp: gate_inv_def ticketed_update stamped_def gate_ops card_word_remove)
next
  case (cancel_wait at c what g)
  then have "c \<in> ticketed at" "mutex g \<noteq> Some c" using gate_inv_guard [OF cancel_wait(2,1)] by (simp_all add: ticketed_def)
  with cancel_wait show ?case
    by (auto simp: gate_inv_def ticketed_update stamped_def gate_ops card_word_remove split: option.split)
next
  case (stamp_holder at c what g now)
  then have "c \<notin> ticketed at" "mutex g = Some c" using gate_inv_guard [OF stamp_holder(2,1)] by (simp_all add: ticketed_def)
  with stamp_holder show ?case by (auto simp: gate_inv_def ticketed_update stamped_def gate_ops)
next
  case (clear_holder at c what g)
  then have "c \<notin> ticketed at" "mutex g = Some c" using gate_inv_guard [OF clear_holder(2,1)] by (simp_all add: ticketed_def)
  with clear_holder show ?case by (auto simp: gate_inv_def ticketed_update stamped_def gate_ops)
next
  case (drop_guard at c g)
  then have "c \<notin> ticketed at" "mutex g = Some c" using gate_inv_guard [OF drop_guard(2,1)] by (simp_all add: ticketed_def)
  with drop_guard show ?case by (auto simp: gate_inv_def ticketed_update stamped_def)
qed

lemma gate_reachable_inv: "gate_reachable cfg \<Longrightarrow> gate_inv cfg"
proof (induction rule: gate_reachable.induct)
  case start
  show ?case by (simp add: gate_inv_def new_gate_def ticketed_def stamped_def)
qed (rule gate_step_inv)

section \<open>Lemmas: the drain\<close>

definition idle :: "drain_observation \<Rightarrow> bool" where
  "idle ob \<longleftrightarrow> ob_writes ob = 0 \<and> ob_in_flight ob = 0"

fun over_ceiling :: "drain_event \<Rightarrow> bool" where
  "over_ceiling (OverCeilingWrites _ _ _ _) = True"
| "over_ceiling (OverCeilingIndexing _ _) = True"
| "over_ceiling _ = False"

definition repeat_every :: "nat \<Rightarrow> nat" where
  "repeat_every ceiling = secs (max ceiling DRAIN_OVER_CEILING_REPORT_FLOOR_SECS)"

lemma drain_turn_idle: "idle ob \<Longrightarrow> drain_turn ceiling ob st =
    ([DrainComplete (map_option (\<lambda>d. d - ob_in_flight ob) (ob_queue_hint ob)) (ob_indexing ob), ShutdownBroadcast], None)"
  by (simp add: drain_turn_def idle_def)

lemma drain_turn_busy:
  assumes "\<not> idle ob"
  obtains events st' where "drain_turn ceiling ob st = (events, Some st')" "ShutdownBroadcast \<notin> set events"
    "filter over_ceiling events =
       (if next_over_ceiling_report st \<le> ob_elapsed ob
        then [if ob_writes ob > 0 then OverCeilingWrites (ob_writes ob) (ob_in_flight ob) (ob_indexing ob) (ob_elapsed ob)
              else OverCeilingIndexing (ob_in_flight ob) (ob_elapsed ob)] else [])"
    "next_over_ceiling_report st' =
       (if next_over_ceiling_report st \<le> ob_elapsed ob then ob_elapsed ob + repeat_every ceiling
        else next_over_ceiling_report st)"
proof -
  have "snd (drain_turn ceiling ob st) \<noteq> None" using assms by (auto simp: drain_turn_def idle_def Let_def)
  then obtain st' where st': "snd (drain_turn ceiling ob st) = Some st'" by blast
  show ?thesis
  proof (rule that)
    show "drain_turn ceiling ob st = (fst (drain_turn ceiling ob st), Some st')"
      using st' by (simp add: prod_eq_iff)
    show "ShutdownBroadcast \<notin> set (fst (drain_turn ceiling ob st))"
      using assms by (auto simp: drain_turn_def idle_def Let_def)
    show "filter over_ceiling (fst (drain_turn ceiling ob st)) =
       (if next_over_ceiling_report st \<le> ob_elapsed ob
        then [if ob_writes ob > 0 then OverCeilingWrites (ob_writes ob) (ob_in_flight ob) (ob_indexing ob) (ob_elapsed ob)
              else OverCeilingIndexing (ob_in_flight ob) (ob_elapsed ob)] else [])"
      using assms by (auto simp: drain_turn_def idle_def Let_def)
    show "next_over_ceiling_report st' =
       (if next_over_ceiling_report st \<le> ob_elapsed ob then ob_elapsed ob + repeat_every ceiling
        else next_over_ceiling_report st)"
      using st' assms by (auto simp: drain_turn_def idle_def Let_def repeat_every_def)
  qed
qed

lemma drain_loop_broadcast:
  "snd (drain_loop ceiling obs st) \<longleftrightarrow> (\<exists>ob\<in>set obs. idle ob)"
  "filter (\<lambda>(t, e). e = ShutdownBroadcast) (fst (drain_loop ceiling obs st)) =
     (case find idle obs of Some ob \<Rightarrow> [(ob_elapsed ob, ShutdownBroadcast)] | None \<Rightarrow> [])"
proof (induction obs arbitrary: st)
  case (Cons ob obs)
  {
    case 1
    show ?case
    proof (cases "idle ob")
      case False
      then obtain events st' where "drain_turn ceiling ob st = (events, Some st')" by (rule drain_turn_busy)
      with False Cons.IH(1) [of st'] show ?thesis by (auto split: prod.split)
    qed (simp add: drain_turn_idle)
  next
    case 2
    show ?case
    proof (cases "idle ob")
      case False
      then obtain events st' where t: "drain_turn ceiling ob st = (events, Some st')"
        "ShutdownBroadcast \<notin> set events" by (rule drain_turn_busy)
      then have "filter (\<lambda>(t, e). e = ShutdownBroadcast) (map (Pair (ob_elapsed ob)) events) = []"
        by (auto simp: filter_empty_conv)
      with t False Cons.IH(2) [of st'] show ?thesis by (auto split: prod.split)
    qed (simp add: drain_turn_idle)
  }
qed simp_all

abbreviation report_times :: "(nat \<times> drain_event) list \<Rightarrow> nat list" where
  "report_times log \<equiv> map fst (filter (\<lambda>(t, e). over_ceiling e) log)"

lemma report_times_map: "report_times (map (Pair t) events) = map (\<lambda>_. t) (filter over_ceiling events)"
  by (induction events) simp_all

lemma drain_loop_reports:
  "(\<forall>t\<in>set (report_times (fst (drain_loop ceiling obs st))). next_over_ceiling_report st \<le> t) \<and>
   sorted_wrt (\<lambda>a b. a + repeat_every ceiling \<le> b) (report_times (fst (drain_loop ceiling obs st)))"
proof (induction obs arbitrary: st)
  case (Cons ob obs)
  show ?case
  proof (cases "idle ob")
    case False
    then obtain events st' where t: "drain_turn ceiling ob st = (events, Some st')"
      "filter over_ceiling events =
       (if next_over_ceiling_report st \<le> ob_elapsed ob
        then [if ob_writes ob > 0 then OverCeilingWrites (ob_writes ob) (ob_in_flight ob) (ob_indexing ob) (ob_elapsed ob)
              else OverCeilingIndexing (ob_in_flight ob) (ob_elapsed ob)] else [])"
      "next_over_ceiling_report st' =
       (if next_over_ceiling_report st \<le> ob_elapsed ob then ob_elapsed ob + repeat_every ceiling
        else next_over_ceiling_report st)" by (rule drain_turn_busy)
    have "report_times (fst (drain_loop ceiling (ob # obs) st)) =
        (if next_over_ceiling_report st \<le> ob_elapsed ob then [ob_elapsed ob] else []) @
        report_times (fst (drain_loop ceiling obs st'))"
      using t(2) by (simp add: t(1) split_beta report_times_map)
    with Cons.IH [of st'] t(3) show ?thesis by (auto split: if_splits)
  qed (simp add: drain_turn_idle)
qed simp

section \<open>Properties\<close>

text \<open>
  C7. The write gate is exclusive and its accounting is right in every interleaving of acquiring,
  waiting, cancelled and releasing callers: at most one caller is past the mutex; the waiting count is
  the number of callers that hold a ticket, which are the blocked ones and at most one that has just
  been woken; and the stamp names the purpose of the caller that holds the lease, or is empty. It is
  empty while the mutex is held only between taking the guard and stamping, and between clearing the
  stamp and dropping the guard.
\<close>

theorem write_gate_exclusive:
  assumes "gate_reachable (g, at)" and "card (ticketed at) < 2 ^ 32"
  shows "(has_guard (at c) \<and> has_guard (at d) \<longrightarrow> c = d) \<and>
    unat (waiting g) = card (ticketed at) \<and>
    (holder_snapshot now g = None \<or>
       (\<exists>e what. mutex g = Some e \<and> at e = Holding what \<and> map_option fst (holder_snapshot now g) = Some what)) \<and>
    (mutex g = Some e \<longrightarrow> holder g = None \<longrightarrow> at e = Clearing \<or> (\<exists>what. at e \<in> {Woken what, Guarded what}))"
proof -
  have inv: "gate_inv (g, at)" by (rule gate_reachable_inv) (fact assms(1))
  have "unat (waiting g) = card (ticketed at)"
    using inv assms(2) by (simp add: gate_inv_def unat_of_nat take_bit_nat_eq_self)
  moreover have "has_guard (at c) \<Longrightarrow> has_guard (at d) \<Longrightarrow> c = d" using inv by (simp add: gate_inv_def)
  moreover have "mutex g = Some e \<Longrightarrow> has_guard (at e)" for e using inv by (simp add: gate_inv_def)
  moreover have "map_option fst (holder g) = stamped at (mutex g)" using inv by (simp add: gate_inv_def)
  ultimately show ?thesis
    by (cases "at e"; auto simp: holder_snapshot_def stamped_def split: option.splits location.splits prod.splits)
qed

theorem write_gate_exclusive_witness:
  "\<exists>g at. gate_reachable (g, at) \<and> at 0 = Holding ''index'' \<and> at 1 = Blocked ''embed'' \<and> unat (waiting g) = 1"
proof -
  define at :: "nat \<Rightarrow> location" where "at = (\<lambda>_. Outside)(0 := Guarded ''index'', 0 := Holding ''index'', 1 := Blocked ''embed'')"
  define g where "g = ticket_new (stamp ''index'' 5 (new_gate\<lparr>mutex := Some 0\<rparr>))"
  have "gate_reachable (new_gate\<lparr>mutex := Some 0\<rparr>, (\<lambda>_. Outside)(0 := Guarded ''index''))"
    by (rule next_step [OF start], rule try_lock_ok) (simp_all add: new_gate_def)
  then have "gate_reachable (stamp ''index'' 5 (new_gate\<lparr>mutex := Some 0\<rparr>),
      (\<lambda>_. Outside)(0 := Guarded ''index'', 0 := Holding ''index''))"
    by (rule next_step) (rule stamp_holder, simp)
  then have r: "gate_reachable (g, at)"
    unfolding g_def at_def by (rule next_step) (rule try_lock_err [of _ _ _ 0], simp_all add: stamp_def)
  have t: "ticketed at = {1}" by (auto simp: ticketed_def at_def)
  from write_gate_exclusive [OF r] t have "unat (waiting g) = 1" by simp
  with r show ?thesis by (intro exI [of _ g] exI [of _ at]) (simp add: at_def)
qed

text \<open>
  The shutdown drain never broadcasts while work is in flight: it ends at the first observation
  with no active write and no index job in flight, whatever the ceiling, the elapsed time or the
  indexing flag, and broadcasts exactly once, there. Past the ceiling it reports, never before the
  ceiling and never more often than the larger of the ceiling and a minute.
\<close>

theorem drain_waits_for_work:
  "(snd (run_drain ceiling obs) \<longleftrightarrow> (\<exists>ob\<in>set obs. ob_writes ob = 0 \<and> ob_in_flight ob = 0)) \<and>
   filter (\<lambda>(t, e). e = ShutdownBroadcast) (fst (run_drain ceiling obs)) =
     (case find (\<lambda>ob. ob_writes ob = 0 \<and> ob_in_flight ob = 0) obs of
        Some ob \<Rightarrow> [(ob_elapsed ob, ShutdownBroadcast)] | None \<Rightarrow> []) \<and>
   list_all (\<lambda>t. secs ceiling \<le> t) (report_times (fst (run_drain ceiling obs))) \<and>
   sorted_wrt (\<lambda>a b. a + secs (max ceiling 60) \<le> b) (report_times (fst (run_drain ceiling obs)))"
  using drain_loop_broadcast [of ceiling obs "drain_start ceiling"] drain_loop_reports [of ceiling obs "drain_start ceiling"]
  by (simp add: run_drain_def idle_def [abs_def] list_all_iff drain_start_def repeat_every_def
      DRAIN_OVER_CEILING_REPORT_FLOOR_SECS_def)

end
