(* ===== verification/Job_Lifecycle.thy ===== *)
theory Job_Lifecycle
  imports Job_Queue
begin

text \<open>
  The abstract specification of the job queue: what a repository's job may do, seen by its phase
  alone, and the proof that the table of \<open>Job_Queue\<close> refines it. The specification forgets rows,
  times, priorities, attempts and leases; of a running job it keeps the fencing token.
\<close>

section \<open>The specification\<close>

datatype phase = Absent | Queued | Leased "string option" | Done | Buried | Dropped

text \<open>The moves an operation may make, for one repository. Every operation may also leave it alone.\<close>

inductive lifecycle :: "job_op \<Rightarrow> phase \<Rightarrow> phase \<Rightarrow> bool" where
  stays: "lifecycle op p p"
| requested: "p \<in> {Absent, Done, Buried, Dropped} \<Longrightarrow> lifecycle (OUpsert i u tr br) p Queued"
| redeclared: "p \<in> {Absent, Done, Dropped} \<Longrightarrow> lifecycle (OEnqueue i u tr br) p Queued"
| taken: "lifecycle (OClaim tok d l) Queued (Leased (Some tok))"
| finished: "lifecycle (OComplete j i tok) (Leased tok) Done"
| outdated: "lifecycle (ORequeue i) Done Queued"
| dropped: "p \<noteq> Absent \<Longrightarrow> op = OCancel i \<or> op = OCancelNotIn keep \<Longrightarrow> lifecycle op p Dropped"
| gave_up: "lifecycle (OFail j tok e poison) (Leased tok) Buried"
| will_retry: "lifecycle (OFail j tok e False) (Leased tok) Queued"
| put_back: "lifecycle (ODefer j tok) (Leased tok) Queued"
| reclaimed: "op = ORecoverStale secs \<or> op = ORecoverAll \<or> op = OReap cutoff \<Longrightarrow> lifecycle op (Leased tok) Queued"
| expired: "lifecycle (OReap cutoff) (Leased tok) Buried"
| revived: "op = OReset i \<or> op = OResetId j \<Longrightarrow> lifecycle op Buried Queued"
| forgotten: "lifecycle (ODismiss j) Buried Absent"

inductive_cases lifecycle_leave_lease: "lifecycle op (Leased tok) p"

section \<open>The abstraction\<close>

definition row_phase :: "job_row \<Rightarrow> phase" where
  "row_phase r =
     (if c_status r = ''pending'' then Queued
      else if c_status r = ''running'' then Leased (c_claimed_by r)
      else if c_status r = ''succeeded'' then Done
      else if c_status r = ''dead_letter'' then Buried
      else Dropped)"

definition phase_of :: "queue \<Rightarrow> string \<Rightarrow> phase" where
  "phase_of q repo = (case find (\<lambda>r. c_repo_id r = repo) q of None \<Rightarrow> Absent | Some r \<Rightarrow> row_phase r)"

definition known_status :: "job_row \<Rightarrow> bool" where
  "known_status r \<longleftrightarrow> c_status r \<in> {''pending'', ''running'', ''succeeded'', ''dead_letter'', ''cancelled''}"

interpretation statuses: row_invariant known_status "\<lambda>_. True"
proof unfold_locales
  fix op r now r'
  assume "known_status r" "row_step now op r r'"
  then show "known_status r'"
    by (elim row_stepE) (auto simp: known_status_def conflict_update_def claimed_row_def reaped_row_def reset_row_def Let_def)
qed (simp add: known_status_def inserted_row_def)

section \<open>Lemmas: one statement, one repository\<close>

lemma find_update_where:
  "(\<And>r. c_repo_id (f r) = c_repo_id r) \<Longrightarrow>
   find (\<lambda>r. c_repo_id r = repo) (fst (update_where P f q)) =
     map_option (\<lambda>r. if P r then f r else r) (find (\<lambda>r. c_repo_id r = repo) q)"
  by (induction q) (auto simp: update_where_def)

text \<open>An update moves a repository as its row moves.\<close>

lemma phase_update:
  assumes "\<And>r. c_repo_id (f r) = c_repo_id r"
    and "\<And>r. r \<in> set q \<Longrightarrow> c_repo_id r = repo \<Longrightarrow> P r \<Longrightarrow> lifecycle op (row_phase r) (row_phase (f r))"
  shows "lifecycle op (phase_of q repo) (phase_of (fst (update_where P f q)) repo)"
  using assms(2) by (auto simp: phase_of_def find_update_where [OF assms(1)] intro: stays dest: find_mem split: option.split)

lemma find_append: "find P (xs @ ys) = (case find P xs of None \<Rightarrow> find P ys | Some x \<Rightarrow> Some x)"
  by (induction xs) auto

lemma conflict_phase:
  assumes "known_status r"
  shows "row_phase (conflict_update now tr br r) = (case row_phase r of Leased t \<Rightarrow> Leased t | _ \<Rightarrow> Queued)"
  using assms by (auto simp: known_status_def row_phase_def conflict_update_def Let_def)

lemma phase_upsert:
  assumes "\<And>r. r \<in> set q \<Longrightarrow> known_status r"
    and "\<And>p. p \<in> allowed \<Longrightarrow> lifecycle op p Queued" and "Absent \<in> allowed"
    and "\<And>r. r \<in> set q \<Longrightarrow> c_repo_id r = i \<Longrightarrow>
           row_phase r \<in> allowed \<or> row_phase r = Queued \<or> (\<exists>t. row_phase r = Leased t)"
  shows "lifecycle op (phase_of q repo) (phase_of (upsert now i u tr br q) repo)"
proof (cases "list_ex (\<lambda>r. c_repo_id r = i) q")
  case True
  have "lifecycle op (row_phase r) (row_phase (conflict_update now tr br r))" if "r \<in> set q" "c_repo_id r = i" for r
    using assms(1) [OF that(1)] assms(2) [of "row_phase r"] assms(4) [OF that]
    by (auto simp: conflict_phase intro: stays split: phase.split)
  with True show ?thesis
    unfolding upsert_def by (auto intro!: phase_update)
next
  case False
  have "find (\<lambda>r. c_repo_id r = i) q = None" using False by (simp add: find_None_iff list_ex_iff)
  with False assms(2,3) show ?thesis
    by (auto simp: upsert_def phase_of_def find_append inserted_row_def row_phase_def intro: stays split: option.split)
qed

lemma phase_branch:
  "phase_of (set_branch now i b q) repo = phase_of q repo" "phase_of (clear_branch now i q) repo = phase_of q repo"
  by (auto simp: phase_of_def set_branch_def clear_branch_def find_update_where row_phase_def split: option.split)

lemma phase_enqueue:
  assumes "queue_keys q" and known: "\<And>r. r \<in> set q \<Longrightarrow> known_status r"
  shows "lifecycle (OEnqueue i u tr br) (phase_of q repo)
    (phase_of (fst (enqueue_declared_repo now i u tr br q)) repo)"
proof (cases "\<exists>r\<in>set q. c_repo_id r = i \<and> c_status r = ''dead_letter''")
  case True
  then obtain r where r: "r \<in> set q" "c_repo_id r = i" "c_status r = ''dead_letter''" by blast
  have "find (\<lambda>r. c_repo_id r = i) q \<noteq> None" using r by (auto simp: find_None_iff)
  then obtain s where s: "find (\<lambda>r. c_repo_id r = i) q = Some s" by blast
  then have "s = r" using find_mem [OF s] same_repo [OF assms(1)] r by auto
  with s r(3) have "job_for_repo i q = Some (row_to_job r)" "j_status (row_to_job r) = DeadLetter"
    by (simp_all add: job_for_repo_def row_to_job_def status_from_str_def)
  then show ?thesis
    by (auto simp: enqueue_declared_repo_def phase_branch intro: stays split: option.split)
next
  case False
  then have alive: "row_phase r \<noteq> Buried" if "r \<in> set q" "c_repo_id r = i" for r
    using that by (auto simp: row_phase_def)
  have "lifecycle (OEnqueue i u tr br) (phase_of q repo) (phase_of (upsert now i u tr br q) repo)"
  proof (rule phase_upsert [where allowed = "{Absent, Done, Dropped}"])
    fix r assume "r \<in> set q" "c_repo_id r = i"
    from alive [OF this] show "row_phase r \<in> {Absent, Done, Dropped} \<or> row_phase r = Queued \<or> (\<exists>t. row_phase r = Leased t)"
      by (cases "row_phase r") auto
  qed (auto intro: known redeclared)
  then show ?thesis
    by (auto simp: enqueue_declared_repo_def phase_branch Let_def intro: stays split: option.split)
qed

lemma phase_claim:
  assumes "queue_keys q"
  shows "lifecycle (OClaim tok d l) (phase_of q repo) (phase_of (snd (claim_next_with_lease now tok d l q)) repo)"
proof (cases "first_by (filter (claimable now d) q)")
  case None
  then show ?thesis by (simp add: claim_next_with_lease_def stays)
next
  case (Some r)
  then have r: "r \<in> set q" "c_status r = ''pending''" using first_by_mem [OF Some] by (auto simp: claimable_def)
  have "lifecycle (OClaim tok d l) (row_phase s) (row_phase (claimed_row now tok l s))"
    if "s \<in> set q" "c_id s = c_id r" for s
    using same_row [OF assms that(1) r(1) that(2)] r(2) taken by (simp add: row_phase_def claimed_row_def)
  with Some show ?thesis by (auto simp: claim_next_with_lease_def intro!: phase_update)
qed

lemma phase_cancel: "phase_of (fst (cancel_repo now i q)) repo =
    (if repo = i \<and> phase_of q repo \<noteq> Absent then Dropped else phase_of q repo)"
proof (cases "find (\<lambda>r. c_repo_id r = repo) q")
  case (Some r)
  from find_mem [OF Some] have "c_repo_id r = repo" by simp
  moreover have "row_phase r \<noteq> Absent" by (simp add: row_phase_def)
  ultimately show ?thesis
    using Some by (auto simp: phase_of_def cancel_repo_def find_update_where row_phase_def)
qed (simp add: phase_of_def cancel_repo_def find_update_where)

lemma phase_cancel_each:
  "phase_of (fst (cancel_each now keep ids q)) repo = phase_of q repo \<or>
   phase_of q repo \<noteq> Absent \<and> phase_of (fst (cancel_each now keep ids q)) repo = Dropped"
proof (induction ids arbitrary: q)
  case (Cons i ids)
  from Cons [of q] Cons [of "fst (cancel_repo now i q)"] show ?case
    by (auto simp: phase_cancel split_beta split: if_splits)
qed simp

lemma phase_fail:
  assumes "fail_job now j tok e poison q = Some q'"
  shows "lifecycle (OFail j tok e poison) (phase_of q repo) (phase_of q' repo)"
proof -
  obtain row where row: "find (\<lambda>r. c_id r = j) q = Some row" using assms by (auto simp: fail_job_def split: option.splits)
  show ?thesis
  proof (cases "poison \<or> c_attempt row \<ge> c_max_attempts row")
    case True
    with assms row show ?thesis
      by (auto simp: fail_job_def row_phase_def intro!: phase_update gave_up)
  next
    case False
    with assms row show ?thesis
      by (auto simp: fail_job_def row_phase_def intro!: phase_update will_retry)
  qed
qed

lemma find_filter_row: "find P q = Some r \<Longrightarrow> Q r \<Longrightarrow> find P (filter Q q) = Some r"
  by (induction q) (auto split: if_splits)

lemma phase_dismiss:
  assumes "queue_keys q"
  shows "lifecycle (ODismiss j) (phase_of q repo) (phase_of (fst (dismiss_dead_letter j q)) repo)"
proof (cases "find (\<lambda>r. c_repo_id r = repo) q")
  case None
  then have "find (\<lambda>r. c_repo_id r = repo) (fst (dismiss_dead_letter j q)) = None"
    by (auto simp: dismiss_dead_letter_def find_None_iff)
  with None show ?thesis by (simp add: phase_of_def stays)
next
  case (Some r)
  note r = find_mem [OF Some]
  show ?thesis
  proof (cases "c_id r = j \<and> c_status r = ''dead_letter''")
    case True
    have "find (\<lambda>r. c_repo_id r = repo) (fst (dismiss_dead_letter j q)) = None"
      using True r same_repo [OF assms] by (auto simp: dismiss_dead_letter_def find_None_iff)
    with Some True show ?thesis by (simp add: phase_of_def row_phase_def forgotten)
  next
    case False
    with Some have "find (\<lambda>r. c_repo_id r = repo) (fst (dismiss_dead_letter j q)) = Some r"
      by (auto simp: dismiss_dead_letter_def intro!: find_filter_row)
    with Some show ?thesis by (simp add: phase_of_def stays)
  qed
qed

lemma phase_exec:
  assumes keys: "queue_keys q" and known: "\<And>r. r \<in> set q \<Longrightarrow> known_status r"
  shows "lifecycle op (phase_of q repo) (phase_of (job_exec (now, op) q) repo)"
proof (cases op)
  case (OUpsert i u tr br)
  have "lifecycle (OUpsert i u tr br) (phase_of q repo) (phase_of (upsert now i u tr br q) repo)"
    by (rule phase_upsert [where allowed = "{Absent, Done, Buried, Dropped}"])
       (use known in \<open>auto simp: row_phase_def intro: requested split: if_splits\<close>)
  with OUpsert show ?thesis by simp
next
  case (OCancelNotIn keep)
  with phase_cancel_each [of now keep "map c_repo_id (filter (\<lambda>r. c_status r \<in>
      {''pending'', ''running'', ''failed'', ''dead_letter''}) q)" q repo] show ?thesis
    unfolding job_exec.simps cancel_repos_not_in_def using stays lifecycle.dropped
    by (metis job_exec.simps(7) cancel_repos_not_in_def)
next
  case (OCancel i)
  then show ?thesis by (auto simp: phase_cancel intro: stays lifecycle.dropped)
next
  case (OReap cutoff)
  then show ?thesis
    by (auto simp: reap_expired_leases_def reaped_row_def row_phase_def Let_def intro!: phase_update reclaimed expired)
next
  case (OFail j tok e poison)
  with phase_fail show ?thesis by (auto intro: stays split: option.split)
qed (auto simp: phase_enqueue [OF keys known] phase_claim [OF keys] phase_dismiss [OF keys] phase_branch
      complete_def requeue_if_stale_def defer_job_def recover_stale_def recover_all_running_at_startup_def
      reset_dead_letter_def reset_dead_letter_by_id_def reset_row_def split_beta row_phase_def
      intro!: phase_update intro: stays finished outdated put_back reclaimed revived)

lemma reachable_queue:
  "queue_keys (fold job_exec steps [])" "r \<in> set (fold job_exec steps []) \<Longrightarrow> known_status r"
  using queue_runs.run_inv [of "[]" steps] statuses.run_ok [of "[]" steps] by auto

section \<open>Properties\<close>

text \<open>
  C8. The queue refines its lifecycle specification: in every state a run can reach, every operation
  moves the job of every repository only as the specification allows. In particular a lease ends
  only by its own token (completion, failure, deferral), by recovery or the reaper, or by a
  cancellation, and only a queued job is ever leased.
\<close>

theorem queue_refines_lifecycle:
  "lifecycle op (phase_of (fold job_exec steps []) repo) (phase_of (fold job_exec (steps @ [(now, op)]) []) repo)"
  using phase_exec [OF reachable_queue(1) reachable_queue(2)] by simp

end
