(* ===== verification/Json_Value.thy ===== *)
theory Json_Value
  imports Complex_Main Prelude
begin

text \<open>
  JSON values as the code handles them (\<^verbatim>\<open>serde_json::Value\<close>): the constructors of the value type and
  the accessors the sources call. A number is one of the three representations the library keeps. An
  object is the list of its entries with pairwise different keys; \<open>json_insert\<close> replaces an entry or
  adds one, so that no reader depends on where an entry stands.
\<close>

datatype json_number = PosInt nat | NegInt int | Float rat

datatype json =
  JNull
| JBool bool
| JNumber json_number
| JString string
| JArray "json list"
| JObject "(string \<times> json) list"

fun json_get :: "string \<Rightarrow> json \<Rightarrow> json option" where
  "json_get key (JObject fields) = map_of fields key"
| "json_get key _ = None"

fun as_str :: "json \<Rightarrow> string option" where
  "as_str (JString s) = Some s"
| "as_str _ = None"

fun as_array :: "json \<Rightarrow> json list option" where
  "as_array (JArray xs) = Some xs"
| "as_array _ = None"

fun as_u64 :: "json \<Rightarrow> nat option" where
  "as_u64 (JNumber (PosInt n)) = Some n"
| "as_u64 _ = None"

fun as_bool :: "json \<Rightarrow> bool option" where
  "as_bool (JBool b) = Some b"
| "as_bool _ = None"

fun is_object :: "json \<Rightarrow> bool" where
  "is_object (JObject _) = True"
| "is_object _ = False"

text \<open>\<^verbatim>\<open>or_else\<close> on options, and the fields a reader tries in turn.\<close>

fun or_else :: "'a option \<Rightarrow> 'a option \<Rightarrow> 'a option" where
  "or_else (Some x) _ = Some x"
| "or_else None y = y"

fun get_first :: "string list \<Rightarrow> json \<Rightarrow> json option" where
  "get_first [] v = None"
| "get_first (k # ks) v = or_else (json_get k v) (get_first ks v)"

definition get_str :: "string \<Rightarrow> json \<Rightarrow> string option" where
  "get_str key v = Option.bind (json_get key v) as_str"

definition get_array :: "string \<Rightarrow> json \<Rightarrow> json list option" where
  "get_array key v = Option.bind (json_get key v) as_array"

text \<open>\<^verbatim>\<open>Map::insert\<close>.\<close>

fun insert_field :: "string \<Rightarrow> json \<Rightarrow> (string \<times> json) list \<Rightarrow> (string \<times> json) list" where
  "insert_field key v [] = [(key, v)]"
| "insert_field key v ((k, w) # fields) = (if k = key then (k, v) # fields else (k, w) # insert_field key v fields)"

fun json_insert :: "string \<Rightarrow> json \<Rightarrow> json \<Rightarrow> json" where
  "json_insert key v (JObject fields) = JObject (insert_field key v fields)"
| "json_insert key v w = w"

definition contains_key :: "string \<Rightarrow> json \<Rightarrow> bool" where
  "contains_key key v \<longleftrightarrow> json_get key v \<noteq> None"

lemma map_of_insert_field: "map_of (insert_field key v fields) = (map_of fields)(key \<mapsto> v)"
  by (induction fields) auto

lemma json_get_insert [simp]: "json_get k (json_insert key v w) = (if is_object w \<and> k = key then Some v else json_get k w)"
  by (cases w) (auto simp: map_of_insert_field)

lemma is_object_insert [simp]: "is_object (json_insert key v w) = is_object w"
  by (cases w) auto

lemma get_str_insert: "get_str k (json_insert key v w) = (if is_object w \<and> k = key then as_str v else get_str k w)"
  by (simp add: get_str_def)

lemma get_array_insert: "get_array k (json_insert key v w) = (if is_object w \<and> k = key then as_array v else get_array k w)"
  by (simp add: get_array_def)

lemma json_get_object: "json_get k v = Some w \<Longrightarrow> is_object v"
  by (cases v) auto

text \<open>A value reached through a field or an array is smaller: the recursions over trees end.\<close>

lemma size_json_get: "json_get key v = Some w \<Longrightarrow> size w < size v"
proof (cases v)
  case (JObject fields)
  assume "json_get key v = Some w"
  with JObject have "(key, w) \<in> set fields" by (simp add: map_of_SomeD)
  then have "size w < size_list (size_prod (\<lambda>_. 0) size) fields"
    by (induction fields) auto
  with JObject show ?thesis by simp
qed auto

lemma size_get_array: "get_array key v = Some xs \<Longrightarrow> x \<in> set xs \<Longrightarrow> size x < size v"
  by (auto simp: get_array_def split: bind_splits elim!: as_array.elims dest!: size_json_get
      dest: size_list_estimation' [of x xs "size x" size])

end
