(* ===== verification/Fed_Identity.thy ===== *)
theory Fed_Identity
  imports Uid Json_Value
begin

text \<open>
  Row identity in a federated answer (\<^verbatim>\<open>crates/nestweaver-federation/src/dedup.rs\<close>): the key of a row
  that carries a UID, the fallback tuple of a row without one, and the reconciliation of vault
  identities between the local tier and one upstream through the operator's explicit bindings.

  The digest of the standard library's \<^verbatim>\<open>DefaultHasher\<close>, whose algorithm is not specified, is the
  parameter \<open>digest\<close> on what was written to the hasher. The hash maps and sets are lists without
  repetition; their iteration order is arbitrary and the facts hold for every order.
\<close>

section \<open>Entity keys\<close>

record entity_key =
  ek_key :: string
  ek_canonical :: bool
  ek_family :: string
  ek_vault :: "string option"
  ek_rest :: string

record symbol_identity =
  si_repo_url :: string
  si_file_path :: string
  si_symbol_name :: string
  si_scope_hash :: u64
  si_entity :: "entity_key option"

text \<open>Equality of identities: derived, with entity keys compared by their key text only.\<close>

definition id_key :: "symbol_identity \<Rightarrow> string \<times> string \<times> string \<times> u64 \<times> string option" where
  "id_key i = (si_repo_url i, si_file_path i, si_symbol_name i, si_scope_hash i, map_option ek_key (si_entity i))"

datatype hashed = HashNothing | HashStr string | HashU32 u32

type_synonym digest = "hashed \<Rightarrow> u64"

definition plain :: "string \<Rightarrow> string \<Rightarrow> entity_key" where
  "plain family key = \<lparr>ek_key = key, ek_canonical = True, ek_family = family, ek_vault = None, ek_rest = []\<rparr>"

definition raw :: "string \<Rightarrow> entity_key" where
  "raw uid = (plain ''raw'' [])\<lparr>ek_key := ''uid:'' @ uid, ek_canonical := False\<rparr>"

definition requalify :: "entity_key \<Rightarrow> entity_key" where
  "requalify k = (case ek_vault k of
     None \<Rightarrow> k
   | Some vault \<Rightarrow> k\<lparr>ek_key := ek_family k @ '':vlt:'' @ vault @ '':'' @ ek_rest k\<rparr>)"

definition scoped :: "string \<Rightarrow> string \<Rightarrow> string \<Rightarrow> entity_key" where
  "scoped family vault rest = requalify \<lparr>ek_key = [], ek_canonical = True, ek_family = family, ek_vault = Some vault, ek_rest = rest\<rparr>"

definition with_key :: "string \<Rightarrow> entity_key \<Rightarrow> entity_key" where
  "with_key key k = k\<lparr>ek_key := key\<rparr>"

definition compute_scope_hash :: "digest \<Rightarrow> string option \<Rightarrow> u32 option \<Rightarrow> u64" where
  "compute_scope_hash D scope_chain start_line =
     (case scope_chain of
        Some (c # chain) \<Rightarrow> D (HashStr (c # chain))
      | _ \<Rightarrow> (case start_line of Some line \<Rightarrow> D (HashU32 line) | None \<Rightarrow> D HashNothing))"

definition vault_id :: "string \<Rightarrow> string \<Rightarrow> string" where
  "vault_id inst vault = inst @ '':'' @ vault"

fun entity_key_of :: "digest \<Rightarrow> string option \<Rightarrow> canonical_entity_uid \<Rightarrow> entity_key" where
  "entity_key_of D chain (CNote inst vault note) = scoped ''note'' (vault_id inst vault) note"
| "entity_key_of D chain (CTag inst vault name) = scoped ''tag'' (vault_id inst vault) name"
| "entity_key_of D chain (CHeading inst vault note slug line) =
     scoped ''head'' (vault_id inst vault) (note @ '':'' @ slug @ '':'' @ line)"
| "entity_key_of D chain (CSection inst vault note line content) =
     scoped ''sec'' (vault_id inst vault) (note @ '':'' @ line @ '':'' @ content)"
| "entity_key_of D chain (CVault inst vault) = scoped ''vlt'' (vault_id inst vault) []"
| "entity_key_of D chain (CSymbol inst repo file name line) =
     (let disc = (case chain of
                    Some (c # cs) \<Rightarrow> ''s'' @ nat_dec (unat (compute_scope_hash D (Some (c # cs)) None))
                  | _ \<Rightarrow> ''l'' @ line)
      in plain ''sym'' (''sym:repo:'' @ repo @ '':'' @ file @ '':'' @ name @ '':'' @ disc))"
| "entity_key_of D chain (CRepo inst repo) = plain ''repo'' (''repo:'' @ repo)"
| "entity_key_of D chain (CFile inst repo file) = plain ''file'' (''file:repo:'' @ repo @ '':'' @ file)"
| "entity_key_of D chain (CService inst repo name) = plain ''svc'' (''svc:repo:'' @ repo @ '':'' @ name)"

definition entity_key_for_uid :: "digest \<Rightarrow> string \<Rightarrow> string option \<Rightarrow> entity_key option" where
  "entity_key_for_uid D uid chain = map_option (entity_key_of D chain) (parse_canonical_entity_uid uid)"

section \<open>The identity of a row\<close>

definition scope_of :: "json \<Rightarrow> string option" where
  "scope_of v = Option.bind (get_first [''scope_chain'', ''scope''] v) as_str"

definition parse_u32_text :: "string \<Rightarrow> u32 option" where
  "parse_u32_text s = map_option of_nat (from_str_radix 10 (2 ^ 32 - 1) s)"

definition uid_identity :: "digest \<Rightarrow> json \<Rightarrow> string \<Rightarrow> symbol_identity" where
  "uid_identity D v uid =
     \<lparr>si_repo_url = [], si_file_path = [], si_symbol_name = [], si_scope_hash = 0,
      si_entity = Some (case entity_key_for_uid D uid (scope_of v) of Some e \<Rightarrow> e | None \<Rightarrow> raw uid)\<rparr>"

definition file_path_of :: "json \<Rightarrow> string option" where
  "file_path_of v =
     or_else (Option.bind (get_first [''file_path'', ''file''] v) as_str)
       (map_option (\<lambda>loc. case rsplit_once CHR '':'' loc of Some (path, _) \<Rightarrow> path | None \<Rightarrow> loc)
          (get_str ''location'' v))"

definition start_line_of :: "json \<Rightarrow> u32 option" where
  "start_line_of v =
     or_else (map_option of_nat (Option.bind (json_get ''start_line'' v) as_u64))
       (Option.bind (get_str ''location'' v) (\<lambda>loc. Option.bind (rsplit_once CHR '':'' loc)
          (\<lambda>(_, line). parse_u32_text line)))"

definition extract_identity :: "digest \<Rightarrow> json \<Rightarrow> symbol_identity option" where
  "extract_identity D v =
     (case get_str ''uid'' v of
        Some (c # uid) \<Rightarrow> Some (uid_identity D v (c # uid))
      | _ \<Rightarrow>
     (case Option.bind (get_first [''symbol_name'', ''name'', ''symbol'', ''title''] v) as_str of
        None \<Rightarrow> None
      | Some symbol_name \<Rightarrow>
     (case file_path_of v of
        None \<Rightarrow> None
      | Some file_path \<Rightarrow>
          Some \<lparr>si_repo_url = (case Option.bind (get_first [''repo_url'', ''repo''] v) as_str of
                                 Some r \<Rightarrow> normalized_repo_key r | None \<Rightarrow> file_path),
                si_file_path = file_path, si_symbol_name = symbol_name,
                si_scope_hash = compute_scope_hash D (scope_of v) (start_line_of v), si_entity = None\<rparr>)))"

section \<open>Vault reconciliation\<close>

type_synonym vault_mappings = "(string \<times> string) list"

definition vault_pairs :: "vault_mappings \<Rightarrow> (string \<times> string) list" where
  "vault_pairs mappings = concat (map (\<lambda>(l, s).
     case (parse_canonical_entity_uid l, parse_canonical_entity_uid s) of
       (Some (CVault li lv), Some (CVault si sv)) \<Rightarrow> [(vault_id li lv, vault_id si sv)]
     | _ \<Rightarrow> []) mappings)"

definition by_local :: "(string \<times> string) list \<Rightarrow> string \<Rightarrow> string list" where
  "by_local pairs l = remdups (map snd (filter (\<lambda>p. fst p = l) pairs))"

definition by_server :: "(string \<times> string) list \<Rightarrow> string \<Rightarrow> string list" where
  "by_server pairs s = remdups (map fst (filter (\<lambda>p. snd p = s) pairs))"

text \<open>The one-to-one bindings, from the upstream vault to the local one.\<close>

definition aliases :: "(string \<times> string) list \<Rightarrow> (string \<times> string) list" where
  "aliases pairs = map (\<lambda>(l, s). (s, l))
     (filter (\<lambda>(l, s). length (by_local pairs l) = 1 \<and> length (by_server pairs s) = 1) pairs)"

definition vaults :: "entity_key list \<Rightarrow> string list" where
  "vaults rows = remdups (List.map_filter ek_vault rows)"

definition destination :: "(string \<times> string) list \<Rightarrow> string \<Rightarrow> string" where
  "destination accepted source = (case map_of accepted source of Some target \<Rightarrow> target | None \<Rightarrow> source)"

definition rejected :: "string list \<Rightarrow> (string \<times> string) list \<Rightarrow> string list" where
  "rejected sources accepted = filter (\<lambda>source.
     1 < length (filter (\<lambda>other. destination accepted other = destination accepted source) sources) \<and>
     map_of accepted source \<noteq> None) sources"

function accepted_plan :: "string list \<Rightarrow> (string \<times> string) list \<Rightarrow> (string \<times> string) list" where
  "accepted_plan sources accepted =
     (if rejected sources accepted = [] then accepted
      else accepted_plan sources (filter (\<lambda>(source, _). source \<notin> set (rejected sources accepted)) accepted))"
  by auto

text \<open>Every turn of the loop takes at least one binding out of the plan.\<close>

lemma rejected_shrinks:
  assumes "rejected sources accepted \<noteq> []"
  shows "length (filter (\<lambda>(source, _). source \<notin> set (rejected sources accepted)) accepted) < length accepted"
proof -
  obtain s where s: "s \<in> set (rejected sources accepted)" using assms by (meson last_in_set)
  then obtain t where "(s, t) \<in> set accepted" by (auto simp: rejected_def dest: map_of_SomeD)
  with s show ?thesis by (auto intro: length_filter_less)
qed

termination accepted_plan
  by (relation "measure (\<lambda>(_, accepted). length accepted)") (auto simp: rejected_shrinks)

declare accepted_plan.simps [simp del]

definition move_vault :: "(string \<times> string) list \<Rightarrow> entity_key \<Rightarrow> entity_key" where
  "move_vault accepted k =
     (case Option.bind (ek_vault k) (map_of accepted) of
        Some target \<Rightarrow> requalify (k\<lparr>ek_vault := Some target\<rparr>)
      | None \<Rightarrow> k)"

definition reconcile_vault_pairs_with_mappings ::
    "vault_mappings \<Rightarrow> entity_key list \<Rightarrow> entity_key list \<Rightarrow> entity_key list \<times> bool" where
  "reconcile_vault_pairs_with_mappings mappings local server =
     (if vaults local = [] \<or> vaults server = [] then (server, False)
      else let server' = map (move_vault (accepted_plan (vaults server) (aliases (vault_pairs mappings)))) server
           in (server', set (vaults local) \<noteq> set (vaults server')))"

definition reconcile_vault_pairs :: "entity_key list \<Rightarrow> entity_key list \<Rightarrow> entity_key list \<times> bool" where
  "reconcile_vault_pairs local server = reconcile_vault_pairs_with_mappings [] local server"

text \<open>
  The mutable borrow of every entity key of a tier, in row order, and the rows with the keys the
  reconciliation left.
\<close>

definition entity_keys :: "symbol_identity option list \<Rightarrow> entity_key list" where
  "entity_keys ids = List.map_filter (\<lambda>i. Option.bind i si_entity) ids"

fun put_keys :: "entity_key list \<Rightarrow> symbol_identity option list \<Rightarrow> symbol_identity option list" where
  "put_keys ks [] = []"
| "put_keys (k # ks) (Some i # ids) =
     (case si_entity i of Some _ \<Rightarrow> Some (i\<lparr>si_entity := Some k\<rparr>) # put_keys ks ids
      | None \<Rightarrow> Some i # put_keys (k # ks) ids)"
| "put_keys ks (i # ids) = i # put_keys ks ids"

definition identify_tiers_with_vault_mappings ::
    "digest \<Rightarrow> vault_mappings \<Rightarrow> json list \<Rightarrow> json list \<Rightarrow> symbol_identity option list \<times> symbol_identity option list \<times> bool" where
  "identify_tiers_with_vault_mappings D mappings local server =
     (let local_ids = map (extract_identity D) local;
          server_ids = map (extract_identity D) server;
          (server_keys, unproven) = reconcile_vault_pairs_with_mappings mappings (entity_keys local_ids) (entity_keys server_ids)
      in (local_ids, put_keys server_keys server_ids, unproven))"

definition identify_tiers ::
    "digest \<Rightarrow> json list \<Rightarrow> json list \<Rightarrow> symbol_identity option list \<times> symbol_identity option list \<times> bool" where
  "identify_tiers D local server = identify_tiers_with_vault_mappings D [] local server"

fun unique_canonical :: "digest \<Rightarrow> string set \<Rightarrow> json list \<Rightarrow> bool" where
  "unique_canonical D seen [] = True"
| "unique_canonical D seen (item # items) =
     (case Option.bind (extract_identity D item) si_entity of
        Some e \<Rightarrow> ek_canonical e \<and> ek_key e \<notin> seen \<and> unique_canonical D (insert (ek_key e) seen) items
      | None \<Rightarrow> False)"

definition has_unique_canonical_identities :: "digest \<Rightarrow> json list \<Rightarrow> bool" where
  "has_unique_canonical_identities D items = unique_canonical D {} items"


section \<open>The plan is the greatest one without collisions\<close>

abbreviation collision_free :: "string list \<Rightarrow> (string \<times> string) list \<Rightarrow> bool" where
  "collision_free sources plan \<equiv> inj_on (destination plan) (set sources)"

definition one_to_one :: "(string \<times> string) list \<Rightarrow> bool" where
  "one_to_one plan \<longleftrightarrow> (\<forall>s t s' t'. (s, t) \<in> set plan \<and> (s', t') \<in> set plan \<longrightarrow> (s = s' \<longleftrightarrow> t = t'))"

lemma one_to_one_map_of: "one_to_one plan \<Longrightarrow> map_of plan s = Some t \<longleftrightarrow> (s, t) \<in> set plan"
  unfolding one_to_one_def by (metis map_of_SomeD map_of_eq_None_iff image_eqI fst_conv option.exhaust)

lemma one_to_one_mono: "one_to_one plan \<Longrightarrow> set plan' \<subseteq> set plan \<Longrightarrow> one_to_one plan'"
  unfolding one_to_one_def by blast

lemma length_remdups_one: "length (remdups xs) = 1 \<Longrightarrow> x \<in> set xs \<Longrightarrow> y \<in> set xs \<Longrightarrow> x = y"
  by (metis One_nat_def card_1_singletonE length_remdups_card_conv singletonD)

lemma by_local_unique: "length (by_local pairs l) = 1 \<Longrightarrow> (l, s) \<in> set pairs \<Longrightarrow> (l, s') \<in> set pairs \<Longrightarrow> s = s'"
  unfolding by_local_def by (erule length_remdups_one) force+

lemma by_server_unique: "length (by_server pairs s) = 1 \<Longrightarrow> (l, s) \<in> set pairs \<Longrightarrow> (l', s) \<in> set pairs \<Longrightarrow> l = l'"
  unfolding by_server_def by (erule length_remdups_one) force+

lemma aliases_one_to_one: "one_to_one (aliases pairs)"
  unfolding one_to_one_def
proof (intro allI impI)
  fix s t s' t' assume "(s, t) \<in> set (aliases pairs) \<and> (s', t') \<in> set (aliases pairs)"
  then have "(t, s) \<in> set pairs" "(t', s') \<in> set pairs" "length (by_local pairs t) = 1" "length (by_server pairs s) = 1"
    by (auto simp: aliases_def)
  then show "(s = s') = (t = t')" using by_local_unique by_server_unique by blast
qed

lemma filter_two: "distinct xs \<Longrightarrow> a \<in> set xs \<Longrightarrow> b \<in> set xs \<Longrightarrow> a \<noteq> b \<Longrightarrow> P a \<Longrightarrow> P b \<Longrightarrow> 1 < length (filter P xs)"
proof -
  assume d: "distinct xs" and a: "a \<in> set xs" "b \<in> set xs" "a \<noteq> b" "P a" "P b"
  have "card {a, b} \<le> card (set (filter P xs))" using a by (intro card_mono) auto
  moreover have "card (set (filter P xs)) = length (filter P xs)" using d by (intro distinct_card) simp
  ultimately show ?thesis using a by simp
qed

lemma filter_two_ex: "distinct xs \<Longrightarrow> 1 < length (filter P xs) \<Longrightarrow> \<exists>b\<in>set xs. b \<noteq> a \<and> P b"
proof (rule ccontr)
  assume "distinct xs" "1 < length (filter P xs)" "\<not> (\<exists>b\<in>set xs. b \<noteq> a \<and> P b)"
  then have "set (filter P xs) \<subseteq> {a}" "distinct (filter P xs)" by auto
  then have "length (filter P xs) \<le> 1"
    by (metis card_mono card_1_singleton_iff distinct_card finite.emptyI finite.insertI One_nat_def)
  with \<open>1 < length (filter P xs)\<close> show False by simp
qed

lemma rejected_empty_iff:
  assumes "distinct sources" and "one_to_one plan"
  shows "rejected sources plan = [] \<longleftrightarrow> collision_free sources plan"
proof
  assume none: "rejected sources plan = []"
  show "collision_free sources plan"
  proof (rule inj_onI, rule ccontr)
    fix s s' assume *: "s \<in> set sources" "s' \<in> set sources" "destination plan s = destination plan s'" "s \<noteq> s'"
    then have "1 < length (filter (\<lambda>other. destination plan other = destination plan u) sources)" if "u \<in> {s, s'}" for u
      using that * assms(1) by (intro filter_two [of _ s s']) auto
    then have "map_of plan s = None" "map_of plan s' = None"
      using none * by (auto simp: rejected_def filter_empty_conv)
    with * show False by (simp add: destination_def)
  qed
next
  assume inj: "collision_free sources plan"
  show "rejected sources plan = []"
  proof (rule ccontr)
    assume "rejected sources plan \<noteq> []"
    then obtain s where s: "s \<in> set (rejected sources plan)" by (meson last_in_set)
    then obtain s' where "s' \<in> set sources" "s' \<noteq> s" "destination plan s' = destination plan s"
      using filter_two_ex [OF assms(1), of _ s] by (auto simp: rejected_def)
    with s inj show False by (auto simp: rejected_def inj_on_def)
  qed
qed

text \<open>
  A rejected source loses its destination to a source that stays where it is; in a smaller plan that
  source stays there too, so no collision-free plan below can move the rejected one.
\<close>

lemma rejected_forced:
  assumes "distinct sources" "one_to_one plan" "set below \<subseteq> set plan" "collision_free sources below"
    "s \<in> set (rejected sources plan)"
  shows "map_of below s = None"
proof (rule ccontr)
  assume "map_of below s \<noteq> None"
  then obtain t where t: "map_of below s = Some t" by blast
  then have st: "(s, t) \<in> set plan" using assms(3) map_of_SomeD by fastforce
  have dest: "destination plan s = t"
    using one_to_one_map_of [OF assms(2), of s t] st by (simp add: destination_def)
  from assms(1,5) obtain s' where s': "s' \<in> set sources" "s' \<noteq> s" "destination plan s' = t"
    using filter_two_ex [OF assms(1), of _ s] dest by (auto simp: rejected_def)
  have "map_of plan s' = None"
  proof (rule ccontr)
    assume "map_of plan s' \<noteq> None"
    then have "(s', t) \<in> set plan" using s'(3) by (auto simp: destination_def dest: map_of_SomeD)
    with st assms(2) s'(2) show False by (auto simp: one_to_one_def)
  qed
  then have "t = s'" using s'(3) by (simp add: destination_def)
  moreover have "map_of below s' = None"
    using \<open>map_of plan s' = None\<close> assms(3) by (auto simp: map_of_eq_None_iff)
  ultimately have "t = s'" "map_of below s' = None" by simp_all
  then have "destination below s = destination below s'" using t by (simp add: destination_def)
  with assms(4,5) s' show False by (auto simp: inj_on_def rejected_def)
qed

lemma accepted_plan_greatest:
  assumes "distinct sources" "one_to_one plan"
  shows "collision_free sources (accepted_plan sources plan) \<and> set (accepted_plan sources plan) \<subseteq> set plan \<and>
    (\<forall>below. set below \<subseteq> set plan \<and> collision_free sources below \<longrightarrow> set below \<subseteq> set (accepted_plan sources plan))"
  using assms(2)
proof (induction "length plan" arbitrary: plan rule: less_induct)
  case less
  let ?rest = "filter (\<lambda>(s, _). s \<notin> set (rejected sources plan)) plan"
  show ?case
  proof (cases "rejected sources plan = []")
    case True
    then show ?thesis using less.prems assms(1) by (simp add: accepted_plan.simps rejected_empty_iff)
  next
    case False
    have sub: "set ?rest \<subseteq> set plan" by auto
    have keep: "set below \<subseteq> set ?rest" if "set below \<subseteq> set plan" "collision_free sources below" for below
    proof
      fix p assume p: "p \<in> set below"
      obtain s t where st: "p = (s, t)" by fastforce
      with p have "map_of below s \<noteq> None" by (metis weak_map_of_SomeI option.distinct(1))
      then have "s \<notin> set (rejected sources plan)"
        using rejected_forced [OF assms(1) less.prems that] by metis
      with p st that(1) show "p \<in> set ?rest" by auto
    qed
    have "one_to_one ?rest" by (rule one_to_one_mono [OF less.prems sub])
    from less.hyps [OF rejected_shrinks [OF False] this] False sub keep
    show ?thesis by (subst accepted_plan.simps, subst (2) accepted_plan.simps, subst (3) accepted_plan.simps) (simp, blast)
  qed
qed


section \<open>Entity keys as joined components\<close>

definition discriminator :: "digest \<Rightarrow> string option \<Rightarrow> string \<Rightarrow> string" where
  "discriminator D chain line =
     (case chain of
        Some (c # cs) \<Rightarrow> ''s'' @ nat_dec (unat (compute_scope_hash D (Some (c # cs)) None))
      | _ \<Rightarrow> ''l'' @ line)"

fun key_parts :: "digest \<Rightarrow> string option \<Rightarrow> canonical_entity_uid \<Rightarrow> string list" where
  "key_parts D chain (CNote i v n) = [''note'', ''vlt'', i, v, n]"
| "key_parts D chain (CTag i v n) = [''tag'', ''vlt'', i, v, n]"
| "key_parts D chain (CHeading i v n s l) = [''head'', ''vlt'', i, v, n, s, l]"
| "key_parts D chain (CSection i v n l c) = [''sec'', ''vlt'', i, v, n, l, c]"
| "key_parts D chain (CVault i v) = [''vlt'', ''vlt'', i, v, []]"
| "key_parts D chain (CSymbol i r f n l) = [''sym'', ''repo'', r, f, n, discriminator D chain l]"
| "key_parts D chain (CRepo i r) = [''repo'', r]"
| "key_parts D chain (CFile i r f) = [''file'', ''repo'', r, f]"
| "key_parts D chain (CService i r n) = [''svc'', ''repo'', r, n]"

text \<open>The entity a key stands for: code entities lose their instance, symbols are told by the discriminator.\<close>

fun entity_class :: "digest \<Rightarrow> string option \<Rightarrow> canonical_entity_uid \<Rightarrow> canonical_entity_uid" where
  "entity_class D chain (CSymbol i r f n l) = CSymbol [] r f n (discriminator D chain l)"
| "entity_class D chain (CRepo i r) = CRepo [] r"
| "entity_class D chain (CFile i r f) = CFile [] r f"
| "entity_class D chain (CService i r n) = CService [] r n"
| "entity_class D chain e = e"

definition uid_entity :: "digest \<Rightarrow> string option \<Rightarrow> string \<Rightarrow> entity_key" where
  "uid_entity D chain uid = (case entity_key_for_uid D uid chain of Some e \<Rightarrow> e | None \<Rightarrow> raw uid)"

lemmas entity_defs = scoped_def plain_def raw_def requalify_def vault_id_def

lemma entity_key_text: "ek_key (entity_key_of D chain e) = join '':'' (key_parts D chain e)"
  by (cases e) (simp_all add: entity_defs discriminator_def)

lemma discriminator_no_colon: "CHR '':'' \<notin> set l \<Longrightarrow> CHR '':'' \<notin> set (discriminator D chain l)"
  by (auto simp: discriminator_def split: option.splits list.splits)

lemma key_parts_no_colon: "components_ok e \<Longrightarrow> p \<in> set (key_parts D chain e) \<Longrightarrow> CHR '':'' \<notin> set p"
  using discriminator_no_colon [OF u32_no_colon]
  by (cases e) (auto simp: good_instance_def dest: no_colon)

lemma key_parts_not_Nil [simp]: "key_parts D chain e \<noteq> []"
  by (cases e) simp_all

lemma key_parts_eq_iff:
  "key_parts D chain e = key_parts D chain' e' \<longleftrightarrow> entity_class D chain e = entity_class D chain' e'"
  by (cases e; cases e') auto

lemma entity_key_eq_iff:
  assumes "components_ok e" "components_ok e'"
  shows "ek_key (entity_key_of D chain e) = ek_key (entity_key_of D chain' e') \<longleftrightarrow>
    entity_class D chain e = entity_class D chain' e'"
proof -
  have "split CHR '':'' (join '':'' (key_parts D c d)) = key_parts D c d" if "components_ok d" for c d
    using that by (intro split_join key_parts_no_colon) simp_all
  then have "join '':'' (key_parts D chain e) = join '':'' (key_parts D chain' e') \<longleftrightarrow>
      key_parts D chain e = key_parts D chain' e'"
    using assms by metis
  then show ?thesis by (simp only: entity_key_text key_parts_eq_iff)
qed

lemma entity_key_not_raw: "ek_key (entity_key_of D chain e) \<noteq> ek_key (raw uid)"
  by (cases e) (simp_all add: entity_defs)

lemma parsed_ok: "parse_canonical_entity_uid u = Some e \<Longrightarrow> components_ok e"
  by (simp add: uids.dec_iff)

lemma uid_entity_cases:
  obtains (canonical) e where "parse_canonical_entity_uid u = Some e" "components_ok e" "uid_entity D chain u = entity_key_of D chain e"
  | (raw) "parse_canonical_entity_uid u = None" "uid_entity D chain u = raw u"
  by (cases "parse_canonical_entity_uid u") (auto simp: uid_entity_def entity_key_for_uid_def dest: parsed_ok)

lemma raw_key_inject [simp]: "ek_key (raw u) = ek_key (raw u') \<longleftrightarrow> u = u'"
  by (simp add: raw_def)

lemma uid_entity_eq_iff:
  "ek_key (uid_entity D chain u) = ek_key (uid_entity D chain' u') \<longleftrightarrow>
   (case (parse_canonical_entity_uid u, parse_canonical_entity_uid u') of
      (Some e, Some e') \<Rightarrow> entity_class D chain e = entity_class D chain' e'
    | (None, None) \<Rightarrow> u = u'
    | _ \<Rightarrow> False)"
  by (rule uid_entity_cases [of u D chain]; rule uid_entity_cases [of u' D chain'])
    (simp_all add: entity_key_eq_iff entity_key_not_raw entity_key_not_raw [symmetric])

section \<open>What reconciliation does to the entities\<close>

fun relocate :: "(string \<Rightarrow> string \<Rightarrow> string \<times> string) \<Rightarrow> canonical_entity_uid \<Rightarrow> canonical_entity_uid" where
  "relocate f (CNote i v n) = (case f i v of (i', v') \<Rightarrow> CNote i' v' n)"
| "relocate f (CTag i v n) = (case f i v of (i', v') \<Rightarrow> CTag i' v' n)"
| "relocate f (CHeading i v n s l) = (case f i v of (i', v') \<Rightarrow> CHeading i' v' n s l)"
| "relocate f (CSection i v n l c) = (case f i v of (i', v') \<Rightarrow> CSection i' v' n l c)"
| "relocate f (CVault i v) = (case f i v of (i', v') \<Rightarrow> CVault i' v')"
| "relocate f e = e"

fun entity_vault :: "canonical_entity_uid \<Rightarrow> (string \<times> string) option" where
  "entity_vault (CNote i v n) = Some (i, v)"
| "entity_vault (CTag i v n) = Some (i, v)"
| "entity_vault (CHeading i v n s l) = Some (i, v)"
| "entity_vault (CSection i v n l c) = Some (i, v)"
| "entity_vault (CVault i v) = Some (i, v)"
| "entity_vault e = None"

lemma ek_vault_entity: "ek_vault (entity_key_of D chain e) = map_option (\<lambda>(i, v). vault_id i v) (entity_vault e)"
  by (cases e) (simp_all add: entity_defs)

lemma ek_vault_raw [simp]: "ek_vault (raw uid) = None"
  by (simp add: raw_def plain_def)

definition vault_named :: "string \<Rightarrow> string \<times> string" where
  "vault_named t = (case split_once CHR '':'' t of Some p \<Rightarrow> p | None \<Rightarrow> (t, []))"

definition moved :: "(string \<times> string) list \<Rightarrow> string \<Rightarrow> string \<Rightarrow> string \<times> string" where
  "moved plan i v = vault_named (destination plan (vault_id i v))"

definition good_vault :: "string \<times> string \<Rightarrow> bool" where
  "good_vault p \<longleftrightarrow> components_ok (CVault (fst p) (snd p))"

lemma vault_named_id: "good_vault (i, v) \<Longrightarrow> vault_named (vault_id i v) = (i, v)"
  by (simp add: vault_named_def vault_id_def good_vault_def good_instance_def split_once_append)

definition good_plan :: "(string \<times> string) list \<Rightarrow> bool" where
  "good_plan plan \<longleftrightarrow> (\<forall>(s, t)\<in>set plan. \<exists>p. good_vault p \<and> t = vault_id (fst p) (snd p))"

lemma moved_good:
  assumes "good_plan plan" "good_vault (i, v)"
  shows "good_vault (moved plan i v)"
    and "vault_id (fst (moved plan i v)) (snd (moved plan i v)) = destination plan (vault_id i v)"
proof -
  have "\<exists>p. good_vault p \<and> destination plan (vault_id i v) = vault_id (fst p) (snd p)"
  proof (cases "map_of plan (vault_id i v)")
    case None
    then show ?thesis using assms(2) by (intro exI [of _ "(i, v)"]) (simp add: destination_def)
  next
    case (Some t)
    then have "(vault_id i v, t) \<in> set plan" by (rule map_of_SomeD)
    with assms(1) Some show ?thesis by (auto simp: destination_def good_plan_def)
  qed
  then obtain a b where "good_vault (a, b)" "destination plan (vault_id i v) = vault_id a b" by auto
  then show "good_vault (moved plan i v)"
    and "vault_id (fst (moved plan i v)) (snd (moved plan i v)) = destination plan (vault_id i v)"
    by (simp_all add: moved_def vault_named_id)
qed

lemma components_ok_vault: "components_ok e \<Longrightarrow> entity_vault e = Some p \<Longrightarrow> good_vault p"
  by (cases e) (auto simp: good_vault_def)

lemma move_entity:
  assumes "good_plan plan" "components_ok e"
  shows "ek_key (move_vault plan (entity_key_of D chain e)) = ek_key (entity_key_of D chain (relocate (moved plan) e))"
proof (cases "entity_vault e")
  case None
  then have "relocate (moved plan) e = e" by (cases e) simp_all
  moreover have "ek_vault (entity_key_of D chain e) = None" using None by (simp add: ek_vault_entity)
  ultimately show ?thesis by (simp add: move_vault_def)
next
  case (Some p)
  obtain i v where p: "p = (i, v)" by fastforce
  have "good_vault (i, v)" using Some p assms(2) components_ok_vault by blast
  note m = moved_good(2) [OF assms(1) this]
  obtain i' v' where iv: "moved plan i v = (i', v')" by fastforce
  from Some p m iv show ?thesis
    by (cases e) (auto simp: move_vault_def entity_defs destination_def split: option.splits)
qed

lemma relocate_ok: "good_plan plan \<Longrightarrow> components_ok e \<Longrightarrow> components_ok (relocate (moved plan) e)"
  using moved_good(1) [of plan] by (cases e) (auto simp: good_vault_def case_prod_beta)

text \<open>Moving vaults injectively keeps different entities apart.\<close>

lemma entity_class_relocate:
  assumes "\<And>p q. entity_vault e = Some p \<Longrightarrow> entity_vault e' = Some q \<Longrightarrow>
      f (fst p) (snd p) = f (fst q) (snd q) \<Longrightarrow> p = q"
  shows "entity_class D chain (relocate f e) = entity_class D chain' (relocate f e') \<longleftrightarrow>
    entity_class D chain e = entity_class D chain' e'"
proof (cases "entity_vault e = None \<or> entity_vault e' = None")
  case True
  then show ?thesis by (cases e; cases e') (simp_all add: case_prod_beta)
next
  case False
  then obtain i v i' v' where iv: "entity_vault e = Some (i, v)" "entity_vault e' = Some (i', v')"
    by (cases "entity_vault e"; cases "entity_vault e'") auto
  with assms have f: "f i v = f i' v' \<longleftrightarrow> i = i' \<and> v = v'" by fastforce
  from iv f show ?thesis by (cases e; cases e'; simp add: case_prod_beta prod_eq_iff) argo+
qed

lemma move_raw [simp]: "move_vault plan (raw uid) = raw uid"
  by (simp add: move_vault_def)

lemma vault_pairs_good: "(l, s) \<in> set (vault_pairs mappings) \<Longrightarrow>
    \<exists>p. good_vault p \<and> l = vault_id (fst p) (snd p)"
proof -
  assume "(l, s) \<in> set (vault_pairs mappings)"
  then obtain m li lv where "Some (CVault li lv) = parse_canonical_entity_uid m" "l = vault_id li lv"
    by (auto simp: vault_pairs_def split: option.splits canonical_entity_uid.splits)
  then have "parse_canonical_entity_uid m = Some (CVault li lv)" "l = vault_id li lv" by simp_all
  then show ?thesis using parsed_ok by (intro exI [of _ "(li, lv)"]) (fastforce simp: good_vault_def)
qed

lemma aliases_good: "set plan \<subseteq> set (aliases (vault_pairs mappings)) \<Longrightarrow> good_plan plan"
  by (fastforce simp: good_plan_def aliases_def dest: vault_pairs_good)

lemma move_uid_entity_eq_iff:
  assumes good: "good_plan plan" and inj: "inj_on (destination plan) V"
    and V: "\<And>w. ek_vault (uid_entity D chain u) = Some w \<Longrightarrow> w \<in> V" "\<And>w. ek_vault (uid_entity D chain' u') = Some w \<Longrightarrow> w \<in> V"
  shows "ek_key (move_vault plan (uid_entity D chain u)) = ek_key (move_vault plan (uid_entity D chain' u')) \<longleftrightarrow>
    ek_key (uid_entity D chain u) = ek_key (uid_entity D chain' u')"
proof (rule uid_entity_cases [of u D chain])
  assume r: "uid_entity D chain u = raw u"
  show ?thesis
    by (rule uid_entity_cases [of u' D chain']) (simp_all add: r move_entity [OF good] entity_key_not_raw [symmetric])
next
  fix e assume ok: "components_ok e" and e: "uid_entity D chain u = entity_key_of D chain e"
  show ?thesis
  proof (rule uid_entity_cases [of u' D chain'])
    assume "uid_entity D chain' u' = raw u'"
    then show ?thesis by (simp add: e ok move_entity [OF good] entity_key_not_raw)
  next
    fix e' assume ok': "components_ok e'" and e': "uid_entity D chain' u' = entity_key_of D chain' e'"
    have "p = q" if "entity_vault e = Some p" "entity_vault e' = Some q"
      "moved plan (fst p) (snd p) = moved plan (fst q) (snd q)" for p q
    proof -
      have g: "good_vault p" "good_vault q" using that ok ok' components_ok_vault by blast+
      with that(3) have "destination plan (vault_id (fst p) (snd p)) = destination plan (vault_id (fst q) (snd q))"
        using moved_good(2) [OF good] by (metis prod.collapse)
      moreover have "vault_id (fst p) (snd p) \<in> V" "vault_id (fst q) (snd q) \<in> V"
        using V that(1,2) by (simp_all add: e e' ek_vault_entity case_prod_beta)
      ultimately have "vault_id (fst p) (snd p) = vault_id (fst q) (snd q)" using inj by (auto dest: inj_onD)
      with g show ?thesis by (metis prod.collapse vault_named_id)
    qed
    with ok ok' show ?thesis
      by (simp add: e e' move_entity [OF good] entity_key_eq_iff relocate_ok [OF good] entity_class_relocate)
  qed
qed

section \<open>Whole tiers\<close>

lemma put_keys_map: "put_keys (map f (entity_keys ids)) ids =
    map (map_option (\<lambda>i. i\<lparr>si_entity := map_option f (si_entity i)\<rparr>)) ids"
proof (induction ids)
  case Nil
  then show ?case by simp
next
  case (Cons i ids)
  show ?case
  proof (cases "Option.bind i si_entity")
    case None
    then have keys: "entity_keys (i # ids) = entity_keys ids" by (simp add: entity_keys_def List.map_filter_simps)
    show ?thesis
    proof (cases i)
      case None
      with keys Cons show ?thesis by (cases "map f (entity_keys ids)") simp_all
    next
      case (Some j)
      with \<open>Option.bind i si_entity = None\<close> keys Cons show ?thesis by (cases "map f (entity_keys ids)") simp_all
    qed
  next
    case (Some e)
    then obtain j where "i = Some j" "si_entity j = Some e" by (cases i) auto
    with Cons show ?thesis by (simp add: entity_keys_def List.map_filter_simps)
  qed
qed


definition vault_plan :: "vault_mappings \<Rightarrow> entity_key list \<Rightarrow> entity_key list \<Rightarrow> (string \<times> string) list" where
  "vault_plan mappings local server =
     (if vaults local = [] \<or> vaults server = [] then []
      else accepted_plan (vaults server) (aliases (vault_pairs mappings)))"

lemma move_nothing [simp]: "move_vault [] k = k"
  by (cases "ek_vault k") (simp_all add: move_vault_def)

lemma reconcile_moves: "fst (reconcile_vault_pairs_with_mappings mappings local server) =
    map (move_vault (vault_plan mappings local server)) server"
  by (simp add: reconcile_vault_pairs_with_mappings_def vault_plan_def Let_def map_idI)

lemma vault_plan_props:
  "good_plan (vault_plan mappings local server)"
  "inj_on (destination (vault_plan mappings local server)) (set (vaults server))"
proof -
  have d: "distinct (vaults server)" by (simp add: vaults_def)
  note g = accepted_plan_greatest [OF d aliases_one_to_one [of "vault_pairs mappings"]]
  show "good_plan (vault_plan mappings local server)"
  proof (cases "vaults local = [] \<or> vaults server = []")
    case True
    then show ?thesis by (simp add: vault_plan_def good_plan_def)
  next
    case False
    then show ?thesis using g aliases_good [of _ mappings] by (simp add: vault_plan_def)
  qed
  show "inj_on (destination (vault_plan mappings local server)) (set (vaults server))"
  proof (cases "vaults local = [] \<or> vaults server = []")
    case True
    then show ?thesis by (auto simp: vault_plan_def destination_def inj_on_def)
  next
    case False
    then show ?thesis using g by (simp add: vault_plan_def)
  qed
qed

abbreviation server_identities :: "digest \<Rightarrow> vault_mappings \<Rightarrow> json list \<Rightarrow> json list \<Rightarrow> symbol_identity option list" where
  "server_identities D mappings local server \<equiv> fst (snd (identify_tiers_with_vault_mappings D mappings local server))"

lemma server_identities_moves:
  "server_identities D mappings local server =
     map (\<lambda>v. map_option (\<lambda>i. i\<lparr>si_entity := map_option (move_vault (vault_plan mappings
       (entity_keys (map (extract_identity D) local)) (entity_keys (map (extract_identity D) server)))) (si_entity i)\<rparr>)
       (extract_identity D v)) server"
  by (simp add: identify_tiers_with_vault_mappings_def case_prod_beta reconcile_moves put_keys_map Let_def comp_def)

text \<open>A row is keyed by its UID or by the tuple, never by both.\<close>

lemma extract_identity_cases:
  assumes "extract_identity D v = Some i"
  obtains (uid) u where "get_str ''uid'' v = Some u" "u \<noteq> []" "i = \<lparr>si_repo_url = [], si_file_path = [], si_symbol_name = [],
      si_scope_hash = 0, si_entity = Some (uid_entity D (scope_of v) u)\<rparr>"
  | (tuple) "si_entity i = None"
  using assms by (auto simp: extract_identity_def uid_identity_def uid_entity_def split: option.splits list.splits)

lemma extract_uid:
  "get_str ''uid'' v = Some u \<Longrightarrow> u \<noteq> [] \<Longrightarrow> extract_identity D v = Some \<lparr>si_repo_url = [], si_file_path = [],
     si_symbol_name = [], si_scope_hash = 0, si_entity = Some (uid_entity D (scope_of v) u)\<rparr>"
  by (cases u) (simp_all add: extract_identity_def uid_identity_def uid_entity_def)

lemma row_vault: "v \<in> set server \<Longrightarrow> extract_identity D v = Some i \<Longrightarrow> si_entity i = Some e \<Longrightarrow> ek_vault e = Some w \<Longrightarrow>
    w \<in> set (vaults (entity_keys (map (extract_identity D) server)))"
  by (force simp: vaults_def entity_keys_def List.map_filter_def)

lemma unique_canonical_iff: "unique_canonical D seen items \<longleftrightarrow>
    list_all (\<lambda>v. \<exists>e. Option.bind (extract_identity D v) si_entity = Some e \<and> ek_canonical e \<and> ek_key e \<notin> seen) items \<and>
    distinct (map (\<lambda>v. ek_key (the (Option.bind (extract_identity D v) si_entity))) items)"
proof (induction items arbitrary: seen)
  case (Cons v items)
  then show ?case
    by (cases "Option.bind (extract_identity D v) si_entity") (auto 0 4 simp: list_all_iff image_iff)
qed simp

section \<open>Properties\<close>

text \<open>
  C16. Reconciling the vaults of an upstream with the local ones moves along declared bindings only and
  never makes two upstream vaults one: the accepted bindings are one-to-one bindings of the operator,
  moving all of them at once keeps the upstream vaults apart, and no larger set of bindings would,
  since every set of bindings that keeps them apart is contained in the accepted one. The loop that
  computes them ends for every input.
\<close>

theorem vault_plan_greatest:
  assumes "plan = accepted_plan (vaults server) (aliases (vault_pairs mappings))"
  shows "inj_on (destination plan) (set (vaults server)) \<and>
    set plan \<subseteq> {(s, l). (l, s) \<in> set (vault_pairs mappings)} \<and>
    (set below \<subseteq> set (aliases (vault_pairs mappings)) \<and> inj_on (destination below) (set (vaults server)) \<longrightarrow>
       set below \<subseteq> set plan)"
proof -
  have "distinct (vaults server)" by (simp add: vaults_def)
  from accepted_plan_greatest [OF this aliases_one_to_one [of "vault_pairs mappings"]] assms show ?thesis
    by (auto simp: aliases_def)
qed

text \<open>Two bindings; the first would move a vault onto one that stays, so only the second is kept.\<close>

theorem vault_plan_greatest_witness:
  "accepted_plan (vaults (map (\<lambda>v. scoped ''note'' v ''n'') [''s:000000000001'', ''s:000000000002'', ''s:000000000003'']))
     (aliases (vault_pairs [(''vlt:s:000000000002'', ''vlt:s:000000000001''), (''vlt:l:00000000000a'', ''vlt:s:000000000003'')])) =
   [(''s:000000000003'', ''l:00000000000a'')] \<and>
   inj_on (destination [(''s:000000000003'', ''l:00000000000a'')]) {''s:000000000001'', ''s:000000000002'', ''s:000000000003''}"
proof -
  let ?server = "map (\<lambda>v. scoped ''note'' v ''n'') [''s:000000000001'', ''s:000000000002'', ''s:000000000003'']"
  let ?m = "[(''vlt:s:000000000002'', ''vlt:s:000000000001''), (''vlt:l:00000000000a'', ''vlt:s:000000000003'')]"
  have plan: "accepted_plan (vaults ?server) (aliases (vault_pairs ?m)) = [(''s:000000000003'', ''l:00000000000a'')]"
    by code_simp
  have "set (vaults ?server) = {''s:000000000001'', ''s:000000000002'', ''s:000000000003''}" by code_simp
  with vault_plan_greatest [OF plan [symmetric]] plan show ?thesis by simp
qed

text \<open>
  C28. Reconciliation keeps the rows of an upstream apart: two of its rows have the same identity in the
  merge exactly when they had it before the vaults were renamed, whatever bindings are configured.
\<close>

theorem reconciliation_keeps_rows_apart:
  assumes "i < length server" and "j < length server"
  shows "map_option id_key (server_identities D mappings local server ! i) =
      map_option id_key (server_identities D mappings local server ! j) \<longleftrightarrow>
    map_option id_key (extract_identity D (server ! i)) = map_option id_key (extract_identity D (server ! j))"
proof -
  let ?keys = "\<lambda>rows. entity_keys (map (extract_identity D) rows)"
  define plan where "plan = vault_plan mappings (?keys local) (?keys server)"
  note props = vault_plan_props [of mappings "?keys local" "?keys server", folded plan_def]
  let ?v = "server ! i" and ?w = "server ! j"
  have mem: "?v \<in> set server" "?w \<in> set server" using assms by simp_all
  show ?thesis
  proof (cases "extract_identity D ?v = None \<or> extract_identity D ?w = None")
    case True
    then show ?thesis using assms by (auto simp: server_identities_moves)
  next
    case False
    then obtain a b where ab: "extract_identity D ?v = Some a" "extract_identity D ?w = Some b"
      by (cases "extract_identity D ?v"; cases "extract_identity D ?w") auto
    note simps = server_identities_moves plan_def [symmetric] assms ab id_key_def
    from ab(1) show ?thesis
    proof (cases rule: extract_identity_cases)
      case (uid u)
      note a = this
      from ab(2) show ?thesis
      proof (cases rule: extract_identity_cases)
        case (uid u')
        have "ek_key (move_vault plan (uid_entity D (scope_of ?v) u)) = ek_key (move_vault plan (uid_entity D (scope_of ?w) u')) \<longleftrightarrow>
            ek_key (uid_entity D (scope_of ?v) u) = ek_key (uid_entity D (scope_of ?w) u')"
          using row_vault [OF mem(1) ab(1)] row_vault [OF mem(2) ab(2)]
          by (intro move_uid_entity_eq_iff [OF props]) (simp_all add: a(3) uid(3))
        with a(3) uid(3) show ?thesis by (simp add: simps)
      qed (simp add: simps a(3))
    next
      case tuple
      then show ?thesis by (cases "si_entity b") (simp_all add: simps)
    qed
  qed
qed

text \<open>Two bindings that swap two vaults: the rows stay apart.\<close>

theorem reconciliation_keeps_rows_apart_witness:
  "map_option id_key (server_identities (\<lambda>_. 0)
       [(''vlt:s:000000000002'', ''vlt:s:000000000001''), (''vlt:s:000000000001'', ''vlt:s:000000000002'')]
       [JObject [(''uid'', JString ''vlt:l:00000000000a'')]]
       [JObject [(''uid'', JString ''note:vlt:s:000000000001:00000000000b'')],
        JObject [(''uid'', JString ''note:vlt:s:000000000002:00000000000b'')]] ! 0) \<noteq>
   map_option id_key (server_identities (\<lambda>_. 0)
       [(''vlt:s:000000000002'', ''vlt:s:000000000001''), (''vlt:s:000000000001'', ''vlt:s:000000000002'')]
       [JObject [(''uid'', JString ''vlt:l:00000000000a'')]]
       [JObject [(''uid'', JString ''note:vlt:s:000000000001:00000000000b'')],
        JObject [(''uid'', JString ''note:vlt:s:000000000002:00000000000b'')]] ! 1)"
proof -
  let ?server = "[JObject [(''uid'', JString ''note:vlt:s:000000000001:00000000000b'')],
        JObject [(''uid'', JString ''note:vlt:s:000000000002:00000000000b'')]]"
  have "map_option id_key (extract_identity (\<lambda>_. 0) (?server ! 0)) \<noteq> map_option id_key (extract_identity (\<lambda>_. 0) (?server ! 1))"
    by code_simp
  moreover have "0 < length ?server" "1 < length ?server" by simp_all
  ultimately show ?thesis by (subst reconciliation_keeps_rows_apart)
qed

text \<open>
  The UID of a row is its identity: two rows with UIDs are one row of the merge exactly when the UIDs
  name the same entity (a vault entity with its vault, a code entity up to the instance that indexed
  it), or are the same text that no UID grammar accepts. Titles, paths and locations never matter.
\<close>

theorem uid_is_row_identity:
  assumes "get_str ''uid'' v = Some u" "u \<noteq> []" "get_str ''uid'' w = Some u'" "u' \<noteq> []"
  shows "map_option id_key (extract_identity D v) = map_option id_key (extract_identity D w) \<longleftrightarrow>
    (case (parse_canonical_entity_uid u, parse_canonical_entity_uid u') of
       (Some e, Some e') \<Rightarrow> entity_class D (scope_of v) e = entity_class D (scope_of w) e'
     | (None, None) \<Rightarrow> u = u'
     | _ \<Rightarrow> False)"
  using assms by (simp add: extract_uid id_key_def uid_entity_eq_iff)

text \<open>One repository, indexed by two instances and shown under two titles.\<close>

theorem uid_is_row_identity_witness:
  "map_option id_key (extract_identity (\<lambda>_. 0) (JObject [(''uid'', JString ''repo:a:000000000001''), (''title'', JString ''x'')])) =
   map_option id_key (extract_identity (\<lambda>_. 0) (JObject [(''uid'', JString ''repo:b:000000000001''), (''title'', JString ''y'')]))"
proof -
  have "parse_canonical_entity_uid ''repo:a:000000000001'' = Some (CRepo ''a'' ''000000000001'')"
    "parse_canonical_entity_uid ''repo:b:000000000001'' = Some (CRepo ''b'' ''000000000001'')" by code_simp+
  then show ?thesis
    by (subst uid_is_row_identity [of _ "''repo:a:000000000001''" _ "''repo:b:000000000001''"]) (simp_all add: get_str_def)
qed

end
