(* ===== verification/Fed_Merge.thy ===== *)
theory Fed_Merge
  imports Fed_Identity "HOL-Library.Multiset" "HOL-Library.Product_Lexorder"
begin

text \<open>
  The federated merge (\<^verbatim>\<open>crates/nestweaver-federation/src/merge.rs\<close>): reciprocal rank fusion of the rows
  of the local tier and of one upstream, and the routing matrix of the tools
  (\<^verbatim>\<open>crates/nestweaver-federation/src/routing.rs\<close>).

  Scores are exact rationals where the code has \<^verbatim>\<open>f64\<close>. The hash map of scored rows is a list of
  entries with pairwise different keys; the order in which the code drains it is the parameter
  \<open>iter\<close>, any function that permutes the entries. The JSON text of a value is the parameter \<open>show_json\<close>.
\<close>

section \<open>Rows with provenance and confidence\<close>

datatype provenance = Local | Server | Both

datatype confidence = Precise | Heuristic | Stale

record merged_result =
  mr_value :: json
  mr_provenance :: provenance
  mr_confidence :: confidence
  mr_score :: rat

type_synonym scored = "(symbol_identity \<times> merged_result) list"

definition RRF_K :: rat where "RRF_K = 60"

definition LOCAL_WEIGHT :: rat where "LOCAL_WEIGHT = 3 / 2"

definition SERVER_WEIGHT :: rat where "SERVER_WEIGHT = 1"

definition has_scope :: "json \<Rightarrow> bool" where
  "has_scope v = (case scope_of v of Some s \<Rightarrow> s \<noteq> [] | None \<Rightarrow> False)"

definition infer_confidence :: "json \<Rightarrow> confidence" where
  "infer_confidence v = (if has_scope v then Precise else Heuristic)"

definition assign_confidence :: "string set \<Rightarrow> provenance \<Rightarrow> json \<Rightarrow> confidence" where
  "assign_confidence locally_modified_files prov v =
     (let file_path = (case Option.bind (get_first [''file_path'', ''file''] v) as_str of Some p \<Rightarrow> p | None \<Rightarrow> [])
      in if prov = Server \<and> file_path \<in> locally_modified_files then Stale
         else if has_scope v then Precise else Heuristic)"

section \<open>Ordering\<close>

abbreviation unit_separator :: char where "unit_separator \<equiv> CHR 0x1F"

definition identity_tiebreaker :: "symbol_identity \<Rightarrow> string" where
  "identity_tiebreaker i = join [unit_separator]
     [case si_entity i of Some e \<Rightarrow> ek_key e | None \<Rightarrow> [], si_repo_url i, si_file_path i, si_symbol_name i,
      nat_dec (unat (si_scope_hash i))]"

definition finalize_ordering :: "(scored \<Rightarrow> scored) \<Rightarrow> (json \<Rightarrow> string) \<Rightarrow> scored \<Rightarrow> merged_result list \<Rightarrow> merged_result list" where
  "finalize_ordering iter show_json keyed unkeyed =
     map snd (sort_key (\<lambda>(tb, r). (- mr_score r, tb))
       (map (\<lambda>(i, r). (identity_tiebreaker i, r)) (iter keyed) @
        map (\<lambda>r. (CHR 0x7F # show_json (mr_value r), r)) unkeyed))"

section \<open>The merge\<close>

text \<open>\<^verbatim>\<open>match scored.get_mut(&id)\<close>: update the row in place, or insert a fresh one.\<close>

fun scored_entry :: "symbol_identity \<Rightarrow> (merged_result \<Rightarrow> merged_result) \<Rightarrow> merged_result \<Rightarrow> scored \<Rightarrow> scored" where
  "scored_entry i hit fresh [] = [(i, fresh)]"
| "scored_entry i hit fresh ((j, r) # scored) =
     (if id_key j = id_key i then (j, hit r) # scored else (j, r) # scored_entry i hit fresh scored)"

definition local_row :: "(json \<Rightarrow> confidence) \<Rightarrow> rat \<Rightarrow> rat \<Rightarrow> nat \<times> json \<times> symbol_identity option \<Rightarrow>
    scored \<times> merged_result list \<Rightarrow> scored \<times> merged_result list" where
  "local_row conf k local_weight = (\<lambda>(rank, val, identity) (scored, unkeyed).
     let rrf_score = local_weight / (of_nat rank + k + 1) in
     case identity of
       Some i \<Rightarrow>
         (scored_entry i (\<lambda>existing. existing\<lparr>mr_score := mr_score existing + rrf_score\<rparr>)
            \<lparr>mr_value = val, mr_provenance = Local, mr_confidence = conf val, mr_score = rrf_score\<rparr> scored, unkeyed)
     | None \<Rightarrow>
         (scored, unkeyed @ [\<lparr>mr_value = val, mr_provenance = Local, mr_confidence = Heuristic, mr_score = rrf_score\<rparr>]))"

text \<open>
  The loop over the upstream's rows; the merge that knows the locally modified files also downgrades
  a row to stale (\<open>downgrade\<close>).
\<close>

definition server_row :: "bool \<Rightarrow> (json \<Rightarrow> confidence) \<Rightarrow> rat \<Rightarrow> nat \<times> json \<times> symbol_identity option \<Rightarrow>
    scored \<times> merged_result list \<Rightarrow> scored \<times> merged_result list" where
  "server_row downgrade conf k = (\<lambda>(rank, val, identity) (scored, unkeyed).
     let rrf_score = SERVER_WEIGHT / (of_nat rank + k + 1) in
     case identity of
       Some i \<Rightarrow>
         (scored_entry i
            (\<lambda>existing. existing\<lparr>
               mr_provenance := (if mr_provenance existing = Local then Both else mr_provenance existing),
               mr_score := mr_score existing + rrf_score,
               mr_confidence := (if downgrade \<and> conf val = Stale then Stale else mr_confidence existing)\<rparr>)
            \<lparr>mr_value = val, mr_provenance = Server, mr_confidence = conf val, mr_score = rrf_score\<rparr> scored, unkeyed)
     | None \<Rightarrow>
         (scored, unkeyed @ [\<lparr>mr_value = val, mr_provenance = Server, mr_confidence = Heuristic, mr_score = rrf_score\<rparr>]))"

definition rrf_merge_weighted_mapped :: "digest \<Rightarrow> (scored \<Rightarrow> scored) \<Rightarrow> (json \<Rightarrow> string) \<Rightarrow>
    json list \<Rightarrow> json list \<Rightarrow> rat \<Rightarrow> rat \<Rightarrow> vault_mappings \<Rightarrow> merged_result list" where
  "rrf_merge_weighted_mapped D iter show_json local_results server_results k local_weight mappings =
     (case identify_tiers_with_vault_mappings D mappings local_results server_results of
        (local_ids, server_ids, _) \<Rightarrow>
          (case fold (server_row False infer_confidence k) (enumerate 0 (zip server_results server_ids))
                  (fold (local_row infer_confidence k local_weight) (enumerate 0 (zip local_results local_ids)) ([], [])) of
             (scored, unkeyed) \<Rightarrow> finalize_ordering iter show_json scored unkeyed))"

definition rrf_merge_with_vault_mappings :: "digest \<Rightarrow> (scored \<Rightarrow> scored) \<Rightarrow> (json \<Rightarrow> string) \<Rightarrow>
    json list \<Rightarrow> json list \<Rightarrow> vault_mappings \<Rightarrow> merged_result list" where
  "rrf_merge_with_vault_mappings D iter show_json local_results server_results mappings =
     rrf_merge_weighted_mapped D iter show_json local_results server_results RRF_K LOCAL_WEIGHT mappings"

definition rrf_merge :: "digest \<Rightarrow> (scored \<Rightarrow> scored) \<Rightarrow> (json \<Rightarrow> string) \<Rightarrow> json list \<Rightarrow> json list \<Rightarrow> merged_result list" where
  "rrf_merge D iter show_json local_results server_results =
     rrf_merge_weighted_mapped D iter show_json local_results server_results RRF_K LOCAL_WEIGHT []"

definition rrf_merge_with_modified :: "digest \<Rightarrow> (scored \<Rightarrow> scored) \<Rightarrow> (json \<Rightarrow> string) \<Rightarrow>
    string set \<Rightarrow> json list \<Rightarrow> json list \<Rightarrow> merged_result list" where
  "rrf_merge_with_modified D iter show_json locally_modified_files local_results server_results =
     (case identify_tiers D local_results server_results of
        (local_ids, server_ids, _) \<Rightarrow>
          (case fold (server_row True (assign_confidence locally_modified_files Server) RRF_K)
                  (enumerate 0 (zip server_results server_ids))
                  (fold (local_row (assign_confidence locally_modified_files Local) RRF_K LOCAL_WEIGHT)
                     (enumerate 0 (zip local_results local_ids)) ([], [])) of
             (scored, unkeyed) \<Rightarrow> finalize_ordering iter show_json scored unkeyed))"

section \<open>Tool routing\<close>

datatype tool_routing_category =
  RouteMerge | LocalFirst | ServerPreferred | TwoTier | FanOut | LocalOnly | Combined | Continuation

definition tool_routing :: "string \<Rightarrow> tool_routing_category" where
  "tool_routing tool_name =
     (if tool_name \<in> {''brain_search'', ''brain_context'', ''code_context'', ''project_context'', ''search_symbols''} then RouteMerge
      else if tool_name \<in> {''read_symbols'', ''investigate'', ''investigate_hydrate'', ''note_get'', ''get_summary''} then LocalFirst
      else if tool_name \<in> {''flow_trace'', ''investigate_expand''} then Continuation
      else if tool_name \<in> {''hub_nodes'', ''bridge_nodes'', ''clusters'', ''cross_repo_contracts'', ''contract_drift''} then ServerPreferred
      else if tool_name \<in> {''blast_radius'', ''brain_impact'', ''affected_tests''} then TwoTier
      else if tool_name \<in> {''regex_search'', ''count_patterns''} then FanOut
      else if tool_name \<in> {''detect_changes'', ''dead_code''} then LocalOnly
      else if tool_name \<in> {''brain_status'', ''stale_check'', ''brain_doc_stats'', ''brain_tag_graph'', ''brain_topic_clusters''} then Combined
      else if tool_name \<in> {''backlinks'', ''brain_guide'', ''brain_diff''} then RouteMerge
      else if tool_name \<in> {''brain_broken_links'', ''brain_orphan_documents''} then ServerPreferred
      else if tool_name \<in> {''brain_memory_lint'', ''brain_memory_consolidate'', ''brain_memory_related''} then LocalOnly
      else if tool_name \<in> {''brain_add_source'', ''brain_remove_source'', ''prune_stale'', ''set_extension'', ''unset_extension'',
          ''compact_embeddings'', ''query_extensions''} then LocalOnly
      else LocalFirst)"


definition MUTATING_TOOL_HINTS :: "(string \<times> bool \<times> bool) list" where
  "MUTATING_TOOL_HINTS =
     [(''brain_add_source'', False, True), (''brain_remove_source'', True, True), (''brain_memory_consolidate'', True, False),
      (''set_extension'', False, True), (''unset_extension'', True, True), (''prune_stale'', True, True),
      (''compact_embeddings'', False, True)]"

definition MUTATING_TOOLS :: "string list" where
  "MUTATING_TOOLS = map fst MUTATING_TOOL_HINTS"

definition mutating_tool_hints :: "string \<Rightarrow> (bool \<times> bool) option" where
  "mutating_tool_hints name = map_option snd (find (\<lambda>(tool, _). tool = name) MUTATING_TOOL_HINTS)"

section \<open>The reference: fusion of a sequence of contributions\<close>

text \<open>
  Both loops are runs of one step over contributions: the tier a row comes from, its share of the
  score, its value, confidence and identity. The reference reads the fused row of an identity off
  the whole sequence.
\<close>

record contribution =
  ct_prov :: provenance
  ct_score :: rat
  ct_value :: json
  ct_conf :: confidence
  ct_id :: "symbol_identity option"

definition ct_key :: "contribution \<Rightarrow> (string \<times> string \<times> string \<times> u64 \<times> string option) option" where
  "ct_key c = map_option id_key (ct_id c)"

definition contributions :: "provenance \<Rightarrow> (json \<Rightarrow> confidence) \<Rightarrow> rat \<Rightarrow> rat \<Rightarrow> (json \<times> symbol_identity option) list \<Rightarrow> contribution list" where
  "contributions prov conf w k rows = map (\<lambda>(rank, val, identity).
     \<lparr>ct_prov = prov, ct_score = w / (of_nat rank + k + 1), ct_value = val, ct_conf = conf val, ct_id = identity\<rparr>)
     (enumerate 0 rows)"

definition hits :: "contribution list \<Rightarrow> string \<times> string \<times> string \<times> u64 \<times> string option \<Rightarrow> contribution list" where
  "hits cs key = filter (\<lambda>c. ct_key c = Some key) cs"

definition fused :: "bool \<Rightarrow> contribution list \<Rightarrow> string \<times> string \<times> string \<times> u64 \<times> string option \<Rightarrow> merged_result" where
  "fused downgrade cs key =
     \<lparr>mr_value = ct_value (hd (hits cs key)),
      mr_provenance = (if ct_prov (hd (hits cs key)) = Server then Server
                       else if list_ex (\<lambda>c. ct_prov c = Server) (hits cs key) then Both else Local),
      mr_confidence = (if downgrade \<and> list_ex (\<lambda>c. ct_prov c = Server \<and> ct_conf c = Stale) (hits cs key) then Stale
                       else ct_conf (hd (hits cs key))),
      mr_score = sum_list (map ct_score (hits cs key))\<rparr>"

definition lone :: "contribution \<Rightarrow> merged_result" where
  "lone c = \<lparr>mr_value = ct_value c, mr_provenance = ct_prov c, mr_confidence = Heuristic, mr_score = ct_score c\<rparr>"

definition absorb :: "bool \<Rightarrow> contribution \<Rightarrow> scored \<times> merged_result list \<Rightarrow> scored \<times> merged_result list" where
  "absorb downgrade c = (\<lambda>(scored, unkeyed).
     case ct_id c of
       Some i \<Rightarrow>
         (scored_entry i
            (\<lambda>r. r\<lparr>
               mr_provenance := (if ct_prov c = Server \<and> mr_provenance r = Local then Both else mr_provenance r),
               mr_score := mr_score r + ct_score c,
               mr_confidence := (if downgrade \<and> ct_prov c = Server \<and> ct_conf c = Stale then Stale else mr_confidence r)\<rparr>)
            \<lparr>mr_value = ct_value c, mr_provenance = ct_prov c, mr_confidence = ct_conf c, mr_score = ct_score c\<rparr> scored, unkeyed)
     | None \<Rightarrow> (scored, unkeyed @ [lone c]))"

lemma local_rows: "fold (local_row conf k w) (enumerate n rows) st =
    fold (absorb d) (map (\<lambda>(rank, val, identity). \<lparr>ct_prov = Local, ct_score = w / (of_nat rank + k + 1), ct_value = val,
      ct_conf = conf val, ct_id = identity\<rparr>) (enumerate n rows)) st"
proof -
  have "local_row conf k w x = absorb d ((\<lambda>(rank, val, identity). \<lparr>ct_prov = Local, ct_score = w / (of_nat rank + k + 1), ct_value = val,
      ct_conf = conf val, ct_id = identity\<rparr>) x)" for x
    by (cases x) (auto simp: local_row_def absorb_def lone_def fun_eq_iff Let_def split: option.splits)
  then show ?thesis by (auto simp only: fold_map comp_def intro!: fold_cong)
qed

lemma server_rows: "fold (server_row d conf k) (enumerate n rows) st =
    fold (absorb d) (map (\<lambda>(rank, val, identity). \<lparr>ct_prov = Server, ct_score = SERVER_WEIGHT / (of_nat rank + k + 1), ct_value = val,
      ct_conf = conf val, ct_id = identity\<rparr>) (enumerate n rows)) st"
proof -
  have "server_row d conf k x = absorb d ((\<lambda>(rank, val, identity). \<lparr>ct_prov = Server, ct_score = SERVER_WEIGHT / (of_nat rank + k + 1),
      ct_value = val, ct_conf = conf val, ct_id = identity\<rparr>) x)" for x
    by (cases x) (auto simp: server_row_def absorb_def lone_def fun_eq_iff Let_def split: option.splits)
  then show ?thesis by (auto simp only: fold_map comp_def intro!: fold_cong)
qed

text \<open>The state after a run is the reference: one entry per identity, in order of first appearance.\<close>

definition keys_of :: "contribution list \<Rightarrow> (string \<times> string \<times> string \<times> u64 \<times> string option) set" where
  "keys_of cs = set (List.map_filter ct_key cs)"

lemma keys_of_iff: "key \<in> keys_of cs \<longleftrightarrow> (\<exists>c\<in>set cs. ct_key c = Some key)"
  by (induction cs) (auto simp: keys_of_def List.map_filter_simps split: option.splits)

definition fused_state :: "bool \<Rightarrow> contribution list \<Rightarrow> scored \<times> merged_result list \<Rightarrow> bool" where
  "fused_state d cs st \<longleftrightarrow>
     distinct (map (id_key \<circ> fst) (fst st)) \<and>
     set (map (id_key \<circ> fst) (fst st)) = keys_of cs \<and>
     list_all (\<lambda>(i, r). r = fused d cs (id_key i) \<and> (\<exists>c\<in>set cs. ct_id c = Some i)) (fst st) \<and>
     snd st = map lone (filter (\<lambda>c. ct_id c = None) cs)"

lemma map_key_scored_entry: "map (id_key \<circ> fst) (scored_entry i hit fresh scored) =
    map (id_key \<circ> fst) scored @ (if id_key i \<in> set (map (id_key \<circ> fst) scored) then [] else [id_key i])"
  by (induction scored) (auto simp: rev_image_eqI)

lemma set_scored_entry:
  "distinct (map (id_key \<circ> fst) scored) \<Longrightarrow> (j, r) \<in> set (scored_entry i hit fresh scored) \<Longrightarrow>
    (id_key j \<noteq> id_key i \<and> (j, r) \<in> set scored) \<or>
    (id_key j = id_key i \<and> (\<exists>r'. (j, r') \<in> set scored \<and> r = hit r')) \<or>
    (j = i \<and> r = fresh \<and> id_key i \<notin> set (map (id_key \<circ> fst) scored))"
proof (induction scored)
  case (Cons p scored)
  then show ?case by (cases p) (force split: if_splits)
qed simp

lemma hits_snoc: "hits (cs @ [c]) key = hits cs key @ (if ct_key c = Some key then [c] else [])"
  by (simp add: hits_def)

lemma fused_other: "ct_key c \<noteq> Some key \<Longrightarrow> fused d (cs @ [c]) key = fused d cs key"
  by (simp add: fused_def hits_snoc)

lemma fused_fresh: "key \<notin> keys_of cs \<Longrightarrow> ct_key c = Some key \<Longrightarrow> ct_prov c \<noteq> Both \<Longrightarrow>
    fused d (cs @ [c]) key = \<lparr>mr_value = ct_value c, mr_provenance = ct_prov c, mr_confidence = ct_conf c, mr_score = ct_score c\<rparr>"
  by (cases "ct_prov c") (auto simp: fused_def hits_snoc keys_of_iff hits_def filter_empty_conv)

lemma fused_hit: "key \<in> keys_of cs \<Longrightarrow> ct_key c = Some key \<Longrightarrow>
    fused d (cs @ [c]) key = (fused d cs key)\<lparr>
      mr_provenance := (if ct_prov c = Server \<and> mr_provenance (fused d cs key) = Local then Both else mr_provenance (fused d cs key)),
      mr_score := mr_score (fused d cs key) + ct_score c,
      mr_confidence := (if d \<and> ct_prov c = Server \<and> ct_conf c = Stale then Stale else mr_confidence (fused d cs key))\<rparr>"
proof -
  assume "key \<in> keys_of cs" "ct_key c = Some key"
  moreover from this have "hits cs key \<noteq> []" by (auto simp: keys_of_iff hits_def filter_empty_conv)
  ultimately show ?thesis by (auto simp: fused_def hits_snoc)
qed

lemma keys_of_snoc: "keys_of (cs @ [c]) = keys_of cs \<union> set_option (ct_key c)"
  by (auto simp: keys_of_iff)

lemma fused_state_absorb:
  assumes "fused_state d cs st" and "ct_prov c \<noteq> Both"
  shows "fused_state d (cs @ [c]) (absorb d c st)"
proof (cases "ct_id c")
  case None
  then have "ct_key c = None" by (simp add: ct_key_def)
  with None assms show ?thesis
    by (cases st) (auto simp: fused_state_def absorb_def keys_of_snoc fused_other list_all_iff)
next
  case (Some i)
  then have key: "ct_key c = Some (id_key i)" by (simp add: ct_key_def)
  obtain scored unkeyed where st: "st = (scored, unkeyed)" by fastforce
  from assms st have inv: "distinct (map (id_key \<circ> fst) scored)" "set (map (id_key \<circ> fst) scored) = keys_of cs"
    "\<And>j r. (j, r) \<in> set scored \<Longrightarrow> r = fused d cs (id_key j) \<and> (\<exists>c\<in>set cs. ct_id c = Some j)"
    by (auto simp: fused_state_def list_all_iff)
  let ?hit = "\<lambda>r. r\<lparr>
     mr_provenance := (if ct_prov c = Server \<and> mr_provenance r = Local then Both else mr_provenance r),
     mr_score := mr_score r + ct_score c,
     mr_confidence := (if d \<and> ct_prov c = Server \<and> ct_conf c = Stale then Stale else mr_confidence r)\<rparr>"
  let ?fresh = "\<lparr>mr_value = ct_value c, mr_provenance = ct_prov c, mr_confidence = ct_conf c, mr_score = ct_score c\<rparr>"
  have "r = fused d (cs @ [c]) (id_key j) \<and> (\<exists>c\<in>set (cs @ [c]). ct_id c = Some j)"
    if "(j, r) \<in> set (scored_entry i ?hit ?fresh scored)" for j r
    using set_scored_entry [OF inv(1) that]
  proof (elim disjE conjE exE)
    assume "id_key j \<noteq> id_key i" "(j, r) \<in> set scored"
    with inv(3) key show ?thesis by (auto simp: fused_other)
  next
    fix r' assume j: "id_key j = id_key i" "(j, r') \<in> set scored" "r = ?hit r'"
    then have "id_key i \<in> keys_of cs" using inv(2) by (force simp: image_iff)
    from fused_hit [OF this key] j inv(3) [OF j(2)] show ?thesis by auto
  next
    assume "j = i" "r = ?fresh" "id_key i \<notin> set (map (id_key \<circ> fst) scored)"
    with inv(2) fused_fresh [of "id_key i" cs c d] key Some assms(2) show ?thesis by auto
  qed
  then have "list_all (\<lambda>(j, r). r = fused d (cs @ [c]) (id_key j) \<and> (\<exists>c\<in>set (cs @ [c]). ct_id c = Some j))
      (scored_entry i ?hit ?fresh scored)" by (auto simp: list_all_iff)
  moreover have "distinct (map (id_key \<circ> fst) (scored_entry i ?hit ?fresh scored))"
    "set (map (id_key \<circ> fst) (scored_entry i ?hit ?fresh scored)) = keys_of (cs @ [c])"
    using inv(1,2) key by (simp_all only: map_key_scored_entry keys_of_snoc) auto
  ultimately show ?thesis using assms(1) Some st by (simp add: fused_state_def absorb_def)
qed

lemma fused_state_fold: "list_all (\<lambda>c. ct_prov c \<noteq> Both) cs \<Longrightarrow> fused_state d cs (fold (absorb d) cs ([], []))"
  by (induction cs rule: rev_induct) (simp_all add: fused_state_absorb, simp add: fused_state_def keys_of_def List.map_filter_simps)

section \<open>The merges as fusions\<close>

definition tier_contributions :: "digest \<Rightarrow> vault_mappings \<Rightarrow> (provenance \<Rightarrow> json \<Rightarrow> confidence) \<Rightarrow> rat \<Rightarrow> rat \<Rightarrow>
    json list \<Rightarrow> json list \<Rightarrow> contribution list" where
  "tier_contributions D mappings conf k w local server =
     contributions Local (conf Local) w k (zip local (map (extract_identity D) local)) @
     contributions Server (conf Server) SERVER_WEIGHT k (zip server (server_identities D mappings local server))"

lemma identify_local: "identify_tiers_with_vault_mappings D mappings local server = (local_ids, rest) \<Longrightarrow>
    local_ids = map (extract_identity D) local"
  by (simp add: identify_tiers_with_vault_mappings_def Let_def case_prod_beta)

lemma weighted_as_fold:
  "rrf_merge_weighted_mapped D iter show_json local server k w mappings =
     (case fold (absorb False) (tier_contributions D mappings (\<lambda>_. infer_confidence) k w local server) ([], []) of
        (scored, unkeyed) \<Rightarrow> finalize_ordering iter show_json scored unkeyed)"
proof -
  obtain l s u where ids: "identify_tiers_with_vault_mappings D mappings local server = (l, s, u)" by (metis prod_cases3)
  with identify_local [OF ids] show ?thesis
    by (simp add: rrf_merge_weighted_mapped_def tier_contributions_def contributions_def server_rows local_rows [where d = False])
qed

lemma modified_as_fold:
  "rrf_merge_with_modified D iter show_json modified local server =
     (case fold (absorb True) (tier_contributions D [] (assign_confidence modified) RRF_K LOCAL_WEIGHT local server) ([], []) of
        (scored, unkeyed) \<Rightarrow> finalize_ordering iter show_json scored unkeyed)"
proof -
  obtain l s u where ids: "identify_tiers_with_vault_mappings D [] local server = (l, s, u)" by (metis prod_cases3)
  with identify_local [OF ids] show ?thesis
    by (simp add: rrf_merge_with_modified_def identify_tiers_def tier_contributions_def contributions_def server_rows
        local_rows [where d = True])
qed

lemma fused_state_tiers: "fused_state d (tier_contributions D mappings conf k w local server)
    (fold (absorb d) (tier_contributions D mappings conf k w local server) ([], []))"
  by (rule fused_state_fold) (auto simp: tier_contributions_def contributions_def list_all_iff)

lemma mset_fused_state:
  assumes "fused_state d cs (scored, unkeyed)"
  shows "mset (map snd scored) + mset unkeyed =
    image_mset (fused d cs) (mset_set (keys_of cs)) + image_mset lone (mset (filter (\<lambda>c. ct_id c = None) cs))"
proof -
  have "mset_set (keys_of cs) = mset (map (id_key \<circ> fst) scored)"
    using assms mset_set_set [of "map (id_key \<circ> fst) scored"] by (simp add: fused_state_def)
  then have "image_mset (fused d cs) (mset_set (keys_of cs)) = mset (map (\<lambda>p. fused d cs (id_key (fst p))) scored)"
    by (simp add: multiset.map_comp comp_def)
  also have "map (\<lambda>p. fused d cs (id_key (fst p))) scored = map snd scored"
    using assms by (auto simp: fused_state_def list_all_iff)
  finally show ?thesis using assms by (simp add: fused_state_def)
qed

lemma mset_finalize_ordering:
  assumes "mset (iter scored) = mset scored"
  shows "mset (finalize_ordering iter show_json scored unkeyed) = mset (map snd scored) + mset unkeyed"
proof -
  have "mset (map snd (iter scored)) = mset (map snd scored)" by (simp only: mset_map assms)
  then show ?thesis by (simp add: finalize_ordering_def multiset.map_comp comp_def case_prod_beta)
qed

lemma finalize_ordering_sorted: "sorted_wrt (\<lambda>a b. mr_score b \<le> mr_score a) (finalize_ordering iter show_json scored unkeyed)"
proof -
  let ?key = "\<lambda>p. (- mr_score (snd p), fst p)"
  have "sorted_wrt (\<lambda>p q. ?key p \<le> ?key q) (sort_key ?key xs)" for xs :: "(string \<times> merged_result) list"
    using sorted_sort_key [of ?key xs] by (simp add: sorted_map)
  then show ?thesis
    unfolding finalize_ordering_def sorted_wrt_map case_prod_beta
    by (rule sorted_wrt_mono_rel [rotated]) (auto simp: less_eq_prod_def)
qed

section \<open>The order does not depend on the hash map\<close>

text \<open>No component of the tiebreaker contains its separator.\<close>

definition separable :: "symbol_identity \<Rightarrow> bool" where
  "separable i \<longleftrightarrow> list_all (\<lambda>part. unit_separator \<notin> set part)
     [case si_entity i of Some e \<Rightarrow> ek_key e | None \<Rightarrow> [], si_repo_url i, si_file_path i, si_symbol_name i]"

definition printable_entity :: "symbol_identity \<Rightarrow> bool" where
  "printable_entity i \<longleftrightarrow> (case si_entity i of None \<Rightarrow> True | Some e \<Rightarrow> ek_key e \<noteq> [] \<and> hd (ek_key e) \<noteq> CHR 0x7F)"

lemma tiebreaker_inject:
  assumes "separable i" "separable j" "printable_entity i" "printable_entity j"
  shows "identity_tiebreaker i = identity_tiebreaker j \<longleftrightarrow> id_key i = id_key j"
proof
  have no: "unit_separator \<notin> set (nat_dec n)" for n
    using nat_dec_digits [of unit_separator n] by (auto simp: is_ascii_digit_def code_def)
  have split: "split unit_separator (identity_tiebreaker x) =
      [case si_entity x of Some e \<Rightarrow> ek_key e | None \<Rightarrow> [], si_repo_url x, si_file_path x, si_symbol_name x,
       nat_dec (unat (si_scope_hash x))]" if "separable x" for x
    unfolding identity_tiebreaker_def using that no by (intro split_join) (auto simp: separable_def)
  assume "identity_tiebreaker i = identity_tiebreaker j"
  with split [OF assms(1)] split [OF assms(2)] assms(3,4) show "id_key i = id_key j"
    by (auto simp: id_key_def printable_entity_def split: option.splits dest: unsigned_word_eqI)
next
  assume "id_key i = id_key j"
  then show "identity_tiebreaker i = identity_tiebreaker j"
    by (auto simp: id_key_def identity_tiebreaker_def split: option.splits)
qed

lemma tiebreaker_not_unkeyed: "printable_entity i \<Longrightarrow> identity_tiebreaker i \<noteq> CHR 0x7F # t"
  by (cases "si_entity i"; cases "ek_key (the (si_entity i))") (auto simp: identity_tiebreaker_def printable_entity_def)

text \<open>A stable sort ignores the order of a part on which its key is injective.\<close>

lemma sort_key_permute:
  assumes "mset xs = mset xs'" and "inj_on f (set xs)"
  shows "sort_key f (xs @ ys) = sort_key f (xs' @ ys)"
proof (rule properties_for_sort_key)
  show "mset (sort_key f (xs' @ ys)) = mset (xs @ ys)" using assms(1) by simp
next
  fix k
  have "filter (\<lambda>x. f x = f k) xs = filter (\<lambda>x. f x = f k) xs'"
    using sort_key_stable [of f "f k" xs] sort_key_stable [of f "f k" xs'] sort_key_eq_sort_key [OF assms] by simp
  then show "filter (\<lambda>x. f k = f x) (sort_key f (xs' @ ys)) = filter (\<lambda>x. f k = f x) (xs @ ys)"
    using sort_key_stable [of f "f k" "xs' @ ys"] by (simp add: eq_commute [of "f k"])
qed simp

lemma finalize_ordering_permute:
  assumes "mset (iter scored) = mset scored" "mset (iter' scored) = mset scored"
    and "distinct (map (id_key \<circ> fst) scored)"
    and "\<And>i r. (i, r) \<in> set scored \<Longrightarrow> separable i \<and> printable_entity i"
  shows "finalize_ordering iter show_json scored unkeyed = finalize_ordering iter' show_json scored unkeyed"
proof -
  let ?tag = "\<lambda>(i, r). (identity_tiebreaker i, r :: merged_result)"
  have set: "set (iter scored) = set scored" using assms(1) by (rule mset_eq_setD)
  have "p = q" if p: "p \<in> set scored" and q: "q \<in> set scored" and eq: "identity_tiebreaker (fst p) = identity_tiebreaker (fst q)" for p q
  proof -
    have "id_key (fst p) = id_key (fst q)"
      using tiebreaker_inject assms(4) p q eq by (metis prod.collapse)
    with p q assms(3) show ?thesis by (auto simp: distinct_map inj_on_def)
  qed
  then have "inj_on (\<lambda>(tb, r). (- mr_score r, tb)) (set (map ?tag (iter scored)))"
    by (fastforce simp: inj_on_def set)
  moreover have "mset (map ?tag (iter scored)) = mset (map ?tag (iter' scored))" by (simp only: mset_map assms(1,2))
  ultimately show ?thesis by (simp only: finalize_ordering_def sort_key_permute)
qed

text \<open>The keys the identification gives out start with the name of a UID family.\<close>

lemma printable_entity_key: "hd (ek_key (entity_key_of D chain e)) \<noteq> CHR 0x7F \<and> ek_key (entity_key_of D chain e) \<noteq> [] \<and>
    hd (ek_family (entity_key_of D chain e)) \<noteq> CHR 0x7F \<and> ek_family (entity_key_of D chain e) \<noteq> []"
  by (cases e) (simp_all add: entity_defs)

lemma printable_uid_entity: "hd (ek_key (uid_entity D chain u)) \<noteq> CHR 0x7F \<and> ek_key (uid_entity D chain u) \<noteq> [] \<and>
    hd (ek_family (uid_entity D chain u)) \<noteq> CHR 0x7F \<and> ek_family (uid_entity D chain u) \<noteq> []"
  by (rule uid_entity_cases [of u D chain]) (simp_all add: printable_entity_key, simp add: raw_def plain_def)

lemma printable_move: "hd (ek_key k) \<noteq> CHR 0x7F \<and> ek_key k \<noteq> [] \<and> hd (ek_family k) \<noteq> CHR 0x7F \<and> ek_family k \<noteq> [] \<Longrightarrow>
    hd (ek_key (move_vault plan k)) \<noteq> CHR 0x7F \<and> ek_key (move_vault plan k) \<noteq> []"
  by (auto simp: move_vault_def requalify_def split: option.splits)

lemma printable_identity:
  assumes "extract_identity D v = Some i"
  shows "printable_entity i" and "printable_entity (i\<lparr>si_entity := map_option (move_vault plan) (si_entity i)\<rparr>)"
  using assms by (cases rule: extract_identity_cases;
      use printable_uid_entity printable_move in \<open>force simp: printable_entity_def\<close>)+

lemma printable_tiers: "c \<in> set (tier_contributions D mappings conf k w local server) \<Longrightarrow> ct_id c = Some i \<Longrightarrow> printable_entity i"
  using printable_identity [of D]
  by (fastforce simp: tier_contributions_def contributions_def in_set_enumerate_eq server_identities_moves)

lemma finalize_tiers_permute:
  assumes "mset (iter (fst st)) = mset (fst st)" "mset (iter' (fst st)) = mset (fst st)"
    and "st = fold (absorb d) (tier_contributions D mappings conf k w local server) ([], [])"
    and "\<And>c i. c \<in> set (tier_contributions D mappings conf k w local server) \<Longrightarrow> ct_id c = Some i \<Longrightarrow> separable i"
  shows "finalize_ordering iter show_json (fst st) unkeyed = finalize_ordering iter' show_json (fst st) unkeyed"
  using fused_state_tiers [of d D mappings conf k w local server, folded assms(3)] assms(4) printable_tiers
  by (intro finalize_ordering_permute assms(1,2)) (fastforce simp: fused_state_def list_all_iff)+

lemma local_never_stale: "assign_confidence modified Local v \<noteq> Stale"
  by (simp add: assign_confidence_def Let_def)

lemma fused_stale:
  assumes "key \<in> keys_of cs"
    and "\<And>c. c \<in> set cs \<Longrightarrow> ct_conf c = assign_confidence modified (ct_prov c) (ct_value c) \<and> ct_prov c \<in> {Local, Server}"
  shows "mr_confidence (fused True cs key) = Stale \<longleftrightarrow>
    list_ex (\<lambda>c. ct_prov c = Server \<and> assign_confidence modified Server (ct_value c) = Stale) (hits cs key)"
proof -
  have sub: "set (hits cs key) \<subseteq> set cs" by (auto simp: hits_def)
  have "hits cs key \<noteq> []" using assms(1) by (auto simp: keys_of_iff hits_def filter_empty_conv)
  then have hd: "hd (hits cs key) \<in> set (hits cs key)" by simp
  have ex: "list_ex (\<lambda>c. ct_prov c = Server \<and> ct_conf c = Stale) (hits cs key) \<longleftrightarrow>
      list_ex (\<lambda>c. ct_prov c = Server \<and> assign_confidence modified Server (ct_value c) = Stale) (hits cs key)"
    using sub assms(2) by (fastforce simp: list_ex_iff)
  let ?h = "hd (hits cs key)"
  have h: "?h \<in> set cs" using hd sub by blast
  have "list_ex (\<lambda>c. ct_prov c = Server \<and> ct_conf c = Stale) (hits cs key)" if stale: "ct_conf ?h = Stale"
  proof -
    from assms(2) [OF h] stale local_never_stale have "ct_prov ?h = Server" by (metis insertE singletonD)
    with stale hd show ?thesis by (auto simp: list_ex_iff)
  qed
  then show ?thesis unfolding ex [symmetric] by (auto simp: fused_def)
qed

section \<open>Properties\<close>

text \<open>
  C6. The merge is the fusion of its two tiers: it has exactly one row per identity that occurs in
  either tier and one per row without an identity, nothing else and nothing lost. The row of an
  identity carries the content of its first occurrence, the local tier before the upstream's, the
  provenance both exactly when it starts locally and the upstream has it too, and as score the sum of
  the weighted reciprocal ranks of all its occurrences. Scores descend.
\<close>

theorem merge_is_fusion:
  assumes "\<And>scored. mset (iter scored) = mset scored"
    and "cs = tier_contributions D mappings (\<lambda>_. infer_confidence) k w local server"
    and "rows = rrf_merge_weighted_mapped D iter show_json local server k w mappings"
  shows "mset rows = image_mset (fused False cs) (mset_set (keys_of cs)) +
      image_mset lone (mset (filter (\<lambda>c. ct_id c = None) cs)) \<and>
    sorted_wrt (\<lambda>a b. mr_score b \<le> mr_score a) rows"
proof -
  obtain scored unkeyed where st: "fold (absorb False) cs ([], []) = (scored, unkeyed)" by fastforce
  then have "fused_state False cs (scored, unkeyed)" using fused_state_tiers assms(2) by metis
  moreover have "rows = finalize_ordering iter show_json scored unkeyed"
    using st by (simp add: assms weighted_as_fold)
  ultimately show ?thesis
    using mset_fused_state [of False cs scored unkeyed] mset_finalize_ordering [of iter scored show_json unkeyed]
    by (simp add: assms(1) finalize_ordering_sorted)
qed

text \<open>One note in both tiers, and a row without an identity upstream.\<close>

theorem merge_is_fusion_witness:
  "let note = JObject [(''uid'', JString ''note:vlt:s:000000000001:00000000000b'')];
       cs = tier_contributions (\<lambda>_. 0) [] (\<lambda>_. infer_confidence) 60 (3 / 2) [note] [note, JNull]
   in mset (rrf_merge_weighted_mapped (\<lambda>_. 0) rev (\<lambda>_. []) [note] [note, JNull] 60 (3 / 2) []) =
      image_mset (fused False cs) (mset_set (keys_of cs)) + image_mset lone (mset (filter (\<lambda>c. ct_id c = None) cs))"
  unfolding Let_def by (rule merge_is_fusion [THEN conjunct1, OF _ refl refl]) simp

text \<open>
  Staleness: in the merge that knows the locally modified files, a row is marked stale exactly when
  the upstream returned its identity for a file modified locally.
\<close>

theorem modified_merge_marks_stale:
  assumes "\<And>scored. mset (iter scored) = mset scored"
    and "cs = tier_contributions D [] (assign_confidence modified) RRF_K LOCAL_WEIGHT local server"
    and "rows = rrf_merge_with_modified D iter show_json modified local server"
  shows "mset rows = image_mset (fused True cs) (mset_set (keys_of cs)) +
      image_mset lone (mset (filter (\<lambda>c. ct_id c = None) cs)) \<and>
    (key \<in> keys_of cs \<longrightarrow>
      (mr_confidence (fused True cs key) = Stale \<longleftrightarrow>
        list_ex (\<lambda>c. ct_prov c = Server \<and> assign_confidence modified Server (ct_value c) = Stale) (hits cs key)))"
proof -
  obtain scored unkeyed where st: "fold (absorb True) cs ([], []) = (scored, unkeyed)" by fastforce
  then have "fused_state True cs (scored, unkeyed)" using fused_state_tiers assms(2) by metis
  moreover have "rows = finalize_ordering iter show_json scored unkeyed"
    using st by (simp add: assms modified_as_fold)
  moreover have "mr_confidence (fused True cs key) = Stale \<longleftrightarrow>
      list_ex (\<lambda>c. ct_prov c = Server \<and> assign_confidence modified Server (ct_value c) = Stale) (hits cs key)" if "key \<in> keys_of cs"
    using fused_stale [OF that, of modified] by (force simp: assms(2) tier_contributions_def contributions_def)
  ultimately show ?thesis
    using mset_fused_state [of True cs scored unkeyed] mset_finalize_ordering [of iter scored show_json unkeyed]
    by (simp add: assms(1))
qed

text \<open>A row whose file is modified locally is stale.\<close>

theorem modified_merge_marks_stale_witness:
  "let row = JObject [(''uid'', JString ''note:vlt:s:000000000001:00000000000b''), (''file'', JString ''a.rs'')];
       cs = tier_contributions (\<lambda>_. 0) [] (assign_confidence {''a.rs''}) RRF_K LOCAL_WEIGHT [row] [row]
   in mr_confidence (fused True cs (the (ct_key (hd cs)))) = Stale"
proof -
  let ?row = "JObject [(''uid'', JString ''note:vlt:s:000000000001:00000000000b''), (''file'', JString ''a.rs'')]"
  let ?cs = "tier_contributions (\<lambda>_. 0) [] (assign_confidence {''a.rs''}) RRF_K LOCAL_WEIGHT [?row] [?row]"
  have "the (ct_key (hd ?cs)) \<in> keys_of ?cs"
    "list_ex (\<lambda>c. ct_prov c = Server \<and> assign_confidence {''a.rs''} Server (ct_value c) = Stale) (hits ?cs (the (ct_key (hd ?cs))))"
    by code_simp+
  with modified_merge_marks_stale [of rev ?cs "\<lambda>_. 0" "{''a.rs''}" "[?row]" "[?row]" _ "\<lambda>_. []" "the (ct_key (hd ?cs))", OF _ refl refl]
  show ?thesis unfolding Let_def by simp
qed

text \<open>
  The order of a merge is deterministic: for whatever order the hash map hands out its entries the
  rows come out the same, provided no identity contains the separator of the tiebreaker.
\<close>

theorem merge_order_deterministic:
  assumes "\<And>scored. mset (iter scored) = mset scored" "\<And>scored. mset (iter' scored) = mset scored"
    and "list_all (\<lambda>c. case ct_id c of Some i \<Rightarrow> separable i | None \<Rightarrow> True)
      (tier_contributions D mappings (\<lambda>_. infer_confidence) k w local server)"
  shows "rrf_merge_weighted_mapped D iter show_json local server k w mappings =
    rrf_merge_weighted_mapped D iter' show_json local server k w mappings"
  unfolding weighted_as_fold case_prod_beta
proof (rule finalize_tiers_permute)
  show "\<And>c i. c \<in> set (tier_contributions D mappings (\<lambda>_. infer_confidence) k w local server) \<Longrightarrow> ct_id c = Some i \<Longrightarrow> separable i"
    using assms(3) by (force simp: list_all_iff)
qed (simp_all add: assms)

theorem merge_order_deterministic_witness:
  "let rows = [JObject [(''uid'', JString ''note:vlt:s:000000000001:00000000000b'')], JObject [(''name'', JString ''f''), (''file'', JString ''a.rs'')]]
   in rrf_merge_weighted_mapped (\<lambda>_. 0) rev (\<lambda>_. []) rows (rev rows) 60 1 [] =
      rrf_merge_weighted_mapped (\<lambda>_. 0) id (\<lambda>_. []) rows (rev rows) 60 1 []"
proof -
  let ?rows = "[JObject [(''uid'', JString ''note:vlt:s:000000000001:00000000000b'')], JObject [(''name'', JString ''f''), (''file'', JString ''a.rs'')]]"
  have "list_all (\<lambda>c. case ct_id c of Some i \<Rightarrow> separable i | None \<Rightarrow> True)
      (tier_contributions (\<lambda>_. 0) [] (\<lambda>_. infer_confidence) 60 1 ?rows (rev ?rows))" by code_simp
  then show ?thesis unfolding Let_def by (intro merge_order_deterministic) simp_all
qed

text \<open>
  The tiebreaker is not injective: two different identities whose parts contain its separator have
  the same one, so rows with equal scores come out in the order of the hash map.
\<close>

theorem tiebreaker_collision:
  "\<exists>v w. map_option id_key (extract_identity D v) \<noteq> map_option id_key (extract_identity D w) \<and>
     map_option identity_tiebreaker (extract_identity D v) = map_option identity_tiebreaker (extract_identity D w)"
proof (intro exI conjI)
  let ?v = "JObject [(''name'', JString [unit_separator]), (''file'', JString ''a''), (''repo'', JString ''r''), (''scope'', JString ''x'')]"
  let ?w = "JObject [(''name'', JString []), (''file'', JString [CHR ''a'', unit_separator]), (''repo'', JString ''r''), (''scope'', JString ''x'')]"
  show "map_option id_key (extract_identity D ?v) \<noteq> map_option id_key (extract_identity D ?w)"
    by (simp add: extract_identity_def id_key_def file_path_of_def get_str_def)
  show "map_option identity_tiebreaker (extract_identity D ?v) = map_option identity_tiebreaker (extract_identity D ?w)"
    by (simp add: extract_identity_def identity_tiebreaker_def file_path_of_def get_str_def start_line_of_def
        scope_of_def compute_scope_hash_def)
qed

text \<open>
  Every tool that changes state is routed to the local daemon only: no mutation is ever sent to an
  upstream.
\<close>

theorem mutating_tools_stay_local:
  "mutating_tool_hints name = None \<or> tool_routing name = LocalOnly"
  by (auto simp: mutating_tool_hints_def MUTATING_TOOL_HINTS_def tool_routing_def)

end
