(* ===== verification/Fed_Health.thy ===== *)
theory Fed_Health
  imports Complex_Main Repo_Url Fed_Identity
begin

text \<open>
  Upstream servers: configuration (\<^verbatim>\<open>crates/nestweaver-federation/src/discovery.rs\<close>), the runtime handle
  with its health state and latency estimates (\<^verbatim>\<open>upstream.rs\<close>), and the health policy
  (\<^verbatim>\<open>health.rs\<close>): ejection under a cap, recovery by probes, the adaptive deadline, and the staleness
  comparison of repository states.

  Durations are nanoseconds, clock readings milliseconds, latency estimates exact rationals in
  milliseconds where the code has \<^verbatim>\<open>f64\<close>. The ejection guard makes the recount, the decision and the
  mark-down one step; probes and successes are steps of their own, so a run of the fleet is a list of
  steps in any order. The environment, the file system, TLS and the RPC transport are not modelled.
\<close>

section \<open>Health of one upstream\<close>

definition EJECTION_BASE_MS :: nat where "EJECTION_BASE_MS = 30000"

definition EJECTION_CAP_MS :: nat where "EJECTION_CAP_MS = 300000"

definition RISE_THRESHOLD :: nat where "RISE_THRESHOLD = 2"

definition MAX_EJECTION_PERCENT :: nat where "MAX_EJECTION_PERCENT = 50"

definition u64_max :: nat where "u64_max = 2 ^ 64 - 1"

definition ejection_backoff_ms :: "u32 \<Rightarrow> nat" where
  "ejection_backoff_ms ejection_count =
     min (min u64_max (EJECTION_BASE_MS * max (unat ejection_count) 1)) EJECTION_CAP_MS"

definition ejection_cap :: "nat \<Rightarrow> nat \<Rightarrow> nat" where
  "ejection_cap upstreams max_percent = max (min u64_max (upstreams * max_percent) div 100) 1"

definition can_eject :: "nat \<Rightarrow> nat \<Rightarrow> nat \<Rightarrow> bool" where
  "can_eject upstreams currently_ejected max_percent \<longleftrightarrow> currently_ejected < ejection_cap upstreams max_percent"

datatype probe_outcome = Recovered | Improving | StillDown

record health_state =
  healthy :: bool
  ejection_count :: u32
  rise :: u32
  ejected_until_ms :: nat

definition new_health :: health_state where
  "new_health = \<lparr>healthy = True, ejection_count = 0, rise = 0, ejected_until_ms = 0\<rparr>"

definition mark_down :: "nat \<Rightarrow> health_state \<Rightarrow> health_state" where
  "mark_down now_ms h =
     (let count = ejection_count h + 1
      in h\<lparr>healthy := False, rise := 0, ejection_count := count,
           ejected_until_ms := min u64_max (now_ms + ejection_backoff_ms count)\<rparr>)"

definition mark_up :: "health_state \<Rightarrow> health_state" where
  "mark_up h = h\<lparr>healthy := True, ejection_count := 0, rise := 0, ejected_until_ms := 0\<rparr>"

definition probe_due :: "nat \<Rightarrow> health_state \<Rightarrow> bool" where
  "probe_due now_ms h \<longleftrightarrow> \<not> healthy h \<and> ejected_until_ms h \<le> now_ms"

definition apply_probe_result :: "nat \<Rightarrow> bool \<Rightarrow> health_state \<Rightarrow> probe_outcome \<times> health_state" where
  "apply_probe_result now_ms success h =
     (if success then
        (let r = rise h + 1
         in if RISE_THRESHOLD \<le> unat r then (Recovered, mark_up h)
            else (Improving, h\<lparr>rise := r\<rparr>))
      else
        (let count = ejection_count h + 1
         in (StillDown, h\<lparr>rise := 0, ejection_count := count,
                          ejected_until_ms := min u64_max (now_ms + ejection_backoff_ms count)\<rparr>)))"

section \<open>Latency estimates\<close>

text \<open>An estimate of zero is the cold-start mark.\<close>

record latency_cell =
  ewma :: rat
  streak :: u32

definition cold_cell :: latency_cell where
  "cold_cell = \<lparr>ewma = 0, streak = 0\<rparr>"

definition LATENCY_EWMA_ALPHA :: rat where "LATENCY_EWMA_ALPHA = 1 / 5"

definition ewma_ms :: "latency_cell \<Rightarrow> rat option" where
  "ewma_ms c = (if ewma c = 0 then None else Some (ewma c))"

definition as_millis :: "nat \<Rightarrow> rat" where
  "as_millis ns = of_nat ns / 1000000"

definition learn_timeout_into :: "nat \<Rightarrow> latency_cell \<Rightarrow> latency_cell" where
  "learn_timeout_into deadline c =
     (if (case ewma_ms c of Some e \<Rightarrow> e | None \<Rightarrow> 0) < as_millis deadline then c\<lparr>ewma := as_millis deadline\<rparr> else c)"

definition record_latency_into :: "nat \<Rightarrow> latency_cell \<Rightarrow> latency_cell" where
  "record_latency_into observed c =
     c\<lparr>ewma := (if ewma c = 0 then as_millis observed
                else LATENCY_EWMA_ALPHA * as_millis observed + (1 - LATENCY_EWMA_ALPHA) * ewma c),
       streak := 0\<rparr>"

section \<open>The handle\<close>

datatype routing_mode = Fallback | ModeMerge | Primary

datatype query_outcome = QSkipped | QSuccess | QTimeout | QRejected | QUnavailable

record upstream_config =
  uc_name :: "string option"
  uc_url :: string
  uc_token :: "string option"
  uc_mode :: routing_mode
  uc_repos :: "string list"
  uc_timeout :: string
  uc_ca_cert :: "string option"
  uc_fallback_timeout :: "string option"
  uc_vault_mappings :: vault_mappings

record upstream_handle =
  uh_name :: string
  uh_connected :: bool
  uh_query_outcome :: query_outcome
  uh_mode :: routing_mode
  uh_timeout :: nat
  uh_fallback_cap :: nat
  uh_health :: health_state
  uh_latency :: latency_cell
  uh_tools :: "(string \<times> latency_cell) list"

definition is_healthy :: "upstream_handle \<Rightarrow> bool" where
  "is_healthy u = healthy (uh_health u)"

definition mark_unhealthy :: "nat \<Rightarrow> upstream_handle \<Rightarrow> upstream_handle" where
  "mark_unhealthy now_ms u = u\<lparr>uh_connected := False, uh_health := mark_down now_ms (uh_health u)\<rparr>"

definition record_query_outcome :: "query_outcome \<Rightarrow> upstream_handle \<Rightarrow> upstream_handle" where
  "record_query_outcome outcome u = u\<lparr>uh_query_outcome := outcome\<rparr>"

definition record_latency :: "nat \<Rightarrow> upstream_handle \<Rightarrow> upstream_handle" where
  "record_latency observed u =
     (record_query_outcome QSuccess u)\<lparr>uh_latency := record_latency_into observed (uh_latency u)\<rparr>"

definition tool_latency_ewma_ms :: "string \<Rightarrow> upstream_handle \<Rightarrow> rat option" where
  "tool_latency_ewma_ms tool u = Option.bind (map_of (uh_tools u) tool) ewma_ms"

text \<open>\<^verbatim>\<open>entry(tool).or_default()\<close> and an update of the cell.\<close>

definition tool_latency_cell :: "string \<Rightarrow> upstream_handle \<Rightarrow> latency_cell" where
  "tool_latency_cell tool u = (case map_of (uh_tools u) tool of Some c \<Rightarrow> c | None \<Rightarrow> cold_cell)"

definition put_tool_cell :: "string \<Rightarrow> latency_cell \<Rightarrow> upstream_handle \<Rightarrow> upstream_handle" where
  "put_tool_cell tool c u = u\<lparr>uh_tools := (tool, c) # filter (\<lambda>(t, _). t \<noteq> tool) (uh_tools u)\<rparr>"

definition reset_timeout_streak :: "upstream_handle \<Rightarrow> upstream_handle" where
  "reset_timeout_streak u = u\<lparr>uh_latency := (uh_latency u)\<lparr>streak := 0\<rparr>\<rparr>"

definition record_tool_latency :: "string \<Rightarrow> nat \<Rightarrow> upstream_handle \<Rightarrow> upstream_handle" where
  "record_tool_latency tool observed u =
     record_query_outcome QSuccess (reset_timeout_streak
       (put_tool_cell tool (record_latency_into observed (tool_latency_cell tool u)) u))"

definition bump_streak :: "bool \<Rightarrow> upstream_handle \<Rightarrow> u32 \<times> upstream_handle" where
  "bump_streak at_ceiling u =
     (if at_ceiling then
        (let s = streak (uh_latency u) + 1 in (s, u\<lparr>uh_latency := (uh_latency u)\<lparr>streak := s\<rparr>\<rparr>))
      else (0, u))"

definition record_tool_timeout :: "string \<Rightarrow> nat \<Rightarrow> bool \<Rightarrow> upstream_handle \<Rightarrow> u32 \<times> upstream_handle" where
  "record_tool_timeout tool deadline at_ceiling u =
     bump_streak at_ceiling (put_tool_cell tool (learn_timeout_into deadline (tool_latency_cell tool u)) u)"

definition record_timeout :: "nat \<Rightarrow> bool \<Rightarrow> upstream_handle \<Rightarrow> u32 \<times> upstream_handle" where
  "record_timeout deadline at_ceiling u =
     bump_streak at_ceiling (u\<lparr>uh_latency := learn_timeout_into deadline (uh_latency u)\<rparr>)"

definition normalize_url :: "string \<Rightarrow> string" where
  "normalize_url url =
     (if prefix ''http://'' url \<or> prefix ''https://'' url then url
      else case strip_prefix ''grpcs://'' url of
        Some rest \<Rightarrow> ''https://'' @ rest
      | None \<Rightarrow> (case strip_prefix ''grpc://'' url of Some rest \<Rightarrow> ''http://'' @ rest | None \<Rightarrow> ''http://'' @ url))"

definition DEFAULT_FALLBACK_CAP :: nat where "DEFAULT_FALLBACK_CAP = 200000000"

section \<open>Deadlines\<close>

definition TIMEOUT_FLOOR :: nat where "TIMEOUT_FLOOR = 50000000"

definition TIMEOUT_K :: rat where "TIMEOUT_K = 7 / 4"

definition CEILING_TIMEOUTS_TO_EJECT :: nat where "CEILING_TIMEOUTS_TO_EJECT = 2"

definition mode_ceiling :: "routing_mode \<Rightarrow> upstream_handle \<Rightarrow> nat" where
  "mode_ceiling mode u = (case mode of Fallback \<Rightarrow> uh_fallback_cap u | _ \<Rightarrow> uh_timeout u)"

definition deadline_from_latency :: "nat \<Rightarrow> rat option \<Rightarrow> nat" where
  "deadline_from_latency limit estimate =
     (case estimate of
        None \<Rightarrow> limit
      | Some ms \<Rightarrow>
          (let scaled = nat (round (max (TIMEOUT_K * ms) 0 * 1000000))
           in min (max scaled (min TIMEOUT_FLOOR limit)) limit))"

definition effective_timeout :: "routing_mode \<Rightarrow> upstream_handle \<Rightarrow> nat" where
  "effective_timeout mode u = deadline_from_latency (mode_ceiling mode u) (ewma_ms (uh_latency u))"

definition effective_timeout_for_tool :: "routing_mode \<Rightarrow> upstream_handle \<Rightarrow> string \<Rightarrow> nat" where
  "effective_timeout_for_tool mode u tool = deadline_from_latency (mode_ceiling mode u) (tool_latency_ewma_ms tool u)"

section \<open>The fleet\<close>

text \<open>gRPC status codes; only two mean that the server is down.\<close>

datatype grpc_code =
  Ok | Cancelled | Unknown | InvalidArgument | DeadlineExceeded | NotFound | AlreadyExists | PermissionDenied
| ResourceExhausted | FailedPrecondition | Aborted | OutOfRange | Unimplemented | Internal | Unavailable | DataLoss
| Unauthenticated

definition code_is_down :: "grpc_code \<Rightarrow> bool" where
  "code_is_down c \<longleftrightarrow> c = Unavailable \<or> c = DeadlineExceeded"

text \<open>An error by the first gRPC status of its chain, if any.\<close>

definition is_upstream_down :: "grpc_code option \<Rightarrow> bool" where
  "is_upstream_down status = (case status of Some c \<Rightarrow> code_is_down c | None \<Rightarrow> True)"

type_synonym fleet = "upstream_handle list"

definition ejected :: "fleet \<Rightarrow> nat" where
  "ejected all = length (filter (\<lambda>u. \<not> is_healthy u) all)"

definition eject_with_cap :: "nat \<Rightarrow> nat \<Rightarrow> fleet \<Rightarrow> fleet" where
  "eject_with_cap now_ms i all =
     (if can_eject (length all) (ejected all) MAX_EJECTION_PERCENT
      then all[i := mark_unhealthy now_ms (all ! i)] else all)"

definition handle_timeout_for_tool :: "routing_mode \<Rightarrow> nat \<Rightarrow> nat \<Rightarrow> string option \<Rightarrow> nat \<Rightarrow> fleet \<Rightarrow> fleet" where
  "handle_timeout_for_tool mode now_ms i tool deadline all =
     (let u = all ! i;
          at_ceiling = (mode_ceiling mode u \<le> deadline);
          (s, u') = (case tool of Some t \<Rightarrow> record_tool_timeout t deadline at_ceiling u
                     | None \<Rightarrow> record_timeout deadline at_ceiling u)
      in if CEILING_TIMEOUTS_TO_EJECT \<le> unat s
         then eject_with_cap now_ms i (all[i := reset_timeout_streak u'])
         else all[i := u'])"

text \<open>
  One step of the routed queries and of the maintenance task on the upstream with a given index: a
  query succeeded, failed with an error, or missed its deadline, or a tick of the recovery task ran,
  which probes an upstream only when its probe is due.
\<close>

datatype fleet_event =
  QuerySucceeded string nat
| QueryFailed "grpc_code option"
| QueryTimedOut string
| ProbeTick bool

definition fleet_step :: "nat \<times> nat \<times> fleet_event \<Rightarrow> fleet \<Rightarrow> fleet" where
  "fleet_step = (\<lambda>(now_ms, i, event) all.
     if i < length all then
       (case event of
          QuerySucceeded tool observed \<Rightarrow> all[i := record_tool_latency tool observed (all ! i)]
        | QueryFailed status \<Rightarrow>
            (let all' = all[i := record_query_outcome (if is_upstream_down status then QUnavailable else QRejected) (all ! i)]
             in if is_upstream_down status then eject_with_cap now_ms i all' else all')
        | QueryTimedOut tool \<Rightarrow>
            (let all' = all[i := record_query_outcome QTimeout (all ! i)]
             in handle_timeout_for_tool (uh_mode (all ! i)) now_ms i (Some tool)
                  (effective_timeout_for_tool (uh_mode (all ! i)) (all ! i) tool) all')
        | ProbeTick success \<Rightarrow>
            (if probe_due now_ms (uh_health (all ! i))
             then all[i := (all ! i)\<lparr>uh_health := snd (apply_probe_result now_ms success (uh_health (all ! i)))\<rparr>]
             else all))
     else all)"

section \<open>Staleness\<close>

definition local_checkout_path :: "string \<Rightarrow> string option" where
  "local_checkout_path local_url =
     (let path = (case strip_prefix ''file://'' local_url of Some p \<Rightarrow> p | None \<Rightarrow> local_url)
      in if prefix ''/'' path then Some path else None)"

text \<open>The loop over the path-only checkouts with the leaf name: none, one, or ambiguous.\<close>

fun unique_leaf :: "string \<Rightarrow> (string \<times> string) list \<Rightarrow> (string \<times> string) option \<Rightarrow> (string \<times> string) option" where
  "unique_leaf server_name [] found = found"
| "unique_leaf server_name ((local_url, sha) # states) found =
     (if local_checkout_path local_url = None then unique_leaf server_name states found
      else case repo_name local_url of
        None \<Rightarrow> unique_leaf server_name states found
      | Some local_name \<Rightarrow>
          if to_ascii_lowercase local_name = to_ascii_lowercase server_name then
            (if found \<noteq> None then None else unique_leaf server_name states (Some (local_url, sha)))
          else unique_leaf server_name states found)"

definition local_entry_for_server_repo :: "(string \<times> string) list \<Rightarrow> string \<Rightarrow> (string \<times> string) option" where
  "local_entry_for_server_repo local_states server_repo_url =
     (case find (\<lambda>(url, _). url = server_repo_url) local_states of
        Some entry \<Rightarrow> Some entry
      | None \<Rightarrow>
     (case find (\<lambda>(url, _). normalized_repo_key url = normalized_repo_key server_repo_url) local_states of
        Some entry \<Rightarrow> Some entry
      | None \<Rightarrow>
     (case repo_name server_repo_url of
        None \<Rightarrow> None
      | Some server_name \<Rightarrow> unique_leaf server_name local_states None)))"

text \<open>
  \<open>in_history path server_sha local_sha\<close> stands for \<^verbatim>\<open>git merge-base --is-ancestor\<close> in the checkout.
\<close>

definition local_is_behind :: "(string \<Rightarrow> string \<Rightarrow> string \<Rightarrow> bool) \<Rightarrow> string \<Rightarrow> string option \<Rightarrow> string \<Rightarrow> string \<Rightarrow> bool" where
  "local_is_behind in_history local_url checkout_path local_sha server_sha =
     (let unknown = (\<lambda>sha. sha = [] \<or> sha = ''local'')
      in if unknown server_sha \<or> unknown local_sha \<or> local_sha = server_sha then False
         else case or_else (Option.bind checkout_path local_checkout_path) (local_checkout_path local_url) of
           Some path \<Rightarrow> \<not> in_history path server_sha local_sha
         | None \<Rightarrow> True)"

text \<open>
  An upstream's answer to the repository-states request is none when the call failed or ran out of
  time; an upstream out of rotation is not asked.
\<close>

definition compute_stale_repos :: "(string \<Rightarrow> string \<Rightarrow> string \<Rightarrow> bool) \<Rightarrow> (string \<times> string) list \<Rightarrow> (string \<rightharpoonup> string) \<Rightarrow>
    (bool \<times> (string \<times> string) list option) list \<Rightarrow> string list" where
  "compute_stale_repos in_history local_states checkout_paths probes =
     concat (map (\<lambda>(up, answer).
       if up then
         (case answer of
            None \<Rightarrow> []
          | Some repos \<Rightarrow>
              concat (map (\<lambda>(repo_url, indexed_sha).
                case local_entry_for_server_repo local_states repo_url of
                  Some (local_url, local_sha) \<Rightarrow>
                    if local_is_behind in_history local_url (checkout_paths local_url) local_sha indexed_sha then [repo_url] else []
                | None \<Rightarrow> []) repos))
       else []) probes)"

section \<open>Configured upstreams\<close>

text \<open>
  The contents of the configuration files are parameters: \<open>server_tomls\<close> what the server files of the
  start directory and its ancestors parse to (none where there is no readable file), \<open>user\<close> the
  entries of the user's file, \<open>config\<close> those of the instance file; \<open>env\<close> is the environment.
\<close>

definition expand_env :: "(string \<rightharpoonup> string) \<Rightarrow> string \<Rightarrow> string" where
  "expand_env env s =
     (case Option.bind (strip_prefix ''${'' s) (strip_suffix ''}'') of
        Some var \<Rightarrow> (case env var of Some v \<Rightarrow> v | None \<Rightarrow> s)
      | None \<Rightarrow> s)"

definition expand_config_token :: "(string \<rightharpoonup> string) \<Rightarrow> upstream_config \<Rightarrow> upstream_config" where
  "expand_config_token env c = c\<lparr>uc_token := map_option (expand_env env) (uc_token c)\<rparr>"

definition env_upstream :: "(string \<rightharpoonup> string) \<Rightarrow> string \<Rightarrow> upstream_config" where
  "env_upstream env url =
     \<lparr>uc_name = Some ''env'', uc_url = url, uc_token = env ''NESTWEAVER_TOKEN'', uc_mode = Fallback, uc_repos = [],
      uc_timeout = ''1s'',
      uc_ca_cert = (case env ''NESTWEAVER_CA_CERT'' of Some p \<Rightarrow> if trim p = [] then None else Some p | None \<Rightarrow> None),
      uc_fallback_timeout = None, uc_vault_mappings = []\<rparr>"

fun find_server_toml :: "(string \<rightharpoonup> string) \<Rightarrow> upstream_config option list \<Rightarrow> upstream_config option" where
  "find_server_toml env [] = None"
| "find_server_toml env (Some section # dirs) =
     Some (expand_config_token env (section\<lparr>uc_name := None, uc_repos := []\<rparr>))"
| "find_server_toml env (None # dirs) = find_server_toml env dirs"

definition discover_upstreams :: "(string \<rightharpoonup> string) \<Rightarrow> upstream_config option list \<Rightarrow> upstream_config list option \<Rightarrow> upstream_config list" where
  "discover_upstreams env server_tomls user =
     (case env ''NESTWEAVER_UPSTREAM'' of
        Some url \<Rightarrow> [env_upstream env url]
      | None \<Rightarrow>
     (case find_server_toml env server_tomls of
        Some cfg \<Rightarrow> [cfg]
      | None \<Rightarrow> (case user of Some configs \<Rightarrow> configs | None \<Rightarrow> [])))"

definition discover_upstreams_with_config :: "(string \<rightharpoonup> string) \<Rightarrow> upstream_config option list \<Rightarrow> upstream_config list option \<Rightarrow>
    upstream_config list option \<Rightarrow> upstream_config list" where
  "discover_upstreams_with_config env server_tomls user config =
     (let standard = discover_upstreams env server_tomls user;
          existing_urls = uc_url ` set standard
      in map (expand_config_token env)
           (standard @ (case config of None \<Rightarrow> [] | Some entries \<Rightarrow> filter (\<lambda>e. uc_url e \<notin> existing_urls) entries)))"

fun save_upstream_in :: "upstream_config \<Rightarrow> upstream_config list \<Rightarrow> upstream_config list" where
  "save_upstream_in config [] = [config]"
| "save_upstream_in config (u # us) = (if uc_url u = uc_url config then config # us else u # save_upstream_in config us)"

section \<open>The cap and the recovery\<close>

lemmas fleet_defs = fleet_step_def eject_with_cap_def handle_timeout_for_tool_def

text \<open>A healthy upstream has a clean record; an ejected one is at most one good probe on its way back.\<close>

definition health_ok :: "health_state \<Rightarrow> bool" where
  "health_ok h \<longleftrightarrow> (if healthy h then h = new_health else unat (rise h) < RISE_THRESHOLD)"

definition handle_ok :: "upstream_handle \<Rightarrow> bool" where
  "handle_ok u \<longleftrightarrow> health_ok (uh_health u) \<and> unat (streak (uh_latency u)) < CEILING_TIMEOUTS_TO_EJECT"

definition fleet_ok :: "fleet \<Rightarrow> bool" where
  "fleet_ok all \<longleftrightarrow> list_all handle_ok all \<and> ejected all \<le> ejection_cap (length all) MAX_EJECTION_PERCENT"

definition health_kept :: "upstream_handle \<Rightarrow> upstream_handle \<Rightarrow> bool" where
  "health_kept u u' \<longleftrightarrow> uh_health u' = uh_health u"

lemma health_kept_simps [simp]:
  "uh_health (record_query_outcome q u) = uh_health u"
  "uh_health (reset_timeout_streak u) = uh_health u"
  "uh_health (put_tool_cell t c u) = uh_health u"
  "uh_health (record_tool_latency t d u) = uh_health u"
  "uh_health (snd (bump_streak b u)) = uh_health u"
  "uh_health (snd (record_tool_timeout t d b u)) = uh_health u"
  by (simp_all add: record_query_outcome_def reset_timeout_streak_def put_tool_cell_def record_tool_latency_def
      bump_streak_def record_tool_timeout_def Let_def)

lemma ejected_update: "i < length all \<Longrightarrow> is_healthy u' = is_healthy (all ! i) \<Longrightarrow> ejected (all[i := u']) = ejected all"
  by (induction all arbitrary: i) (auto simp: ejected_def less_Suc_eq_0_disj split: nat.splits)

lemma ejected_up: "is_healthy u' \<Longrightarrow> ejected (all[i := u']) \<le> ejected all"
proof (induction all arbitrary: i)
  case (Cons u all)
  then show ?case by (cases i) (auto simp: ejected_def)
qed simp

lemma ejected_down: "ejected (all[i := u']) \<le> ejected all + 1"
proof (induction all arbitrary: i)
  case (Cons u all)
  then show ?case by (cases i) (auto simp: ejected_def)
qed simp

lemma new_health_ok [simp]: "health_ok new_health" "healthy new_health"
  by (simp_all add: health_ok_def new_health_def)

lemma health_ok_down: "health_ok (mark_down now h)" "\<not> healthy (mark_down now h)"
  by (simp_all add: health_ok_def mark_down_def Let_def RISE_THRESHOLD_def)

lemma mark_up_new [simp]: "mark_up h = new_health"
  by (simp add: mark_up_def new_health_def)

lemma health_ok_probe: "health_ok h \<Longrightarrow> \<not> healthy h \<Longrightarrow> health_ok (snd (apply_probe_result now ok h))"
  by (auto simp: health_ok_def apply_probe_result_def Let_def RISE_THRESHOLD_def)

lemma list_all_update: "list_all P xs \<Longrightarrow> P x \<Longrightarrow> list_all P (xs[i := x])"
  by (auto simp: list_all_iff dest!: set_update_subset_insert [THEN subsetD])

lemma eject_ok:
  assumes "fleet_ok all" "i < length all" "unat (streak (uh_latency (all ! i))) < CEILING_TIMEOUTS_TO_EJECT"
  shows "fleet_ok (eject_with_cap now i all)" and "length (eject_with_cap now i all) = length all"
proof -
  have "handle_ok (mark_unhealthy now (all ! i))"
    using assms(3) by (simp add: handle_ok_def mark_unhealthy_def health_ok_down)
  with assms ejected_down [of all i "mark_unhealthy now (all ! i)"]
  show "fleet_ok (eject_with_cap now i all)"
    by (auto simp: fleet_ok_def eject_with_cap_def can_eject_def list_all_update)
  show "length (eject_with_cap now i all) = length all" by (simp add: eject_with_cap_def)
qed

lemma fleet_ok_update:
  assumes "fleet_ok all" "i < length all" "handle_ok u'" "is_healthy (all ! i) \<Longrightarrow> is_healthy u'"
  shows "fleet_ok (all[i := u'])"
proof -
  have "ejected (all[i := u']) \<le> ejected all"
  proof (cases "is_healthy u'")
    case True
    then show ?thesis by (rule ejected_up)
  next
    case False
    then have "is_healthy u' = is_healthy (all ! i)" using assms(4) by blast
    with assms(2) show ?thesis by (simp add: ejected_update)
  qed
  with assms show ?thesis by (auto simp: fleet_ok_def list_all_update)
qed

text \<open>The steps, one at a time.\<close>

lemma bump_streak_streak:
  "unat (streak (uh_latency u)) < 2 \<Longrightarrow>
   unat (fst (bump_streak b u)) = (if b then unat (streak (uh_latency u)) + 1 else 0) \<and>
   unat (streak (uh_latency (snd (bump_streak b u)))) = unat (streak (uh_latency u)) + (if b then 1 else 0)"
proof -
  assume "unat (streak (uh_latency u)) < 2"
  then have "unat (streak (uh_latency u) + 1) = unat (streak (uh_latency u)) + 1"
    by (subst unat_add_lem [THEN iffD1]) (simp_all add: less_imp_le)
  then show ?thesis by (simp add: bump_streak_def Let_def)
qed

lemma streak_put_tool [simp]: "uh_latency (put_tool_cell t c u) = uh_latency u" "uh_latency (record_query_outcome q u) = uh_latency u"
  by (simp_all add: put_tool_cell_def record_query_outcome_def)

lemma streak_reset [simp]: "streak (uh_latency (reset_timeout_streak u)) = 0"
  by (simp add: reset_timeout_streak_def)

text \<open>A timed-out query: what is learned, and when it leads to an ejection.\<close>

definition missed_ceiling :: "string \<Rightarrow> upstream_handle \<Rightarrow> bool" where
  "missed_ceiling tool u \<longleftrightarrow> mode_ceiling (uh_mode u) u \<le> effective_timeout_for_tool (uh_mode u) u tool"

definition timed_out_handle :: "string \<Rightarrow> upstream_handle \<Rightarrow> upstream_handle" where
  "timed_out_handle tool u = snd (record_tool_timeout tool (effective_timeout_for_tool (uh_mode u) u tool) (missed_ceiling tool u)
     (record_query_outcome QTimeout u))"

lemma timed_out_health [simp]: "uh_health (timed_out_handle tool u) = uh_health u"
  by (simp add: timed_out_handle_def)

lemma unat_less_two: "unat (s :: u32) < 2 \<Longrightarrow> s = 0 \<or> s = 1"
proof -
  assume "unat s < 2"
  then have "unat s = 0 \<or> unat s = 1" by linarith
  then show ?thesis by (metis unat_0 unat_1 unsigned_word_eqI)
qed

lemma timed_out_streak:
  "unat (streak (uh_latency u)) < 2 \<Longrightarrow> unat (streak (uh_latency (timed_out_handle tool u))) =
     unat (streak (uh_latency u)) + (if missed_ceiling tool u then 1 else 0)"
  using bump_streak_streak [of "put_tool_cell t c (record_query_outcome QTimeout u)" for t c]
  by (simp add: timed_out_handle_def record_tool_timeout_def)

lemma timed_out_step:
  assumes "i < length all" and "unat (streak (uh_latency (all ! i))) < 2"
  shows "fleet_step (now, i, QueryTimedOut tool) all =
    (if missed_ceiling tool (all ! i) \<and> streak (uh_latency (all ! i)) = 1
     then eject_with_cap now i (all[i := reset_timeout_streak (timed_out_handle tool (all ! i))])
     else all[i := timed_out_handle tool (all ! i)])"
proof -
  let ?u = "all ! i"
  let ?r = "record_tool_timeout tool (effective_timeout_for_tool (uh_mode ?u) ?u tool) (missed_ceiling tool ?u)
     (record_query_outcome QTimeout ?u)"
  have c: "mode_ceiling m (record_query_outcome QTimeout ?u) = mode_ceiling m ?u" for m
    by (simp add: mode_ceiling_def record_query_outcome_def split: routing_mode.split)
  have "unat (fst ?r) = (if missed_ceiling tool ?u then unat (streak (uh_latency ?u)) + 1 else 0)"
    using bump_streak_streak [of "put_tool_cell t c (record_query_outcome QTimeout ?u)" for t c] assms(2)
    by (simp add: record_tool_timeout_def)
  then have two: "2 \<le> unat (fst ?r) \<longleftrightarrow> missed_ceiling tool ?u \<and> streak (uh_latency ?u) = 1"
    using assms(2) unat_less_two [OF assms(2)] by auto
  have "fleet_step (now, i, QueryTimedOut tool) all =
      (if 2 \<le> unat (fst ?r) then eject_with_cap now i (all[i := reset_timeout_streak (snd ?r)]) else all[i := snd ?r])"
    using assms(1)
    by (simp add: fleet_step_def handle_timeout_for_tool_def c missed_ceiling_def Let_def case_prod_beta CEILING_TIMEOUTS_TO_EJECT_def)
  then show ?thesis by (simp only: two timed_out_handle_def)
qed

lemma fleet_step_ok: "fleet_ok all \<Longrightarrow> fleet_ok (fleet_step e all)"
proof -
  assume ok: "fleet_ok all"
  obtain now i event where e: "e = (now, i, event)" by (metis prod_cases3)
  show ?thesis
  proof (cases "i < length all")
    case False
    with ok e show ?thesis by (simp add: fleet_step_def)
  next
    case i: True
    let ?u = "all ! i"
    have u: "health_ok (uh_health ?u)" "unat (streak (uh_latency ?u)) < 2"
      using ok i by (auto simp: fleet_ok_def list_all_length handle_ok_def CEILING_TIMEOUTS_TO_EJECT_def)
    have keep: "fleet_ok (all[i := u'])" if "uh_health u' = uh_health ?u" "unat (streak (uh_latency u')) < 2" for u'
      using that u by (intro fleet_ok_update [OF ok i]) (simp_all add: handle_ok_def is_healthy_def CEILING_TIMEOUTS_TO_EJECT_def)
    show ?thesis
    proof (cases event)
      case (QuerySucceeded tool observed)
      then show ?thesis using i keep by (simp add: e fleet_step_def record_tool_latency_def)
    next
      case (QueryFailed status)
      let ?all = "all[i := record_query_outcome (if is_upstream_down status then QUnavailable else QRejected) ?u]"
      have "fleet_ok ?all" using u by (intro keep) simp_all
      then show ?thesis using QueryFailed i u eject_ok(1) [of ?all i now]
        by (cases "is_upstream_down status") (simp_all add: e fleet_step_def Let_def CEILING_TIMEOUTS_TO_EJECT_def)
    next
      case (QueryTimedOut tool)
      let ?t = "timed_out_handle tool ?u"
      have "fleet_ok (all[i := ?t])" if "\<not> (missed_ceiling tool ?u \<and> streak (uh_latency ?u) = 1)"
        using that timed_out_streak [OF u(2), of tool] u(2) unat_less_two [OF u(2)] by (intro keep) auto
      moreover have "fleet_ok (eject_with_cap now i (all[i := reset_timeout_streak ?t]))"
        using i by (intro eject_ok keep) (simp_all add: CEILING_TIMEOUTS_TO_EJECT_def)
      ultimately show ?thesis using QueryTimedOut timed_out_step [OF i u(2)] by (simp add: e)
    next
      case (ProbeTick ok')
      then show ?thesis
        using i ok u health_ok_probe [of "uh_health ?u" now ok'] keep
        by (auto simp: e fleet_step_def probe_due_def is_healthy_def handle_ok_def CEILING_TIMEOUTS_TO_EJECT_def intro!: fleet_ok_update)
    qed
  qed
qed

interpretation fleet_runs: step_system fleet_step fleet_ok
  by unfold_locales (rule fleet_step_ok)

lemma length_fleet_step [simp]: "length (fleet_step e all) = length all"
  by (cases e; cases "snd (snd e)") (auto simp: fleet_defs Let_def case_prod_beta)

lemma length_fleet_run [simp]: "length (fold fleet_step es all) = length all"
  by (induction es arbitrary: all) simp_all

section \<open>A silent upstream\<close>

lemma deadline_bounds: "min TIMEOUT_FLOOR c \<le> deadline_from_latency c e \<and> deadline_from_latency c e \<le> c"
  by (cases e) (simp_all add: deadline_from_latency_def Let_def)

lemma missed_ceiling_iff: "missed_ceiling tool u \<longleftrightarrow> effective_timeout_for_tool (uh_mode u) u tool = mode_ceiling (uh_mode u) u"
  using deadline_bounds [of "mode_ceiling (uh_mode u) u"] unfolding missed_ceiling_def effective_timeout_for_tool_def
  by (metis le_antisym order_refl)

lemma tool_ewma_put: "tool_latency_ewma_ms tool (put_tool_cell tool c u) = ewma_ms c"
  by (simp add: tool_latency_ewma_ms_def put_tool_cell_def)

lemma timed_out_params:
  "uh_mode (timed_out_handle tool u) = uh_mode u"
  "mode_ceiling m (timed_out_handle tool u) = mode_ceiling m u"
  "tool_latency_ewma_ms tool (timed_out_handle tool u) =
     ewma_ms (learn_timeout_into (effective_timeout_for_tool (uh_mode u) u tool) (tool_latency_cell tool u))"
proof -
  have keep: "uh_mode (snd (bump_streak b w)) = uh_mode w \<and> mode_ceiling m (snd (bump_streak b w)) = mode_ceiling m w \<and>
      tool_latency_ewma_ms tool (snd (bump_streak b w)) = tool_latency_ewma_ms tool w" for b w
    by (simp add: bump_streak_def Let_def mode_ceiling_def tool_latency_ewma_ms_def split: routing_mode.split)
  have put: "uh_mode (put_tool_cell t c (record_query_outcome q u)) = uh_mode u \<and>
      mode_ceiling m (put_tool_cell t c (record_query_outcome q u)) = mode_ceiling m u \<and>
      tool_latency_cell t (record_query_outcome q u) = tool_latency_cell t u" for t c q
    by (simp add: put_tool_cell_def record_query_outcome_def mode_ceiling_def tool_latency_cell_def split: routing_mode.split)
  show "uh_mode (timed_out_handle tool u) = uh_mode u" "mode_ceiling m (timed_out_handle tool u) = mode_ceiling m u"
    "tool_latency_ewma_ms tool (timed_out_handle tool u) =
     ewma_ms (learn_timeout_into (effective_timeout_for_tool (uh_mode u) u tool) (tool_latency_cell tool u))"
    by (simp_all add: timed_out_handle_def record_tool_timeout_def keep put tool_ewma_put)
qed

lemma learned_estimate:
  assumes "0 < deadline"
  obtains e where "ewma_ms (learn_timeout_into deadline c) = Some e" "as_millis deadline \<le> e"
proof -
  have pos: "0 < as_millis deadline" using assms by (simp add: as_millis_def)
  show thesis
  proof (cases "(case ewma_ms c of Some e \<Rightarrow> e | None \<Rightarrow> 0) < as_millis deadline")
    case True
    with pos that [of "as_millis deadline"] show thesis by (simp add: learn_timeout_into_def ewma_ms_def)
  next
    case False
    with pos obtain e where "ewma_ms c = Some e" "as_millis deadline \<le> e"
      by (cases "ewma_ms c") (auto simp: not_less)
    with False that show thesis by (simp add: learn_timeout_into_def)
  qed
qed

text \<open>A missed deadline widens the next one by at least half, up to the ceiling.\<close>

lemma deadline_widens:
  assumes "1 < d" and "as_millis d \<le> e"
  shows "min (of_nat c) (3 / 2 * of_nat d) \<le> (of_nat (deadline_from_latency c (Some e)) :: rat)"
proof -
  have "of_nat d / 1000000 \<le> e" using assms(2) by (simp add: as_millis_def)
  then have big: "7 / 4 * of_nat d \<le> max (TIMEOUT_K * e) 0 * 1000000"
    by (simp add: TIMEOUT_K_def max_def field_simps)
  have "7 / 4 * of_nat d - 1 / 2 \<le> (of_int (round (max (TIMEOUT_K * e) 0 * 1000000)) :: rat)"
    using big of_int_round_ge [of "max (TIMEOUT_K * e) 0 * 1000000"] by linarith
  moreover have "(2 :: rat) \<le> of_nat d" using assms(1) by (metis Suc_1 Suc_leI of_nat_mono of_nat_numeral)
  ultimately have "3 / 2 * of_nat d \<le> (of_int (round (max (TIMEOUT_K * e) 0 * 1000000)) :: rat)" by linarith
  also have "\<dots> \<le> of_nat (nat (round (max (TIMEOUT_K * e) 0 * 1000000)))" by (simp add: of_nat_nat le_max_iff_disj) 
  finally have s: "3 / 2 * of_nat d \<le> (of_nat (nat (round (max (TIMEOUT_K * e) 0 * 1000000))) :: rat)" .
  show ?thesis
    using s by (simp add: deadline_from_latency_def Let_def of_nat_min of_nat_max min_le_iff_disj le_max_iff_disj) 
qed

abbreviation tool_deadline :: "string \<Rightarrow> upstream_handle \<Rightarrow> nat" where
  "tool_deadline tool u \<equiv> effective_timeout_for_tool (uh_mode u) u tool"

abbreviation ceiling_of :: "upstream_handle \<Rightarrow> nat" where
  "ceiling_of u \<equiv> mode_ceiling (uh_mode u) u"

lemma timed_out_deadline:
  "min (of_nat (ceiling_of u)) (3 / 2 * of_nat (tool_deadline tool u)) \<le> (of_nat (tool_deadline tool (timed_out_handle tool u)) :: rat)"
proof (cases "1 < tool_deadline tool u")
  case True
  then have "0 < tool_deadline tool u" by simp
  then obtain e where e: "ewma_ms (learn_timeout_into (tool_deadline tool u) (tool_latency_cell tool u)) = Some e"
    "as_millis (tool_deadline tool u) \<le> e" by (rule learned_estimate)
  have "tool_deadline tool (timed_out_handle tool u) = deadline_from_latency (ceiling_of u) (Some e)"
    by (simp only: effective_timeout_for_tool_def [of "uh_mode u" "timed_out_handle tool u"] timed_out_params e(1))
  with deadline_widens [OF True e(2), of "ceiling_of u"] show ?thesis by simp
next
  case False
  have "min TIMEOUT_FLOOR (ceiling_of u) \<le> tool_deadline tool u"
    by (simp add: effective_timeout_for_tool_def deadline_bounds)
  with False have "ceiling_of u \<le> TIMEOUT_FLOOR" by (simp add: TIMEOUT_FLOOR_def min_def split: if_splits)
  then have "tool_deadline tool (timed_out_handle tool u) = ceiling_of u"
    using deadline_bounds [of "ceiling_of u" "tool_latency_ewma_ms tool (timed_out_handle tool u)"]
    by (simp add: effective_timeout_for_tool_def timed_out_params)
  then show ?thesis by simp
qed

lemma repeated_deadline:
  "min (of_nat (ceiling_of u)) (of_nat TIMEOUT_FLOOR * (3 / 2) ^ k) \<le>
    (of_nat (tool_deadline tool ((timed_out_handle tool ^^ k) u)) :: rat) \<and>
   ceiling_of ((timed_out_handle tool ^^ k) u) = ceiling_of u"
proof (induction k)
  case 0
  have "min TIMEOUT_FLOOR (ceiling_of u) \<le> tool_deadline tool u"
    by (simp add: effective_timeout_for_tool_def deadline_bounds)
  then have "(of_nat (min TIMEOUT_FLOOR (ceiling_of u)) :: rat) \<le> of_nat (tool_deadline tool u)" by (rule of_nat_mono)
  then show ?case by (simp add: min.commute)
next
  case (Suc k)
  let ?w = "(timed_out_handle tool ^^ k) u"
  have "min (of_nat (ceiling_of u)) (of_nat TIMEOUT_FLOOR * (3 / 2) ^ Suc k) \<le>
      min (of_nat (ceiling_of u)) (3 / 2 * min (of_nat (ceiling_of u)) (of_nat TIMEOUT_FLOOR * (3 / 2 :: rat) ^ k))"
    by (simp add: min_def)
  also have "\<dots> \<le> min (of_nat (ceiling_of ?w)) (3 / 2 * of_nat (tool_deadline tool ?w))"
    using Suc by (auto simp: min_def)
  also have "\<dots> \<le> of_nat (tool_deadline tool (timed_out_handle tool ?w))" by (rule timed_out_deadline)
  finally show ?case using Suc by (simp add: timed_out_params)
qed

lemma ceiling_reached:
  assumes "ceiling_of u * 2 ^ n \<le> TIMEOUT_FLOOR * 3 ^ n" and "n \<le> k"
  shows "missed_ceiling tool ((timed_out_handle tool ^^ k) u)"
proof -
  have "(of_nat (ceiling_of u * 2 ^ n) :: rat) \<le> of_nat (TIMEOUT_FLOOR * 3 ^ n)" using assms(1) by (rule of_nat_mono)
  then have "of_nat (ceiling_of u) \<le> of_nat TIMEOUT_FLOOR * (3 / 2 :: rat) ^ n" by (simp add: power_divide field_simps)
  also have "\<dots> \<le> of_nat TIMEOUT_FLOOR * (3 / 2) ^ k" using assms(2) by (intro mult_left_mono power_increasing) simp_all
  finally have "(of_nat (ceiling_of u) :: rat) \<le> of_nat (tool_deadline tool ((timed_out_handle tool ^^ k) u))"
    using repeated_deadline [of u k tool] by simp
  then show ?thesis using repeated_deadline [of u k tool] by (simp add: missed_ceiling_def)
qed

text \<open>An upstream is out of rotation, or as many are as the cap allows.\<close>

definition out_or_capped :: "nat \<Rightarrow> fleet \<Rightarrow> bool" where
  "out_or_capped i all \<longleftrightarrow> \<not> is_healthy (all ! i) \<or> ejection_cap (length all) MAX_EJECTION_PERCENT \<le> ejected all"

lemma silent_step:
  assumes "i < length all" "fleet_ok all"
  shows "out_or_capped i (fleet_step (now, i, QueryTimedOut tool) all) \<or>
    (fleet_step (now, i, QueryTimedOut tool) all ! i = timed_out_handle tool (all ! i) \<and>
     \<not> (missed_ceiling tool (all ! i) \<and> streak (uh_latency (all ! i)) = 1))"
proof -
  have "unat (streak (uh_latency (all ! i))) < 2"
    using assms by (auto simp: fleet_ok_def list_all_length handle_ok_def CEILING_TIMEOUTS_TO_EJECT_def)
  note step = timed_out_step [OF assms(1) this, of now tool]
  show ?thesis
  proof (cases "missed_ceiling tool (all ! i) \<and> streak (uh_latency (all ! i)) = 1")
    case True
    then show ?thesis
      using step assms(1) health_ok_down(2)
      by (auto simp: out_or_capped_def eject_with_cap_def can_eject_def mark_unhealthy_def is_healthy_def not_less)
  next
    case False
    with step assms(1) show ?thesis by auto
  qed
qed

lemma silent_run:
  assumes "i < length all" "fleet_ok all"
    and "\<And>k. k \<le> length ts \<Longrightarrow> \<not> out_or_capped i (fold fleet_step (map (\<lambda>t. (t, i, QueryTimedOut tool)) (take k ts)) all)"
    and "k < length ts"
  shows "fold fleet_step (map (\<lambda>t. (t, i, QueryTimedOut tool)) (take k ts)) all ! i = (timed_out_handle tool ^^ k) (all ! i) \<and>
    \<not> (missed_ceiling tool ((timed_out_handle tool ^^ k) (all ! i)) \<and> streak (uh_latency ((timed_out_handle tool ^^ k) (all ! i))) = 1)"
  using assms(4)
proof (induction k)
  case 0
  with silent_step [OF assms(1,2), of "ts ! 0" tool] assms(3) [of 1] show ?case by (cases ts) auto
next
  case (Suc k)
  let ?run = "\<lambda>k. fold fleet_step (map (\<lambda>t. (t, i, QueryTimedOut tool)) (take k ts)) all"
  have next_run: "?run (Suc j) = fleet_step (ts ! j, i, QueryTimedOut tool) (?run j)" if "j < length ts" for j
    using that by (simp add: take_Suc_conv_app_nth)
  have ok: "fleet_ok (?run j)" "i < length (?run j)" for j
    using assms(1,2) by (simp_all add: fleet_runs.run_inv)
  have "?run (Suc k) ! i = (timed_out_handle tool ^^ Suc k) (all ! i)"
    using silent_step [where now = "ts ! k" and tool = tool, OF ok(2) [of k] ok(1) [of k]] assms(3) [of "Suc k"] Suc next_run [of k] by simp
  then show ?case
    using silent_step [where now = "ts ! Suc k" and tool = tool, OF ok(2) [of "Suc k"] ok(1) [of "Suc k"]] assms(3) [of "Suc (Suc k)"] Suc next_run [of "Suc k"] by simp
qed

section \<open>How long an ejection lasts\<close>

definition fresh_fleet :: "fleet \<Rightarrow> bool" where
  "fresh_fleet all \<longleftrightarrow> list_all (\<lambda>u. uh_health u = new_health \<and> uh_latency u = cold_cell) all"

lemma fresh_fleet_ok: "fresh_fleet all \<Longrightarrow> fleet_ok all"
proof -
  assume fresh: "fresh_fleet all"
  then have "ejected all = 0" by (simp add: ejected_def fresh_fleet_def list_all_iff is_healthy_def)
  with fresh show ?thesis
    by (simp add: fleet_ok_def fresh_fleet_def list_all_iff handle_ok_def cold_cell_def CEILING_TIMEOUTS_TO_EJECT_def)
qed

definition until_ok :: "nat \<Rightarrow> fleet \<Rightarrow> bool" where
  "until_ok T all \<longleftrightarrow> list_all (\<lambda>u. ejected_until_ms (uh_health u) \<le> T + EJECTION_CAP_MS) all"

lemma backoff_capped: "ejection_backoff_ms n \<le> EJECTION_CAP_MS"
  by (simp add: ejection_backoff_ms_def)

lemma until_ok_update: "until_ok T all \<Longrightarrow> ejected_until_ms (uh_health u) \<le> T + EJECTION_CAP_MS \<Longrightarrow> until_ok T (all[i := u])"
  by (simp add: until_ok_def list_all_update)

lemma until_down: "now \<le> T \<Longrightarrow> ejected_until_ms (mark_down now h) \<le> T + EJECTION_CAP_MS"
  by (simp add: mark_down_def Let_def) (meson add_mono backoff_capped min.coboundedI2)

lemma until_probe:
  "now \<le> T \<Longrightarrow> ejected_until_ms h \<le> T + EJECTION_CAP_MS \<Longrightarrow>
    ejected_until_ms (snd (apply_probe_result now ok h)) \<le> T + EJECTION_CAP_MS"
  by (simp add: apply_probe_result_def Let_def new_health_def) (meson add_mono backoff_capped min.coboundedI2)

lemma until_eject:
  assumes "now \<le> T" "until_ok T all" "i < length all"
  shows "until_ok T (eject_with_cap now i all)"
  using assms until_down by (auto simp: eject_with_cap_def mark_unhealthy_def intro!: until_ok_update)

lemma until_step:
  assumes "now \<le> T" "until_ok T all"
  shows "until_ok T (fleet_step (now, i, event) all)"
proof (cases "i < length all")
  case True
  then have u: "ejected_until_ms (uh_health (all ! i)) \<le> T + EJECTION_CAP_MS"
    using assms(2) by (simp add: until_ok_def list_all_length)
  have keep: "until_ok T (all[i := u'])" if "uh_health u' = uh_health (all ! i)" for u'
    using that u assms(2) by (simp add: until_ok_update)
  show ?thesis
  proof (cases event)
    case (QueryTimedOut tool)
    then show ?thesis
      using True assms(1)
      by (auto simp: fleet_step_def handle_timeout_for_tool_def Let_def case_prod_beta intro!: keep until_eject)
  next
    case (QueryFailed status)
    then show ?thesis using True assms keep by (auto simp: fleet_step_def Let_def intro!: until_eject)
  next
    case (QuerySucceeded tool observed)
    then show ?thesis using True keep by (simp add: fleet_step_def)
  next
    case (ProbeTick ok)
    then show ?thesis using True assms u until_probe [OF assms(1) u] by (auto simp: fleet_step_def intro!: until_ok_update)
  qed
qed (use assms in \<open>simp add: fleet_step_def\<close>)

lemma until_run: "list_all (\<lambda>(now, _). now \<le> T) events \<Longrightarrow> until_ok T all \<Longrightarrow> until_ok T (fold fleet_step events all)"
proof (induction events arbitrary: all)
  case (Cons e events)
  then show ?case by (cases e) (auto intro: until_step)
qed simp

lemma healthy_tick: "i < length all \<Longrightarrow> is_healthy (all ! i) \<Longrightarrow> is_healthy (fleet_step (t, i, ProbeTick ok) all ! i)"
  by (simp add: fleet_step_def probe_due_def is_healthy_def)

lemma one_good_probe:
  assumes "i < length all" "fleet_ok all" "ejected_until_ms (uh_health (all ! i)) \<le> now"
  shows "is_healthy (fleet_step (now, i, ProbeTick True) all ! i) \<or>
    (unat (rise (uh_health (fleet_step (now, i, ProbeTick True) all ! i))) = unat (rise (uh_health (all ! i))) + 1 \<and>
     ejected_until_ms (uh_health (fleet_step (now, i, ProbeTick True) all ! i)) \<le> now)"
proof (cases "is_healthy (all ! i)")
  case True
  with assms(1) show ?thesis by (simp add: fleet_step_def probe_due_def is_healthy_def)
next
  case False
  let ?h = "uh_health (all ! i)"
  have "unat (rise ?h) < 2" using assms(1,2) False
    by (auto simp: fleet_ok_def list_all_length handle_ok_def health_ok_def is_healthy_def RISE_THRESHOLD_def)
  then have "unat (rise ?h + 1) = unat (rise ?h) + 1"
    by (subst unat_add_lem [THEN iffD1]) simp_all
  with False assms show ?thesis
    by (auto simp: fleet_step_def probe_due_def is_healthy_def apply_probe_result_def Let_def RISE_THRESHOLD_def)
qed

section \<open>Properties\<close>

text \<open>
  C18. The blast-radius cap holds in every run: however queries fail, time out and succeed and probes
  come back, on whichever upstreams and in whatever order, never more than half of the upstreams (and
  never more than one of two or three) are out of rotation at once.
\<close>

theorem ejections_capped:
  assumes "fresh_fleet all"
  shows "ejected (fold fleet_step events all) \<le> max 1 (length all div 2)"
proof -
  have "fleet_ok (fold fleet_step events all)" by (rule fleet_runs.run_inv) (rule fresh_fleet_ok, fact assms)
  then have "ejected (fold fleet_step events all) \<le> ejection_cap (length all) MAX_EJECTION_PERCENT" by (simp add: fleet_ok_def)
  also have "\<dots> \<le> max 1 (length all div 2)"
    by (auto simp: ejection_cap_def MAX_EJECTION_PERCENT_def min_def max_def not_le)
  finally show ?thesis .
qed

theorem ejections_capped_witness:
  "\<exists>all. length all = 3 \<and> fresh_fleet all \<and>
     ejected (fold fleet_step [(0, 0, QueryFailed None), (1, 1, QueryFailed None), (2, 2, QueryFailed None)] all) \<le> 1"
proof -
  let ?u = "\<lparr>uh_name = ''a'', uh_connected = True, uh_query_outcome = QSkipped, uh_mode = ModeMerge, uh_timeout = 1000000000,
     uh_fallback_cap = 200000000, uh_health = new_health, uh_latency = cold_cell, uh_tools = []\<rparr>"
  have fresh: "fresh_fleet [?u, ?u, ?u]" by (simp add: fresh_fleet_def)
  from ejections_capped [OF this, of "[(0, 0, QueryFailed None), (1, 1, QueryFailed None), (2, 2, QueryFailed None)]"] fresh
  show ?thesis by (intro exI [of _ "[?u, ?u, ?u]"]) simp
qed

text \<open>
  C39. Ejection is never permanent: five minutes after the last event of any run, two successful ticks of
  the recovery task return any upstream to rotation, however often it has been ejected.
\<close>

theorem ejected_upstream_recovers:
  assumes "fresh_fleet all" and "list_all (\<lambda>(now, _). now \<le> T) events" and "i < length all"
    and "T + 300000 \<le> t" "t \<le> t'"
  shows "is_healthy (fold fleet_step (events @ [(t, i, ProbeTick True), (t', i, ProbeTick True)]) all ! i)"
proof -
  let ?run = "fold fleet_step events all"
  have ok: "fleet_ok ?run" by (rule fleet_runs.run_inv) (rule fresh_fleet_ok, fact assms(1))
  have "until_ok T all" using assms(1) by (simp add: until_ok_def fresh_fleet_def list_all_iff new_health_def)
  then have "until_ok T ?run" by (rule until_run [OF assms(2)])
  then have due: "ejected_until_ms (uh_health (?run ! i)) \<le> t"
    using assms(3,4) by (force simp: until_ok_def list_all_length EJECTION_CAP_MS_def)
  let ?one = "fleet_step (t, i, ProbeTick True) ?run"
  have i: "i < length ?run" "i < length ?one" using assms(3) by simp_all
  have ok1: "fleet_ok ?one" by (rule fleet_step_ok) (rule ok)
  from one_good_probe [OF i(1) ok due] have "is_healthy (fleet_step (t', i, ProbeTick True) ?one ! i)"
  proof (elim disjE conjE)
    assume "is_healthy (?one ! i)"
    then show ?thesis using i(2) by (rule healthy_tick [rotated])
  next
    assume r: "unat (rise (uh_health (?one ! i))) = unat (rise (uh_health (?run ! i))) + 1"
      and "ejected_until_ms (uh_health (?one ! i)) \<le> t"
    then have due1: "ejected_until_ms (uh_health (?one ! i)) \<le> t'" using assms(5) by simp
    have ok2: "fleet_ok (fleet_step (t', i, ProbeTick True) ?one)" by (rule fleet_step_ok) (rule ok1)
    then have "\<not> is_healthy (fleet_step (t', i, ProbeTick True) ?one ! i) \<Longrightarrow>
        unat (rise (uh_health (fleet_step (t', i, ProbeTick True) ?one ! i))) < 2"
      using i by (auto simp: fleet_ok_def list_all_length handle_ok_def health_ok_def is_healthy_def RISE_THRESHOLD_def)
    with one_good_probe [OF i(2) ok1 due1] r show ?thesis by linarith
  qed
  then show ?thesis by simp
qed

theorem ejected_upstream_recovers_witness:
  "\<exists>u. is_healthy (fold fleet_step ([(5, 0, QueryFailed None)] @ [(300005, 0, ProbeTick True), (300006, 0, ProbeTick True)]) [u] ! 0)"
proof -
  let ?u = "\<lparr>uh_name = ''a'', uh_connected = True, uh_query_outcome = QSkipped, uh_mode = ModeMerge, uh_timeout = 1000000000,
     uh_fallback_cap = 200000000, uh_health = new_health, uh_latency = cold_cell, uh_tools = []\<rparr>"
  have "fresh_fleet [?u]" by (simp add: fresh_fleet_def)
  from ejected_upstream_recovers [OF this, of 5 "[(5, 0, QueryFailed None)]" 0 300005 300006] show ?thesis
    by (intro exI [of _ ?u]) simp
qed

text \<open>
  C27. A silent upstream is detected: when every query of a tool to an upstream misses its adaptive deadline, the
  deadline widens up to the configured ceiling, and after at most \<open>n + 2\<close> misses, where the floor of 50
  ms grown by half \<open>n\<close> times reaches the ceiling, the upstream has been ejected or the cap is used up.
\<close>

theorem silent_upstream_detected:
  assumes "fresh_fleet all0" and "all = fold fleet_step events all0" and "i < length all"
    and "ceiling_of (all ! i) * 2 ^ n \<le> TIMEOUT_FLOOR * 3 ^ n" and "length ts = n + 2"
  shows "\<exists>k \<le> n + 2. let now = fold fleet_step (map (\<lambda>t. (t, i, QueryTimedOut tool)) (take k ts)) all
    in \<not> is_healthy (now ! i) \<or> ejection_cap (length all) MAX_EJECTION_PERCENT \<le> ejected now"
proof (rule ccontr)
  let ?h = "\<lambda>k. (timed_out_handle tool ^^ k) (all ! i)"
  assume "\<not> ?thesis"
  then have never: "\<And>k. k \<le> length ts \<Longrightarrow> \<not> out_or_capped i (fold fleet_step (map (\<lambda>t. (t, i, QueryTimedOut tool)) (take k ts)) all)"
    using assms(5) by (auto simp: out_or_capped_def Let_def)
  have ok: "fleet_ok all" unfolding assms(2) by (rule fleet_runs.run_inv) (rule fresh_fleet_ok, fact assms(1))
  note run = silent_run [OF assms(3) ok never]
  have missed: "missed_ceiling tool (?h n)" "missed_ceiling tool (?h (Suc n))"
    by (rule ceiling_reached [OF assms(4)], simp)+
  have "fleet_ok (fold fleet_step (map (\<lambda>t. (t, i, QueryTimedOut tool)) (take n ts)) all)"
    using ok by (rule fleet_runs.run_inv)
  moreover have "fold fleet_step (map (\<lambda>t. (t, i, QueryTimedOut tool)) (take n ts)) all ! i = ?h n"
    using run [of n] assms(5) by simp
  ultimately have s: "unat (streak (uh_latency (?h n))) < 2"
    using assms(3) by (force simp: fleet_ok_def list_all_length handle_ok_def CEILING_TIMEOUTS_TO_EJECT_def)
  moreover have "streak (uh_latency (?h n)) \<noteq> 1" using run [of n] missed(1) assms(5) by simp
  ultimately have "streak (uh_latency (?h n)) = 0" using unat_less_two by blast
  with timed_out_streak [OF s, of tool] missed(1) have "unat (streak (uh_latency (?h (Suc n)))) = 1" by simp
  then have "streak (uh_latency (?h (Suc n))) = 1" by (metis unat_1 unsigned_word_eqI)
  with run [of "Suc n"] missed(2) assms(5) show False by simp
qed

text \<open>A ceiling of one second: at most ten misses.\<close>

theorem silent_upstream_detected_witness:
  "\<exists>u. \<exists>k \<le> 10. out_or_capped 0 (fold fleet_step (map (\<lambda>t. (t, 0, QueryTimedOut ''brain_search'')) (take k [0..<10])) [u])"
proof -
  let ?u = "\<lparr>uh_name = ''a'', uh_connected = True, uh_query_outcome = QSkipped, uh_mode = ModeMerge, uh_timeout = 1000000000,
     uh_fallback_cap = 200000000, uh_health = new_health, uh_latency = cold_cell, uh_tools = []\<rparr>"
  have "fresh_fleet [?u]" by (simp add: fresh_fleet_def)
  moreover have "ceiling_of ([?u] ! 0) * 2 ^ 8 \<le> TIMEOUT_FLOOR * 3 ^ 8" by (simp add: mode_ceiling_def TIMEOUT_FLOOR_def)
  ultimately show ?thesis
    using silent_upstream_detected [of "[?u]" "[?u]" "[]" 0 8 "[0..<10]" "''brain_search''"]
    by (intro exI [of _ ?u]) (simp add: out_or_capped_def Let_def)
qed

lemma find_SomeD: "find P xs = Some x \<Longrightarrow> P x \<and> x \<in> set xs"
  by (auto simp: find_Some_iff)

lemma unique_leaf_found:
  "unique_leaf name states found = Some (url, sha) \<Longrightarrow>
     (found = Some (url, sha) \<or> (url, sha) \<in> set states \<and> local_checkout_path url \<noteq> None \<and>
        map_option to_ascii_lowercase (repo_name url) = Some (to_ascii_lowercase name)) \<and>
     length (filter (\<lambda>(u, _). local_checkout_path u \<noteq> None \<and> map_option to_ascii_lowercase (repo_name u) = Some (to_ascii_lowercase name)) states)
       = (if found = None then 1 else 0)"
  by (induction name states found rule: unique_leaf.induct) (auto split: if_splits option.splits)

text \<open>
  Staleness is judged between states of the same repository: the local entry found for a repository
  of an upstream is one of the local states and has the same normalized identity, or it is a checkout
  known only by its path, with the repository's name, and the only such checkout.
\<close>

theorem local_entry_same_repository:
  assumes "local_entry_for_server_repo states url = Some (l, sha)"
  shows "(l, sha) \<in> set states \<and>
    (normalized_repo_key l = normalized_repo_key url \<or>
     (local_checkout_path l \<noteq> None \<and>
      (\<exists>name. repo_name url = Some name \<and> map_option to_ascii_lowercase (repo_name l) = Some (to_ascii_lowercase name) \<and>
        length (filter (\<lambda>(u, _). local_checkout_path u \<noteq> None \<and>
          map_option to_ascii_lowercase (repo_name u) = Some (to_ascii_lowercase name)) states) = 1)))"
  using assms
  by (auto simp: local_entry_for_server_repo_def split: option.splits dest!: find_SomeD unique_leaf_found)

theorem local_entry_same_repository_witness:
  "local_entry_for_server_repo [(''git@github.com:acme/api.git'', ''aa''), (''file:///w/web'', ''bb'')] ''https://github.com/acme/api'' =
     Some (''git@github.com:acme/api.git'', ''aa'') \<and>
   (''git@github.com:acme/api.git'', ''aa'') \<in> set [(''git@github.com:acme/api.git'', ''aa''), (''file:///w/web'', ''bb'')]"
proof -
  have "local_entry_for_server_repo [(''git@github.com:acme/api.git'', ''aa''), (''file:///w/web'', ''bb'')] ''https://github.com/acme/api'' =
     Some (''git@github.com:acme/api.git'', ''aa'')" by code_simp
  with local_entry_same_repository [OF this] show ?thesis by simp
qed

text \<open>
  Two entries of the instance file with one URL are both kept: only the URLs of the standard sources
  are looked at.
\<close>

lemma config_duplicates_kept:
  "uc_url e \<notin> uc_url ` set (discover_upstreams env server_tomls user) \<Longrightarrow>
   \<not> distinct (map uc_url (discover_upstreams_with_config env server_tomls user (Some [e, e])))"
  by (simp add: discover_upstreams_with_config_def Let_def expand_config_token_def)

end
