(* ===== verification/Fed_Trace.thy ===== *)
theory Fed_Trace
  imports Json_Value
begin

text \<open>
  Cross-repository flow traces (\<^verbatim>\<open>crates/nestweaver-federation/src/trace.rs\<close>): the leaves of a local trace
  that another repository continues, and the grafting of an upstream's spans onto them.

  A span is the message of the \<^verbatim>\<open>FlowTraceContinue\<close> call, with the fields the code reads. The spans
  are untrusted; nothing is assumed of them.
\<close>

section \<open>Boundaries\<close>

record trace_boundary =
  tb_canonical_id :: string
  tb_name :: string
  tb_parent_path :: "string list"

definition nonempty_repo_uid :: "json \<Rightarrow> string option" where
  "nonempty_repo_uid node = (case get_str ''repo_uid'' node of Some (c # s) \<Rightarrow> Some (c # s) | _ \<Rightarrow> None)"

definition str_or_empty :: "string \<Rightarrow> json \<Rightarrow> string" where
  "str_or_empty key node = (case get_str key node of Some s \<Rightarrow> s | None \<Rightarrow> [])"

definition is_leaf :: "json \<Rightarrow> bool" where
  "is_leaf node \<longleftrightarrow> (case get_array ''children'' node of Some (_ # _) \<Rightarrow> False | _ \<Rightarrow> True)"

definition is_boundary :: "string \<Rightarrow> string set \<Rightarrow> json \<Rightarrow> bool" where
  "is_boundary root_repo local_repos node \<longleftrightarrow>
     is_leaf node \<and> str_or_empty ''repo_uid'' node \<noteq> [] \<and> str_or_empty ''repo_uid'' node \<noteq> root_repo \<and>
     str_or_empty ''canonical_id'' node \<noteq> [] \<and> str_or_empty ''repo_uid'' node \<notin> local_repos"

lemma size_children: "get_array key v = Some xs \<Longrightarrow> size_list size xs < size v"
proof -
  assume "get_array key v = Some xs"
  then obtain w where w: "json_get key v = Some w" "as_array w = Some xs" by (auto simp: get_array_def bind_eq_Some_conv)
  then have "size_list size xs < size w" by (elim as_array.elims) auto
  with size_json_get [OF w(1)] show ?thesis by simp
qed

text \<open>The walk pushes the name of the node on the path before it visits the children and pops it after.\<close>

function collect_boundaries :: "string \<Rightarrow> string set \<Rightarrow> string list \<Rightarrow> json \<Rightarrow> trace_boundary list"
  and collect_children :: "string \<Rightarrow> string set \<Rightarrow> string list \<Rightarrow> json list \<Rightarrow> trace_boundary list" where
  "collect_boundaries root_repo local_repos path node =
     (if is_boundary root_repo local_repos node
      then [\<lparr>tb_canonical_id = str_or_empty ''canonical_id'' node, tb_name = str_or_empty ''name'' node, tb_parent_path = path\<rparr>]
      else []) @
     (case get_array ''children'' node of
        Some children \<Rightarrow> collect_children root_repo local_repos (path @ [str_or_empty ''name'' node]) children
      | None \<Rightarrow> [])"
| "collect_children root_repo local_repos path [] = []"
| "collect_children root_repo local_repos path (child # children) =
     collect_boundaries root_repo local_repos path child @ collect_children root_repo local_repos path children"
  by pat_completeness auto

termination
  by (relation "measure (\<lambda>x. case x of Inl (_, _, _, node) \<Rightarrow> 2 * size node | Inr (_, _, _, nodes) \<Rightarrow> 2 * size_list size nodes + 1)")
    (auto dest: size_children)

declare collect_boundaries.simps [simp del]

definition collect_from_root :: "string set \<Rightarrow> json \<Rightarrow> trace_boundary list" where
  "collect_from_root local_repos tree =
     (case nonempty_repo_uid tree of
        None \<Rightarrow> []
      | Some root_repo \<Rightarrow> collect_boundaries root_repo local_repos [] tree)"

definition detect_boundaries_in_trace :: "json \<Rightarrow> string set \<Rightarrow> trace_boundary list" where
  "detect_boundaries_in_trace result local_repos =
     (case json_get ''tree'' result of
        Some tree \<Rightarrow> collect_from_root local_repos tree
      | None \<Rightarrow>
     (case get_array ''methods'' result of
        Some methods \<Rightarrow>
          (case List.map_filter nonempty_repo_uid methods of
             [] \<Rightarrow> []
           | root_repo # _ \<Rightarrow> concat (map (collect_boundaries root_repo local_repos []) methods))
      | None \<Rightarrow> collect_from_root local_repos result))"

section \<open>Stitching\<close>

record trace_span =
  sp_span_id :: string
  sp_canonical_id :: string
  sp_name :: string
  sp_file_path :: string
  sp_callee_span_ids :: "string list"

definition MAX_STITCH_DEPTH :: nat where "MAX_STITCH_DEPTH = 64"

text \<open>\<^verbatim>\<open>collect\<close> into a hash map: of several spans with one id the last is kept.\<close>

definition span_map :: "trace_span list \<Rightarrow> string \<rightharpoonup> trace_span" where
  "span_map spans = map_of (rev (map (\<lambda>s. (sp_span_id s, s)) spans))"

function build_subtree :: "(string \<rightharpoonup> trace_span) \<Rightarrow> string \<Rightarrow> nat \<Rightarrow> trace_span \<Rightarrow> string set \<Rightarrow> json \<times> string set"
  and build_callees :: "(string \<rightharpoonup> trace_span) \<Rightarrow> string \<Rightarrow> nat \<Rightarrow> string list \<Rightarrow> string set \<Rightarrow> json list \<times> string set" where
  "build_subtree spans server_name depth sp visited =
     (let visited = insert (sp_span_id sp) visited;
          (children, visited) =
            (if depth < MAX_STITCH_DEPTH then build_callees spans server_name depth (sp_callee_span_ids sp) visited
             else ([], visited))
      in (JObject [(''name'', JString (sp_name sp)), (''file_path'', JString (sp_file_path sp)),
                   (''canonical_id'', JString (sp_canonical_id sp)),
                   (''source'', JString (''server:'' @ server_name)), (''children'', JArray children)], visited))"
| "build_callees spans server_name depth [] visited = ([], visited)"
| "build_callees spans server_name depth (cid # cids) visited =
     (if cid \<in> visited then build_callees spans server_name depth cids visited
      else case spans cid of
        None \<Rightarrow> build_callees spans server_name depth cids visited
      | Some child \<Rightarrow>
          (if depth < MAX_STITCH_DEPTH then
             (let (tree, visited) = build_subtree spans server_name (depth + 1) child visited;
                  (trees, visited) = build_callees spans server_name depth cids visited
              in (tree # trees, visited))
           else ([], visited)))"
  by pat_completeness auto

text \<open>
  The depth grows with every level; within a level the list of callees shrinks. The loop over the
  callees runs only below the depth limit, so its own test of the limit, which the termination
  argument needs, never fails.
\<close>

termination
  by (relation "inv_image (less_than <*lex*> less_than) (\<lambda>x. case x of
      Inl (_, _, depth, _, _) \<Rightarrow> (2 * (MAX_STITCH_DEPTH - depth) + 1, 0)
    | Inr (_, _, depth, cids, _) \<Rightarrow> (2 * (MAX_STITCH_DEPTH - depth), length cids))") auto

declare build_subtree.simps [simp del]

text \<open>Grafting onto the first node, in preorder, that has the boundary's canonical id.\<close>

definition graft :: "json list \<Rightarrow> string \<Rightarrow> json \<Rightarrow> json" where
  "graft subtrees server_name node =
     json_insert ''boundary_crossed'' (JString (''-> '' @ server_name))
       (json_insert ''children'' (JArray (case get_array ''children'' node of Some arr \<Rightarrow> arr @ subtrees | None \<Rightarrow> subtrees)) node)"

function inject_at_boundary :: "string \<Rightarrow> json list \<Rightarrow> string \<Rightarrow> json \<Rightarrow> json \<times> bool"
  and inject_children :: "string \<Rightarrow> json list \<Rightarrow> string \<Rightarrow> json list \<Rightarrow> json list \<times> bool" where
  "inject_at_boundary boundary_cid subtrees server_name node =
     (if get_str ''canonical_id'' node = Some boundary_cid then (graft subtrees server_name node, True)
      else case get_array ''children'' node of
        None \<Rightarrow> (node, False)
      | Some children \<Rightarrow>
          (let (children', done') = inject_children boundary_cid subtrees server_name children
           in (json_insert ''children'' (JArray children') node, done')))"
| "inject_children boundary_cid subtrees server_name [] = ([], False)"
| "inject_children boundary_cid subtrees server_name (child # children) =
     (let (child', done') = inject_at_boundary boundary_cid subtrees server_name child
      in if done' then (child' # children, True)
         else let (children', done'') = inject_children boundary_cid subtrees server_name children
              in (child' # children', done''))"
  by pat_completeness auto

termination
  by (relation "measure (\<lambda>x. case x of Inl (_, _, _, node) \<Rightarrow> 2 * size node | Inr (_, _, _, nodes) \<Rightarrow> 2 * size_list size nodes + 1)")
    (auto dest: size_children)

declare inject_at_boundary.simps [simp del]

fun build_roots :: "(string \<rightharpoonup> trace_span) \<Rightarrow> string \<Rightarrow> trace_span list \<Rightarrow> string set \<Rightarrow> json list \<times> string set" where
  "build_roots spans server_name [] visited = ([], visited)"
| "build_roots spans server_name (s # roots) visited =
     (let (tree, visited) = build_subtree spans server_name 0 s visited;
          (trees, visited) = build_roots spans server_name roots visited
      in (tree # trees, visited))"

definition stitch_server_spans :: "trace_span list \<Rightarrow> string \<Rightarrow> string \<Rightarrow> json \<Rightarrow> json" where
  "stitch_server_spans server_spans boundary_canonical_id server_name local_result =
     (let root_spans = filter (\<lambda>s. sp_canonical_id s = boundary_canonical_id) server_spans
      in if server_spans = [] \<or> root_spans = [] then local_result
         else
           (let subtrees = fst (build_roots (span_map server_spans) server_name root_spans {});
                inject = (\<lambda>node. fst (inject_at_boundary boundary_canonical_id subtrees server_name node));
                r1 = (case json_get ''tree'' local_result of
                        Some tree \<Rightarrow> json_insert ''tree'' (inject tree) local_result
                      | None \<Rightarrow> local_result)
            in case get_array ''methods'' r1 of
                 Some methods \<Rightarrow> json_insert ''methods'' (JArray (map inject methods)) r1
               | None \<Rightarrow> r1))"

section \<open>Detection finds exactly the boundary leaves\<close>

text \<open>The nodes below a node in pre-order, each with the names of the nodes on the way to it.\<close>

function preorder :: "string list \<Rightarrow> json \<Rightarrow> (string list \<times> json) list" where
  "preorder path node = (path, node) #
     (case get_array ''children'' node of
        Some children \<Rightarrow> concat (map (preorder (path @ [str_or_empty ''name'' node])) children)
      | None \<Rightarrow> [])"
  by auto

termination
  by (relation "measure (\<lambda>(path, node). size node)") (auto dest: size_get_array)

declare preorder.simps [simp del]

text \<open>A leaf that another repository continues: neither the root's nor a local one, and with a canonical id.\<close>

definition foreign_leaf :: "string \<Rightarrow> string set \<Rightarrow> json \<Rightarrow> bool" where
  "foreign_leaf root_repo local_repos node \<longleftrightarrow>
     get_array ''children'' node \<in> {None, Some []} \<and>
     (\<exists>repo. get_str ''repo_uid'' node = Some repo \<and> repo \<noteq> [] \<and> repo \<noteq> root_repo \<and> repo \<notin> local_repos) \<and>
     (\<exists>cid. get_str ''canonical_id'' node = Some cid \<and> cid \<noteq> [])"

definition boundary_at :: "string list \<times> json \<Rightarrow> trace_boundary" where
  "boundary_at node_at = (case node_at of (path, node) \<Rightarrow> \<lparr>tb_canonical_id = str_or_empty ''canonical_id'' node, tb_name = str_or_empty ''name'' node, tb_parent_path = path\<rparr>)"

lemma is_boundary_foreign: "is_boundary root_repo local_repos node \<longleftrightarrow> foreign_leaf root_repo local_repos node"
  by (auto simp: is_boundary_def foreign_leaf_def is_leaf_def str_or_empty_def split: option.splits list.splits)

lemma collect_preorder:
  "collect_boundaries root_repo local_repos path node =
     map boundary_at (filter (\<lambda>(path, node). foreign_leaf root_repo local_repos node) (preorder path node))"
  "collect_children root_repo local_repos path nodes =
     map boundary_at (filter (\<lambda>(path, node). foreign_leaf root_repo local_repos node) (concat (map (preorder path) nodes)))"
proof (induction root_repo local_repos path node and root_repo local_repos path nodes rule: collect_boundaries_collect_children.induct)
  case (1 root_repo local_repos path node)
  show ?case
    by (subst collect_boundaries.simps, subst preorder.simps)
      (use "1.IH" in \<open>auto simp: is_boundary_foreign boundary_at_def [of "(path, node)"] split: option.split\<close>)
qed simp_all

section \<open>Stitched trees are bounded\<close>

text \<open>Nodes and levels of a span tree.\<close>

function tree_nodes :: "json \<Rightarrow> nat" where
  "tree_nodes node = 1 + (case get_array ''children'' node of Some children \<Rightarrow> sum_list (map tree_nodes children) | None \<Rightarrow> 0)"
  by auto

termination
  by (relation "measure size") (auto dest: size_get_array)

function tree_levels :: "json \<Rightarrow> nat" where
  "tree_levels node = 1 + (case get_array ''children'' node of Some children \<Rightarrow> Max (insert 0 (set (map tree_levels children))) | None \<Rightarrow> 0)"
  by auto

termination
  by (relation "measure size") (auto dest: size_get_array)

declare tree_nodes.simps [simp del] tree_levels.simps [simp del]

lemma built_children: "get_array ''children'' (JObject [(''name'', a), (''file_path'', b), (''canonical_id'', c), (''source'', d), (''children'', JArray xs)]) = Some xs"
  by (simp add: get_array_def)

lemma build_levels:
  "depth \<le> MAX_STITCH_DEPTH \<Longrightarrow> tree_levels (fst (build_subtree spans server_name depth sp visited)) \<le> MAX_STITCH_DEPTH - depth + 1"
  "depth < MAX_STITCH_DEPTH \<Longrightarrow> list_all (\<lambda>t. tree_levels t \<le> MAX_STITCH_DEPTH - depth) (fst (build_callees spans server_name depth cids visited))"
proof (induction spans server_name depth sp visited and spans server_name depth cids visited rule: build_subtree_build_callees.induct)
  case (1 spans server_name depth sp visited)
  then show ?case
    by (auto simp: build_subtree.simps tree_levels.simps [of "JObject _"] built_children case_prod_beta Let_def list_all_iff)
next
  case (3 spans server_name depth cid cids visited)
  then show ?case
    by (cases "build_subtree spans server_name (depth + 1) (the (spans cid)) visited")
      (auto simp: case_prod_beta Let_def Suc_diff_Suc split: if_splits option.splits)
qed simp

definition well_keyed :: "(string \<rightharpoonup> trace_span) \<Rightarrow> bool" where
  "well_keyed spans \<longleftrightarrow> finite (dom spans) \<and> (\<forall>cid s. spans cid = Some s \<longrightarrow> sp_span_id s = cid)"

lemma card_chain: "finite C \<Longrightarrow> A \<subseteq> B \<Longrightarrow> B \<subseteq> C \<Longrightarrow> card (B - A) + card (C - B) = card (C - A)"
proof -
  assume *: "finite C" "A \<subseteq> B" "B \<subseteq> C"
  then have "C - A = (B - A) \<union> (C - B)" by auto
  then have "card (C - A) = card ((B - A) \<union> (C - B))" by simp
  also have "\<dots> = card (B - A) + card (C - B)"
    using * by (intro card_Un_disjoint) (auto intro: finite_subset)
  finally show ?thesis by simp
qed

lemma build_nodes:
  "well_keyed spans \<Longrightarrow> finite visited \<Longrightarrow>
     insert (sp_span_id sp) visited \<subseteq> snd (build_subtree spans server_name depth sp visited) \<and>
     snd (build_subtree spans server_name depth sp visited) \<subseteq> insert (sp_span_id sp) visited \<union> dom spans \<and>
     tree_nodes (fst (build_subtree spans server_name depth sp visited)) \<le>
       1 + card (snd (build_subtree spans server_name depth sp visited) - insert (sp_span_id sp) visited)"
  "well_keyed spans \<Longrightarrow> finite visited \<Longrightarrow>
     visited \<subseteq> snd (build_callees spans server_name depth cids visited) \<and>
     snd (build_callees spans server_name depth cids visited) \<subseteq> visited \<union> dom spans \<and>
     sum_list (map tree_nodes (fst (build_callees spans server_name depth cids visited))) \<le>
       card (snd (build_callees spans server_name depth cids visited) - visited)"
proof (induction spans server_name depth sp visited and spans server_name depth cids visited rule: build_subtree_build_callees.induct)
  case (1 spans server_name depth sp visited)
  show ?case
  proof (cases "depth < MAX_STITCH_DEPTH")
    case True
    from "1.IH" [OF refl True] "1.prems" show ?thesis
      by (simp add: build_subtree.simps Let_def case_prod_beta True tree_nodes.simps [of "JObject _"] built_children)
  next
    case False
    then show ?thesis by (auto simp: build_subtree.simps tree_nodes.simps [of "JObject _"] built_children)
  qed
next
  case (2 spans server_name depth visited)
  then show ?case by simp
next
  case (3 spans server_name depth cid cids visited)
  show ?case
  proof (cases "cid \<notin> visited \<and> spans cid \<noteq> None \<and> depth < MAX_STITCH_DEPTH")
    case False
    then show ?thesis using 3 by (auto split: option.splits)
  next
    case True
    then obtain child where child: "spans cid = Some child" and new: "cid \<notin> visited" and d: "depth < MAX_STITCH_DEPTH" by auto
    then have cid: "sp_span_id child = cid" using "3.prems"(1) by (simp add: well_keyed_def)
    obtain t V1 where t: "build_subtree spans server_name (depth + 1) child visited = (t, V1)" by fastforce
    obtain ts V2 where ts: "build_callees spans server_name depth cids V1 = (ts, V2)" by fastforce
    have one: "insert cid visited \<subseteq> V1" "V1 \<subseteq> insert cid visited \<union> dom spans" "tree_nodes t \<le> 1 + card (V1 - insert cid visited)"
      using "3.IH"(3) [OF new child d] "3.prems" t cid by simp_all
    have fin: "finite V1" using one(2) "3.prems" by (auto simp: well_keyed_def intro: finite_subset)
    have two: "V1 \<subseteq> V2" "V2 \<subseteq> V1 \<union> dom spans" "sum_list (map tree_nodes ts) \<le> card (V2 - V1)"
      using "3.IH"(4) [OF new child d t [symmetric] refl] "3.prems"(1) fin ts by simp_all
    have fin2: "finite V2" using two(2) fin "3.prems" by (auto simp: well_keyed_def intro: finite_subset)
    have "card (insert cid visited - visited) = 1" using new by (simp add: insert_Diff_if)
    then have "tree_nodes t \<le> card (V1 - visited)"
      using one card_chain [OF fin subset_insertI one(1)] by simp
    moreover have "card (V1 - visited) + card (V2 - V1) = card (V2 - visited)"
      using one(1) two(1) fin2 by (intro card_chain) auto
    ultimately have "sum_list (map tree_nodes (t # ts)) \<le> card (V2 - visited)" using two(3) by simp
    then show ?thesis using one two new child d t ts
      by (auto simp: Let_def)
  qed
qed

lemma well_keyed_span_map: "well_keyed (span_map spans)"
proof -
  have "sp_span_id s = cid" if "span_map spans cid = Some s" for cid s
    using map_of_SomeD [OF that [unfolded span_map_def]] by (simp add: image_iff)
  moreover have "finite (dom (span_map spans))" unfolding span_map_def by (rule finite_dom_map_of)
  ultimately show ?thesis by (simp add: well_keyed_def)
qed

lemma build_roots_bounds:
  assumes "well_keyed spans"
  shows "finite visited \<Longrightarrow>
    list_all (\<lambda>t. tree_levels t \<le> MAX_STITCH_DEPTH + 1) (fst (build_roots spans server_name roots visited)) \<and>
    visited \<subseteq> snd (build_roots spans server_name roots visited) \<and>
    snd (build_roots spans server_name roots visited) \<subseteq> visited \<union> sp_span_id ` set roots \<union> dom spans \<and>
    sum_list (map tree_nodes (fst (build_roots spans server_name roots visited))) \<le>
      length roots + card (snd (build_roots spans server_name roots visited) - visited)"
proof (induction roots arbitrary: visited)
  case (Cons s roots)
  obtain t V1 where t: "build_subtree spans server_name 0 s visited = (t, V1)" by fastforce
  obtain ts V2 where ts: "build_roots spans server_name roots V1 = (ts, V2)" by fastforce
  have one: "insert (sp_span_id s) visited \<subseteq> V1" "V1 \<subseteq> insert (sp_span_id s) visited \<union> dom spans"
    "tree_nodes t \<le> 1 + card (V1 - insert (sp_span_id s) visited)"
    using build_nodes(1) [OF assms Cons.prems, of s server_name 0] t by simp_all
  have lev: "tree_levels t \<le> MAX_STITCH_DEPTH + 1" using build_levels(1) [of 0 spans server_name s visited] t by simp
  have fin: "finite V1" using one(2) Cons.prems assms by (auto simp: well_keyed_def intro: finite_subset)
  have two: "list_all (\<lambda>t. tree_levels t \<le> MAX_STITCH_DEPTH + 1) ts" "V1 \<subseteq> V2"
    "V2 \<subseteq> V1 \<union> sp_span_id ` set roots \<union> dom spans" "sum_list (map tree_nodes ts) \<le> length roots + card (V2 - V1)"
    using Cons.IH [OF fin] ts by simp_all
  have fin2: "finite V2" using two(3) fin assms by (auto simp: well_keyed_def intro: finite_subset)
  have "card (V1 - insert (sp_span_id s) visited) \<le> card (V1 - visited)" using fin by (intro card_mono) auto
  moreover have "card (V1 - visited) + card (V2 - V1) = card (V2 - visited)"
    using one(1) two(2) fin2 by (intro card_chain) auto
  ultimately have "tree_nodes t + sum_list (map tree_nodes ts) \<le> length (s # roots) + card (V2 - visited)"
    using one(3) two(4) by simp
  then show ?case using one two lev t ts by auto
qed simp

section \<open>Properties\<close>

text \<open>The roots of a trace: its tree, or else its methods, or else the whole answer.\<close>

definition trace_roots :: "json \<Rightarrow> json list" where
  "trace_roots result =
     (case json_get ''tree'' result of
        Some tree \<Rightarrow> [tree]
      | None \<Rightarrow> (case get_array ''methods'' result of Some methods \<Rightarrow> methods | None \<Rightarrow> [result]))"

text \<open>
  C34. Detection finds exactly the boundaries. The reported list is that of the leaves which belong to
  a repository other than the root's and not indexed locally and have a canonical id, in pre-order
  over all roots of the trace, each once and with the names of the nodes on the way to it. The
  root's repository is that of the first root that names one; when none does, nothing is reported.
\<close>

theorem boundaries_exact:
  "detect_boundaries_in_trace result local_repos =
     (case List.map_filter nonempty_repo_uid (trace_roots result) of
        [] \<Rightarrow> []
      | root_repo # _ \<Rightarrow>
          map boundary_at (filter (\<lambda>(path, node). foreign_leaf root_repo local_repos node) (concat (map (preorder []) (trace_roots result)))))"
proof -
  have "concat (map (collect_boundaries r local_repos []) ms) =
      map boundary_at (filter (\<lambda>(path, node). foreign_leaf r local_repos node) (concat (map (preorder []) ms)))" for r ms
    by (induction ms) (simp_all add: collect_preorder(1))
  then show ?thesis
    by (auto simp: detect_boundaries_in_trace_def collect_from_root_def trace_roots_def collect_preorder(1) List.map_filter_simps
        split: option.split list.split)
qed

text \<open>
  C31. Stitching is bounded whatever spans an upstream returns, cyclic and repeated ones included: the
  construction of the subtrees ends, no subtree has more than 65 levels (a root and 64 below it), and
  together the subtrees have no more nodes than there are root spans at the boundary plus different
  span ids in the answer. So a span id costs at most one node beyond the roots, although a root
  that another root also calls appears once under it and once on its own.
\<close>

theorem stitch_bounded:
  "list_all (\<lambda>t. tree_levels t \<le> 65) (fst (build_roots (span_map spans) server_name (filter P spans) {})) \<and>
   sum_list (map tree_nodes (fst (build_roots (span_map spans) server_name (filter P spans) {}))) \<le>
     length (filter P spans) + card (sp_span_id ` set spans)"
proof -
  let ?b = "build_roots (span_map spans) server_name (filter P spans) {}"
  note b = build_roots_bounds [OF well_keyed_span_map [of spans], of "{}" server_name "filter P spans", simplified]
  have "dom (span_map spans) \<subseteq> sp_span_id ` set spans"
    by (auto simp: span_map_def dom_def dest!: map_of_SomeD)
  moreover have "sp_span_id ` {x \<in> set spans. P x} \<subseteq> sp_span_id ` set spans" by auto
  ultimately have "snd ?b \<subseteq> sp_span_id ` set spans" using b by (meson Un_least order_trans)
  then have "card (snd ?b) \<le> card (sp_span_id ` set spans)" by (intro card_mono) auto
  with b show ?thesis by (auto simp: MAX_STITCH_DEPTH_def)
qed

text \<open>
  Stitching reaches only the first occurrence of a boundary: when a trace calls one foreign function
  from two places, both leaves are boundaries, but continuing both grafts the upstream's spans twice
  onto the first leaf and leaves the second without any.
\<close>

theorem second_occurrence_not_stitched:
  "let leaf = (\<lambda>n. JObject [(''name'', JString n), (''repo_uid'', JString ''r2''), (''canonical_id'', JString ''c''), (''children'', JArray [])]);
       trace = JObject [(''tree'', JObject [(''name'', JString ''f''), (''repo_uid'', JString ''r1''), (''children'', JArray [leaf ''g'', leaf ''h''])])];
       spans = [\<lparr>sp_span_id = ''s'', sp_canonical_id = ''c'', sp_name = ''g'', sp_file_path = ''g.rs'', sp_callee_span_ids = []\<rparr>];
       stitched = fold (\<lambda>b. stitch_server_spans spans (tb_canonical_id b) ''up'') (detect_boundaries_in_trace trace {}) trace
   in map tb_name (detect_boundaries_in_trace trace {}) = [''g'', ''h''] \<and>
      map_option (map (map_option length \<circ> get_array ''children''))
        (Option.bind (json_get ''tree'' stitched) (get_array ''children'')) = Some [Some 2, Some 0]"
  by code_simp

end
