(* ===== verification/Fed_Two_Tier.thy ===== *)
theory Fed_Two_Tier
  imports Fed_Health
begin

text \<open>
  Provenance stamps (\<^verbatim>\<open>crates/nestweaver-schema/src/provenance.rs\<close>) and two-tier impact answers
  (\<^verbatim>\<open>crates/nestweaver-federation/src/two_tier.rs\<close>): the local impact next to the org-wide one, with the
  rows of repositories already covered locally filtered out of the latter.

  The connection attempt and the call to the upstream are parameters of the query: their outcome is
  any value of \<open>connect_outcome\<close> and \<open>dispatch_outcome\<close>.
\<close>

section \<open>Provenance\<close>

definition META_KEY :: string where "META_KEY = ''_meta''"

definition derived_scope :: "string list \<Rightarrow> string" where
  "derived_scope sources = (case sources of [] \<Rightarrow> ''local'' | [s] \<Rightarrow> s | _ \<Rightarrow> ''hybrid'')"

definition provenance_fields :: "string \<Rightarrow> string list \<Rightarrow> string list \<Rightarrow> (string \<times> json) list" where
  "provenance_fields scope sources stale_repos =
     [(''scope'', JString scope), (''sources'', JArray (map JString sources)), (''stale_repos'', JArray (map JString stale_repos))]"

fun insert_fields :: "(string \<times> json) list \<Rightarrow> json \<Rightarrow> json" where
  "insert_fields [] v = v"
| "insert_fields ((k, w) # kvs) v = insert_fields kvs (json_insert k w v)"

fun fill_fields :: "(string \<times> json) list \<Rightarrow> json \<Rightarrow> json" where
  "fill_fields [] v = v"
| "fill_fields ((k, w) # kvs) v = fill_fields kvs (if contains_key k v then v else json_insert k w v)"

definition set_provenance :: "string \<Rightarrow> string list \<Rightarrow> string list \<Rightarrow> json \<Rightarrow> json" where
  "set_provenance scope sources stale_repos v =
     (case json_get META_KEY v of
        Some (JObject meta) \<Rightarrow> json_insert META_KEY (insert_fields (provenance_fields scope sources stale_repos) (JObject meta)) v
      | _ \<Rightarrow> json_insert META_KEY (JObject (provenance_fields scope sources stale_repos)) v)"

definition ensure_provenance :: "string \<Rightarrow> string list \<Rightarrow> string list \<Rightarrow> json \<Rightarrow> json" where
  "ensure_provenance scope sources stale_repos v =
     (case json_get META_KEY v of
        Some (JObject meta) \<Rightarrow> json_insert META_KEY (fill_fields (provenance_fields scope sources stale_repos) (JObject meta)) v
      | Some _ \<Rightarrow> v
      | None \<Rightarrow> json_insert META_KEY (JObject (provenance_fields scope sources stale_repos)) v)"

definition set_or_wrap :: "string \<Rightarrow> string list \<Rightarrow> string list \<Rightarrow> json \<Rightarrow> json" where
  "set_or_wrap scope sources stale_repos v =
     (case v of
        JArray items \<Rightarrow> JObject [(''results'', JArray items), (META_KEY, JObject (provenance_fields scope sources stale_repos))]
      | _ \<Rightarrow> set_provenance scope sources stale_repos v)"

definition set_stale_repos :: "string list \<Rightarrow> json \<Rightarrow> json" where
  "set_stale_repos stale_repos v =
     (case json_get META_KEY v of
        Some meta \<Rightarrow> json_insert META_KEY (json_insert ''stale_repos'' (JArray (map JString stale_repos)) meta) v
      | None \<Rightarrow> json_insert META_KEY (json_insert ''stale_repos'' (JArray (map JString stale_repos)) (JObject [])) v)"

definition inject_or_wrap_provenance :: "string list \<Rightarrow> string list \<Rightarrow> json \<Rightarrow> json" where
  "inject_or_wrap_provenance sources stale_repos v = set_or_wrap (derived_scope sources) sources stale_repos v"

section \<open>Filtering the org-wide tier\<close>

definition repo_identity_key :: "string \<Rightarrow> string" where
  "repo_identity_key uid =
     (case Option.bind (strip_prefix ''repo:'' uid) (split_once CHR '':'') of
        Some (_, c # url_hash) \<Rightarrow> c # url_hash
      | _ \<Rightarrow> uid)"

definition row_repo :: "json \<Rightarrow> string option" where
  "row_repo item = (case get_str ''repo_uid'' item of Some (c # r) \<Rightarrow> Some (c # r) | _ \<Rightarrow> None)"

definition local_repos_of :: "json \<Rightarrow> string list" where
  "local_repos_of item =
     (case row_repo item of
        Some repo \<Rightarrow> [repo_identity_key repo]
      | None \<Rightarrow> (case get_str ''file_path'' item of Some fp \<Rightarrow> [fp] | None \<Rightarrow> []))"

definition extract_local_repos :: "json \<Rightarrow> string set" where
  "extract_local_repos v = set (concat (map (\<lambda>key.
     case get_array key v of Some arr \<Rightarrow> concat (map local_repos_of arr) | None \<Rightarrow> []) [''changed_symbols'', ''affected_symbols'']))"

definition covered :: "string set \<Rightarrow> json \<Rightarrow> bool" where
  "covered local_repos item = (case row_repo item of Some repo \<Rightarrow> repo_identity_key repo \<in> local_repos | None \<Rightarrow> False)"

definition retain_uncovered :: "string set \<Rightarrow> string \<Rightarrow> json \<Rightarrow> json" where
  "retain_uncovered local_repos key v =
     (case get_array key v of
        Some arr \<Rightarrow> json_insert key (JArray (filter (\<lambda>item. \<not> covered local_repos item) arr)) v
      | None \<Rightarrow> v)"

definition array_len :: "string \<Rightarrow> json \<Rightarrow> nat option" where
  "array_len key v = map_option length (get_array key v)"

definition rewrite_field :: "string \<Rightarrow> json option \<Rightarrow> json \<Rightarrow> json" where
  "rewrite_field key w v = (case w of Some w \<Rightarrow> if contains_key key v then json_insert key w v else v | None \<Rightarrow> v)"

text \<open>The labels of the risk levels and of the statuses are ASCII; the first letter is capitalized.\<close>

definition capitalize :: "string \<Rightarrow> string" where
  "capitalize r = (case r of [] \<Rightarrow> [] | c # cs \<Rightarrow> ascii_upper_char c # cs)"

definition render_summary :: "nat \<Rightarrow> nat \<Rightarrow> nat \<Rightarrow> nat \<Rightarrow> json \<Rightarrow> string" where
  "render_summary c f a cl v =
     nat_dec c @ '' changed symbol(s) in '' @ nat_dec f @ '' file(s), '' @ nat_dec a @ '' transitively affected symbol(s), '' @
     nat_dec cl @ '' cluster(s) touched. Risk: '' @
     (case get_str ''risk'' v of Some r \<Rightarrow> capitalize r | None \<Rightarrow> ''Unknown'') @ ''.'' @
     (case get_str ''status'' v of
        Some status \<Rightarrow> if status \<noteq> ''complete'' then '' [status: '' @ status @ '']'' else []
      | None \<Rightarrow> [])"

definition recompute_filtered_counts :: "json \<Rightarrow> json" where
  "recompute_filtered_counts v =
     (let changed = array_len ''changed_symbols'' v;
          affected = array_len ''affected_symbols'' v;
          clusters = array_len ''affected_clusters'' v;
          changed_files = map_option (\<lambda>arr. length (remdups (List.map_filter (get_str ''file_path'') arr))) (get_array ''changed_symbols'' v);
          number = (\<lambda>n. JNumber (PosInt n));
          v1 = rewrite_field ''changed_symbol_count'' (map_option number changed) v;
          v2 = rewrite_field ''affected_symbol_count'' (map_option number affected) v1;
          v3 = rewrite_field ''returned_affected_symbol_count'' (map_option number affected) v2;
          v4 = rewrite_field ''affected_symbols_truncated'' (map_option (\<lambda>_. JBool False) affected) v3;
          v5 = rewrite_field ''affected_cluster_count'' (map_option number clusters) v4
      in case (get_str ''summary'' v5, changed, changed_files, affected, clusters) of
           (Some _, Some c, Some f, Some a, Some cl) \<Rightarrow> json_insert ''summary'' (JString (render_summary c f a cl v5)) v5
         | _ \<Rightarrow> v5)"

definition filter_org_results :: "string set \<Rightarrow> json \<Rightarrow> json" where
  "filter_org_results local_repos server =
     (if local_repos = {} then server
      else recompute_filtered_counts
        (retain_uncovered local_repos ''affected_clusters''
          (retain_uncovered local_repos ''changed_symbols'' (retain_uncovered local_repos ''affected_symbols'' server))))"

section \<open>The envelope\<close>

definition is_not_found :: "json \<Rightarrow> bool" where
  "is_not_found v \<longleftrightarrow> get_str ''status'' v = Some ''not_found''"

definition lifted_fields :: "json \<Rightarrow> (string \<times> json) list" where
  "lifted_fields local_result = List.map_filter (\<lambda>key. map_option (Pair key) (json_get key local_result))
     [''status'', ''error'', ''message'', ''symbol'', ''name'', ''did_you_mean'']"

definition assemble_two_tier :: "json \<Rightarrow> json option \<Rightarrow> string \<Rightarrow> json" where
  "assemble_two_tier local_result server_result server_name =
     (let org_miss = (case server_result of None \<Rightarrow> True | Some s \<Rightarrow> is_not_found s);
          lifted = (if is_not_found local_result \<and> org_miss then lifted_fields local_result else []);
          org = (case server_result of
                   Some server \<Rightarrow>
                     JObject [(''source_server'', JString server_name),
                              (''results'', filter_org_results (extract_local_repos local_result) server)]
                 | None \<Rightarrow>
                     JObject [(''source_server'', JString server_name), (''status'', JString ''unavailable''),
                              (''note'', JString ''upstream server query failed - showing local impact only'')])
      in insert_fields lifted
           (JObject [(''tier'', JString ''two_tier''), (''local_impact'', local_result), (''org_wide_impact'', org)]))"

datatype connect_outcome = Connected | ConnectFailed "grpc_code option"

datatype dispatch_outcome = Answered json nat | Errored "grpc_code option" | TimedOut

definition set_at :: "nat \<Rightarrow> (upstream_handle \<Rightarrow> upstream_handle) \<Rightarrow> fleet \<Rightarrow> fleet" where
  "set_at i f all = all[i := f (all ! i)]"

text \<open>The answers that need no upstream: the preferred owner is out of rotation, or every upstream is.\<close>

definition without_upstream :: "string option \<Rightarrow> json \<Rightarrow> fleet \<Rightarrow> json option" where
  "without_upstream preferred local_result upstreams =
     (case preferred of
        Some name \<Rightarrow>
          if list_ex (\<lambda>u. uh_name u = name \<and> is_healthy u) upstreams then None
          else Some (inject_or_wrap_provenance [''local''] [] (assemble_two_tier local_result None name))
      | None \<Rightarrow>
          if list_ex is_healthy upstreams then None
          else Some (json_insert ''tier'' (JString ''local_only'') (inject_or_wrap_provenance [''local''] [] local_result)))"

definition chosen_upstream :: "string option \<Rightarrow> fleet \<Rightarrow> nat option" where
  "chosen_upstream preferred upstreams =
     List.find (\<lambda>i. is_healthy (upstreams ! i) \<and>
       (case preferred of None \<Rightarrow> True | Some name \<Rightarrow> uh_name (upstreams ! i) = name)) [0..<length upstreams]"

text \<open>The query to the chosen upstream and what the fleet learns from it.\<close>

definition query_org_tier :: "nat \<Rightarrow> string \<Rightarrow> nat \<Rightarrow> dispatch_outcome \<Rightarrow> fleet \<Rightarrow> json option \<times> fleet" where
  "query_org_tier now_ms tool_name i outcome us =
     (case outcome of
        Answered result elapsed \<Rightarrow> (Some result, set_at i (record_tool_latency tool_name elapsed) us)
      | Errored status \<Rightarrow>
          (let us' = set_at i (record_query_outcome (if is_upstream_down status then QUnavailable else QRejected)) us
           in (None, if is_upstream_down status then eject_with_cap now_ms i us' else us'))
      | TimedOut \<Rightarrow>
          (None, handle_timeout_for_tool (uh_mode (us ! i)) now_ms i (Some tool_name)
             (effective_timeout_for_tool (uh_mode (us ! i)) (us ! i) tool_name) (set_at i (record_query_outcome QTimeout) us)))"

text \<open>
  The answer, the fleet after the query, and the upstream that was asked, if any. The dash in the two
  notes, which lies outside the modelled characters, is written as a hyphen.
\<close>

definition two_tier_query_profile_preferred :: "nat \<Rightarrow> string \<Rightarrow> string option \<Rightarrow> (string \<Rightarrow> connect_outcome) \<Rightarrow>
    (string \<Rightarrow> dispatch_outcome) \<Rightarrow> json \<Rightarrow> fleet \<Rightarrow> json \<times> fleet \<times> string option" where
  "two_tier_query_profile_preferred now_ms tool_name preferred connect dispatch local_result upstreams =
     (case without_upstream preferred local_result upstreams of
        Some response \<Rightarrow> (response, upstreams, None)
      | None \<Rightarrow>
     (case chosen_upstream preferred upstreams of
        None \<Rightarrow>
          (json_insert ''org_note'' (JString ''upstream unavailable - showing local impact only'')
             (json_insert ''tier'' (JString ''local_only'') (inject_or_wrap_provenance [''local''] [] local_result)), upstreams, None)
      | Some i \<Rightarrow>
          (let name = uh_name (upstreams ! i)
           in case connect name of
                ConnectFailed status \<Rightarrow>
                  (let us = set_at i (record_query_outcome QUnavailable) upstreams
                   in (inject_or_wrap_provenance [''local''] [] (assemble_two_tier local_result None name),
                       if is_upstream_down status then eject_with_cap now_ms i us else us, None))
              | Connected \<Rightarrow>
                  (case query_org_tier now_ms tool_name i (dispatch name) (set_at i (\<lambda>u. u\<lparr>uh_connected := True\<rparr>) upstreams) of
                     (server_result, us) \<Rightarrow>
                       (inject_or_wrap_provenance [''local'', name] [] (assemble_two_tier local_result server_result name), us, Some name)))))"

section \<open>The filter\<close>

lemma get_array_retain:
  "get_array k (retain_uncovered R key v) =
     (if k = key then map_option (filter (\<lambda>item. \<not> covered R item)) (get_array k v) else get_array k v)"
proof (cases "get_array key v")
  case None
  then show ?thesis by (simp add: retain_uncovered_def)
next
  case (Some arr)
  then have "is_object v" by (auto simp: get_array_def bind_eq_Some_conv intro: json_get_object)
  with Some show ?thesis by (simp add: retain_uncovered_def get_array_insert)
qed

lemma json_get_retain: "k \<noteq> key \<Longrightarrow> json_get k (retain_uncovered R key v) = json_get k v"
  by (simp add: retain_uncovered_def split: option.split)

lemma json_get_rewrite: "json_get k (rewrite_field key w v) =
    (if k = key \<and> contains_key key v \<and> w \<noteq> None then w else json_get k v)"
  by (auto simp: rewrite_field_def contains_key_def dest: json_get_object split: option.splits)

lemma contains_rewrite [simp]: "contains_key k (rewrite_field key w v) = contains_key k v"
  by (auto simp: contains_key_def json_get_rewrite)

lemma get_array_rewrite: "k \<noteq> key \<Longrightarrow> get_array k (rewrite_field key w v) = get_array k v"
  by (simp add: get_array_def json_get_rewrite)

text \<open>What the recomputation leaves in each field.\<close>

definition count_agrees :: "string \<Rightarrow> string \<Rightarrow> json \<Rightarrow> bool" where
  "count_agrees field rows v \<longleftrightarrow> (\<forall>items. get_array rows v = Some items \<longrightarrow> contains_key field v \<longrightarrow>
     json_get field v = Some (JNumber (PosInt (length items))))"

definition recomputed :: "json \<Rightarrow> json" where
  "recomputed v =
     (let number = (\<lambda>n. JNumber (PosInt n));
          changed = array_len ''changed_symbols'' v; affected = array_len ''affected_symbols'' v; clusters = array_len ''affected_clusters'' v
      in rewrite_field ''affected_cluster_count'' (map_option number clusters)
        (rewrite_field ''affected_symbols_truncated'' (map_option (\<lambda>_. JBool False) affected)
        (rewrite_field ''returned_affected_symbol_count'' (map_option number affected)
        (rewrite_field ''affected_symbol_count'' (map_option number affected)
        (rewrite_field ''changed_symbol_count'' (map_option number changed) v)))))"

lemma recompute_eq: "recompute_filtered_counts v = recomputed v \<or>
    (\<exists>t. recompute_filtered_counts v = json_insert ''summary'' (JString t) (recomputed v))"
  by (auto simp: recompute_filtered_counts_def recomputed_def Let_def split: option.split)

lemma recompute_get: "k \<noteq> ''summary'' \<Longrightarrow> json_get k (recompute_filtered_counts v) = json_get k (recomputed v)"
  using recompute_eq [of v] by auto

lemma recompute_get_array: "k \<in> {''changed_symbols'', ''affected_symbols'', ''affected_clusters''} \<Longrightarrow>
    get_array k (recompute_filtered_counts v) = get_array k v"
  by (auto simp: get_array_def recompute_get recomputed_def Let_def json_get_rewrite)

lemma recompute_counts:
  "count_agrees ''changed_symbol_count'' ''changed_symbols'' (recompute_filtered_counts v)"
  "count_agrees ''affected_symbol_count'' ''affected_symbols'' (recompute_filtered_counts v)"
  "count_agrees ''returned_affected_symbol_count'' ''affected_symbols'' (recompute_filtered_counts v)"
  "count_agrees ''affected_cluster_count'' ''affected_clusters'' (recompute_filtered_counts v)"
  by (auto simp: count_agrees_def array_len_def recompute_get_array recompute_get recomputed_def Let_def json_get_rewrite contains_key_def)

lemma filter_org_array: "R \<noteq> {} \<Longrightarrow> k \<in> {''changed_symbols'', ''affected_symbols'', ''affected_clusters''} \<Longrightarrow>
    get_array k (filter_org_results R server) = map_option (filter (\<lambda>item. \<not> covered R item)) (get_array k server)"
  by (auto simp: filter_org_results_def recompute_get_array get_array_retain)

section \<open>The envelope\<close>

lemma insert_fields_get: "is_object v \<Longrightarrow> distinct (map fst kvs) \<Longrightarrow>
    json_get k (insert_fields kvs v) = (case map_of kvs k of Some w \<Rightarrow> Some w | None \<Rightarrow> json_get k v)"
proof (induction kvs v rule: insert_fields.induct)
  case (2 k' w kvs v)
  then have none: "map_of kvs k' = None" by (simp add: map_of_eq_None_iff)
  from 2 show ?case by (cases "k = k'"; cases "map_of kvs k") (simp_all add: none)
qed simp

lemma is_object_insert_fields [simp]: "is_object (insert_fields kvs v) = is_object v"
  by (induction kvs v rule: insert_fields.induct) simp_all

lemma map_of_present: "map_of (List.map_filter (\<lambda>key. map_option (Pair key) (f key)) keys) k = (if k \<in> set keys then f k else None)"
  by (induction keys) (auto simp: List.map_filter_simps split: option.splits)

lemma distinct_present: "distinct keys \<Longrightarrow> distinct (map fst (List.map_filter (\<lambda>key. map_option (Pair key) (f key)) keys))"
proof -
  have "map fst (List.map_filter (\<lambda>key. map_option (Pair key) (f key)) keys) = filter (\<lambda>key. f key \<noteq> None) keys"
    by (induction keys) (auto simp: List.map_filter_simps split: option.splits)
  then show "distinct keys \<Longrightarrow> ?thesis" by simp
qed

lemma lifted_get: "map_of (lifted_fields v) k =
    (if k \<in> set [''status'', ''error'', ''message'', ''symbol'', ''name'', ''did_you_mean''] then json_get k v else None)"
  unfolding lifted_fields_def by (rule map_of_present)

lemma lifted_distinct: "distinct (map fst (lifted_fields v))"
  unfolding lifted_fields_def by (rule distinct_present) simp

lemma set_provenance_get: "k \<noteq> META_KEY \<Longrightarrow> json_get k (set_provenance scope sources stale v) = json_get k v"
  by (simp add: set_provenance_def split: option.splits json.splits)

lemma wrap_provenance_get: "is_object v \<Longrightarrow> k \<noteq> META_KEY \<Longrightarrow> json_get k (inject_or_wrap_provenance sources stale v) = json_get k v"
  by (cases v) (simp_all add: inject_or_wrap_provenance_def set_or_wrap_def set_provenance_get)

lemma assemble_object [simp]: "is_object (assemble_two_tier l s name)"
  by (simp add: assemble_two_tier_def Let_def)

lemma assemble_get:
  "json_get ''status'' (assemble_two_tier l s name) =
     (if is_not_found l \<and> (case s of None \<Rightarrow> True | Some r \<Rightarrow> is_not_found r) then json_get ''status'' l else None)"
  "json_get ''local_impact'' (assemble_two_tier l s name) = Some l"
  "json_get ''tier'' (assemble_two_tier l s name) = Some (JString ''two_tier'')"
  "Option.bind (json_get ''org_wide_impact'' (assemble_two_tier l s name)) (json_get ''results'') =
     map_option (filter_org_results (extract_local_repos l)) s"
  by (simp_all add: assemble_two_tier_def Let_def insert_fields_get lifted_distinct lifted_get split: option.splits)

section \<open>The fleet during a two-tier query\<close>

lemma chosen_upstreamD:
  assumes "chosen_upstream preferred us = Some i"
  shows "i < length us" "is_healthy (us ! i)" "case preferred of None \<Rightarrow> True | Some name \<Rightarrow> uh_name (us ! i) = name"
  using assms by (auto simp: chosen_upstream_def dest!: find_SomeD)

fun event_of :: "string \<Rightarrow> dispatch_outcome \<Rightarrow> fleet_event" where
  "event_of tool (Answered _ elapsed) = QuerySucceeded tool elapsed"
| "event_of tool (Errored status) = QueryFailed status"
| "event_of tool TimedOut = QueryTimedOut tool"

lemma query_org_tier_step: "i < length us \<Longrightarrow> snd (query_org_tier now tool i outcome us) = fleet_step (now, i, event_of tool outcome) us"
  by (cases outcome) (simp_all add: query_org_tier_def fleet_step_def set_at_def Let_def)

lemma query_org_tier_result: "fst (query_org_tier now tool i outcome us) = (case outcome of Answered r _ \<Rightarrow> Some r | _ \<Rightarrow> None)"
  by (simp add: query_org_tier_def Let_def split: dispatch_outcome.split)

lemma set_at_ok:
  assumes "fleet_ok us" "i < length us" "uh_health (f (us ! i)) = uh_health (us ! i)" "uh_latency (f (us ! i)) = uh_latency (us ! i)"
  shows "fleet_ok (set_at i f us)"
  unfolding set_at_def using assms
  by (intro fleet_ok_update) (auto simp: is_healthy_def handle_ok_def fleet_ok_def list_all_length)

lemma connect_failed_ok:
  assumes "fleet_ok us" "i < length us"
  shows "fleet_ok (eject_with_cap now i (set_at i (record_query_outcome q) us))"
  using assms eject_ok(1) [OF set_at_ok [OF assms], of "record_query_outcome q" i now]
  by (auto simp: set_at_def fleet_ok_def list_all_length handle_ok_def)

section \<open>Properties\<close>

text \<open>
  The repository a row names, read off its \<open>repo_uid\<close>: in the form \<open>repo:instance:hash\<close> it is the hash,
  whichever instance indexed it; any other text stands for itself, and an absent or empty one names none.
\<close>

definition instance_form :: "string \<Rightarrow> string \<Rightarrow> bool" where
  "instance_form uid hash \<longleftrightarrow> hash \<noteq> [] \<and> (\<exists>inst. CHR '':'' \<notin> set inst \<and> uid = ''repo:'' @ inst @ CHR '':'' # hash)"

definition names_repo :: "json \<Rightarrow> string \<Rightarrow> bool" where
  "names_repo row h \<longleftrightarrow> (\<exists>uid. get_str ''repo_uid'' row = Some uid \<and> uid \<noteq> [] \<and>
     (instance_form uid h \<or> (h = uid \<and> (\<forall>hash. \<not> instance_form uid hash))))"

text \<open>The local answer covers what one of its symbol rows names; a row that names no repository covers its path.\<close>

definition covered_locally :: "json \<Rightarrow> string \<Rightarrow> bool" where
  "covered_locally l h \<longleftrightarrow> (\<exists>key\<in>{''changed_symbols'', ''affected_symbols''}. \<exists>items row. get_array key l = Some items \<and> row \<in> set items \<and>
     (names_repo row h \<or> (get_str ''repo_uid'' row \<in> {None, Some []} \<and> get_str ''file_path'' row = Some h)))"

lemma identity_key_form:
  "repo_identity_key uid = h \<longleftrightarrow> instance_form uid h \<or> (h = uid \<and> (\<forall>hash. \<not> instance_form uid hash))"
proof (cases "\<exists>hash. instance_form uid hash")
  case True
  then obtain hash inst where f: "hash \<noteq> []" "CHR '':'' \<notin> set inst" "uid = ''repo:'' @ inst @ CHR '':'' # hash"
    by (auto simp: instance_form_def)
  then have key: "repo_identity_key uid = hash"
    by (cases hash) (simp_all only: not_False_eq_True repo_identity_key_def strip_prefix_append split_once_append Option.bind.bind_lunit option.case prod.case list.case)
  have "instance_form uid h \<longleftrightarrow> h = hash"
  proof
    assume "instance_form uid h"
    then obtain inst' where "CHR '':'' \<notin> set inst'" "uid = ''repo:'' @ inst' @ CHR '':'' # h" by (auto simp: instance_form_def)
    with f(3) have "split_once CHR '':'' (inst @ CHR '':'' # hash) = split_once CHR '':'' (inst' @ CHR '':'' # h)" by simp
    with f(2) \<open>CHR '':'' \<notin> set inst'\<close> show "h = hash" by (simp add: split_once_append)
  qed (use f in \<open>auto simp: instance_form_def\<close>)
  with key True show ?thesis by auto
next
  case False
  have "repo_identity_key uid = uid"
  proof (cases "Option.bind (strip_prefix ''repo:'' uid) (split_once CHR '':'')")
    case (Some p)
    then obtain rest where r: "strip_prefix ''repo:'' uid = Some rest" "split_once CHR '':'' rest = Some (fst p, snd p)"
      by (auto simp: bind_eq_Some_conv)
    then have "uid = ''repo:'' @ rest" by (auto simp: strip_prefix_def prefix_def split: if_splits)
    with split_once_SomeD [OF r(2)] False have "snd p = []" by (auto simp: instance_form_def)
    with Some show ?thesis by (cases p) (simp add: repo_identity_key_def)
  qed (simp add: repo_identity_key_def)
  with False show ?thesis by auto
qed

lemma row_repo_names: "(\<exists>repo. row_repo row = Some repo \<and> repo_identity_key repo = h) \<longleftrightarrow> names_repo row h"
  unfolding names_repo_def identity_key_form [symmetric]
  by (auto simp: row_repo_def split: option.splits list.splits)

lemma local_repos_of_names: "h \<in> set (local_repos_of row) \<longleftrightarrow>
    names_repo row h \<or> (get_str ''repo_uid'' row \<in> {None, Some []} \<and> get_str ''file_path'' row = Some h)"
  unfolding row_repo_names [symmetric]
  by (auto simp: local_repos_of_def row_repo_def split: option.splits list.splits)

lemma extract_covers: "h \<in> extract_local_repos l \<longleftrightarrow> covered_locally l h"
  unfolding covered_locally_def local_repos_of_names [symmetric]
  by (auto simp: extract_local_repos_def split: option.splits; metis)

lemma covered_names: "covered (extract_local_repos l) item \<longleftrightarrow> (\<exists>h. names_repo item h \<and> covered_locally l h)"
  unfolding extract_covers [symmetric] row_repo_names [symmetric]
  by (auto simp: covered_def split: option.split)

lemma filter_org_other:
  assumes "key \<notin> {''changed_symbols'', ''affected_symbols'', ''affected_clusters'', ''summary'', ''changed_symbol_count'', ''affected_symbol_count'',
      ''returned_affected_symbol_count'', ''affected_cluster_count'', ''affected_symbols_truncated''}"
  shows "json_get key (filter_org_results R server) = json_get key server"
  using assms by (simp add: filter_org_results_def recompute_get recomputed_def Let_def json_get_rewrite json_get_retain)

lemma contains_recompute: "k \<noteq> ''summary'' \<Longrightarrow> contains_key k (recompute_filtered_counts v) = contains_key k v"
proof -
  assume "k \<noteq> ''summary''"
  then have "contains_key k (recompute_filtered_counts v) = contains_key k (recomputed v)"
    by (simp add: contains_key_def recompute_get)
  also have "\<dots> = contains_key k v" by (simp only: recomputed_def Let_def contains_rewrite)
  finally show ?thesis .
qed

lemma contains_retain: "k \<noteq> key \<Longrightarrow> contains_key k (retain_uncovered R key v) = contains_key k v"
  by (simp add: contains_key_def json_get_retain)

lemma filter_org_present:
  assumes "field \<in> {''changed_symbol_count'', ''affected_symbol_count'', ''returned_affected_symbol_count'', ''affected_cluster_count''}"
  shows "contains_key field (filter_org_results R server) = contains_key field server"
proof -
  have "field \<noteq> ''summary''" "field \<noteq> ''changed_symbols''" "field \<noteq> ''affected_symbols''" "field \<noteq> ''affected_clusters''"
    using assms by auto
  then show ?thesis by (simp add: filter_org_results_def contains_recompute contains_retain)
qed

text \<open>
  C35. The org-wide tier next to a local answer. Of every row array of the server's answer (changed
  symbols, affected symbols, affected clusters) it keeps, in their order, exactly the rows that do
  not name a repository the local answer covers, repositories being compared by their hash
  whichever instance indexed them; in particular a row that names no repository is always kept. If
  the local answer covers something, every count field that is present is the number of rows that
  are left, no count field is lost, and all fields other than the row arrays, the counts, the
  truncation flag and the summary are unchanged; if it covers nothing, the server's answer is
  passed on as it came.
\<close>

theorem org_rows_and_counts:
  assumes "rows \<in> {''changed_symbols'', ''affected_symbols'', ''affected_clusters''}" and "get_array rows server = Some items"
    and "key \<notin> {''changed_symbols'', ''affected_symbols'', ''affected_clusters'', ''summary'', ''changed_symbol_count'', ''affected_symbol_count'',
      ''returned_affected_symbol_count'', ''affected_cluster_count'', ''affected_symbols_truncated''}"
  shows "let org = filter_org_results (extract_local_repos l) server in
    get_array rows org = Some (filter (\<lambda>item. \<not> (\<exists>h. names_repo item h \<and> covered_locally l h)) items) \<and>
    json_get key org = json_get key server \<and>
    (if \<exists>h. covered_locally l h
     then list_all (\<lambda>(field, rows). count_agrees field rows org \<and> contains_key field org = contains_key field server)
        [(''changed_symbol_count'', ''changed_symbols''), (''affected_symbol_count'', ''affected_symbols''),
         (''returned_affected_symbol_count'', ''affected_symbols''), (''affected_cluster_count'', ''affected_clusters'')]
     else org = server)"
proof (cases "extract_local_repos l = {}")
  case True
  then have none: "\<not> covered_locally l h" for h by (simp add: extract_covers [symmetric])
  from True have "filter_org_results (extract_local_repos l) server = server" by (simp add: filter_org_results_def)
  with assms(2) none show ?thesis by simp
next
  case False
  then have "\<exists>h. covered_locally l h" by (auto simp: extract_covers [symmetric])
  moreover have "get_array rows (filter_org_results (extract_local_repos l) server) =
      Some (filter (\<lambda>item. \<not> (\<exists>h. names_repo item h \<and> covered_locally l h)) items)"
    using filter_org_array [OF False assms(1)] assms(2) by (simp only: covered_names option.map)
  moreover have "list_all (\<lambda>(field, rows). count_agrees field rows (filter_org_results (extract_local_repos l) server))
      [(''changed_symbol_count'', ''changed_symbols''), (''affected_symbol_count'', ''affected_symbols''),
       (''returned_affected_symbol_count'', ''affected_symbols''), (''affected_cluster_count'', ''affected_clusters'')]"
    using False by (simp add: filter_org_results_def recompute_counts)
  ultimately show ?thesis using filter_org_other [OF assms(3)] by (simp add: Let_def filter_org_present)
qed

text \<open>The server indexed a local repository under its own instance; a row without a repository stays.\<close>

definition local_answer :: json where
  "local_answer = JObject [(''changed_symbols'', JArray [JObject [(''repo_uid'', JString ''repo:me:h'')]])]"

definition server_answer :: json where
  "server_answer = JObject [(''changed_symbol_count'', JNumber (PosInt 2)), (''status'', JString ''complete''),
     (''changed_symbols'', JArray [JObject [(''repo_uid'', JString ''repo:srv:h'')], JObject [(''file_path'', JString ''a'')]])]"

theorem org_rows_and_counts_witness:
  "get_array ''changed_symbols'' (filter_org_results (extract_local_repos local_answer) server_answer) = Some [JObject [(''file_path'', JString ''a'')]]"
proof -
  have "filter (\<lambda>item. \<not> covered (extract_local_repos local_answer) item) [JObject [(''repo_uid'', JString ''repo:srv:h'')], JObject [(''file_path'', JString ''a'')]] =
    [JObject [(''file_path'', JString ''a'')]]" unfolding extract_local_repos_def by code_simp
  moreover have "get_array ''changed_symbols'' server_answer =
    Some [JObject [(''repo_uid'', JString ''repo:srv:h'')], JObject [(''file_path'', JString ''a'')]]" by (simp add: get_array_def server_answer_def)
  ultimately show ?thesis
    using org_rows_and_counts [of "''changed_symbols''" server_answer _ "''status''" local_answer, unfolded Let_def covered_names [symmetric]] by simp
qed

text \<open>
  A two-tier query asks only the upstream it must: with a preferred owner it asks that owner or
  nobody, never another upstream, and it asks nobody out of rotation; whatever the outcome of the
  connection and the call, the local impact is in the answer unchanged, the answer is a miss exactly
  when both tiers missed, and the fleet stays within the ejection cap.
\<close>

theorem two_tier_asks_owner:
  assumes "two_tier_query_profile_preferred now tool preferred connect dispatch (JObject l) fleet = (response, fleet', asked)"
    and "fleet_ok fleet"
  shows "fleet_ok fleet' \<and> length fleet' = length fleet \<and>
    (case asked of
       None \<Rightarrow> True
     | Some name \<Rightarrow> (case preferred of None \<Rightarrow> True | Some owner \<Rightarrow> name = owner) \<and>
         list_ex (\<lambda>u. uh_name u = name \<and> is_healthy u) fleet \<and>
         json_get ''local_impact'' response = Some (JObject l) \<and>
         (get_str ''status'' response = Some ''not_found'' \<longleftrightarrow>
            is_not_found (JObject l) \<and> (case dispatch name of Answered r _ \<Rightarrow> is_not_found r | _ \<Rightarrow> True)))"
proof (cases "without_upstream preferred (JObject l) fleet")
  case (Some r)
  then show ?thesis using assms by (auto simp: two_tier_query_profile_preferred_def)
next
  case early: None
  show ?thesis
  proof (cases "chosen_upstream preferred fleet")
    case None
    then show ?thesis using assms early by (auto simp: two_tier_query_profile_preferred_def)
  next
    case (Some i)
    note i = chosen_upstreamD [OF Some]
    let ?name = "uh_name (fleet ! i)"
    show ?thesis
    proof (cases "connect ?name")
      case (ConnectFailed status)
      then have "asked = None" "fleet' = (if is_upstream_down status then eject_with_cap now i (set_at i (record_query_outcome QUnavailable) fleet)
          else set_at i (record_query_outcome QUnavailable) fleet)"
        using assms(1) early Some by (auto simp: two_tier_query_profile_preferred_def Let_def)
      then show ?thesis
        using connect_failed_ok [OF assms(2) i(1)] set_at_ok [OF assms(2) i(1)] eject_with_cap_def by (auto simp: set_at_def eject_with_cap_def)
    next
      case Connected
      let ?us = "set_at i (\<lambda>u. u\<lparr>uh_connected := True\<rparr>) fleet"
      have us: "fleet_ok ?us" "i < length ?us" using set_at_ok [OF assms(2) i(1)] i(1) by (simp_all add: set_at_def)
      have r: "response = inject_or_wrap_provenance [''local'', ?name] [] (assemble_two_tier (JObject l)
            (case dispatch ?name of Answered r _ \<Rightarrow> Some r | _ \<Rightarrow> None) ?name)"
        "fleet' = fleet_step (now, i, event_of tool (dispatch ?name)) ?us" "asked = Some ?name"
        using assms(1) early Some Connected query_org_tier_step [OF us(2), of now tool "dispatch ?name"]
          query_org_tier_result [of now tool i "dispatch ?name" ?us]
        by (auto simp: two_tier_query_profile_preferred_def Let_def case_prod_beta)
      have "fleet_ok fleet'" "length fleet' = length fleet"
        using us fleet_step_ok r(2) by (simp_all add: set_at_def)
      moreover have "json_get ''local_impact'' response = Some (JObject l)"
        by (simp add: r(1) wrap_provenance_get META_KEY_def assemble_get)
      moreover have "get_str ''status'' response = Some ''not_found'' \<longleftrightarrow>
          is_not_found (JObject l) \<and> (case dispatch ?name of Answered r _ \<Rightarrow> is_not_found r | _ \<Rightarrow> True)"
        by (cases "dispatch ?name") (auto simp: r(1) get_str_def wrap_provenance_get META_KEY_def assemble_get is_not_found_def)
      moreover have "list_ex (\<lambda>u. uh_name u = ?name \<and> is_healthy u) fleet" using i by (auto simp: list_ex_iff)
      ultimately show ?thesis using r(3) i(3) by (auto split: option.splits)
    qed
  qed
qed

text \<open>The preferred owner, found and asked.\<close>

theorem two_tier_asks_owner_witness:
  "\<exists>u response fleet'. two_tier_query_profile_preferred 0 ''blast_radius'' (Some ''a'') (\<lambda>_. Connected) (\<lambda>_. Errored (Some Internal))
      (JObject []) [u] = (response, fleet', Some ''a'') \<and> fleet_ok fleet' \<and> json_get ''local_impact'' response = Some (JObject [])"
proof -
  let ?u = "\<lparr>uh_name = ''a'', uh_connected = True, uh_query_outcome = QSkipped, uh_mode = ModeMerge, uh_timeout = 1000000000,
     uh_fallback_cap = 200000000, uh_health = new_health, uh_latency = cold_cell, uh_tools = []\<rparr>"
  obtain response fleet' asked where q: "two_tier_query_profile_preferred 0 ''blast_radius'' (Some ''a'') (\<lambda>_. Connected)
      (\<lambda>_. Errored (Some Internal)) (JObject []) [?u] = (response, fleet', asked)" by (metis prod_cases3)
  then have "asked = Some ''a''"
    by (auto simp: two_tier_query_profile_preferred_def without_upstream_def chosen_upstream_def is_healthy_def Let_def case_prod_beta)
  moreover have "fleet_ok [?u]" by (rule fresh_fleet_ok) (simp add: fresh_fleet_def)
  ultimately show ?thesis using two_tier_asks_owner [OF q] q by (intro exI [of _ ?u] exI) auto
qed

end
