(* ===== verification/Fed_Results.thy ===== *)
theory Fed_Results
  imports Fed_Merge Fed_Two_Tier
begin

text \<open>
  The shaping of merged answers (\<^verbatim>\<open>crates/nestweaver-federation/src/results.rs\<close>): the merge of search
  answers with its total, the honesty fields, fan-out concatenation, the lookup dispositions, and the
  cap per kind. The structured context merge and the composition of symbol readings are not modelled.

  As in the generic merge, scores are exact rationals, \<open>iter\<close> is the order of the hash map and
  \<open>show_json\<close> the text of a value; \<open>H\<close> is the hash behind the identifiers.
\<close>

section \<open>Counts and identities of search rows\<close>

record search_count_metadata =
  sc_lower_bound :: "nat option"
  sc_complete :: bool

definition search_count_metadata :: "json \<Rightarrow> nat \<Rightarrow> search_count_metadata" where
  "search_count_metadata v result_count =
     (let total = Option.bind (json_get ''total_matches'' v) as_u64;
          returned = Option.bind (json_get ''returned_matches'' v) as_u64;
          relation = get_str ''total_matches_relation'' v;
          truncated = Option.bind (json_get ''truncated'' v) as_bool;
          valid = (case (total, returned, relation, truncated) of
                     (Some t, Some r, Some rel, Some tr) \<Rightarrow>
                       if rel = ''eq'' then r = result_count \<and> r \<le> t \<and> (tr \<longleftrightarrow> r < t)
                       else if rel = ''gte'' \<and> tr then r = result_count \<and> r \<le> t
                       else False
                   | _ \<Rightarrow> False)
      in \<lparr>sc_lower_bound = (if valid then total else None),
          sc_complete = (valid \<and> relation = Some ''eq'' \<and> truncated = Some False \<and> returned = total)\<rparr>)"

definition brain_search_entity :: "hasher \<Rightarrow> digest \<Rightarrow> json \<Rightarrow> entity_key option" where
  "brain_search_entity H D v =
     (case (get_str ''uid'' v, get_str ''kind'' v) of
        (Some uid, Some kind) \<Rightarrow>
          (case entity_key_for_uid D uid None of
             None \<Rightarrow> None
           | Some entity \<Rightarrow>
               if ek_family entity = ''note'' \<or> ek_family entity = ''tag'' then
                 (if kind = ek_family entity then Some entity else None)
               else if ek_family entity = ''sym'' then
                 (case strip_prefix ''Symbol/'' kind of
                    Some (_ # _) \<Rightarrow>
                      (case get_str ''canonical_id'' v of
                         None \<Rightarrow> None
                       | Some canonical_id \<Rightarrow>
                           map_option (\<lambda>key. with_key key entity) (normalize_search_symbol_canonical_id H uid canonical_id))
                  | _ \<Rightarrow> None)
               else None)
      | _ \<Rightarrow> None)"

definition brain_search_logical_uid :: "hasher \<Rightarrow> digest \<Rightarrow> json \<Rightarrow> string option" where
  "brain_search_logical_uid H D v = map_option ek_key (brain_search_entity H D v)"

fun proven_unique :: "hasher \<Rightarrow> digest \<Rightarrow> string set \<Rightarrow> json list \<Rightarrow> bool" where
  "proven_unique H D seen [] = True"
| "proven_unique H D seen (item # items) =
     (case brain_search_logical_uid H D item of
        Some uid \<Rightarrow> uid \<notin> seen \<and> proven_unique H D (insert uid seen) items
      | None \<Rightarrow> False)"

definition has_proven_unique_search_identities :: "hasher \<Rightarrow> digest \<Rightarrow> json list \<Rightarrow> bool" where
  "has_proven_unique_search_identities H D items = proven_unique H D {} items"

section \<open>The search merge\<close>

record ranked_search_result =
  rs_value :: json
  rs_score :: rat
  rs_tiebreaker :: string

type_synonym keyed_rows = "(string \<times> ranked_search_result) list"

fun keyed_entry :: "string \<Rightarrow> rat \<Rightarrow> ranked_search_result \<Rightarrow> keyed_rows \<Rightarrow> keyed_rows" where
  "keyed_entry uid score fresh [] = [(uid, fresh)]"
| "keyed_entry uid score fresh ((u, r) # rows) =
     (if u = uid then (u, r\<lparr>rs_score := rs_score r + score\<rparr>) # rows else (u, r) # keyed_entry uid score fresh rows)"

definition search_row :: "(json \<Rightarrow> string) \<Rightarrow> string \<Rightarrow> rat \<Rightarrow> nat \<times> json \<times> entity_key option \<Rightarrow>
    keyed_rows \<times> ranked_search_result list \<Rightarrow> keyed_rows \<times> ranked_search_result list" where
  "search_row show_json source weight = (\<lambda>(rank, val, entity) (keyed, unkeyed).
     let score = weight / (of_nat rank + 60 + 1) in
     case entity of
       Some e \<Rightarrow> (keyed_entry (ek_key e) score \<lparr>rs_value = val, rs_score = score, rs_tiebreaker = ek_key e\<rparr> keyed, unkeyed)
     | None \<Rightarrow> (keyed, unkeyed @ [\<lparr>rs_value = val, rs_score = score,
         rs_tiebreaker = CHR 0x7F # source @ '':'' @ nat_dec rank @ '':'' @ show_json val\<rparr>]))"

fun put_entities :: "entity_key list \<Rightarrow> entity_key option list \<Rightarrow> entity_key option list" where
  "put_entities ks [] = []"
| "put_entities (k # ks) (Some e # es) = Some k # put_entities ks es"
| "put_entities ks (e # es) = e # put_entities ks es"

definition merge_brain_search_items :: "hasher \<Rightarrow> digest \<Rightarrow> (keyed_rows \<Rightarrow> keyed_rows) \<Rightarrow> (json \<Rightarrow> string) \<Rightarrow>
    vault_mappings \<Rightarrow> json list \<Rightarrow> json list \<Rightarrow> json list \<times> nat \<times> bool" where
  "merge_brain_search_items H D iter show_json mappings local_items server_items =
     (let local_entities = map (brain_search_entity H D) local_items;
          server_entities = map (brain_search_entity H D) server_items;
          (server_keys, vault_unproven) =
            reconcile_vault_pairs_with_mappings mappings (List.map_filter id local_entities) (List.map_filter id server_entities);
          (keyed, unkeyed) =
            fold (search_row show_json ''server'' 1) (enumerate 0 (zip server_items (put_entities server_keys server_entities)))
              (fold (search_row show_json ''local'' (3 / 2)) (enumerate 0 (zip local_items local_entities)) ([], []))
      in (map rs_value (sort_key (\<lambda>r. (- rs_score r, rs_tiebreaker r)) (map snd (iter keyed) @ unkeyed)),
          length keyed, vault_unproven))"

definition combine_totals :: "bool \<Rightarrow> nat \<Rightarrow> nat option \<Rightarrow> nat option \<Rightarrow> nat \<Rightarrow> nat \<times> string" where
  "combine_totals exact union_count local_lower_bound server_lower_bound returned =
     (if exact then (union_count, ''eq'')
      else (max (max (max (case local_lower_bound of Some n \<Rightarrow> n | None \<Rightarrow> 0) (case server_lower_bound of Some n \<Rightarrow> n | None \<Rightarrow> 0))
              union_count) (if 0 < returned then 1 else 0), ''gte''))"

definition push_unique :: "string list \<Rightarrow> string \<Rightarrow> string list" where
  "push_unique xs x = (if x \<in> set xs then xs else xs @ [x])"

definition strings_of :: "string \<Rightarrow> json \<Rightarrow> string list" where
  "strings_of key v = (case get_array key v of Some items \<Rightarrow> List.map_filter as_str items | None \<Rightarrow> [])"

definition union_expansion_terms :: "json \<Rightarrow> json \<Rightarrow> string list" where
  "union_expansion_terms l s = foldl push_unique [] (strings_of ''expansion_terms'' l @ strings_of ''expansion_terms'' s)"

definition merge_honesty_fields :: "json \<Rightarrow> json \<Rightarrow> json \<Rightarrow> json" where
  "merge_honesty_fields l s response =
     (if \<not> list_ex (\<lambda>v. contains_key ''semantic_applied'' v \<or> contains_key ''degraded_components'' v) [l, s] then response
      else
        (let semantic_applied = list_all (\<lambda>v. Option.bind (json_get ''semantic_applied'' v) as_bool = Some True) [l, s];
             degraded = foldl push_unique [] (strings_of ''degraded_components'' l @ strings_of ''degraded_components'' s);
             r = json_insert ''degraded_components'' (JArray (map JString degraded)) (json_insert ''semantic_applied'' (JBool semantic_applied) response)
         in case List.map_filter (\<lambda>v. case json_get ''semantic_unavailable'' v of Some w \<Rightarrow> if w = JNull then None else Some w | None \<Rightarrow> None) [l, s] of
              detail # _ \<Rightarrow> json_insert ''semantic_unavailable'' detail r
            | [] \<Rightarrow> r))"

definition count_results :: "json \<Rightarrow> nat" where
  "count_results v =
     (case as_array v of Some arr \<Rightarrow> length arr | None \<Rightarrow>
     (case get_array ''results'' v of Some rs \<Rightarrow> length rs | None \<Rightarrow>
     (case get_array ''items'' v of Some items \<Rightarrow> length items | None \<Rightarrow>
     (case get_array ''connected'' v of Some cs \<Rightarrow> length cs | None \<Rightarrow> if is_object v then 1 else 0))))"

definition extract_result_items :: "json \<Rightarrow> json list" where
  "extract_result_items v =
     (case as_array v of Some arr \<Rightarrow> arr | None \<Rightarrow>
     (case get_array ''results'' v of Some rs \<Rightarrow> rs | None \<Rightarrow>
     (case get_array ''items'' v of Some items \<Rightarrow> items | None \<Rightarrow>
       (case v of JObject (_ # _) \<Rightarrow> [v] | _ \<Rightarrow> []))))"

definition wrap_merged_response :: "json list \<Rightarrow> string list \<Rightarrow> json" where
  "wrap_merged_response results sources = set_provenance (derived_scope sources) sources [] (JObject [(''results'', JArray results)])"

definition search_fields :: "json \<Rightarrow> json \<Rightarrow> nat \<times> string \<Rightarrow> nat \<Rightarrow> json \<Rightarrow> json" where
  "search_fields l s = (\<lambda>(total, relation) returned response.
     insert_fields
       [(''query'', case get_first [''query''] l of Some q \<Rightarrow> q | None \<Rightarrow> (case json_get ''query'' s of Some q \<Rightarrow> q | None \<Rightarrow> JString [])),
        (''engine'', JString ''hybrid''), (''total_matches'', JNumber (PosInt total)),
        (''total_matches_relation'', JString relation), (''returned_matches'', JNumber (PosInt returned)),
        (''truncated'', JBool (relation \<noteq> ''eq'' \<or> returned < total)),
        (''expansion_terms'', JArray (map JString (union_expansion_terms l s)))] response)"

definition engine_warnings :: "json \<Rightarrow> json \<Rightarrow> json list" where
  "engine_warnings l s = List.map_filter (\<lambda>(tier, v).
     case json_get ''engine_warning'' v of
       Some w \<Rightarrow> if w = JNull then None else Some (JObject [(''tier'', JString tier), (''warning'', w)])
     | None \<Rightarrow> None) [(''local'', l), (''server'', s)]"

definition miss_fields :: "json \<Rightarrow> json \<Rightarrow> (string \<times> json) list" where
  "miss_fields l s =
     (if is_not_found l \<and> is_not_found s
      then List.map_filter (\<lambda>key. map_option (Pair key) (or_else (json_get key l) (json_get key s)))
             [''status'', ''error'', ''message'', ''did_you_mean'', ''targets'']
      else [])"

definition merge_json_results_with_vault_mappings :: "hasher \<Rightarrow> digest \<Rightarrow> (keyed_rows \<Rightarrow> keyed_rows) \<Rightarrow> (scored \<Rightarrow> scored) \<Rightarrow>
    (json \<Rightarrow> string) \<Rightarrow> vault_mappings \<Rightarrow> json \<Rightarrow> json \<Rightarrow> json" where
  "merge_json_results_with_vault_mappings H D iter iter' show_json mappings l s =
     (let local_items = extract_result_items l;
          server_items = extract_result_items s;
          is_brain_search = (contains_key ''total_matches'' l \<or> contains_key ''total_matches'' s);
          local_count = search_count_metadata l (length local_items);
          server_count = search_count_metadata s (length server_items);
          (results, proven_identity_count, vault_unproven) =
            (if is_brain_search then merge_brain_search_items H D iter show_json mappings local_items server_items
             else (map mr_value (rrf_merge_with_vault_mappings D iter' show_json local_items server_items mappings), 0, False));
          returned = length results;
          response = wrap_merged_response results [''local'', ''server''];
          exact = (sc_complete local_count \<and> sc_complete server_count \<and>
             has_proven_unique_search_identities H D local_items \<and> has_proven_unique_search_identities H D server_items \<and> \<not> vault_unproven);
          response1 = (if is_brain_search
             then search_fields l s (combine_totals exact (if vault_unproven then 0 else proven_identity_count)
                    (sc_lower_bound local_count) (sc_lower_bound server_count) returned) returned response
             else response);
          response2 = merge_honesty_fields l s response1;
          response3 = (if engine_warnings l s \<noteq> [] then json_insert ''engine_warnings'' (JArray (engine_warnings l s)) response2 else response2)
      in insert_fields (miss_fields l s) response3)"

section \<open>Dispositions, fan-out and the cap\<close>

datatype lookup_disposition_kind = Found | Missing | Ambiguous | Incomplete | Invalid

definition lookup_disposition :: "string \<Rightarrow> json \<Rightarrow> lookup_disposition_kind" where
  "lookup_disposition tool v =
     (let status = json_get ''status'' v
      in if (case status of Some w \<Rightarrow> as_str w = None | None \<Rightarrow> False) then Invalid
         else if get_str ''status'' v = Some ''not_found'' then Missing
         else if get_str ''status'' v = Some ''ambiguous'' then Ambiguous
         else if get_str ''status'' v \<notin> {None, Some ''found'', Some ''ok''} then Invalid
         else if \<not> is_object v \<or> contains_key ''error'' v then Invalid
         else if tool = ''note_get'' then
           (case get_str ''uid'' v of Some (_ # _) \<Rightarrow> Found | _ \<Rightarrow> Invalid)
         else if tool = ''get_summary'' then
           (case get_array ''summaries'' v of
              None \<Rightarrow> Invalid
            | Some rows \<Rightarrow>
                (let total = Option.bind (json_get ''total'' v) as_u64;
                     returned = Option.bind (json_get ''returned'' v) as_u64
                 in if (contains_key ''total'' v \<and> total = None) \<or> (contains_key ''returned'' v \<and> returned \<noteq> Some (length rows)) \<or>
                       (case total of Some t \<Rightarrow> t < length rows | None \<Rightarrow> False) then Invalid
                    else if rows \<noteq> [] \<or> (case total of Some t \<Rightarrow> 0 < t | None \<Rightarrow> False) then Found
                    else if total = Some 0 \<and> returned = Some 0 then Missing
                    else Invalid))
         else if tool = ''read_symbols'' then
           (if (case get_array ''symbols'' v of Some (_ # _) \<Rightarrow> True | _ \<Rightarrow> False) \<and>
               (case get_array ''not_found'' v of Some (_ # _) \<Rightarrow> False | _ \<Rightarrow> True) then Found else Incomplete)
         else Invalid)"

fun concat_field :: "string \<times> json \<Rightarrow> json \<Rightarrow> json" where
  "concat_field (k, sv) out =
     (if prefix ''_'' k then out
      else case (json_get k out, sv) of
        (Some (JArray la), JArray sa) \<Rightarrow> json_insert k (JArray (la @ sa)) out
      | (Some (JBool _), JBool True) \<Rightarrow>
          if k \<in> {''truncated'', ''capped'', ''limit_hit'', ''partial''} then json_insert k (JBool True) out else out
      | (None, _) \<Rightarrow> json_insert k sv out
      | _ \<Rightarrow> out)"

definition concat_fanout :: "json \<Rightarrow> json \<Rightarrow> json" where
  "concat_fanout l s =
     (case (l, s) of (JObject _, JObject so) \<Rightarrow> fold concat_field so l | _ \<Rightarrow> l)"

definition public_kind :: "json \<Rightarrow> string" where
  "public_kind row =
     (let kind = (case get_str ''kind'' row of Some k \<Rightarrow> k | None \<Rightarrow> ''unknown'')
      in if prefix ''Symbol/'' kind then ''Symbol'' else kind)"

fun retain_capped :: "nat \<Rightarrow> (string \<Rightarrow> nat) \<Rightarrow> json list \<Rightarrow> json list" where
  "retain_capped limit counts [] = []"
| "retain_capped limit counts (row # rows) =
     (let k = public_kind row; counts' = counts(k := counts k + 1)
      in if counts' k \<le> limit then row # retain_capped limit counts' rows else retain_capped limit counts' rows)"

definition cap_brain_search_results :: "nat \<Rightarrow> json \<Rightarrow> json" where
  "cap_brain_search_results limit v =
     (case get_array ''results'' v of
        None \<Rightarrow> v
      | Some rows \<Rightarrow>
          (let kept = retain_capped limit (\<lambda>_. 0) rows;
               v1 = insert_fields [(''results'', JArray kept), (''returned_matches'', JNumber (PosInt (length kept))),
                      (''limit_per_kind'', JNumber (PosInt limit))] v
           in if length kept < length rows then json_insert ''truncated'' (JBool True) v1 else v1))"

definition positive_u64 :: "string \<Rightarrow> json \<Rightarrow> nat option" where
  "positive_u64 key v = (case Option.bind (json_get key v) as_u64 of Some n \<Rightarrow> if 0 < n then Some n else None | None \<Rightarrow> None)"

definition brain_search_limit :: "json \<Rightarrow> json \<Rightarrow> json \<Rightarrow> nat" where
  "brain_search_limit params l s =
     (case positive_u64 ''limit'' params of
        Some n \<Rightarrow> n
      | None \<Rightarrow> (case List.map_filter (positive_u64 ''limit_per_kind'') [l, s] of [] \<Rightarrow> 20 | ns \<Rightarrow> Min (set ns)))"

text \<open>Module owners come after every other node, and only so many of them.\<close>

definition MODULE_OWNER_CONTEXT_CAP :: nat where "MODULE_OWNER_CONTEXT_CAP = 3"

definition recap_module_owners :: "hasher \<Rightarrow> json list \<Rightarrow> json list \<times> nat" where
  "recap_module_owners H nodes =
     (let is_owner = (\<lambda>node. case get_str ''uid'' node of Some u \<Rightarrow> is_module_owner_uid H u | None \<Rightarrow> False);
          owners = filter is_owner nodes
      in (filter (\<lambda>n. \<not> is_owner n) nodes @ take MODULE_OWNER_CONTEXT_CAP owners, length owners - MODULE_OWNER_CONTEXT_CAP))"

section \<open>The number of rows and identities\<close>

lemma put_entities_map: "put_entities (map f (List.map_filter id es)) es = map (map_option f) es"
proof (induction es)
  case (Cons e es)
  then show ?case
    by (cases e; cases "map f (List.map_filter id es)") (auto simp: List.map_filter_simps)
qed simp

lemma keyed_entry_keys: "map fst (keyed_entry uid score fresh rows) = map fst rows @ (if uid \<in> fst ` set rows then [] else [uid])"
  by (induction rows) (auto simp: rev_image_eqI)

lemma keyed_entry_set: "fst ` set (keyed_entry uid score fresh rows) = insert uid (fst ` set rows)"
  using arg_cong [OF keyed_entry_keys [of uid score fresh rows], of set] by auto

definition row_keys :: "(nat \<times> json \<times> entity_key option) list \<Rightarrow> string set" where
  "row_keys rows = {ek_key e | e. \<exists>rank v. (rank, v, Some e) \<in> set rows}"

definition unkeyed_rows :: "(nat \<times> json \<times> entity_key option) list \<Rightarrow> nat" where
  "unkeyed_rows rows = length (filter (\<lambda>(_, _, e). e = None) rows)"

lemma row_keys_simps [simp]:
  "row_keys [] = {}"
  "row_keys ((rank, v, None) # rows) = row_keys rows"
  "row_keys ((rank, v, Some e) # rows) = insert (ek_key e) (row_keys rows)"
  by (auto simp: row_keys_def)

lemma unkeyed_rows_simps [simp]:
  "unkeyed_rows [] = 0"
  "unkeyed_rows ((rank, v, e) # rows) = (if e = None then 1 else 0) + unkeyed_rows rows"
  by (simp_all add: unkeyed_rows_def)

lemma search_rows_fold:
  "distinct (map fst keyed) \<Longrightarrow> fold (search_row show_json source w) rows (keyed, unkeyed) = (keyed', unkeyed') \<Longrightarrow>
   distinct (map fst keyed') \<and> fst ` set keyed' = fst ` set keyed \<union> row_keys rows \<and>
   length unkeyed' = length unkeyed + unkeyed_rows rows"
proof (induction rows arbitrary: keyed unkeyed)
  case Nil
  then show ?case by simp
next
  case (Cons row rows)
  obtain rank v e where row: "row = (rank, v, e)" by (metis prod_cases3)
  show ?case
  proof (cases e)
    case None
    then obtain u where "fold (search_row show_json source w) rows (keyed, unkeyed @ [u]) = (keyed', unkeyed')"
      using Cons.prems(2) by (simp add: row search_row_def Let_def)
    from Cons.IH [OF Cons.prems(1) this] show ?thesis by (simp add: row None)
  next
    case (Some ent)
    let ?keyed = "keyed_entry (ek_key ent) (w / (of_nat rank + 60 + 1))
      \<lparr>rs_value = v, rs_score = w / (of_nat rank + 60 + 1), rs_tiebreaker = ek_key ent\<rparr> keyed"
    have k: "distinct (map fst ?keyed)" "fst ` set ?keyed = insert (ek_key ent) (fst ` set keyed)"
      using Cons.prems(1) by (simp_all only: keyed_entry_keys keyed_entry_set) auto
    have "fold (search_row show_json source w) rows (?keyed, unkeyed) = (keyed', unkeyed')"
      using Cons.prems(2) by (simp add: row Some search_row_def Let_def)
    from Cons.IH [OF k(1) this] have "distinct (map fst keyed')" "fst ` set keyed' = insert (ek_key ent) (fst ` set keyed) \<union> row_keys rows"
      "length unkeyed' = length unkeyed + unkeyed_rows rows" using k(2) by simp_all
    then show ?thesis by (simp add: row Some)
  qed
qed

lemma row_keys_zip: "length es = length vs \<Longrightarrow> row_keys (enumerate n (zip vs es)) = ek_key ` {e. Some e \<in> set es}"
proof (induction es vs arbitrary: n rule: list_induct2)
  case (Cons e es v vs)
  then show ?case by (cases e) auto
qed simp

lemma unkeyed_rows_zip: "length es = length vs \<Longrightarrow> unkeyed_rows (enumerate n (zip vs es)) = length (filter (\<lambda>e. e = None) es)"
proof (induction es vs arbitrary: n rule: list_induct2)
  case (Cons e es v vs)
  then show ?case by simp
qed simp

text \<open>The entities of the two tiers as the merge compares them.\<close>

definition server_search_entities :: "hasher \<Rightarrow> digest \<Rightarrow> vault_mappings \<Rightarrow> json list \<Rightarrow> json list \<Rightarrow> entity_key option list" where
  "server_search_entities H D mappings ls ss =
     map (map_option (move_vault (vault_plan mappings (List.map_filter id (map (brain_search_entity H D) ls))
       (List.map_filter id (map (brain_search_entity H D) ss))))) (map (brain_search_entity H D) ss)"

definition search_keys :: "hasher \<Rightarrow> digest \<Rightarrow> vault_mappings \<Rightarrow> json list \<Rightarrow> json list \<Rightarrow> string set" where
  "search_keys H D mappings ls ss =
     ek_key ` {e. Some e \<in> set (map (brain_search_entity H D) ls)} \<union> ek_key ` {e. Some e \<in> set (server_search_entities H D mappings ls ss)}"

lemma merge_search_counts:
  assumes "merge_brain_search_items H D iter show_json mappings ls ss = (rows, proven, unproven)" and "\<And>k. mset (iter k) = mset k"
  shows "proven = card (search_keys H D mappings ls ss)"
    and "length rows = proven + length (filter (\<lambda>v. brain_search_entity H D v = None) (ls @ ss))"
proof -
  let ?le = "map (brain_search_entity H D) ls" and ?se = "map (brain_search_entity H D) ss"
  let ?ses = "server_search_entities H D mappings ls ss"
  obtain keyed unkeyed where l: "fold (search_row show_json ''local'' (3 / 2)) (enumerate 0 (zip ls ?le)) ([], []) = (keyed, unkeyed)" by fastforce
  obtain keyed' unkeyed' where s: "fold (search_row show_json ''server'' 1) (enumerate 0 (zip ss ?ses)) (keyed, unkeyed) = (keyed', unkeyed')" by fastforce
  have put: "put_entities (fst (reconcile_vault_pairs_with_mappings mappings (List.map_filter id ?le) (List.map_filter id ?se))) ?se = ?ses"
    by (simp only: reconcile_moves put_entities_map server_search_entities_def)
  have one: "distinct (map fst keyed) \<and> fst ` set keyed = ek_key ` {e. Some e \<in> set ?le} \<and>
      length unkeyed = length (filter (\<lambda>v. brain_search_entity H D v = None) ls)"
    using search_rows_fold [OF _ l] row_keys_zip [of ?le ls 0] unkeyed_rows_zip [of ?le ls 0] by (simp add: filter_map comp_def)
  have two: "distinct (map fst keyed') \<and> fst ` set keyed' = search_keys H D mappings ls ss \<and>
      length unkeyed' = length (filter (\<lambda>v. brain_search_entity H D v = None) (ls @ ss))"
    using search_rows_fold [OF _ s] one row_keys_zip [of ?ses ss 0] unkeyed_rows_zip [of ?ses ss 0]
    by (simp add: search_keys_def server_search_entities_def filter_map comp_def)
  have r: "rows = map rs_value (sort_key (\<lambda>r. (- rs_score r, rs_tiebreaker r)) (map snd (iter keyed') @ unkeyed'))" "proven = length keyed'"
    using assms(1) l s put by (auto simp: merge_brain_search_items_def Let_def case_prod_beta)
  have "card (search_keys H D mappings ls ss) = length (map fst keyed')" using two by (metis distinct_card list.set_map)
  then show "proven = card (search_keys H D mappings ls ss)" using r(2) by simp
  have "length (iter keyed') = length keyed'" using assms(2) by (metis size_mset)
  then show "length rows = proven + length (filter (\<lambda>v. brain_search_entity H D v = None) (ls @ ss))" using r two by simp
qed

lemma proven_unique_keyed: "proven_unique H D seen items \<Longrightarrow> filter (\<lambda>v. brain_search_entity H D v = None) items = []"
  by (induction items arbitrary: seen) (auto simp: brain_search_logical_uid_def split: option.splits)

section \<open>Reading the merged envelope\<close>

lemma honesty_get: "k \<notin> {''semantic_applied'', ''degraded_components'', ''semantic_unavailable''} \<Longrightarrow>
    json_get k (merge_honesty_fields l s r) = json_get k r"
  by (auto simp: merge_honesty_fields_def Let_def split: list.split)

lemma is_object_honesty [simp]: "is_object (merge_honesty_fields l s r) = is_object r"
  by (auto simp: merge_honesty_fields_def Let_def split: list.split)

lemma miss_fields_props: "distinct (map fst (miss_fields l s))"
  "map_of (miss_fields l s) k \<noteq> None \<Longrightarrow> k \<in> set [''status'', ''error'', ''message'', ''did_you_mean'', ''targets'']"
proof -
  show "distinct (map fst (miss_fields l s))"
  proof (cases "is_not_found l \<and> is_not_found s")
    case True
    show ?thesis unfolding miss_fields_def if_P [OF True] by (rule distinct_present) simp
  qed (auto simp: miss_fields_def)
  show "k \<in> set [''status'', ''error'', ''message'', ''did_you_mean'', ''targets'']" if "map_of (miss_fields l s) k \<noteq> None"
  proof (cases "is_not_found l \<and> is_not_found s")
    case True
    show ?thesis using that unfolding miss_fields_def if_P [OF True] map_of_present by (simp split: if_splits)
  next
    case False
    show ?thesis using that unfolding miss_fields_def if_not_P [OF False] by simp
  qed
qed

lemma wrap_props: "is_object (wrap_merged_response rows sources)" "json_get ''results'' (wrap_merged_response rows sources) = Some (JArray rows)"
  "k \<noteq> ''results'' \<Longrightarrow> k \<noteq> META_KEY \<Longrightarrow> json_get k (wrap_merged_response rows sources) = None"
  by (simp_all add: wrap_merged_response_def set_provenance_def META_KEY_def)

definition warned :: "json \<Rightarrow> json \<Rightarrow> json \<Rightarrow> json" where
  "warned l s r = (if engine_warnings l s \<noteq> [] then json_insert ''engine_warnings'' (JArray (engine_warnings l s)) r else r)"

lemma envelope_get:
  assumes "is_object r" and "k \<notin> {''semantic_applied'', ''degraded_components'', ''semantic_unavailable'', ''engine_warnings'',
      ''status'', ''error'', ''message'', ''did_you_mean'', ''targets''}"
  shows "json_get k (insert_fields (miss_fields l s) (warned l s (merge_honesty_fields l s r))) = json_get k r"
proof -
  have "map_of (miss_fields l s) k = None"
    using miss_fields_props(2) [of l s k] assms(2) by (cases "map_of (miss_fields l s) k = None") auto
  moreover have "is_object (warned l s (merge_honesty_fields l s r))" using assms(1) by (simp add: warned_def)
  ultimately show ?thesis using assms by (simp add: insert_fields_get miss_fields_props(1) warned_def honesty_get)
qed

lemma search_fields_get:
  assumes "is_object r"
  shows "json_get ''total_matches'' (search_fields l s (n, rel) returned r) = Some (JNumber (PosInt n))"
    "json_get ''total_matches_relation'' (search_fields l s (n, rel) returned r) = Some (JString rel)"
    "json_get ''returned_matches'' (search_fields l s (n, rel) returned r) = Some (JNumber (PosInt returned))"
    "json_get ''truncated'' (search_fields l s (n, rel) returned r) = Some (JBool (rel \<noteq> ''eq'' \<or> returned < n))"
    "json_get ''results'' (search_fields l s (n, rel) returned r) = json_get ''results'' r"
    "is_object (search_fields l s (n, rel) returned r)"
  using assms by (simp_all add: search_fields_def insert_fields_get)

text \<open>The rows kept by the cap: of every kind the first ones.\<close>

lemma retain_capped_kind: "filter (\<lambda>r. public_kind r = kind) (retain_capped limit counts rows) =
    take (limit - counts kind) (filter (\<lambda>r. public_kind r = kind) rows)"
proof (induction rows arbitrary: counts)
  case (Cons row rows)
  define counts' where "counts' = counts(public_kind row := counts (public_kind row) + 1)"
  have step: "retain_capped limit counts (row # rows) =
      (if counts (public_kind row) < limit then row # retain_capped limit counts' rows else retain_capped limit counts' rows)"
    by (simp add: counts'_def Let_def less_eq_Suc_le)
  have k: "counts' kind = (if public_kind row = kind then counts kind + 1 else counts kind)" by (simp add: counts'_def)
  show ?case
  proof (cases "public_kind row = kind")
    case True
    then show ?thesis using Cons.IH [of counts'] k step
      by (cases "counts kind < limit") (simp_all add: Suc_diff_Suc [symmetric] del: retain_capped.simps)
  next
    case False
    then show ?thesis using Cons.IH [of counts'] k step by (simp del: retain_capped.simps)
  qed
qed simp

lemma subseq_retain_capped: "subseq (retain_capped limit counts rows) rows"
  by (induction rows arbitrary: counts) (auto simp: Let_def)

section \<open>Complete tiers\<close>

text \<open>
  A tier answered in full when it says its total is exact and its answer not truncated, both of its
  counts are the number of rows it sent, and its rows carry pairwise different identities.
  A total it declares counts as a bound when it agrees with the rows it sent.
\<close>

definition complete_tier :: "hasher \<Rightarrow> digest \<Rightarrow> json \<Rightarrow> bool" where
  "complete_tier H D v \<longleftrightarrow> (let items = extract_result_items v; uids = map (brain_search_logical_uid H D) items in
     get_str ''total_matches_relation'' v = Some ''eq'' \<and> json_get ''truncated'' v = Some (JBool False) \<and>
     json_get ''total_matches'' v = Some (JNumber (PosInt (length items))) \<and>
     json_get ''returned_matches'' v = Some (JNumber (PosInt (length items))) \<and>
     distinct uids \<and> None \<notin> set uids)"

definition declared_total :: "json \<Rightarrow> nat \<Rightarrow> bool" where
  "declared_total v n \<longleftrightarrow> (let sent = length (extract_result_items v) in
     json_get ''total_matches'' v = Some (JNumber (PosInt n)) \<and> sent \<le> n \<and>
     json_get ''returned_matches'' v = Some (JNumber (PosInt sent)) \<and>
     (get_str ''total_matches_relation'' v = Some ''eq'' \<and> json_get ''truncated'' v = Some (JBool (sent < n)) \<or>
      get_str ''total_matches_relation'' v = Some ''gte'' \<and> json_get ''truncated'' v = Some (JBool True)))"

definition vaults_unproven :: "hasher \<Rightarrow> digest \<Rightarrow> vault_mappings \<Rightarrow> json list \<Rightarrow> json list \<Rightarrow> bool" where
  "vaults_unproven H D mappings ls ss = snd (reconcile_vault_pairs_with_mappings mappings
     (List.map_filter id (map (brain_search_entity H D) ls)) (List.map_filter id (map (brain_search_entity H D) ss)))"

definition tiers_complete :: "hasher \<Rightarrow> digest \<Rightarrow> vault_mappings \<Rightarrow> json \<Rightarrow> json \<Rightarrow> bool" where
  "tiers_complete H D mappings l s \<longleftrightarrow> complete_tier H D l \<and> complete_tier H D s \<and>
     \<not> vaults_unproven H D mappings (extract_result_items l) (extract_result_items s)"

lemma as_u64_eq: "as_u64 v = Some n \<longleftrightarrow> v = JNumber (PosInt n)"
  by (cases v rule: as_u64.cases) auto

lemma as_bool_eq: "as_bool v = Some b \<longleftrightarrow> v = JBool b"
  by (cases v rule: as_bool.cases) auto

lemma as_str_eq: "as_str v = Some b \<longleftrightarrow> v = JString b"
  by (cases v rule: as_str.cases) auto

lemma proven_unique_iff:
  "proven_unique H D seen items \<longleftrightarrow> (let uids = map (brain_search_logical_uid H D) items in
     distinct uids \<and> None \<notin> set uids \<and> (\<forall>u\<in>seen. Some u \<notin> set uids))"
  by (induction items arbitrary: seen) (auto simp: Let_def split: option.splits)

lemma count_metadata_bound:
  "sc_lower_bound (search_count_metadata v (length (extract_result_items v))) = Some n \<longleftrightarrow> declared_total v n"
  unfolding search_count_metadata_def declared_total_def Let_def get_str_def
  by (auto simp: bind_eq_Some_conv as_u64_eq as_bool_eq as_str_eq split: option.splits if_splits)

lemma count_metadata_complete:
  "sc_complete (search_count_metadata v (length (extract_result_items v))) \<and>
     has_proven_unique_search_identities H D (extract_result_items v) \<longleftrightarrow> complete_tier H D v"
  unfolding search_count_metadata_def complete_tier_def Let_def get_str_def has_proven_unique_search_identities_def
    proven_unique_iff
  by (auto simp: bind_eq_Some_conv as_u64_eq as_bool_eq as_str_eq split: option.splits if_splits)

lemma merge_search_unproven:
  "merge_brain_search_items H D iter show_json mappings ls ss = (rows, proven, unproven) \<Longrightarrow>
   unproven = vaults_unproven H D mappings ls ss"
  by (auto simp: merge_brain_search_items_def vaults_unproven_def Let_def case_prod_beta)

section \<open>Properties\<close>

text \<open>
  C4. The total of a merged search is honest. It is announced as exact precisely when both tiers answered
  in full (exact untruncated totals that agree with the rows they sent, all of them with
  different identities) and no vault of one tier may be one of the other without a proof; then it
  is the number of different entities of the two tiers, as many as the rows returned, and the
  answer is not marked truncated. In every other case it is announced as a lower bound and the
  answer is marked truncated; it is then at least every total a tier validly declared and, unless a
  vault pair is unproven, at least the number of different entities.
\<close>

theorem search_total_honest:
  assumes "contains_key ''total_matches'' l \<or> contains_key ''total_matches'' s" and "\<And>k. mset (iter k) = mset k"
    and "m = merge_json_results_with_vault_mappings H D iter iter' show_json mappings l s"
  shows "\<exists>rows n. get_array ''results'' m = Some rows \<and> json_get ''total_matches'' m = Some (JNumber (PosInt n)) \<and>
    json_get ''returned_matches'' m = Some (JNumber (PosInt (length rows))) \<and>
    (if tiers_complete H D mappings l s
     then get_str ''total_matches_relation'' m = Some ''eq'' \<and> json_get ''truncated'' m = Some (JBool False) \<and>
        n = length rows \<and> n = card (search_keys H D mappings (extract_result_items l) (extract_result_items s))
     else get_str ''total_matches_relation'' m = Some ''gte'' \<and> json_get ''truncated'' m = Some (JBool True) \<and>
        (\<forall>v\<in>{l, s}. \<forall>b. declared_total v b \<longrightarrow> b \<le> n) \<and>
        (vaults_unproven H D mappings (extract_result_items l) (extract_result_items s) \<or>
         card (search_keys H D mappings (extract_result_items l) (extract_result_items s)) \<le> n))"
proof -
  let ?ls = "extract_result_items l" and ?ss = "extract_result_items s"
  let ?lc = "search_count_metadata l (length ?ls)" and ?sc = "search_count_metadata s (length ?ss)"
  obtain rows proven unproven where items: "merge_brain_search_items H D iter show_json mappings ?ls ?ss = (rows, proven, unproven)"
    by (metis prod_cases3)
  define exact where "exact \<longleftrightarrow> sc_complete ?lc \<and> sc_complete ?sc \<and> has_proven_unique_search_identities H D ?ls \<and>
    has_proven_unique_search_identities H D ?ss \<and> \<not> unproven"
  obtain n rel where tot: "combine_totals exact (if unproven then 0 else proven) (sc_lower_bound ?lc) (sc_lower_bound ?sc) (length rows) = (n, rel)"
    by fastforce
  let ?r = "search_fields l s (n, rel) (length rows) (wrap_merged_response rows [''local'', ''server''])"
  have m: "m = insert_fields (miss_fields l s) (warned l s (merge_honesty_fields l s ?r))"
    using assms(1) items tot unfolding assms(3) merge_json_results_with_vault_mappings_def exact_def warned_def by (simp add: Let_def)
  have obj: "is_object ?r" by (simp add: search_fields_get wrap_props)
  have get: "json_get ''results'' m = Some (JArray rows)" "json_get ''total_matches'' m = Some (JNumber (PosInt n))"
    "json_get ''returned_matches'' m = Some (JNumber (PosInt (length rows)))"
    "json_get ''total_matches_relation'' m = Some (JString rel)" "json_get ''truncated'' m = Some (JBool (rel \<noteq> ''eq'' \<or> length rows < n))"
    unfolding m by (simp_all add: envelope_get obj search_fields_get wrap_props)
  note counts = merge_search_counts [OF items assms(2)]
  note unproven = merge_search_unproven [OF items]
  have complete: "exact \<longleftrightarrow> tiers_complete H D mappings l s"
    unfolding exact_def tiers_complete_def unproven count_metadata_complete [symmetric] by blast
  show ?thesis
  proof (cases exact)
    case True
    then have u: "proven_unique H D {} ?ls" "proven_unique H D {} ?ss"
      unfolding exact_def has_proven_unique_search_identities_def by blast+
    have "filter (\<lambda>v. brain_search_entity H D v = None) (?ls @ ?ss) = []"
      by (simp only: filter_append proven_unique_keyed [OF u(1)] proven_unique_keyed [OF u(2)] append_Nil)
    then have len: "length rows = proven" using counts(2) by simp
    have "n = proven" "rel = ''eq''" using tot True by (auto simp: combine_totals_def exact_def)
    with get len counts(1) complete True show ?thesis by (simp add: get_array_def get_str_def)
  next
    case False
    with tot have rel: "rel = ''gte''" and bound: "\<And>b. sc_lower_bound ?lc = Some b \<Longrightarrow> b \<le> n"
      "\<And>b. sc_lower_bound ?sc = Some b \<Longrightarrow> b \<le> n" "unproven \<or> proven \<le> n"
      by (cases unproven; auto simp: combine_totals_def split: option.splits)+
    have "\<forall>v\<in>{l, s}. \<forall>b. declared_total v b \<longrightarrow> b \<le> n"
      using bound(1,2) by (simp add: count_metadata_bound)
    moreover have "vaults_unproven H D mappings ?ls ?ss \<or> card (search_keys H D mappings ?ls ?ss) \<le> n"
      using bound(3) counts(1) unproven by simp
    moreover have "\<not> tiers_complete H D mappings l s" using complete False by blast
    ultimately show ?thesis using get rel by (simp add: get_array_def get_str_def)
  qed
qed

lemma push_unique_all: "distinct acc \<Longrightarrow> distinct (foldl push_unique acc xs) \<and> set (foldl push_unique acc xs) = set acc \<union> set xs"
  by (induction xs arbitrary: acc) (auto simp: push_unique_def)

text \<open>
  The honesty fields of a merge never overclaim: a merged answer says that a semantic ranking was
  applied only when both tiers say so, and a component degraded in either tier is reported, once.
\<close>

theorem honesty_never_overclaims:
  assumes "is_object r" and "json_get ''semantic_applied'' r = None" "json_get ''degraded_components'' r = None"
  shows "(json_get ''semantic_applied'' (merge_honesty_fields l s r) = Some (JBool True) \<longleftrightarrow>
      Option.bind (json_get ''semantic_applied'' l) as_bool = Some True \<and> Option.bind (json_get ''semantic_applied'' s) as_bool = Some True) \<and>
    distinct (strings_of ''degraded_components'' (merge_honesty_fields l s r)) \<and>
    set (strings_of ''degraded_components'' (merge_honesty_fields l s r)) =
      set (strings_of ''degraded_components'' l) \<union> set (strings_of ''degraded_components'' s)"
proof (cases "list_ex (\<lambda>v. contains_key ''semantic_applied'' v \<or> contains_key ''degraded_components'' v) [l, s]")
  case False
  then have "merge_honesty_fields l s r = r" "json_get ''semantic_applied'' l = None" "json_get ''degraded_components'' l = None"
    "json_get ''degraded_components'' s = None"
    by (simp_all add: merge_honesty_fields_def contains_key_def)
  with assms show ?thesis by (simp add: strings_of_def get_array_def)
next
  case True
  let ?d = "foldl push_unique [] (strings_of ''degraded_components'' l @ strings_of ''degraded_components'' s)"
  have "json_get ''semantic_applied'' (merge_honesty_fields l s r) = Some (JBool (list_all (\<lambda>v. Option.bind (json_get ''semantic_applied'' v) as_bool = Some True) [l, s]))"
    "json_get ''degraded_components'' (merge_honesty_fields l s r) = Some (JArray (map JString ?d))"
    using True assms(1) by (simp_all add: merge_honesty_fields_def Let_def split: list.split)
  moreover have "List.map_filter as_str (map JString xs) = xs" for xs by (induction xs) (simp_all add: List.map_filter_simps)
  ultimately show ?thesis
    using push_unique_all [of "[]" "strings_of ''degraded_components'' l @ strings_of ''degraded_components'' s"]
    by (simp add: strings_of_def [of _ "merge_honesty_fields l s r"] get_array_def)
qed

text \<open>
  The cap keeps, of every public kind, exactly the first rows up to the limit, in their order, and
  reports how many rows it left.
\<close>

theorem cap_keeps_best:
  assumes "get_array ''results'' v = Some rows"
  shows "\<exists>kept. get_array ''results'' (cap_brain_search_results limit v) = Some kept \<and> subseq kept rows \<and>
    filter (\<lambda>r. public_kind r = kind) kept = take limit (filter (\<lambda>r. public_kind r = kind) rows) \<and>
    json_get ''returned_matches'' (cap_brain_search_results limit v) = Some (JNumber (PosInt (length kept)))"
proof -
  have "is_object v" using assms by (auto simp: get_array_def bind_eq_Some_conv intro: json_get_object)
  then show ?thesis
    using assms retain_capped_kind [of kind limit "\<lambda>_. 0" rows] subseq_retain_capped [of limit "\<lambda>_. 0" rows]
    by (intro exI [of _ "retain_capped limit (\<lambda>_. 0) rows"]) (simp add: cap_brain_search_results_def Let_def get_array_insert)
qed

theorem cap_keeps_best_witness:
  "let v = JObject [(''results'', JArray [JObject [(''kind'', JString ''Symbol/Function'')], JObject [(''kind'', JString ''note'')],
       JObject [(''kind'', JString ''Symbol/Class'')]])]
   in json_get ''returned_matches'' (cap_brain_search_results 1 v) \<noteq> None"
proof -
  let ?v = "JObject [(''results'', JArray [JObject [(''kind'', JString ''Symbol/Function'')], JObject [(''kind'', JString ''note'')],
       JObject [(''kind'', JString ''Symbol/Class'')]])]"
  have "get_array ''results'' ?v = Some [JObject [(''kind'', JString ''Symbol/Function'')], JObject [(''kind'', JString ''note'')],
       JObject [(''kind'', JString ''Symbol/Class'')]]" by (simp add: get_array_def)
  from cap_keeps_best [OF this, of 1 "''note''"] show ?thesis unfolding Let_def by blast
qed

theorem honesty_never_overclaims_witness:
  "json_get ''semantic_applied'' (merge_honesty_fields (JObject [(''semantic_applied'', JBool True)])
     (JObject [(''semantic_applied'', JBool True)]) (JObject [])) = Some (JBool True)"
  by (subst honesty_never_overclaims [THEN conjunct1]) simp_all

text \<open>
  Two tiers that each found one note, the same: both answered in full and the total is exact. When
  one of them left a row out the same rows only give a lower bound.
\<close>

definition note_tier :: "nat \<Rightarrow> json" where
  "note_tier n = JObject [(''results'', JArray [JObject [(''uid'', JString ''note:vlt:a:000000000001:00000000000b''), (''kind'', JString ''note'')]]),
     (''total_matches'', JNumber (PosInt n)), (''returned_matches'', JNumber (PosInt 1)),
     (''total_matches_relation'', JString ''eq''), (''truncated'', JBool (1 < n))]"

theorem search_total_honest_witness:
  "get_str ''total_matches_relation'' (merge_json_results_with_vault_mappings (id, \<lambda>_. []) (\<lambda>_. 0) rev rev (\<lambda>_. []) []
       (note_tier 1) (note_tier 1)) = Some ''eq'' \<and>
   get_str ''total_matches_relation'' (merge_json_results_with_vault_mappings (id, \<lambda>_. []) (\<lambda>_. 0) rev rev (\<lambda>_. []) []
       (note_tier 1) (note_tier 2)) = Some ''gte''"
proof -
  have key: "contains_key ''total_matches'' (note_tier 1) \<or> contains_key ''total_matches'' t" for t
    by (simp add: contains_key_def note_tier_def)
  note honest = search_total_honest [OF key mset_rev refl, of "(id, \<lambda>_. [])" "\<lambda>_. 0" rev "\<lambda>_. []" "[]"]
  have "tiers_complete (id, \<lambda>_. []) (\<lambda>_. 0) [] (note_tier 1) (note_tier 1)" by code_simp
  with honest [of "note_tier 1"] have "get_str ''total_matches_relation'' (merge_json_results_with_vault_mappings (id, \<lambda>_. []) (\<lambda>_. 0) rev rev (\<lambda>_. []) []
       (note_tier 1) (note_tier 1)) = Some ''eq''" by auto
  moreover have "\<not> tiers_complete (id, \<lambda>_. []) (\<lambda>_. 0) [] (note_tier 1) (note_tier 2)" by code_simp
  with honest [of "note_tier 2"] have "get_str ''total_matches_relation'' (merge_json_results_with_vault_mappings (id, \<lambda>_. []) (\<lambda>_. 0) rev rev (\<lambda>_. []) []
       (note_tier 1) (note_tier 2)) = Some ''gte''" by auto
  ultimately show ?thesis ..
qed

end
