(* ===== verification/Stdio_Frames.thy ===== *)
theory Stdio_Frames
  imports Prelude
begin

text \<open>
  Frames of the stdio transport (\<^verbatim>\<open>crates/nestweaver-mcp/src/session.rs\<close>, \<^verbatim>\<open>read_frame\<close>).

  The buffered reader is the list of what its source will deliver: a non-empty piece of bytes, an
  interrupted call, or a failure; where the list ends the stream is at its end, and so it is after a
  read of no bytes. \<^verbatim>\<open>fill_buf\<close> shows the first piece, \<^verbatim>\<open>consume\<close> removes bytes from its front. How the
  stream is cut into pieces is up to the operating system, and the frames must not depend on it.
\<close>

datatype 'e fill = Bytes "u8 list" | Interrupted | Failed 'e

datatype frame_read = Line "u8 list" | Oversized nat

definition newline :: u8 where "newline = 10"

definition carriage_return :: u8 where "carriage_return = 13"

definition usize_max :: nat where "usize_max = 2 ^ 64 - 1"

text \<open>After the loop: an oversized line by its length, any other one without its carriage return.\<close>

definition finish_frame :: "u8 list \<Rightarrow> nat \<Rightarrow> bool \<Rightarrow> frame_read" where
  "finish_frame line len oversized =
     (if oversized then Oversized len
      else Line (if line \<noteq> [] \<and> last line = carriage_return then butlast line else line))"

text \<open>The chunk before the first newline, whether there is a newline, and what \<^verbatim>\<open>consume\<close> leaves.\<close>

definition cut_chunk :: "u8 list \<Rightarrow> u8 list \<times> bool \<times> u8 list" where
  "cut_chunk available =
     (case split_once newline available of
        Some (chunk, rest) \<Rightarrow> (chunk, True, rest)
      | None \<Rightarrow> (available, False, []))"

definition put_back :: "u8 list \<Rightarrow> 'e fill list \<Rightarrow> 'e fill list" where
  "put_back rest rs = (if rest = [] then rs else Bytes rest # rs)"

fun read_loop :: "nat \<Rightarrow> 'e fill list \<Rightarrow> u8 list \<Rightarrow> nat \<Rightarrow> bool \<Rightarrow> ('e + frame_read option) \<times> 'e fill list" where
  "read_loop max_bytes [] line len oversized =
     (Inr (if len = 0 then None else Some (finish_frame line len oversized)), [])"
| "read_loop max_bytes (Interrupted # rs) line len oversized = read_loop max_bytes rs line len oversized"
| "read_loop max_bytes (Failed e # rs) line len oversized = (Inl e, rs)"
| "read_loop max_bytes (Bytes available # rs) line len oversized =
     (if available = [] then (Inr (if len = 0 then None else Some (finish_frame line len oversized)), rs)
      else case cut_chunk available of
        (chunk, terminated, rest) \<Rightarrow>
          (let len' = min usize_max (len + length chunk);
               line' = (if oversized then line else if max_bytes < len' then [] else line @ chunk);
               oversized' = (oversized \<or> max_bytes < len')
           in if terminated then (Inr (Some (finish_frame line' len' oversized')), put_back rest rs)
              else read_loop max_bytes rs line' len' oversized'))"

definition read_frame :: "nat \<Rightarrow> 'e fill list \<Rightarrow> ('e + frame_read option) \<times> 'e fill list" where
  "read_frame max_bytes rs = read_loop max_bytes rs [] 0 False"

text \<open>The frames of a whole stream, as the reader thread asks for them, and the failure that ended it.\<close>

definition fill_weight :: "'e fill list \<Rightarrow> nat" where
  "fill_weight rs = sum_list (map (\<lambda>r. case r of Bytes bs \<Rightarrow> Suc (length bs) | _ \<Rightarrow> Suc 0) rs)"

lemma cut_chunk_cases:
  obtains chunk rest where "available = chunk @ newline # rest" "newline \<notin> set chunk" "cut_chunk available = (chunk, True, rest)"
  | "newline \<notin> set available" "cut_chunk available = (available, False, [])"
proof (cases "split_once newline available")
  case None
  then have "newline \<notin> set available" by (simp add: split_once_None_iff)
  moreover have "cut_chunk available = (available, False, [])" using None by (simp add: cut_chunk_def)
  ultimately show thesis by (rule that(2))
next
  case (Some p)
  obtain chunk rest where "split_once newline available = Some (chunk, rest)" using Some by (cases p) auto
  then show thesis using split_once_SomeD [of newline available chunk rest] by (intro that(1)) (auto simp: cut_chunk_def)
qed

lemma read_loop_weight: "read_loop m rs line len ov = (Inr (Some f), rs') \<Longrightarrow> rs = [] \<and> 0 < len \<or> fill_weight rs' < fill_weight rs"
proof (induction m rs line len ov rule: read_loop.induct)
  case (4 m available rs line len ov)
  show ?case
  proof (cases "available = []")
    case True
    with 4 show ?thesis by (auto simp: fill_weight_def split: if_splits)
  next
    case False
    show ?thesis
    proof (rule cut_chunk_cases [of available])
      fix chunk rest
      assume "available = chunk @ newline # rest" "cut_chunk available = (chunk, True, rest)"
      with "4.prems" show ?thesis by (auto simp: put_back_def fill_weight_def Let_def split: if_splits)
    next
      assume c: "cut_chunk available = (available, False, [])"
      let ?len' = "min usize_max (len + length available)"
      from "4.prems" False c have r: "read_loop m rs (if ov then line else if m < ?len' then [] else line @ available) ?len' (ov \<or> m < ?len') = (Inr (Some f), rs')"
        by (simp add: Let_def)
      have "\<not> False" by simp
      from "4.IH" [OF False c [symmetric] refl refl refl refl this r] have "rs = [] \<or> fill_weight rs' < fill_weight rs" by auto
      moreover have "rs' = []" if "rs = []" using r that by simp
      ultimately show ?thesis by (auto simp: fill_weight_def)
    qed
  qed
qed (auto simp: fill_weight_def split: if_splits)

lemma read_frame_weight: "read_frame m rs = (Inr (Some f), rs') \<Longrightarrow> fill_weight rs' < fill_weight rs"
  using read_loop_weight [of m rs "[]" 0 False f rs'] by (auto simp: read_frame_def)

function read_frames :: "nat \<Rightarrow> 'e fill list \<Rightarrow> frame_read list \<times> 'e option" where
  "read_frames max_bytes rs =
     (case read_frame max_bytes rs of
        (Inl e, _) \<Rightarrow> ([], Some e)
      | (Inr None, _) \<Rightarrow> ([], None)
      | (Inr (Some f), rs') \<Rightarrow> (case read_frames max_bytes rs' of (fs, e) \<Rightarrow> (f # fs, e)))"
  by auto
termination
  by (relation "measure (\<lambda>(_, rs). fill_weight rs)") (auto dest: read_frame_weight [OF sym])

declare read_frames.simps [simp del]

section \<open>The stream as lines\<close>

text \<open>The reference: cut the whole stream at its newlines; what follows the last one is a line if it is not empty.\<close>

definition stream_lines :: "u8 list \<Rightarrow> u8 list list" where
  "stream_lines bs = (let ps = split newline bs in if last ps = [] then butlast ps else ps)"

definition frame_of_line :: "nat \<Rightarrow> u8 list \<Rightarrow> frame_read" where
  "frame_of_line max_bytes l = finish_frame (if max_bytes < length l then [] else l) (length l) (max_bytes < length l)"

fun delivered :: "'e fill list \<Rightarrow> u8 list" where
  "delivered [] = []"
| "delivered (Bytes bs # rs) = bs @ delivered rs"
| "delivered (_ # rs) = delivered rs"

fun sound_fill :: "'e fill \<Rightarrow> bool" where
  "sound_fill (Bytes bs) = (bs \<noteq> [])"
| "sound_fill Interrupted = True"
| "sound_fill (Failed e) = False"

lemma stream_lines_Nil [simp]: "stream_lines [] = []"
  by (simp add: stream_lines_def)

lemma stream_lines_cut: "newline \<notin> set l \<Longrightarrow> stream_lines (l @ newline # bs) = l # stream_lines bs"
  by (subgoal_tac "split newline (l @ newline # bs) = l # split newline bs") (auto simp: stream_lines_def Let_def intro: split_by_append)

lemma stream_lines_last: "newline \<notin> set l \<Longrightarrow> l \<noteq> [] \<Longrightarrow> stream_lines l = [l]"
  by (subgoal_tac "split newline l = [l]") (auto simp: stream_lines_def Let_def intro: split_by_id)

lemma delivered_put_back [simp]: "delivered (put_back rest rs) = rest @ delivered rs"
  by (simp add: put_back_def)

lemma sound_put_back: "list_all sound_fill rs \<Longrightarrow> list_all sound_fill (put_back rest rs)"
  by (simp add: put_back_def)

lemma read_loop_lines:
  assumes "list_all sound_fill rs" "newline \<notin> set got" "length (got @ delivered rs) \<le> usize_max"
    and "line = (if m < length got then [] else got)" "len = length got" "ov \<longleftrightarrow> m < length got"
  shows "case stream_lines (got @ delivered rs) of
      [] \<Rightarrow> read_loop m rs line len ov = (Inr None, [])
    | l # _ \<Rightarrow> (\<exists>rs'. read_loop m rs line len ov = (Inr (Some (frame_of_line m l)), rs') \<and> list_all sound_fill rs' \<and>
        stream_lines (got @ delivered rs) = l # stream_lines (delivered rs') \<and> length (delivered rs') \<le> length (got @ delivered rs))"
  using assms
proof (induction rs arbitrary: got line len ov)
  case Nil
  then show ?case by (cases "got = []") (simp_all add: stream_lines_last frame_of_line_def)
next
  case (Cons r rs)
  show ?case
  proof (cases r)
    case Interrupted
    then have same: "delivered (r # rs) = delivered rs" "read_loop m (r # rs) line len ov = read_loop m rs line len ov" "list_all sound_fill rs"
      using Cons.prems(1) by simp_all
    show ?thesis unfolding same(1,2) using Cons.prems same by (intro Cons.IH) simp_all
  next
    case (Failed e)
    with Cons.prems show ?thesis by simp
  next
    case (Bytes available)
    with Cons.prems have ne: "available \<noteq> []" and ok: "list_all sound_fill rs" by auto
    from Cons.prems(3) Bytes have room: "length got + length available + length (delivered rs) \<le> usize_max" by simp
    show ?thesis
    proof (rule cut_chunk_cases [of available])
      fix chunk rest
      assume a: "available = chunk @ newline # rest" "newline \<notin> set chunk" and c: "cut_chunk available = (chunk, True, rest)"
      have lines: "stream_lines (got @ delivered (r # rs)) = (got @ chunk) # stream_lines (rest @ delivered rs)"
        using stream_lines_cut [of "got @ chunk" "rest @ delivered rs"] a Cons.prems(2) Bytes by simp
      have len: "length got + length chunk \<le> usize_max" using room a by simp
      have "read_loop m (r # rs) line len ov = (Inr (Some (frame_of_line m (got @ chunk))), put_back rest rs)"
        using Bytes ne c Cons.prems(4-6) len by (auto simp: min_def Let_def frame_of_line_def)
      with lines ok a room show ?thesis by (auto simp: Bytes intro!: sound_put_back)
    next
      assume n: "newline \<notin> set available" and c: "cut_chunk available = (available, False, [])"
      let ?got = "got @ available"
      have len: "length got + length available \<le> usize_max" using room by simp
      have same: "read_loop m (r # rs) line len ov =
          read_loop m rs (if m < length ?got then [] else ?got) (length ?got) (m < length ?got)"
        using Bytes ne c Cons.prems(4-6) len by (auto simp: min_def Let_def)
      have stream: "got @ delivered (r # rs) = ?got @ delivered rs" by (simp add: Bytes)
      show ?thesis unfolding same stream using n ok room Cons.prems(2) by (intro Cons.IH) simp_all
    qed
  qed
qed

lemma frame_of_line_bounded: "frame_of_line m l = Line l' \<Longrightarrow> length l' \<le> m"
  by (auto simp: frame_of_line_def finish_frame_def split: if_splits)

lemma read_frames_lines:
  "list_all sound_fill rs \<Longrightarrow> length (delivered rs) \<le> usize_max \<Longrightarrow>
     read_frames m rs = (map (frame_of_line m) (stream_lines (delivered rs)), None)"
proof (induction m rs rule: read_frames.induct)
  case (1 m rs)
  note step = read_loop_lines [of rs "[]" "[]" m 0 False, folded read_frame_def]
  show ?case
  proof (cases "stream_lines (delivered rs)")
    case Nil
    with step 1(2,3) have "read_frame m rs = (Inr None, [])" by simp
    with Nil show ?thesis by (simp add: read_frames.simps)
  next
    case (Cons l ls)
    with step 1(2,3) obtain rs' where r: "read_frame m rs = (Inr (Some (frame_of_line m l)), rs')" "list_all sound_fill rs'"
      "ls = stream_lines (delivered rs')" "length (delivered rs') \<le> length (delivered rs)" by auto
    from 1(1) [OF r(1) [symmetric] refl refl r(2)] r(4) 1(3) Cons r(3) show ?thesis
      by (subst read_frames.simps) (simp add: r(1))
  qed
qed

section \<open>Property\<close>

text \<open>
  C29. Whatever the pieces in which the operating system delivers the input, the server sees exactly the
  lines of the byte stream, each without its line end, and a line longer than the limit as its length
  only, after which the next line is read from its first byte. No line it keeps exceeds the limit.
\<close>

theorem framing_is_chunk_independent:
  assumes "list_all sound_fill rs" and "length (delivered rs) \<le> usize_max"
  shows "read_frames m rs = (map (frame_of_line m) (stream_lines (delivered rs)), None) \<and>
    list_all (\<lambda>f. case f of Line l \<Rightarrow> length l \<le> m | Oversized n \<Rightarrow> m < n) (fst (read_frames m rs))"
  using read_frames_lines [OF assms, of m]
  by (auto simp: list_all_iff frame_of_line_bounded frame_of_line_def finish_frame_def split: if_splits frame_read.split)

theorem framing_is_chunk_independent_witness:
  "read_frames 3 ([Bytes [97], Interrupted, Bytes [98, 13], Bytes [10, 99, 99], Bytes [99, 99, 10, 100]] :: unit fill list) =
     ([Line [97, 98], Oversized 4, Line [100]], None)"
proof -
  have "read_frames 3 ([Bytes [97], Interrupted, Bytes [98, 13], Bytes [10, 99, 99], Bytes [99, 99, 10, 100]] :: unit fill list) =
      (map (frame_of_line 3) (stream_lines [97, 98, 13, 10, 99, 99, 99, 99, 10, 100]), None)"
    by (subst framing_is_chunk_independent [THEN conjunct1]) (simp_all add: usize_max_def)
  also have "stream_lines [97, 98, 13, 10, 99, 99, 99, 99, 10, 100] = [[97, 98, 13], [99, 99, 99, 99], [100]]"
    by (simp add: stream_lines_def newline_def)
  finally show ?thesis by (simp add: frame_of_line_def finish_frame_def carriage_return_def)
qed

end
