(* ===== verification/Stdio_Session.thy ===== *)
theory Stdio_Session
  imports Json_Value Stdio_Frames "HOL-Library.Multiset"
begin

text \<open>
  The stdio session of the MCP server (\<^verbatim>\<open>crates/nestweaver-mcp/src/session.rs\<close>) and the validation of
  its requests (\<^verbatim>\<open>crates/nestweaver-mcp/src/protocol.rs\<close>).

  Two threads share the table of pending requests: the reader takes frames from the input, answers what
  it can itself, and queues the rest; the worker runs the queued requests one after the other. A step of
  \<open>session_step\<close> runs one of the two up to its next access to shared state, so every interleaving is a
  list of steps. A cancellation flag is a cell (a number below \<open>ss_next\<close>) that the table and the queued
  request share. What the dispatched tool returns and whether a write succeeds are inputs of a step.

  Parameters: the registered tools and the message for any other name (the tool table is built from
  JSON schemas), and the decoding of a frame's bytes (UTF-8 and the JSON parser of the library). The
  log is a ghost: it records what happened to every request and no code reads it.
\<close>

section \<open>Requests\<close>

record request =
  rq_jsonrpc :: string
  rq_id :: "json option"
  rq_method :: string
  rq_params :: "json option"

record invalid_request =
  ir_response_id :: json
  ir_message :: string

fun legal_id :: "json \<Rightarrow> bool" where
  "legal_id JNull = True"
| "legal_id (JString s) = True"
| "legal_id (JNumber (PosInt n)) = True"
| "legal_id (JNumber (NegInt i)) = True"
| "legal_id v = False"

text \<open>The \<^verbatim>\<open>params\<close> member: absent and null are the same, and only a structure is accepted.\<close>

fun envelope_params :: "json option \<Rightarrow> json option option" where
  "envelope_params None = Some None"
| "envelope_params (Some JNull) = Some None"
| "envelope_params (Some (JArray vs)) = Some (Some (JArray vs))"
| "envelope_params (Some (JObject members)) = Some (Some (JObject members))"
| "envelope_params (Some v) = None"

definition validate_request :: "json \<Rightarrow> invalid_request + request" where
  "validate_request v =
     (if \<not> is_object v then Inl \<lparr>ir_response_id = JNull, ir_message = ''JSON-RPC request must be an object''\<rparr>
      else
        let rid = json_get ''id'' v;
            response_id = (case rid of Some i \<Rightarrow> i | None \<Rightarrow> JNull)
        in if \<not> pred_option legal_id rid then
             Inl \<lparr>ir_response_id = JNull, ir_message = ''JSON-RPC request id must be a string, null, or an integer in -9223372036854775808..=18446744073709551615; floating-point, exponent and out-of-range numeric IDs are not accepted''\<rparr>
           else if get_str ''jsonrpc'' v \<noteq> Some ''2.0'' then
             Inl \<lparr>ir_response_id = response_id, ir_message = ''jsonrpc must be exactly '' @ [CHR 0x27] @ ''2.0'' @ [CHR 0x27]\<rparr>
           else case get_str ''method'' v of
             None \<Rightarrow> Inl \<lparr>ir_response_id = response_id, ir_message = ''JSON-RPC request method must be a string''\<rparr>
           | Some method \<Rightarrow>
               (case envelope_params (json_get ''params'' v) of
                  None \<Rightarrow> Inl \<lparr>ir_response_id = response_id, ir_message = ''JSON-RPC params must be an array or an object''\<rparr>
                | Some params \<Rightarrow>
                    if method = ''tools/call'' \<and> rid = None then
                      Inl \<lparr>ir_response_id = JNull, ir_message = ''tools/call requires a correlated request id''\<rparr>
                    else Inr \<lparr>rq_jsonrpc = ''2.0'', rq_id = rid, rq_method = method, rq_params = params\<rparr>))"

definition allowed_params :: "string \<Rightarrow> string list option" where
  "allowed_params method =
     (if method = ''initialize'' then Some [''protocolVersion'', ''capabilities'', ''clientInfo'', ''_meta'']
      else if method \<in> {''ping'', ''notifications/initialized'', ''initialized''} then Some [''_meta'']
      else if method = ''tools/list'' then Some [''cursor'', ''_meta'']
      else if method = ''tools/call'' then Some [''name'', ''arguments'', ''_meta'']
      else if method = ''notifications/cancelled'' then Some [''requestId'', ''reason'', ''_meta'']
      else None)"

definition quoted :: "string \<Rightarrow> string" where
  "quoted s = [CHR 0x27] @ s @ [CHR 0x27]"

fun json_keys :: "json \<Rightarrow> string list" where
  "json_keys (JObject members) = sort (map fst members)"
| "json_keys _ = []"

definition is_string_at :: "string \<Rightarrow> json option \<Rightarrow> bool" where
  "is_string_at k v \<longleftrightarrow> Option.bind (Option.bind v (json_get k)) as_str \<noteq> None"

definition is_object_at :: "string \<Rightarrow> json option \<Rightarrow> bool" where
  "is_object_at k v \<longleftrightarrow> (case Option.bind v (json_get k) of Some w \<Rightarrow> is_object w | None \<Rightarrow> False)"

definition absent_at :: "string \<Rightarrow> json option \<Rightarrow> bool" where
  "absent_at k v \<longleftrightarrow> Option.bind v (json_get k) = None"

text \<open>The checks of one method on its parameter object, an object iterating in the order of its keys.\<close>

definition method_checks :: "(string \<Rightarrow> bool) \<Rightarrow> (string \<Rightarrow> string) \<Rightarrow> request \<Rightarrow> string option" where
  "method_checks registered unknown_tool_message req =
     (let params = rq_params req; info = Option.bind params (json_get ''clientInfo'')
      in if rq_method req = ''initialize'' then
           (if \<not> is_string_at ''protocolVersion'' params then Some (''initialize: '' @ quoted ''protocolVersion'' @ '' must be a string'')
            else if \<not> is_object_at ''capabilities'' params then Some (''initialize: '' @ quoted ''capabilities'' @ '' must be an object'')
            else if \<not> is_string_at ''name'' info \<or> \<not> is_string_at ''version'' info then
              Some (''initialize: '' @ quoted ''clientInfo'' @ '' requires string name and version'')
            else None)
         else if rq_method req = ''tools/list'' then
           (if \<not> absent_at ''cursor'' params \<and> \<not> is_string_at ''cursor'' params then
              Some (''tools/list: '' @ quoted ''cursor'' @ '' must be a string'')
            else None)
         else if rq_method req = ''tools/call'' then
           (case Option.bind (Option.bind params (json_get ''name'')) as_str of
              None \<Rightarrow> Some (''tools/call: '' @ quoted ''name'' @ '' must be a nonempty string'')
            | Some name \<Rightarrow>
                if name = [] then Some (''tools/call: '' @ quoted ''name'' @ '' must be a nonempty string'')
                else if \<not> registered name then Some (unknown_tool_message name)
                else if \<not> absent_at ''arguments'' params \<and> \<not> is_object_at ''arguments'' params then
                  Some (''tools/call: '' @ quoted ''arguments'' @ '' must be an object'')
                else None)
         else if rq_method req = ''notifications/cancelled'' then
           (if rq_id req \<noteq> None then Some ''notifications/cancelled must not carry a request id''
            else if \<not> (case Option.bind params (json_get ''requestId'') of Some i \<Rightarrow> legal_id i \<and> i \<noteq> JNull | None \<Rightarrow> False) then
              Some (''notifications/cancelled: '' @ quoted ''requestId'' @ '' must be a string or lossless integer'')
            else if \<not> absent_at ''reason'' params \<and> \<not> is_string_at ''reason'' params then
              Some (''notifications/cancelled: '' @ quoted ''reason'' @ '' must be a string'')
            else None)
         else None)"

text \<open>The message of the first failed check, or none.\<close>

definition validate_method_params :: "(string \<Rightarrow> bool) \<Rightarrow> (string \<Rightarrow> string) \<Rightarrow> request \<Rightarrow> string option" where
  "validate_method_params registered unknown_tool_message req =
     (case allowed_params (rq_method req) of
        None \<Rightarrow> None
      | Some allowed \<Rightarrow>
          if \<not> pred_option is_object (rq_params req) then Some (rq_method req @ '' params must be an object'')
          else (case find (\<lambda>k. k \<notin> set allowed) (case rq_params req of Some v \<Rightarrow> json_keys v | None \<Rightarrow> []) of
                  Some k \<Rightarrow> Some (rq_method req @ '': unknown parameter '' @ quoted k)
                | None \<Rightarrow>
                    if \<not> absent_at ''_meta'' (rq_params req) \<and> \<not> is_object_at ''_meta'' (rq_params req) then
                      Some (rq_method req @ '': '' @ quoted ''_meta'' @ '' must be an object'')
                    else method_checks registered unknown_tool_message req))"

section \<open>The key of a request\<close>

text \<open>\<^verbatim>\<open>Value::to_string\<close> on a legal identifier: its JSON text, with the escapes of the library.\<close>

definition hex_digit :: "nat \<Rightarrow> char" where
  "hex_digit d = (if d < 10 then char_of (48 + d) else char_of (87 + d))"

definition escape_char :: "char \<Rightarrow> string" where
  "escape_char c =
     (if c = CHR 0x22 then [CHR 0x5C, CHR 0x22]
      else if c = CHR 0x5C then [CHR 0x5C, CHR 0x5C]
      else if code c = 8 then [CHR 0x5C, CHR ''b'']
      else if code c = 9 then [CHR 0x5C, CHR ''t'']
      else if code c = 10 then [CHR 0x5C, CHR ''n'']
      else if code c = 12 then [CHR 0x5C, CHR ''f'']
      else if code c = 13 then [CHR 0x5C, CHR ''r'']
      else if code c < 32 then [CHR 0x5C, CHR ''u'', CHR ''0'', CHR ''0'', hex_digit (code c div 16), hex_digit (code c mod 16)]
      else [c])"

fun request_key :: "json \<Rightarrow> string" where
  "request_key JNull = ''null''"
| "request_key (JString s) = [CHR 0x22] @ concat (map escape_char s) @ [CHR 0x22]"
| "request_key (JNumber (PosInt n)) = nat_dec n"
| "request_key (JNumber (NegInt i)) = CHR ''-'' # nat_dec (nat (- i))"
| "request_key v = []"

section \<open>The session\<close>

datatype item = Reply json | Dispatch request nat

record envelope =
  en_batch :: bool
  en_items :: "item list"

datatype reader_at = ReadingFrame | Admitting bool "json list" "item list" | ReaderStopped

datatype worker_at =
  Receiving
| Working bool "item list" "json list"
| Calling bool request nat "item list" "json list"
| Finishing bool request nat "json option" "item list" "json list"
| WorkerReturned

datatype log_entry = Admitted nat | Cancelled nat | Called nat | Answered nat

record session =
  ss_cancel :: "nat \<Rightarrow> bool"
  ss_next :: nat
  ss_pending :: "(string \<times> nat) list"
  ss_queue :: "(string + envelope) list"
  ss_output :: "json list"
  ss_stream :: "string fill list"
  ss_reader :: reader_at
  ss_worker :: worker_at
  ss_log :: "log_entry list"

datatype line_text = NotUtf8 | BlankLine | BadJson string | Parsed json

record server_env =
  env_registered :: "string \<Rightarrow> bool"
  env_unknown_tool :: "string \<Rightarrow> string"
  env_decode :: "u8 list \<Rightarrow> line_text"
  env_max_frame :: nat

definition MAX_PENDING_REQUESTS :: nat where "MAX_PENDING_REQUESTS = 128"

definition MAX_STDIO_FRAME_BYTES :: nat where "MAX_STDIO_FRAME_BYTES = 64 * 1024 * 1024"

definition PARSE_ERROR :: int where "PARSE_ERROR = - 32700"

definition INVALID_REQUEST :: int where "INVALID_REQUEST = - 32600"

definition INVALID_PARAMS :: int where "INVALID_PARAMS = - 32602"

definition failure_reply :: "json \<Rightarrow> int \<Rightarrow> string \<Rightarrow> json" where
  "failure_reply rid c message =
     JObject [(''jsonrpc'', JString ''2.0''), (''id'', rid),
              (''error'', JObject [(''code'', JNumber (NegInt c)), (''message'', JString message)])]"

definition new_session :: "string fill list \<Rightarrow> session" where
  "new_session stream =
     \<lparr>ss_cancel = \<lambda>_. False, ss_next = 0, ss_pending = [], ss_queue = [], ss_output = [], ss_stream = stream,
      ss_reader = ReadingFrame, ss_worker = Receiving, ss_log = []\<rparr>"

text \<open>Set the given flags; the guard of the reader and a failed write set all flags of the table.\<close>

definition set_cancelled :: "nat list \<Rightarrow> session \<Rightarrow> session" where
  "set_cancelled fs s = s\<lparr>ss_cancel := \<lambda>f. ss_cancel s f \<or> f \<in> set fs, ss_log := ss_log s @ map Cancelled fs\<rparr>"

definition cancel_pending :: "session \<Rightarrow> session" where
  "cancel_pending s = set_cancelled (map snd (ss_pending s)) s"

definition admit :: "server_env \<Rightarrow> json \<Rightarrow> session \<Rightarrow> item option \<times> session" where
  "admit env v s =
     (case validate_request v of
        Inl e \<Rightarrow> (Some (Reply (failure_reply (ir_response_id e) INVALID_REQUEST (ir_message e))), s)
      | Inr req \<Rightarrow>
     (case validate_method_params (env_registered env) (env_unknown_tool env) req of
        Some message \<Rightarrow> (map_option (\<lambda>rid. Reply (failure_reply rid INVALID_PARAMS message)) (rq_id req), s)
      | None \<Rightarrow>
          if rq_method req = ''notifications/cancelled'' then
            (None,
             case Option.bind (rq_params req) (json_get ''requestId'') of
               None \<Rightarrow> s
             | Some rid \<Rightarrow> (case map_of (ss_pending s) (request_key rid) of None \<Rightarrow> s | Some f \<Rightarrow> set_cancelled [f] s))
          else case rq_id req of
            None \<Rightarrow> (None, s)
          | Some rid \<Rightarrow>
              if map_of (ss_pending s) (request_key rid) \<noteq> None then
                (Some (Reply (failure_reply rid INVALID_REQUEST ''request id is already in flight'')), s)
              else if rq_method req = ''ping'' then
                (Some (Reply (JObject [(''jsonrpc'', JString ''2.0''), (''id'', rid), (''result'', JObject [])])), s)
              else if MAX_PENDING_REQUESTS \<le> length (ss_pending s) then
                (Some (Reply (failure_reply rid INVALID_REQUEST
                   ''too many pending requests; retry after an in-flight request completes'')), s)
              else
                (Some (Dispatch req (ss_next s)),
                 s\<lparr>ss_cancel := (ss_cancel s)(ss_next s := False), ss_next := Suc (ss_next s),
                   ss_pending := (request_key rid, ss_next s) # ss_pending s, ss_log := ss_log s @ [Admitted (ss_next s)]\<rparr>)))"

text \<open>The reader: it stops with the guard unclean on a failure, and clean at the end of the input.\<close>

definition reader_fails :: "session \<Rightarrow> session" where
  "reader_fails s = cancel_pending (s\<lparr>ss_reader := ReaderStopped\<rparr>)"

definition reader_writes :: "bool \<Rightarrow> json \<Rightarrow> session \<Rightarrow> session" where
  "reader_writes written v s =
     (if written then s\<lparr>ss_output := ss_output s @ [v], ss_reader := ReadingFrame\<rparr> else reader_fails s)"

definition parse_failure :: "string \<Rightarrow> json" where
  "parse_failure message = failure_reply JNull PARSE_ERROR message"

definition take_line :: "server_env \<Rightarrow> bool \<Rightarrow> u8 list \<Rightarrow> session \<Rightarrow> session" where
  "take_line env written bytes s =
     (case env_decode env bytes of
        NotUtf8 \<Rightarrow> reader_writes written (parse_failure ''invalid JSON: stream did not contain valid UTF-8'') s
      | BlankLine \<Rightarrow> s
      | BadJson message \<Rightarrow> reader_writes written (parse_failure (''invalid JSON: '' @ message)) s
      | Parsed (JArray []) \<Rightarrow> reader_writes written (failure_reply JNull INVALID_REQUEST ''empty batch array'') s
      | Parsed (JArray vs) \<Rightarrow> s\<lparr>ss_reader := Admitting True vs []\<rparr>
      | Parsed v \<Rightarrow> s\<lparr>ss_reader := Admitting False [v] []\<rparr>)"

definition take_frame :: "server_env \<Rightarrow> bool \<Rightarrow> session \<Rightarrow> session" where
  "take_frame env written s =
     (case read_frame (env_max_frame env) (ss_stream s) of
        (Inl e, rs) \<Rightarrow>
          reader_fails (s\<lparr>ss_stream := rs, ss_queue := (if ss_worker s = WorkerReturned then ss_queue s else ss_queue s @ [Inl e])\<rparr>)
      | (Inr None, rs) \<Rightarrow> s\<lparr>ss_stream := rs, ss_reader := ReaderStopped\<rparr>
      | (Inr (Some (Oversized n)), rs) \<Rightarrow>
          reader_writes written (parse_failure (''invalid JSON: frame of '' @ nat_dec n @ '' bytes exceeds the '' @
            nat_dec (env_max_frame env) @ ''-byte stdio frame limit and was discarded'')) (s\<lparr>ss_stream := rs\<rparr>)
      | (Inr (Some (Line bytes)), rs) \<Rightarrow> take_line env written bytes (s\<lparr>ss_stream := rs\<rparr>))"

fun is_reply :: "item \<Rightarrow> bool" where
  "is_reply (Reply v) = True"
| "is_reply (Dispatch r f) = False"

fun replies :: "item list \<Rightarrow> json list" where
  "replies [] = []"
| "replies (Reply v # items) = v # replies items"
| "replies (Dispatch r f # items) = replies items"

definition batch_value :: "bool \<Rightarrow> json list \<Rightarrow> json" where
  "batch_value batch vs = (if batch then JArray vs else hd vs)"

definition hand_over :: "bool \<Rightarrow> bool \<Rightarrow> item list \<Rightarrow> session \<Rightarrow> session" where
  "hand_over written batch items s =
     (if items = [] then s\<lparr>ss_reader := ReadingFrame\<rparr>
      else if list_all is_reply items then reader_writes written (batch_value batch (replies items)) s
      else if ss_worker s = WorkerReturned then reader_fails s
      else s\<lparr>ss_queue := ss_queue s @ [Inr \<lparr>en_batch = batch, en_items = items\<rparr>], ss_reader := ReadingFrame\<rparr>)"

definition reader_step :: "server_env \<Rightarrow> bool \<Rightarrow> session \<Rightarrow> session" where
  "reader_step env written s =
     (case ss_reader s of
        ReaderStopped \<Rightarrow> s
      | ReadingFrame \<Rightarrow> take_frame env written s
      | Admitting batch (v # vs) items \<Rightarrow>
          (case admit env v s of
             (i, s') \<Rightarrow> s'\<lparr>ss_reader := Admitting batch vs (case i of Some i \<Rightarrow> items @ [i] | None \<Rightarrow> items)\<rparr>)
      | Admitting batch [] items \<Rightarrow> hand_over written batch items s)"

text \<open>The worker.\<close>

definition worker_takes :: "session \<Rightarrow> session" where
  "worker_takes s =
     (case ss_queue s of
        [] \<Rightarrow> if ss_reader s = ReaderStopped then s\<lparr>ss_worker := WorkerReturned\<rparr> else s
      | Inl e # q \<Rightarrow> s\<lparr>ss_queue := q, ss_worker := WorkerReturned\<rparr>
      | Inr en # q \<Rightarrow> s\<lparr>ss_queue := q, ss_worker := Working (en_batch en) (en_items en) []\<rparr>)"

definition remove_pending :: "string \<Rightarrow> session \<Rightarrow> session" where
  "remove_pending k s = s\<lparr>ss_pending := filter (\<lambda>(k', _). k' \<noteq> k) (ss_pending s)\<rparr>"

definition id_of :: "request \<Rightarrow> json" where
  "id_of r = the (rq_id r)"

text \<open>Removal and the second look at the flag happen under one lock.\<close>

definition worker_finishes :: "bool \<Rightarrow> request \<Rightarrow> nat \<Rightarrow> json option \<Rightarrow> item list \<Rightarrow> json list \<Rightarrow> session \<Rightarrow> session" where
  "worker_finishes batch r f response items rs s =
     (let s' = remove_pending (request_key (id_of r)) s
      in case response of
           Some v \<Rightarrow>
             (if ss_cancel s f then s'\<lparr>ss_worker := Working batch items rs\<rparr>
              else s'\<lparr>ss_worker := Working batch items (rs @ [v]), ss_log := ss_log s @ [Answered f]\<rparr>)
         | None \<Rightarrow> s'\<lparr>ss_worker := Working batch items rs\<rparr>)"

definition worker_step :: "json \<Rightarrow> bool \<Rightarrow> session \<Rightarrow> session" where
  "worker_step result written s =
     (case ss_worker s of
        WorkerReturned \<Rightarrow> s
      | Receiving \<Rightarrow> worker_takes s
      | Working batch (Reply v # items) rs \<Rightarrow> s\<lparr>ss_worker := Working batch items (rs @ [v])\<rparr>
      | Working batch (Dispatch r f # items) rs \<Rightarrow>
          (if ss_cancel s f then s\<lparr>ss_worker := Finishing batch r f None items rs\<rparr>
           else s\<lparr>ss_worker := Calling batch r f items rs, ss_log := ss_log s @ [Called f]\<rparr>)
      | Calling batch r f items rs \<Rightarrow> s\<lparr>ss_worker := Finishing batch r f (Some result) items rs\<rparr>
      | Finishing batch r f response items rs \<Rightarrow> worker_finishes batch r f response items rs s
      | Working batch [] rs \<Rightarrow>
          (if rs = [] then s\<lparr>ss_worker := Receiving\<rparr>
           else if written then s\<lparr>ss_output := ss_output s @ [batch_value batch rs], ss_worker := Receiving\<rparr>
           else cancel_pending (s\<lparr>ss_worker := WorkerReturned\<rparr>)))"

datatype schedule = ReaderRuns bool | WorkerRuns json bool

fun session_step :: "server_env \<Rightarrow> schedule \<Rightarrow> session \<Rightarrow> session" where
  "session_step env (ReaderRuns written) s = reader_step env written s"
| "session_step env (WorkerRuns result written) s = worker_step result written s"

definition run_session :: "server_env \<Rightarrow> string fill list \<Rightarrow> schedule list \<Rightarrow> session" where
  "run_session env stream steps = fold (session_step env) steps (new_session stream)"

section \<open>What a session promises\<close>

text \<open>
  The abstract session: a ledger of the admitted requests, without frames, batches or replies. A request
  waits (between its admission and the worker's first look at it), is in hand (its slot and whether it
  was called), and is settled when its slot leaves the table.
\<close>

record ledger =
  lg_cancel :: "nat \<Rightarrow> bool"
  lg_next :: nat
  lg_pending :: "(string \<times> nat) list"
  lg_waiting :: "(string \<times> nat) multiset"
  lg_in_hand :: "(string \<times> nat \<times> bool) option"
  lg_closed :: bool
  lg_log :: "log_entry list"

inductive ledger_step :: "ledger \<Rightarrow> ledger \<Rightarrow> bool" where
  admit: "k \<notin> fst ` set (lg_pending L) \<Longrightarrow> length (lg_pending L) < MAX_PENDING_REQUESTS \<Longrightarrow>
     ledger_step L (L\<lparr>lg_cancel := (lg_cancel L)(lg_next L := False), lg_next := Suc (lg_next L),
       lg_pending := (k, lg_next L) # lg_pending L, lg_waiting := add_mset (k, lg_next L) (lg_waiting L),
       lg_log := lg_log L @ [Admitted (lg_next L)]\<rparr>)"
| cancel: "set fs \<subseteq> snd ` set (lg_pending L) \<Longrightarrow>
     ledger_step L (L\<lparr>lg_cancel := \<lambda>f. lg_cancel L f \<or> f \<in> set fs, lg_log := lg_log L @ map Cancelled fs\<rparr>)"
| skip: "(k, f) \<in># lg_waiting L \<Longrightarrow> lg_in_hand L = None \<Longrightarrow> lg_cancel L f \<Longrightarrow>
     ledger_step L (L\<lparr>lg_waiting := lg_waiting L - {#(k, f)#}, lg_in_hand := Some (k, f, False)\<rparr>)"
| call: "(k, f) \<in># lg_waiting L \<Longrightarrow> lg_in_hand L = None \<Longrightarrow> \<not> lg_cancel L f \<Longrightarrow>
     ledger_step L (L\<lparr>lg_waiting := lg_waiting L - {#(k, f)#}, lg_in_hand := Some (k, f, True), lg_log := lg_log L @ [Called f]\<rparr>)"
| answer: "lg_in_hand L = Some (k, f, True) \<Longrightarrow> \<not> lg_cancel L f \<Longrightarrow>
     ledger_step L (L\<lparr>lg_in_hand := None, lg_pending := filter (\<lambda>(k', _). k' \<noteq> k) (lg_pending L), lg_log := lg_log L @ [Answered f]\<rparr>)"
| drop: "lg_in_hand L = Some (k, f, b) \<Longrightarrow> lg_cancel L f \<Longrightarrow>
     ledger_step L (L\<lparr>lg_in_hand := None, lg_pending := filter (\<lambda>(k', _). k' \<noteq> k) (lg_pending L)\<rparr>)"
| close: "ledger_step L (L\<lparr>lg_closed := True\<rparr>)"
| lose: "lg_closed L \<Longrightarrow> W \<subseteq># lg_waiting L \<Longrightarrow> ledger_step L (L\<lparr>lg_waiting := W\<rparr>)"

definition in_hand_slots :: "ledger \<Rightarrow> (string \<times> nat) multiset" where
  "in_hand_slots L = (case lg_in_hand L of None \<Rightarrow> {#} | Some (k, f, b) \<Rightarrow> {#(k, f)#})"

text \<open>In the log no call follows the cancellation of its request.\<close>

fun calls_lawful :: "nat set \<Rightarrow> log_entry list \<Rightarrow> bool" where
  "calls_lawful cs [] = True"
| "calls_lawful cs (Cancelled f # es) = calls_lawful (insert f cs) es"
| "calls_lawful cs (Called f # es) = (f \<notin> cs \<and> calls_lawful cs es)"
| "calls_lawful cs (e # es) = calls_lawful cs es"

definition slots_inv :: "ledger \<Rightarrow> bool" where
  "slots_inv L \<longleftrightarrow> distinct (map fst (lg_pending L)) \<and> distinct (map snd (lg_pending L)) \<and>
     length (lg_pending L) \<le> MAX_PENDING_REQUESTS \<and>
     lg_waiting L + in_hand_slots L \<subseteq># mset (lg_pending L) \<and>
     (\<not> lg_closed L \<longrightarrow> lg_waiting L + in_hand_slots L = mset (lg_pending L))"

definition log_names :: "ledger \<Rightarrow> bool" where
  "log_names L \<longleftrightarrow>
     (\<forall>f. Admitted f \<in> set (lg_log L) \<longleftrightarrow> f < lg_next L) \<and>
     (\<forall>f. Cancelled f \<in> set (lg_log L) \<longleftrightarrow> f < lg_next L \<and> lg_cancel L f) \<and>
     (\<forall>f. Called f \<in> set (lg_log L) \<longrightarrow> f < lg_next L)"

definition log_slots :: "ledger \<Rightarrow> bool" where
  "log_slots L \<longleftrightarrow>
     (\<forall>(k, f)\<in>set (lg_pending L). f < lg_next L \<and> Answered f \<notin> set (lg_log L)) \<and>
     (\<forall>(k, f)\<in>set_mset (lg_waiting L). Called f \<notin> set (lg_log L)) \<and>
     (\<forall>k f. lg_in_hand L = Some (k, f, True) \<longrightarrow> Called f \<in> set (lg_log L)) \<and>
     (\<forall>k f. lg_in_hand L = Some (k, f, False) \<longrightarrow> lg_cancel L f)"

definition log_fates :: "ledger \<Rightarrow> bool" where
  "log_fates L \<longleftrightarrow>
     (\<forall>f. Answered f \<in> set (lg_log L) \<longrightarrow> Called f \<in> set (lg_log L) \<and> \<not> lg_cancel L f) \<and>
     (\<forall>f<lg_next L. f \<in> snd ` set (lg_pending L) \<or> Answered f \<in> set (lg_log L) \<or> lg_cancel L f)"

definition log_order :: "log_entry list \<Rightarrow> bool" where
  "log_order es \<longleftrightarrow> distinct (filter (\<lambda>e. \<exists>f. e = Called f \<or> e = Answered f) es) \<and> calls_lawful {} es"

definition log_inv :: "ledger \<Rightarrow> bool" where
  "log_inv L \<longleftrightarrow> log_names L \<and> log_slots L \<and> log_fates L \<and> log_order (lg_log L)"

lemmas log_parts = log_names_def log_slots_def log_fates_def

section \<open>The ledger is kept\<close>

lemma calls_lawful_append:
  "calls_lawful cs (es @ [e]) \<longleftrightarrow> calls_lawful cs es \<and> (\<forall>f. e = Called f \<longrightarrow> f \<notin> cs \<and> Cancelled f \<notin> set es)"
  by (induction cs es rule: calls_lawful.induct) (cases e; auto)+

lemma calls_lawful_only_cancelled: "calls_lawful cs (map Cancelled fs)"
  by (induction fs arbitrary: cs) simp_all

lemma calls_lawful_cancelled: "calls_lawful cs es \<Longrightarrow> calls_lawful cs (es @ map Cancelled fs)"
  by (induction cs es rule: calls_lawful.induct) (simp_all add: calls_lawful_only_cancelled)

lemma calls_lawful_not_after: "calls_lawful cs (xs @ Called f # ys) \<Longrightarrow> Cancelled f \<notin> set xs \<and> f \<notin> cs"
proof (induction xs arbitrary: cs)
  case (Cons e xs)
  then show ?case by (cases e) auto
qed simp

lemma keys_unique: "distinct (map fst xs) \<Longrightarrow> (k, f) \<in> set xs \<Longrightarrow> (k, g) \<in> set xs \<Longrightarrow> f = g"
  by (metis eq_key_imp_eq_value)

lemma flags_unique: "distinct (map snd xs) \<Longrightarrow> (k, f) \<in> set xs \<Longrightarrow> (k', f) \<in> set xs \<Longrightarrow> k = k'"
  by (induction xs) (auto simp: rev_image_eqI)

lemma filter_key_mset: "distinct (map fst xs) \<Longrightarrow> (k, f) \<in> set xs \<Longrightarrow> mset (filter (\<lambda>(k', _). k' \<noteq> k) xs) = mset xs - {#(k, f)#}"
proof (induction xs)
  case (Cons x xs)
  show ?case
  proof (cases "x = (k, f)")
    case True
    have "filter (\<lambda>(k', _). k' \<noteq> k) xs = xs"
      using Cons.prems(1) True by (auto simp: filter_id_conv rev_image_eqI)
    with True show ?thesis by simp
  next
    case False
    with Cons have "fst x \<noteq> k" "(k, f) \<in> set xs" by (auto simp: rev_image_eqI)
    with Cons show ?thesis by (cases x) (auto simp: add_mset_diff_bothsides)
  qed
qed simp

lemma slots_sub: "slots_inv L \<Longrightarrow> lg_waiting L + in_hand_slots L \<subseteq># mset (lg_pending L)"
  by (simp add: slots_inv_def)

lemma slot_pending: "slots_inv L \<Longrightarrow> x \<in># lg_waiting L + in_hand_slots L \<Longrightarrow> x \<in> set (lg_pending L)"
  using mset_subset_eqD [OF slots_sub] by fastforce

lemma waiting_pending: "slots_inv L \<Longrightarrow> (k, f) \<in># lg_waiting L \<Longrightarrow> (k, f) \<in> set (lg_pending L)"
  by (rule slot_pending) simp_all

lemma in_hand_pending: "slots_inv L \<Longrightarrow> lg_in_hand L = Some (k, f, b) \<Longrightarrow> (k, f) \<in> set (lg_pending L)"
  by (rule slot_pending) (simp_all add: in_hand_slots_def)

lemma slots_inv_removed:
  assumes "slots_inv L" "lg_in_hand L = Some (k, f, b)"
  shows "slots_inv (L\<lparr>lg_in_hand := None, lg_pending := filter (\<lambda>(k', _). k' \<noteq> k) (lg_pending L), lg_log := es\<rparr>)"
proof -
  let ?M = "mset (lg_pending L)" and ?P = "filter (\<lambda>(k', _). k' \<noteq> k) (lg_pending L)"
  have m: "mset ?P = ?M - {#(k, f)#}"
    by (intro filter_key_mset in_hand_pending [OF assms]) (use assms(1) in \<open>simp_all add: slots_inv_def\<close>)
  have "add_mset (k, f) (lg_waiting L) \<subseteq># ?M" using slots_sub [OF assms(1)] assms(2) by (simp add: in_hand_slots_def)
  then have sub: "lg_waiting L \<subseteq># ?M - {#(k, f)#}" by (simp add: insert_subset_eq_iff)
  have eq: "lg_waiting L = ?M - {#(k, f)#}" if "\<not> lg_closed L"
  proof -
    have "add_mset (k, f) (lg_waiting L) = ?M" using assms that by (simp add: slots_inv_def in_hand_slots_def)
    then show ?thesis by (metis add_mset_remove_trivial)
  qed
  have "length ?P \<le> MAX_PENDING_REQUESTS" using assms(1) length_filter_le [of _ "lg_pending L"]
    by (simp only: slots_inv_def) (meson order_trans)
  moreover have "distinct (map fst ?P)" "distinct (map snd ?P)"
    using assms(1) by (simp_all add: slots_inv_def distinct_map_filter)
  ultimately show ?thesis using sub eq by (simp add: slots_inv_def in_hand_slots_def m del: mset_filter)
qed

lemma ledger_step_slots: "ledger_step L L' \<Longrightarrow> slots_inv L \<Longrightarrow> log_inv L \<Longrightarrow> slots_inv L'"
proof (induction rule: ledger_step.induct)
  case (admit k L)
  have "lg_next L \<notin> snd ` set (lg_pending L)" using admit.prems(2) by (force simp: log_inv_def log_slots_def)
  with admit show ?case by (auto simp: slots_inv_def in_hand_slots_def)
next
  case (cancel fs L)
  then show ?case by (simp add: slots_inv_def in_hand_slots_def)
next
  case (skip k f L)
  then show ?case by (auto simp: slots_inv_def in_hand_slots_def)
next
  case (call k f L)
  then show ?case by (auto simp: slots_inv_def in_hand_slots_def)
next
  case (answer L k f)
  from slots_inv_removed [OF answer.prems(1) answer.hyps(1)] show ?case .
next
  case (drop L k f b)
  from slots_inv_removed [OF drop.prems(1) drop.hyps(1), of "lg_log L"] show ?case by simp
next
  case (close L)
  then show ?case by (simp add: slots_inv_def in_hand_slots_def)
next
  case (lose L W)
  then show ?case
    by (auto simp: slots_inv_def in_hand_slots_def intro: subset_mset.order_trans [OF subset_mset.add_right_mono])
qed

lemma waiting_once:
  assumes "slots_inv L" "(k', f) \<in># lg_waiting L - {#(k, f)#}" "(k, f) \<in># lg_waiting L"
  shows False
proof -
  have "(k', f) \<in># lg_waiting L" using assms(2) by (rule in_diffD)
  then have "(k', f) \<in> set (lg_pending L)" "(k, f) \<in> set (lg_pending L)" using assms waiting_pending by blast+
  then have "k' = k" using assms(1) flags_unique by (fastforce simp: slots_inv_def)
  have "distinct (lg_pending L)" using assms(1) by (auto simp: slots_inv_def distinct_map)
  then have "count (mset (lg_pending L)) (k, f) \<le> 1" by (simp add: distinct_count_atmost_1)
  moreover have "lg_waiting L \<subseteq># mset (lg_pending L)"
    using subset_mset.order_trans [OF _ slots_sub [OF assms(1)]] by simp
  ultimately have "count (lg_waiting L) (k, f) \<le> 1"
    by (meson mset_subset_eq_count order_trans)
  with assms(2) \<open>k' = k\<close> show False by (simp add: in_diff_count)
qed

lemma log_order_admitted: "log_order (es @ [Admitted f]) = log_order es"
  by (simp add: log_order_def calls_lawful_append)

lemma log_order_cancelled: "log_order es \<Longrightarrow> log_order (es @ map Cancelled fs)"
  by (auto simp: log_order_def calls_lawful_cancelled filter_empty_conv)

lemma log_order_called: "log_order es \<Longrightarrow> Called f \<notin> set es \<Longrightarrow> Cancelled f \<notin> set es \<Longrightarrow> log_order (es @ [Called f])"
  by (simp add: log_order_def calls_lawful_append)

lemma log_order_answered: "log_order es \<Longrightarrow> Answered f \<notin> set es \<Longrightarrow> log_order (es @ [Answered f])"
  by (simp add: log_order_def calls_lawful_append)

lemma log_fresh:
  assumes "log_inv L"
  shows "Called (lg_next L) \<notin> set (lg_log L)" "Answered (lg_next L) \<notin> set (lg_log L)" "Cancelled (lg_next L) \<notin> set (lg_log L)"
  using assms by (auto simp: log_inv_def log_parts)

lemma log_pendingD:
  assumes "log_inv L" "(k, f) \<in> set (lg_pending L)"
  shows "f < lg_next L" "Answered f \<notin> set (lg_log L)"
  using assms by (auto simp: log_inv_def log_slots_def)

lemma ledger_step_log: "ledger_step L L' \<Longrightarrow> slots_inv L \<Longrightarrow> log_inv L \<Longrightarrow> log_inv L'"
proof (induction rule: ledger_step.induct)
  case (admit k L)
  have hand: "f < lg_next L" if "lg_in_hand L = Some (k', f, b)" for k' f b
    using in_hand_pending [OF admit.prems(1) that] log_pendingD admit.prems(2) by blast
  note fresh = log_fresh [OF admit.prems(2)]
  show ?case unfolding log_inv_def
  proof (intro conjI)
    show "log_names (L\<lparr>lg_cancel := (lg_cancel L)(lg_next L := False), lg_next := Suc (lg_next L),
       lg_pending := (k, lg_next L) # lg_pending L, lg_waiting := add_mset (k, lg_next L) (lg_waiting L),
       lg_log := lg_log L @ [Admitted (lg_next L)]\<rparr>)"
      using admit.prems(2) fresh by (auto simp: log_inv_def log_names_def less_Suc_eq)
    show "log_slots (L\<lparr>lg_cancel := (lg_cancel L)(lg_next L := False), lg_next := Suc (lg_next L),
       lg_pending := (k, lg_next L) # lg_pending L, lg_waiting := add_mset (k, lg_next L) (lg_waiting L),
       lg_log := lg_log L @ [Admitted (lg_next L)]\<rparr>)"
      using admit.prems(2) fresh hand by (fastforce simp: log_inv_def log_slots_def less_Suc_eq)
    show "log_fates (L\<lparr>lg_cancel := (lg_cancel L)(lg_next L := False), lg_next := Suc (lg_next L),
       lg_pending := (k, lg_next L) # lg_pending L, lg_waiting := add_mset (k, lg_next L) (lg_waiting L),
       lg_log := lg_log L @ [Admitted (lg_next L)]\<rparr>)"
      using admit.prems(2) fresh by (auto simp: log_inv_def log_fates_def less_Suc_eq)
  qed (use admit.prems(2) in \<open>simp add: log_inv_def log_order_admitted\<close>)
next
  case (cancel fs L)
  have below: "f < lg_next L" "Answered f \<notin> set (lg_log L)" if "f \<in> set fs" for f
    using that cancel.hyps log_pendingD [OF cancel.prems(2)] by (auto simp: image_iff subset_iff)
  let ?L = "L\<lparr>lg_cancel := \<lambda>f. lg_cancel L f \<or> f \<in> set fs, lg_log := lg_log L @ map Cancelled fs\<rparr>"
  note old = cancel.prems(2) [unfolded log_inv_def]
  have "log_names ?L" using old below by (auto simp: log_names_def)
  moreover have "log_slots ?L" using old by (auto simp: log_slots_def)
  moreover have "log_fates ?L" using old below by (auto simp: log_fates_def)
  ultimately show ?case using old by (simp add: log_inv_def log_order_cancelled)
next
  case (skip k f L)
  then show ?case by (auto simp: log_inv_def log_parts dest: in_diffD)
next
  case (call k f L)
  have new: "Called f \<notin> set (lg_log L)" "Cancelled f \<notin> set (lg_log L)" "f < lg_next L"
    using call log_pendingD [OF call.prems(2) waiting_pending [OF call.prems(1) call.hyps(1)]]
    by (auto simp: log_inv_def log_parts)
  have other: "f' \<noteq> f" if "(k', f') \<in># lg_waiting L - {#(k, f)#}" for k' f'
    using waiting_once [OF call.prems(1) _ call.hyps(1)] that by blast
  let ?L = "L\<lparr>lg_waiting := lg_waiting L - {#(k, f)#}, lg_in_hand := Some (k, f, True), lg_log := lg_log L @ [Called f]\<rparr>"
  note old = call.prems(2) [unfolded log_inv_def]
  have "log_names ?L" using old new by (auto simp: log_names_def)
  moreover have "log_slots ?L" using old new by (auto simp: log_slots_def dest: in_diffD other)
  moreover have "log_fates ?L" using old new by (auto simp: log_fates_def)
  ultimately show ?case using old new by (simp add: log_inv_def log_order_called)
next
  case (answer L k f)
  have p: "(k, f) \<in> set (lg_pending L)" using in_hand_pending answer by blast
  note new = log_pendingD [OF answer.prems(2) p]
  have called: "Called f \<in> set (lg_log L)" using answer by (auto simp: log_inv_def log_slots_def)
  have flag: "k' = k" if "(k', f) \<in> set (lg_pending L)" for k'
    using flags_unique [OF _ that p] answer.prems(1) by (simp add: slots_inv_def)
  have key: "f' = f" if "(k, f') \<in> set (lg_pending L)" for f'
    using keys_unique [OF _ that p] answer.prems(1) by (simp add: slots_inv_def)
  let ?L = "L\<lparr>lg_in_hand := None, lg_pending := filter (\<lambda>(k', _). k' \<noteq> k) (lg_pending L), lg_log := lg_log L @ [Answered f]\<rparr>"
  note old = answer.prems(2) [unfolded log_inv_def]
  have "log_names ?L" using old by (auto simp: log_names_def)
  moreover have "log_slots ?L" using old by (auto simp: log_slots_def dest: flag)
  moreover have "f' = f \<or> f' \<in> snd ` set (filter (\<lambda>(k', _). k' \<noteq> k) (lg_pending L))" if "f' \<in> snd ` set (lg_pending L)" for f'
    using that key by (auto simp: image_iff)
  then have "log_fates ?L" using old called answer.hyps(2) unfolding log_fates_def by (simp; blast)
  ultimately show ?case using old new by (simp add: log_inv_def log_order_answered)
next
  case (drop L k f b)
  have p: "(k, f) \<in> set (lg_pending L)" using in_hand_pending drop by blast
  have key: "f' = f" if "(k, f') \<in> set (lg_pending L)" for f'
    using keys_unique [OF _ that p] drop.prems(1) by (simp add: slots_inv_def)
  let ?L = "L\<lparr>lg_in_hand := None, lg_pending := filter (\<lambda>(k', _). k' \<noteq> k) (lg_pending L)\<rparr>"
  note old = drop.prems(2) [unfolded log_inv_def]
  have "log_names ?L" using old by (auto simp: log_names_def)
  moreover have "log_slots ?L" using old by (auto simp: log_slots_def)
  moreover have "f' = f \<or> f' \<in> snd ` set (filter (\<lambda>(k', _). k' \<noteq> k) (lg_pending L))" if "f' \<in> snd ` set (lg_pending L)" for f'
    using that key by (auto simp: image_iff)
  then have "log_fates ?L" using old drop.hyps(2) unfolding log_fates_def by (simp; blast)
  ultimately show ?case using old by (simp add: log_inv_def)
next
  case (close L)
  then show ?case by (simp add: log_inv_def log_parts)
next
  case (lose L W)
  then show ?case by (auto simp: log_inv_def log_parts dest: mset_subset_eqD)
qed

section \<open>The session keeps the ledger\<close>

fun item_slots :: "item \<Rightarrow> (string \<times> nat) multiset" where
  "item_slots (Reply v) = {#}"
| "item_slots (Dispatch r f) = {#(request_key (id_of r), f)#}"

definition items_slots :: "item list \<Rightarrow> (string \<times> nat) multiset" where
  "items_slots items = sum_list (map item_slots items)"

fun reader_slots :: "reader_at \<Rightarrow> (string \<times> nat) multiset" where
  "reader_slots (Admitting batch vs items) = items_slots items"
| "reader_slots _ = {#}"

definition queue_slots :: "(string + envelope) list \<Rightarrow> (string \<times> nat) multiset" where
  "queue_slots q = sum_list (map (\<lambda>e. case e of Inl _ \<Rightarrow> {#} | Inr en \<Rightarrow> items_slots (en_items en)) q)"

fun worker_slots :: "worker_at \<Rightarrow> (string \<times> nat) multiset" where
  "worker_slots (Working batch items rs) = items_slots items"
| "worker_slots (Calling batch r f items rs) = items_slots items"
| "worker_slots (Finishing batch r f response items rs) = items_slots items"
| "worker_slots _ = {#}"

fun worker_hand :: "worker_at \<Rightarrow> (string \<times> nat \<times> bool) option" where
  "worker_hand (Calling batch r f items rs) = Some (request_key (id_of r), f, True)"
| "worker_hand (Finishing batch r f response items rs) = Some (request_key (id_of r), f, response \<noteq> None)"
| "worker_hand _ = None"

definition ledger_of :: "session \<Rightarrow> ledger" where
  "ledger_of s =
     \<lparr>lg_cancel = ss_cancel s, lg_next = ss_next s, lg_pending = ss_pending s,
      lg_waiting = reader_slots (ss_reader s) + queue_slots (ss_queue s) + worker_slots (ss_worker s),
      lg_in_hand = worker_hand (ss_worker s), lg_closed = (ss_worker s = WorkerReturned), lg_log = ss_log s\<rparr>"

abbreviation ledger_steps :: "ledger \<Rightarrow> ledger \<Rightarrow> bool" where
  "ledger_steps \<equiv> ledger_step\<^sup>*\<^sup>*"

lemma slots_simps [simp]: "items_slots [] = {#}" "items_slots (i # items) = item_slots i + items_slots items"
  "items_slots (items @ items') = items_slots items + items_slots items'"
  "queue_slots [] = {#}" "queue_slots (Inl e # q) = queue_slots q" "queue_slots (Inr en # q) = items_slots (en_items en) + queue_slots q"
  "queue_slots (q @ q') = queue_slots q + queue_slots q'"
  by (simp_all add: items_slots_def queue_slots_def)

lemma reply_slots: "list_all is_reply items \<Longrightarrow> items_slots items = {#}"
  by (induction items) (auto elim: is_reply.elims)

lemma keeps_cancelled:
  "set fs \<subseteq> snd ` set (ss_pending s) \<Longrightarrow> ledger_step (ledger_of s) (ledger_of (set_cancelled fs s))"
  using ledger_step.cancel [of fs "ledger_of s"] by (simp add: ledger_of_def set_cancelled_def)

lemma keeps_reader_fails:
  assumes "ledger_steps L (ledger_of (s\<lparr>ss_reader := ReaderStopped\<rparr>))"
  shows "ledger_steps L (ledger_of (reader_fails s))"
  using assms keeps_cancelled [of "map snd (ss_pending s)" "s\<lparr>ss_reader := ReaderStopped\<rparr>"]
  by (simp add: reader_fails_def cancel_pending_def)

lemma keeps_reader_writes:
  assumes "reader_slots (ss_reader s) = {#}"
  shows "ledger_steps (ledger_of s) (ledger_of (reader_writes written v s))"
proof -
  have "ledger_of (s\<lparr>ss_reader := ReaderStopped\<rparr>) = ledger_of s" using assms by (simp add: ledger_of_def)
  then show ?thesis using assms keeps_reader_fails [of "ledger_of s" s]
    by (cases written) (simp_all add: reader_writes_def ledger_of_def)
qed

lemma ledger_of_stream [simp]: "ledger_of (s\<lparr>ss_stream := rs\<rparr>) = ledger_of s"
  by (simp add: ledger_of_def)

lemma keeps_take_line:
  assumes "ss_reader s = ReadingFrame"
  shows "ledger_steps (ledger_of s) (ledger_of (take_line env written bytes s))"
proof -
  have w: "ledger_steps (ledger_of s) (ledger_of (reader_writes written v s))" for v
    by (rule keeps_reader_writes) (simp add: assms)
  have a: "ledger_of (s\<lparr>ss_reader := Admitting b vs []\<rparr>) = ledger_of s" for b vs
    by (simp add: ledger_of_def assms)
  show ?thesis using w a by (auto simp: take_line_def split: line_text.split json.split list.split)
qed

lemma keeps_take_frame:
  assumes "ss_reader s = ReadingFrame"
  shows "ledger_steps (ledger_of s) (ledger_of (take_frame env written s))"
proof (cases "read_frame (env_max_frame env) (ss_stream s)")
  case (Pair r rs)
  let ?s = "s\<lparr>ss_stream := rs\<rparr>"
  have w: "ledger_steps (ledger_of s) (ledger_of (reader_writes written v ?s))" for v
    using keeps_reader_writes [of ?s written v] by (simp add: assms)
  have l: "ledger_steps (ledger_of s) (ledger_of (take_line env written bytes ?s))" for bytes
    using keeps_take_line [of ?s env written bytes] by (simp add: assms)
  have f: "ledger_steps (ledger_of s)
      (ledger_of (reader_fails (s\<lparr>ss_stream := rs, ss_queue := (if ss_worker s = WorkerReturned then ss_queue s else ss_queue s @ [Inl e])\<rparr>)))" for e
  proof (rule keeps_reader_fails)
    show "ledger_steps (ledger_of s) (ledger_of (s\<lparr>ss_stream := rs,
        ss_queue := (if ss_worker s = WorkerReturned then ss_queue s else ss_queue s @ [Inl e]), ss_reader := ReaderStopped\<rparr>))"
      by (simp add: ledger_of_def assms)
  qed
  have n: "ledger_of (s\<lparr>ss_stream := rs, ss_reader := ReaderStopped\<rparr>) = ledger_of s" by (simp add: ledger_of_def assms)
  show ?thesis using w l f n Pair by (auto simp: take_frame_def split: sum.split option.split frame_read.split)
qed

lemma keeps_admit:
  assumes "ss_reader s = Admitting batch (v # vs) items" and "admit env v s = (i, s')"
  shows "ledger_steps (ledger_of s)
    (ledger_of (s'\<lparr>ss_reader := Admitting batch vs (case i of Some i \<Rightarrow> items @ [i] | None \<Rightarrow> items)\<rparr>))"
proof -
  have same: "ledger_of (s\<lparr>ss_reader := Admitting batch vs (items @ [Reply w])\<rparr>) = ledger_of s"
    "ledger_of (s\<lparr>ss_reader := Admitting batch vs items\<rparr>) = ledger_of s" for w
    using assms(1) by (simp_all add: ledger_of_def)
  have canc: "ledger_steps (ledger_of s) (ledger_of ((set_cancelled [f] s)\<lparr>ss_reader := Admitting batch vs items\<rparr>))"
    if "map_of (ss_pending s) k = Some f" for k f
  proof -
    have "set [f] \<subseteq> snd ` set (ss_pending s)" using map_of_SomeD [OF that] by (simp add: rev_image_eqI)
    from keeps_cancelled [OF this] show ?thesis
      using assms(1) by (simp add: ledger_of_def set_cancelled_def)
  qed
  have new: "ledger_steps (ledger_of s) (ledger_of (s\<lparr>ss_cancel := (ss_cancel s)(ss_next s := False), ss_next := Suc (ss_next s),
      ss_pending := (request_key rid, ss_next s) # ss_pending s, ss_log := ss_log s @ [Admitted (ss_next s)],
      ss_reader := Admitting batch vs (items @ [Dispatch req (ss_next s)])\<rparr>))"
    if "map_of (ss_pending s) (request_key rid) = None" "length (ss_pending s) < MAX_PENDING_REQUESTS" "rq_id req = Some rid" for req rid
  proof -
    have "request_key rid \<notin> fst ` set (ss_pending s)" using that(1) by (simp add: map_of_eq_None_iff)
    with that ledger_step.admit [of "request_key rid" "ledger_of s"] assms(1) show ?thesis
      by (intro r_into_rtranclp) (simp add: ledger_of_def id_of_def)
  qed
  show ?thesis
    using assms(2) same canc new
    by (auto simp: admit_def split: sum.splits option.splits if_splits)
qed

lemma keeps_hand_over:
  assumes "ss_reader s = Admitting batch [] items"
  shows "ledger_steps (ledger_of s) (ledger_of (hand_over written batch items s))"
proof -
  have lost: "ledger_steps (ledger_of s) (ledger_of (reader_fails s))" if "ss_worker s = WorkerReturned"
  proof (rule keeps_reader_fails, rule r_into_rtranclp)
    show "ledger_step (ledger_of s) (ledger_of (s\<lparr>ss_reader := ReaderStopped\<rparr>))"
      using ledger_step.lose [of "ledger_of s" "queue_slots (ss_queue s)"] that assms by (simp add: ledger_of_def)
  qed
  have replied: "ledger_steps (ledger_of s) (ledger_of (reader_writes written v s))" if "list_all is_reply items" for v
    by (rule keeps_reader_writes) (simp add: assms reply_slots that)
  have queued: "ledger_of (s\<lparr>ss_queue := ss_queue s @ [Inr \<lparr>en_batch = batch, en_items = items\<rparr>], ss_reader := ReadingFrame\<rparr>) = ledger_of s"
    using assms by (simp add: ledger_of_def ac_simps)
  have unchanged: "items = [] \<Longrightarrow> ledger_of (s\<lparr>ss_reader := ReadingFrame\<rparr>) = ledger_of s"
    using assms by (simp add: ledger_of_def)
  show ?thesis
  proof (cases "items = []")
    case True
    then have "hand_over written batch items s = s\<lparr>ss_reader := ReadingFrame\<rparr>" by (simp add: hand_over_def)
    with unchanged [OF True] show ?thesis by (metis rtranclp.rtrancl_refl)
  next
    case False
    with lost replied queued show ?thesis by (simp add: hand_over_def)
  qed
qed

lemma keeps_reader_step: "ledger_steps (ledger_of s) (ledger_of (reader_step env written s))"
proof (cases "ss_reader s")
  case ReadingFrame
  then show ?thesis using keeps_take_frame by (simp add: reader_step_def)
next
  case (Admitting batch vs items)
  then show ?thesis
    using keeps_hand_over [of s batch items written] keeps_admit [of s batch _ _ items env]
    by (cases vs) (auto simp: reader_step_def split: prod.split)
qed (simp add: reader_step_def)

lemma keeps_worker_finishes:
  assumes "ss_worker s = Finishing batch r f response items rs" and "response = None \<Longrightarrow> ss_cancel s f"
  shows "ledger_steps (ledger_of s) (ledger_of (worker_finishes batch r f response items rs s))"
proof (cases "ss_cancel s f")
  case True
  with assms ledger_step.drop [of "ledger_of s" "request_key (id_of r)" f "response \<noteq> None"] show ?thesis
    by (cases response; intro r_into_rtranclp) (simp_all add: worker_finishes_def ledger_of_def remove_pending_def)
next
  case False
  with assms obtain v where "response = Some v" by auto
  with assms(1) False ledger_step.answer [of "ledger_of s" "request_key (id_of r)" f] show ?thesis
    by (intro r_into_rtranclp) (simp add: worker_finishes_def ledger_of_def remove_pending_def)
qed

lemma keeps_worker_step:
  assumes "log_slots (ledger_of s)"
  shows "ledger_steps (ledger_of s) (ledger_of (worker_step result written s))"
proof (cases "ss_worker s")
  case Receiving
  have "ledger_step (ledger_of s) (ledger_of (s\<lparr>ss_queue := q, ss_worker := WorkerReturned\<rparr>))"
    if "queue_slots q = queue_slots (ss_queue s)" for q
    using ledger_step.close [of "ledger_of s"] Receiving that by (simp add: ledger_of_def)
  note ends = r_into_rtranclp [of ledger_step, OF this]
  show ?thesis
  proof (cases "ss_queue s")
    case Nil
    have "s\<lparr>ss_queue := ss_queue s, ss_worker := WorkerReturned\<rparr> = s\<lparr>ss_worker := WorkerReturned\<rparr>" by simp
    with ends [OF refl] have "ledger_steps (ledger_of s) (ledger_of (s\<lparr>ss_worker := WorkerReturned\<rparr>))" by metis
    with Receiving Nil show ?thesis by (simp add: worker_step_def worker_takes_def)
  next
    case (Cons e q)
    with ends [of q] Receiving show ?thesis
      by (cases e) (simp_all add: worker_step_def worker_takes_def, simp add: ledger_of_def ac_simps)
  qed
next
  case (Working batch items rs)
  show ?thesis
  proof (cases items)
    case Nil
    have "ledger_step (ledger_of s) (ledger_of (s\<lparr>ss_worker := WorkerReturned\<rparr>))"
      using ledger_step.close [of "ledger_of s"] Working Nil by (simp add: ledger_of_def)
    moreover have "ledger_step (ledger_of (s\<lparr>ss_worker := WorkerReturned\<rparr>)) (ledger_of (cancel_pending (s\<lparr>ss_worker := WorkerReturned\<rparr>)))"
      unfolding cancel_pending_def by (rule keeps_cancelled) simp
    ultimately have "ledger_steps (ledger_of s) (ledger_of (cancel_pending (s\<lparr>ss_worker := WorkerReturned\<rparr>)))"
      by (meson converse_rtranclp_into_rtranclp r_into_rtranclp)
    with Working Nil show ?thesis by (simp add: worker_step_def ledger_of_def)
  next
    case (Cons i items')
    show ?thesis
    proof (cases i)
      case (Reply v)
      with Working Cons show ?thesis by (simp add: worker_step_def ledger_of_def)
    next
      case (Dispatch r f)
      let ?k = "request_key (id_of r)"
      have "(?k, f) \<in># lg_waiting (ledger_of s)" "lg_in_hand (ledger_of s) = None"
        using Working Cons Dispatch by (simp_all add: ledger_of_def)
      from ledger_step.skip [OF this] ledger_step.call [OF this] Working Cons Dispatch show ?thesis
        by (intro r_into_rtranclp) (simp add: worker_step_def ledger_of_def split: if_split)
    qed
  qed
next
  case (Calling batch r f items rs)
  then show ?thesis by (simp add: worker_step_def ledger_of_def)
next
  case (Finishing batch r f response items rs)
  have "response = None \<Longrightarrow> ss_cancel s f"
    using assms Finishing by (simp add: log_slots_def ledger_of_def)
  with keeps_worker_finishes [OF Finishing] Finishing show ?thesis by (simp add: worker_step_def)
qed (simp add: worker_step_def)

section \<open>Every run\<close>

definition session_inv :: "session \<Rightarrow> bool" where
  "session_inv s \<longleftrightarrow> slots_inv (ledger_of s) \<and> log_inv (ledger_of s)"

lemma ledger_steps_inv: "ledger_steps L L' \<Longrightarrow> slots_inv L \<and> log_inv L \<Longrightarrow> slots_inv L' \<and> log_inv L'"
  by (induction rule: rtranclp_induct) (auto intro: ledger_step_slots ledger_step_log)

lemma keeps_session_step: "session_inv s \<Longrightarrow> ledger_steps (ledger_of s) (ledger_of (session_step env a s))"
  by (cases a) (auto simp: session_inv_def log_inv_def intro: keeps_reader_step keeps_worker_step)

interpretation session_runs: step_system "session_step env" session_inv for env
  by unfold_locales (use keeps_session_step ledger_steps_inv in \<open>unfold session_inv_def, blast\<close>)

lemma new_session_inv: "session_inv (new_session stream)"
  by (simp add: session_inv_def new_session_def ledger_of_def slots_inv_def in_hand_slots_def log_inv_def log_parts log_order_def)

lemma run_session_inv: "session_inv (run_session env stream steps)"
  unfolding run_session_def by (rule session_runs.run_inv) (rule new_session_inv)

lemma run_session_steps: "ledger_steps (ledger_of (new_session stream)) (ledger_of (run_session env stream steps))"
proof (induction steps rule: rev_induct)
  case (snoc a steps)
  have "ledger_steps (ledger_of (run_session env stream steps)) (ledger_of (session_step env a (run_session env stream steps)))"
    by (rule keeps_session_step) (rule run_session_inv)
  with snoc show ?case by (auto simp: run_session_def)
qed (simp add: run_session_def)

text \<open>The queue holds no envelope without a request of its own.\<close>

definition laden :: "session \<Rightarrow> bool" where
  "laden s \<longleftrightarrow> list_all (\<lambda>e. isl e \<or> items_slots (en_items (projr e)) \<noteq> {#}) (ss_queue s)"

lemma dispatch_slots: "\<not> list_all is_reply items \<Longrightarrow> items_slots items \<noteq> {#}"
  by (induction items) (auto elim: is_reply.elims)

lemma reader_fails_queue [simp]: "ss_queue (reader_fails s) = ss_queue s"
  by (simp add: reader_fails_def cancel_pending_def set_cancelled_def)

lemma reader_writes_queue [simp]: "ss_queue (reader_writes written v s) = ss_queue s"
  by (simp add: reader_writes_def)

lemma take_line_queue [simp]: "ss_queue (take_line env written bytes s) = ss_queue s"
  by (simp add: take_line_def split: line_text.split json.split list.split)

lemma admit_queue: "admit env v s = (i, s') \<Longrightarrow> ss_queue s' = ss_queue s"
  by (auto simp: admit_def set_cancelled_def split: sum.splits option.splits if_splits)

lemma laden_reader: "laden s \<Longrightarrow> laden (reader_step env written s)"
  by (auto simp: laden_def reader_step_def take_frame_def hand_over_def dispatch_slots
      split: reader_at.split list.split prod.split sum.split option.split frame_read.split dest: admit_queue)

lemma laden_worker: "laden s \<Longrightarrow> laden (worker_step result written s)"
  by (auto simp: laden_def worker_step_def worker_takes_def worker_finishes_def remove_pending_def Let_def cancel_pending_def
      set_cancelled_def split: worker_at.split list.splits item.split sum.split option.split)

interpretation laden_runs: step_system "session_step env" laden for env
proof
  show "laden s \<Longrightarrow> laden (session_step env e s)" for s e
    by (cases e) (simp_all add: laden_reader laden_worker)
qed

lemma run_session_laden: "laden (run_session env stream steps)"
  unfolding run_session_def by (rule laden_runs.run_inv) (simp add: laden_def new_session_def)

lemma queue_slots_size: "list_all (\<lambda>e. isl e \<or> items_slots (en_items (projr e)) \<noteq> {#}) q \<Longrightarrow>
    length (filter (\<lambda>e. \<not> isl e) q) \<le> size (queue_slots q)"
proof (induction q)
  case (Cons e q)
  then show ?case
  proof (cases e)
    case (Inr en)
    with Cons have "0 < size (items_slots (en_items en))" by (simp add: nonempty_has_size)
    with Cons Inr show ?thesis by simp
  qed auto
qed simp

section \<open>Properties\<close>

text \<open>
  C9. The session implements the ledger: every step of either thread is a sequence of ledger steps on what
  the ledger sees of the state.
\<close>

theorem session_refines_ledger:
  "ledger_steps (ledger_of (new_session stream)) (ledger_of (run_session env stream steps)) \<and>
   ledger_steps (ledger_of (run_session env stream steps)) (ledger_of (session_step env a (run_session env stream steps)))"
  using run_session_steps keeps_session_step [OF run_session_inv] by blast

text \<open>
  C33. Memory is bounded whatever a client sends: at most 128 requests are admitted and unsettled, their keys
  are pairwise different, and the work queue never holds more envelopes than there are such requests.
\<close>

theorem session_slots_bounded:
  "length (ss_pending (run_session env stream steps)) \<le> 128 \<and>
   distinct (map fst (ss_pending (run_session env stream steps))) \<and>
   length (filter (\<lambda>e. \<not> isl e) (ss_queue (run_session env stream steps))) \<le> length (ss_pending (run_session env stream steps))"
proof -
  let ?s = "run_session env stream steps"
  have inv: "slots_inv (ledger_of ?s)" using run_session_inv by (simp add: session_inv_def)
  have "length (filter (\<lambda>e. \<not> isl e) (ss_queue ?s)) \<le> size (queue_slots (ss_queue ?s))"
    using run_session_laden queue_slots_size by (simp add: laden_def)
  also have "\<dots> \<le> size (lg_waiting (ledger_of ?s) + in_hand_slots (ledger_of ?s))" by (simp add: ledger_of_def)
  also have "\<dots> \<le> size (mset (lg_pending (ledger_of ?s)))" by (intro size_mset_mono slots_sub inv)
  finally show ?thesis using inv by (simp add: slots_inv_def ledger_of_def MAX_PENDING_REQUESTS_def)
qed

text \<open>
  C24. A cancelled request is never started and never answered: in every interleaving, no call follows the
  cancellation of its request, every answer belongs to a called request that was not cancelled, and no
  request is called or answered twice.
\<close>

theorem cancelled_requests_are_silent:
  "calls_lawful {} (ss_log (run_session env stream steps)) \<and>
   {f. Answered f \<in> set (ss_log (run_session env stream steps))} \<subseteq>
     {f. Called f \<in> set (ss_log (run_session env stream steps))} - {f. Cancelled f \<in> set (ss_log (run_session env stream steps))} \<and>
   distinct (filter (\<lambda>e. \<exists>f. e = Called f \<or> e = Answered f) (ss_log (run_session env stream steps)))"
  using run_session_inv [of env stream steps]
  by (auto simp: session_inv_def log_inv_def log_parts log_order_def ledger_of_def)

section \<open>Keys\<close>

text \<open>The reader of one escaped character.\<close>

fun unescape :: "string \<Rightarrow> (char \<times> string) option" where
  "unescape [] = None"
| "unescape (c # r) =
     (if c = CHR 0x22 then None
      else if c \<noteq> CHR 0x5C then Some (c, r)
      else case r of
        [] \<Rightarrow> None
      | d # r' \<Rightarrow>
          if d = CHR ''b'' then Some (char_of (8::nat), r') else if d = CHR ''t'' then Some (char_of (9::nat), r')
          else if d = CHR ''n'' then Some (char_of (10::nat), r') else if d = CHR ''f'' then Some (char_of (12::nat), r')
          else if d = CHR ''r'' then Some (char_of (13::nat), r')
          else if d = CHR ''u'' then
            (case r' of
               a # b # x # y # r'' \<Rightarrow> (case (digit_val 16 x, digit_val 16 y) of (Some m, Some n) \<Rightarrow> Some (char_of (16 * m + n), r'') | _ \<Rightarrow> None)
             | _ \<Rightarrow> None)
          else Some (d, r'))"

lemma digit_val_hex: "d < 16 \<Longrightarrow> digit_val 16 (hex_digit d) = Some d"
  by (auto simp: hex_digit_def digit_val_def Let_def)

lemma char_of_code [simp]: "char_of (code c) = c"
  by (simp add: code_def)

lemma unescape_escape: "unescape (escape_char c @ r) = Some (c, r)"
proof -
  have small: "code c < 32 \<Longrightarrow> digit_val 16 (hex_digit (code c div 16)) = Some (code c div 16)"
    "digit_val 16 (hex_digit (code c mod 16)) = Some (code c mod 16)" by (rule digit_val_hex; simp)+
  have codes: "code c = n \<Longrightarrow> char_of n = c" for n by auto
  show ?thesis using small codes [of 8] codes [of 9] codes [of 10] codes [of 12] codes [of 13] by (auto simp: escape_char_def)
qed

lemma unescape_quote: "unescape (CHR 0x22 # r) = None"
  by simp

lemma escape_not_Nil: "escape_char c \<noteq> []"
  by (simp add: escape_char_def)

lemma escaped_inject:
  "concat (map escape_char s) @ CHR 0x22 # r = concat (map escape_char t) @ CHR 0x22 # r' \<Longrightarrow> s = t"
proof (induction s arbitrary: t)
  case Nil
  show ?case
  proof (cases t)
    case (Cons d t')
    with Nil have "unescape (CHR 0x22 # r) = unescape (escape_char d @ concat (map escape_char t') @ CHR 0x22 # r')"
      by (simp del: unescape.simps)
    then show ?thesis unfolding unescape_escape by simp
  qed simp
next
  case (Cons c s)
  show ?case
  proof (cases t)
    case Nil
    with Cons.prems have "unescape (escape_char c @ concat (map escape_char s) @ CHR 0x22 # r) = unescape (CHR 0x22 # r')"
      by (simp del: unescape.simps)
    then show ?thesis unfolding unescape_escape by simp
  next
    case (Cons d t')
    with Cons.prems have "unescape (escape_char c @ concat (map escape_char s) @ CHR 0x22 # r) =
        unescape (escape_char d @ concat (map escape_char t') @ CHR 0x22 # r')" by (simp del: unescape.simps)
    then have "c = d" "concat (map escape_char s) @ CHR 0x22 # r = concat (map escape_char t') @ CHR 0x22 # r'"
      unfolding unescape_escape by auto
    with Cons.IH Cons show ?thesis by simp
  qed
qed

text \<open>The library keeps a negative integer apart from the unsigned ones.\<close>

fun lossless_id :: "json \<Rightarrow> bool" where
  "lossless_id (JNumber (NegInt i)) = (i < 0)"
| "lossless_id v = legal_id v"

lemma nat_dec_hd: "nat_dec n = c # r \<Longrightarrow> is_ascii_digit c"
  using nat_dec_digits [of c n] by simp

text \<open>
  Two different identifiers never share a slot of the table: their keys are different texts. So a
  cancellation reaches the request that carries its identifier, and no other.
\<close>

theorem request_keys_are_injective:
  assumes "lossless_id i" "lossless_id j"
  shows "request_key i = request_key j \<longleftrightarrow> i = j"
proof
  assume eq: "request_key i = request_key j"
  have digit: "is_ascii_digit c" if "c # r = nat_dec n" for c r n using nat_dec_hd that by metis
  have shapes: "\<not> is_ascii_digit (CHR ''n'')" "\<not> is_ascii_digit (CHR 0x22)" "\<not> is_ascii_digit (CHR ''-'')" by (simp_all add: char_defs)
  have strings: "s = t" if "concat (map escape_char s) = concat (map escape_char t)" for s t
    using escaped_inject [of s "[]" t "[]"] that by simp
  from assms eq show "i = j"
    by (cases i rule: lossless_id.cases; cases j rule: lossless_id.cases)
      (auto dest: strings digit digit [OF sym] simp: shapes)
qed simp

theorem request_keys_are_injective_witness:
  "request_key (JNumber (PosInt 1)) \<noteq> request_key (JString ''1'')"
  using request_keys_are_injective [of "JNumber (PosInt 1)" "JString ''1''"] by simp

end
