(* ===== verification/Stdio_Delivery.thy ===== *)
theory Stdio_Delivery
  imports Stdio_Session
begin

text \<open>
  What the stdio session delivers (\<^verbatim>\<open>crates/nestweaver-mcp/src/session.rs\<close>): the responses on the output
  are the values the calls returned, each written once and in the order the requests were settled,
  and a session whose input ended is drained by its worker. The observers of this theory read the
  steps of a run and the states they start from; no code computes them.
\<close>

section \<open>Observing a run\<close>

fun observed :: "(schedule \<Rightarrow> session \<Rightarrow> 'a list) \<Rightarrow> server_env \<Rightarrow> schedule list \<Rightarrow> session \<Rightarrow> 'a list" where
  "observed look env [] s = []"
| "observed look env (a # steps) s = look a s @ observed look env steps (session_step env a s)"

lemma observed_append:
  "observed look env (xs @ ys) s = observed look env xs s @ observed look env ys (fold (session_step env) xs s)"
  by (induction xs arbitrary: s) simp_all

text \<open>A tool returns to the worker that called it for a slot.\<close>

fun call_returns :: "schedule \<Rightarrow> session \<Rightarrow> (nat \<times> json) list" where
  "call_returns (WorkerRuns result written) s =
     (case ss_worker s of Calling batch r f items rs \<Rightarrow> [(f, result)] | _ \<Rightarrow> [])"
| "call_returns (ReaderRuns written) s = []"

text \<open>The reader looks at a valid cancellation notification; the slot of the request it names.\<close>

definition named_by :: "server_env \<Rightarrow> json \<Rightarrow> session \<Rightarrow> nat list" where
  "named_by env v s =
     (case validate_request v of
        Inl e \<Rightarrow> []
      | Inr req \<Rightarrow>
          if validate_method_params (env_registered env) (env_unknown_tool env) req = None \<and>
             rq_method req = ''notifications/cancelled''
          then (case Option.bind (Option.bind (rq_params req) (json_get ''requestId'')) (\<lambda>rid. map_of (ss_pending s) (request_key rid)) of
                  Some f \<Rightarrow> [f] | None \<Rightarrow> [])
          else [])"

fun client_cancels :: "server_env \<Rightarrow> schedule \<Rightarrow> session \<Rightarrow> nat list" where
  "client_cancels env (ReaderRuns written) s =
     (case ss_reader s of Admitting batch (v # vs) items \<Rightarrow> named_by env v s | _ \<Rightarrow> [])"
| "client_cancels env (WorkerRuns result written) s = []"

text \<open>
  One write: a batch or a single value, made of the responses of settled requests (with their slots)
  and of ready replies (without one).
\<close>

type_synonym sent_value = "bool \<times> (nat option \<times> json) list"

definition sent_json :: "sent_value \<Rightarrow> json" where
  "sent_json = (\<lambda>(batch, rs). if batch then JArray (map snd rs) else snd (hd rs))"

fun answered :: "log_entry list \<Rightarrow> nat list" where
  "answered [] = []"
| "answered (Answered f # es) = f # answered es"
| "answered (e # es) = answered es"

definition slots_of :: "(nat option \<times> json) list \<Rightarrow> nat list" where
  "slots_of rs = List.map_filter fst rs"

definition returned_to :: "(nat \<times> json) list \<Rightarrow> (nat option \<times> json) list \<Rightarrow> bool" where
  "returned_to R rs \<longleftrightarrow> list_all (\<lambda>(x, v). case x of Some f \<Rightarrow> (f, v) \<in> set R | None \<Rightarrow> True) rs"

lemma answered_append [simp]: "answered (es @ es') = answered es @ answered es'"
  by (induction es rule: answered.induct) simp_all

lemma answered_cancelled [simp]: "answered (map Cancelled fs) = []" "answered (map (Cancelled \<circ> g) xs) = []"
proof -
  show c: "answered (map Cancelled fs) = []" for fs by (induction fs) simp_all
  show "answered (map (Cancelled \<circ> g) xs) = []" using c [of "map g xs"] by simp
qed

lemma set_answered: "set (answered es) = {f. Answered f \<in> set es}"
  by (induction es rule: answered.induct) auto

lemma slots_of_simps [simp]: "slots_of [] = []" "slots_of ((Some f, v) # rs) = f # slots_of rs"
  "slots_of ((None, v) # rs) = slots_of rs" "slots_of (rs @ rs') = slots_of rs @ slots_of rs'"
  by (simp_all add: slots_of_def List.map_filter_def)

lemma returned_to_append [simp]: "returned_to R (rs @ rs') \<longleftrightarrow> returned_to R rs \<and> returned_to R rs'"
  by (simp add: returned_to_def)

lemma returned_to_mono: "returned_to R rs \<Longrightarrow> returned_to (R @ R') rs"
  by (auto simp: returned_to_def list_all_iff split: option.splits)

section \<open>A single request has a single response\<close>

fun worker_single :: "worker_at \<Rightarrow> bool" where
  "worker_single (Working batch items rs) \<longleftrightarrow> batch \<or> length items + length rs \<le> 1"
| "worker_single (Calling batch r f items rs) \<longleftrightarrow> batch \<or> items = [] \<and> rs = []"
| "worker_single (Finishing batch r f response items rs) \<longleftrightarrow> batch \<or> items = [] \<and> rs = []"
| "worker_single _ \<longleftrightarrow> True"

fun reader_single :: "reader_at \<Rightarrow> bool" where
  "reader_single (Admitting batch vs items) \<longleftrightarrow> batch \<or> length vs + length items \<le> 1"
| "reader_single _ \<longleftrightarrow> True"

definition singles :: "session \<Rightarrow> bool" where
  "singles s \<longleftrightarrow> reader_single (ss_reader s) \<and> worker_single (ss_worker s) \<and>
     list_all (\<lambda>e. isl e \<or> en_batch (projr e) \<or> length (en_items (projr e)) \<le> 1) (ss_queue s)"

lemma failing_fields [simp]:
  "ss_worker (reader_fails s) = ss_worker s" "ss_reader (reader_fails s) = ReaderStopped" "ss_output (reader_fails s) = ss_output s"
  "answered (ss_log (reader_fails s)) = answered (ss_log s)" "ss_queue (cancel_pending s) = ss_queue s"
  "ss_worker (cancel_pending s) = ss_worker s" "ss_reader (cancel_pending s) = ss_reader s"
  by (simp_all add: reader_fails_def cancel_pending_def set_cancelled_def)

lemma writing_fields [simp]:
  "ss_worker (reader_writes written v s) = ss_worker s" "reader_single (ss_reader (reader_writes written v s))"
  "ss_output (reader_writes written v s) = ss_output s @ (if written then [v] else [])"
  "answered (ss_log (reader_writes written v s)) = answered (ss_log s)"
  by (simp_all add: reader_writes_def)

lemma admit_fields:
  assumes "admit env v s = (i, s')"
  shows "ss_worker s' = ss_worker s" "ss_queue s' = ss_queue s" "ss_output s' = ss_output s"
    "answered (ss_log s') = answered (ss_log s)" "ss_reader s' = ss_reader s"
  using assms by (auto simp: admit_def set_cancelled_def split: sum.splits option.splits if_splits)

text \<open>The reader never touches the worker, and appends at most one value to the output.\<close>

lemma take_line_fields [simp]:
  "ss_worker (take_line env written bytes s) = ss_worker s"
  "answered (ss_log (take_line env written bytes s)) = answered (ss_log s)"
  by (simp_all add: take_line_def split: line_text.split json.split list.split)

lemma take_line_output: "\<exists>ws. ss_output (take_line env written bytes s) = ss_output s @ ws"
  by (auto simp: take_line_def split: line_text.split json.split list.split)

lemma take_line_single: "reader_single (ss_reader s) \<Longrightarrow> reader_single (ss_reader (take_line env written bytes s))"
  by (auto simp: take_line_def split: line_text.split json.split list.split)

lemma reader_step_fields:
  "ss_worker (reader_step env written s) = ss_worker s"
  "answered (ss_log (reader_step env written s)) = answered (ss_log s)"
  by (auto simp: reader_step_def take_frame_def hand_over_def split: reader_at.split list.split prod.split sum.split
      option.split frame_read.split dest: admit_fields)

lemma reader_step_output: "\<exists>ws. ss_output (reader_step env written s) = ss_output s @ ws"
  using take_line_output
  by (auto simp: reader_step_def take_frame_def hand_over_def split: reader_at.split list.split prod.split sum.split
      option.split frame_read.split dest: admit_fields) (metis session.select_convs session.surjective session.update_convs)+

lemma singles_reader:
  assumes "singles s"
  shows "singles (reader_step env written s)"
  using assms
  by (auto simp: singles_def reader_step_def take_frame_def hand_over_def take_line_single split: reader_at.split list.split prod.split
      sum.split option.split frame_read.split dest: admit_fields)

lemma singles_worker: "singles s \<Longrightarrow> singles (worker_step result written s)"
  by (auto simp: singles_def worker_step_def worker_takes_def worker_finishes_def remove_pending_def Let_def
      split: worker_at.split list.splits item.split sum.split option.split)

interpretation single_runs: step_system "session_step env" singles for env
proof
  show "singles s \<Longrightarrow> singles (session_step env e s)" for s e
    by (cases e) (simp_all add: singles_reader singles_worker)
qed

lemma run_session_singles: "singles (run_session env stream steps)"
  unfolding run_session_def by (rule single_runs.run_inv) (simp add: singles_def new_session_def)

section \<open>What is written, and what is held back\<close>

fun worker_responses :: "worker_at \<Rightarrow> json list" where
  "worker_responses (Working batch items rs) = rs"
| "worker_responses (Calling batch r f items rs) = rs"
| "worker_responses (Finishing batch r f response items rs) = rs"
| "worker_responses _ = []"

text \<open>The value that the worker is about to file, as the call returned it.\<close>

fun filing :: "(nat \<times> json) list \<Rightarrow> worker_at \<Rightarrow> bool" where
  "filing R (Finishing batch r f (Some v) items rs) \<longleftrightarrow> (f, v) \<in> set R"
| "filing R _ \<longleftrightarrow> True"

definition well_sent :: "sent_value list \<Rightarrow> bool" where
  "well_sent sent \<longleftrightarrow> list_all (\<lambda>(batch, rs). batch \<or> length rs = 1) sent"

definition delivery :: "(nat \<times> json) list \<Rightarrow> session \<Rightarrow> bool" where
  "delivery R s \<longleftrightarrow> filing R (ss_worker s) \<and> (ss_worker s = WorkerReturned \<or> (\<exists>sent held.
     ss_output s = map sent_json sent \<and> well_sent sent \<and> worker_responses (ss_worker s) = map snd held \<and>
     slots_of (concat (map snd sent) @ held) = answered (ss_log s) \<and> returned_to R (concat (map snd sent) @ held)))"

lemma deliveryI:
  assumes "filing R (ss_worker s)" "ss_output s = map sent_json sent" "well_sent sent"
    "worker_responses (ss_worker s) = map snd held" "slots_of (concat (map snd sent) @ held) = answered (ss_log s)"
    "returned_to R (concat (map snd sent) @ held)"
  shows "delivery R s"
  unfolding delivery_def using assms by blast

lemma delivery_returned: "ss_worker s = WorkerReturned \<Longrightarrow> delivery R s"
  by (simp add: delivery_def)

definition plain :: "json \<Rightarrow> sent_value" where
  "plain v = (False, [(None, v)])"

lemma plain_sent: "map sent_json (map plain ws) = ws" "well_sent (map plain ws)" "slots_of (concat (map snd (map plain ws))) = []"
  "returned_to R (concat (map snd (map plain ws)))"
  by (induction ws) (simp_all add: plain_def sent_json_def well_sent_def returned_to_def)

lemma filing_mono: "filing R w \<Longrightarrow> filing (R @ R') w"
  by (induction R w rule: filing.induct) auto

lemma delivery_reader:
  assumes "delivery R s"
  shows "delivery R (reader_step env written s)"
proof (cases "ss_worker s = WorkerReturned")
  case True
  then show ?thesis by (intro delivery_returned) (simp add: reader_step_fields)
next
  case False
  with assms obtain sent held where d: "filing R (ss_worker s)" "ss_output s = map sent_json sent" "well_sent sent"
    "worker_responses (ss_worker s) = map snd held" "slots_of (concat (map snd sent) @ held) = answered (ss_log s)"
    "returned_to R (concat (map snd sent) @ held)"
    unfolding delivery_def by blast
  obtain ws where ws: "ss_output (reader_step env written s) = ss_output s @ ws" using reader_step_output by blast
  note plain = plain_sent [where ws = ws]
  show ?thesis
    by (rule deliveryI [of _ _ "sent @ map plain ws" held])
      (use d ws plain in \<open>auto simp: reader_step_fields well_sent_def\<close>)
qed

lemma delivery_worker:
  assumes "delivery R s" "singles s"
  shows "delivery (R @ call_returns (WorkerRuns result written) s) (worker_step result written s)"
proof (cases "ss_worker s = WorkerReturned")
  case True
  then show ?thesis by (intro delivery_returned) (simp add: worker_step_def)
next
  case False
  let ?R = "R @ call_returns (WorkerRuns result written) s"
  from False assms(1) obtain sent held where d: "filing R (ss_worker s)" "ss_output s = map sent_json sent" "well_sent sent"
    "worker_responses (ss_worker s) = map snd held" "slots_of (concat (map snd sent) @ held) = answered (ss_log s)"
    "returned_to R (concat (map snd sent) @ held)"
    unfolding delivery_def by blast
  have ret: "returned_to ?R (concat (map snd sent) @ held)" by (rule returned_to_mono) (rule d(6))
  note keep = deliveryI [of ?R "worker_step result written s" sent held]
  show ?thesis
  proof (cases "ss_worker s")
    case Receiving
    then have held: "held = []" using d(4) by simp
    show ?thesis
    proof (cases "ss_worker (worker_step result written s) = WorkerReturned")
      case True
      then show ?thesis by (rule delivery_returned)
    next
      case False
      with Receiving d ret held show ?thesis
        by (intro keep) (auto simp: worker_step_def worker_takes_def split: list.splits sum.splits if_splits)
    qed
  next
    case (Working batch items rs)
    then have rs: "map snd held = rs" using d(4) by simp
    show ?thesis
    proof (cases items)
      case Nil
      show ?thesis
      proof (cases "rs = [] \<or> \<not> written")
        case True
        show ?thesis
        proof (cases "rs = []")
          case True
          with Working Nil d ret show ?thesis by (intro keep) (auto simp: worker_step_def)
        next
          case False
          with True Working Nil show ?thesis by (intro delivery_returned) (simp add: worker_step_def)
        qed
      next
        case False
        have single: "batch \<or> length held = 1"
          using assms(2) Working Nil False rs [symmetric] by (cases held) (auto simp: singles_def)
        have val: "sent_json (batch, held) = batch_value batch rs"
          using False rs [symmetric] by (cases held) (auto simp: sent_json_def batch_value_def)
        show ?thesis
          by (rule deliveryI [of _ _ "sent @ [(batch, held)]" "[]"])
            (use False Working Nil d ret val single in \<open>auto simp: worker_step_def well_sent_def\<close>)
      qed
    next
      case (Cons i items')
      show ?thesis
      proof (cases i)
        case (Reply v)
        show ?thesis
          by (rule deliveryI [of _ _ sent "held @ [(None, v)]"])
            (use Reply Cons Working d ret in \<open>auto simp: worker_step_def returned_to_def\<close>)
      next
        case (Dispatch r f)
        with Cons Working d ret show ?thesis by (intro keep) (auto simp: worker_step_def)
      qed
    qed
  next
    case (Calling batch r f items rs)
    with d ret show ?thesis by (intro keep) (auto simp: worker_step_def)
  next
    case (Finishing batch r f response items rs)
    show ?thesis
    proof (cases "response = None \<or> ss_cancel s f")
      case True
      with Finishing d ret show ?thesis
        by (intro keep) (auto simp: worker_step_def worker_finishes_def remove_pending_def Let_def split: option.split)
    next
      case False
      then obtain v where v: "response = Some v" by auto
      show ?thesis
        by (rule deliveryI [of _ _ sent "held @ [(Some f, v)]"])
          (use False v Finishing d ret in \<open>auto simp: worker_step_def worker_finishes_def remove_pending_def Let_def returned_to_def\<close>)
    qed
  qed (use False in simp)
qed

lemma delivery_mono: "delivery R s \<Longrightarrow> delivery (R @ R') s"
  unfolding delivery_def using filing_mono returned_to_mono by blast

lemma run_session_delivery: "delivery (observed call_returns env steps (new_session stream)) (run_session env stream steps)"
proof (induction steps rule: rev_induct)
  case Nil
  show ?case by (rule deliveryI [of _ _ "[]" "[]"]) (simp_all add: run_session_def new_session_def well_sent_def returned_to_def)
next
  case (snoc a steps)
  have run: "run_session env stream (steps @ [a]) = session_step env a (run_session env stream steps)" by (simp add: run_session_def)
  have seen: "observed call_returns env (steps @ [a]) (new_session stream) =
      observed call_returns env steps (new_session stream) @ call_returns a (run_session env stream steps)"
    by (simp add: observed_append run_session_def)
  show ?case unfolding run seen
  proof (cases a)
    case (ReaderRuns written)
    then show "delivery (observed call_returns env steps (new_session stream) @ call_returns a (run_session env stream steps))
        (session_step env a (run_session env stream steps))"
      using delivery_mono delivery_reader [OF snoc.IH, of env written] by simp
  next
    case (WorkerRuns result written)
    then show "delivery (observed call_returns env steps (new_session stream) @ call_returns a (run_session env stream steps))
        (session_step env a (run_session env stream steps))"
      using delivery_worker [OF snoc.IH run_session_singles, of result written] by simp
  qed
qed

lemma answered_distinct: "distinct (filter (\<lambda>e. \<exists>f. e = Called f \<or> e = Answered f) es) \<Longrightarrow> distinct (answered es)"
  by (induction es rule: answered.induct) (auto simp: set_answered)

section \<open>Who cancels\<close>

text \<open>No thread has met a failure: the worker runs on and no read error waits for it.\<close>

definition unfailed :: "session \<Rightarrow> bool" where
  "unfailed s \<longleftrightarrow> ss_worker s \<noteq> WorkerReturned \<and> list_all (\<lambda>e. \<not> isl e) (ss_queue s)"

definition cancelled_slots :: "session \<Rightarrow> nat set" where
  "cancelled_slots s = {f. Cancelled f \<in> set (ss_log s)}"

lemma cancelled_update [simp]:
  "cancelled_slots (s\<lparr>ss_reader := r\<rparr>) = cancelled_slots s" "cancelled_slots (s\<lparr>ss_worker := w\<rparr>) = cancelled_slots s"
  "cancelled_slots (s\<lparr>ss_queue := q\<rparr>) = cancelled_slots s" "cancelled_slots (s\<lparr>ss_stream := rs\<rparr>) = cancelled_slots s"
  "cancelled_slots (s\<lparr>ss_output := vs\<rparr>) = cancelled_slots s"
  by (simp_all add: cancelled_slots_def)

lemma cancelled_writes [simp]: "cancelled_slots (reader_writes True v s) = cancelled_slots s"
  by (simp add: reader_writes_def)

lemma cancelled_line [simp]: "cancelled_slots (take_line env True bytes s) = cancelled_slots s"
  by (simp add: take_line_def split: line_text.split json.split list.split)

lemma cancelled_admit:
  assumes "admit env v s = (i, s')"
  shows "cancelled_slots s' = cancelled_slots s \<union> set (named_by env v s)"
proof (cases "validate_request v")
  case (Inl e)
  with assms show ?thesis by (auto simp: admit_def named_by_def)
next
  case (Inr req)
  show ?thesis
  proof (cases "validate_method_params (env_registered env) (env_unknown_tool env) req = None")
    case True
    show ?thesis
    proof (cases "rq_method req = ''notifications/cancelled''")
      case cancel: True
      with assms Inr True show ?thesis
        by (cases "Option.bind (rq_params req) (json_get ''requestId'')")
          (auto simp: admit_def named_by_def cancelled_slots_def set_cancelled_def split: option.splits)
    next
      case False
      with assms Inr True have "cancelled_slots s' = cancelled_slots s"
        by (simp add: admit_def cancelled_slots_def split: option.splits if_splits) auto
      with False Inr show ?thesis by (simp add: named_by_def)
    qed
  next
    case False
    then obtain message where m: "validate_method_params (env_registered env) (env_unknown_tool env) req = Some message" by blast
    have "s' = s" using assms unfolding admit_def Inr sum.case m option.case by simp
    then show ?thesis by (simp add: named_by_def Inr m)
  qed
qed

lemma unfailed_before:
  assumes "unfailed (session_step env a s)"
  shows "unfailed s"
proof (cases a)
  case (ReaderRuns written)
  have "list_all (\<lambda>e. \<not> isl e) (ss_queue s)" if "list_all (\<lambda>e. \<not> isl e) (ss_queue (reader_step env written s))"
    using that by (auto simp: reader_step_def take_frame_def hand_over_def split: reader_at.splits list.splits prod.splits
        sum.splits option.splits frame_read.splits if_splits dest: admit_fields)
  with ReaderRuns assms show ?thesis by (simp add: unfailed_def reader_step_fields)
next
  case (WorkerRuns result written)
  with assms show ?thesis
    by (auto simp: unfailed_def worker_step_def worker_takes_def worker_finishes_def remove_pending_def Let_def
        split: worker_at.splits list.splits item.splits sum.splits option.splits if_splits)
qed

lemma reader_cancels:
  assumes "unfailed (reader_step env True s)"
  shows "cancelled_slots (reader_step env True s) = cancelled_slots s \<union> set (client_cancels env (ReaderRuns True) s)"
proof -
  have w: "ss_worker s \<noteq> WorkerReturned" and q: "list_all (\<lambda>e. \<not> isl e) (ss_queue (reader_step env True s))"
    using assms by (simp_all add: unfailed_def reader_step_fields)
  show ?thesis
  proof (cases "ss_reader s")
    case ReadingFrame
    with w q show ?thesis
      by (auto simp: reader_step_def take_frame_def split: prod.splits sum.splits option.splits frame_read.splits)
  next
    case (Admitting batch vs items)
    with w show ?thesis
      by (cases vs) (auto simp: reader_step_def hand_over_def split: prod.split dest: cancelled_admit)
  qed (simp add: reader_step_def)
qed

lemma worker_cancels:
  assumes "unfailed (worker_step result written s)"
  shows "cancelled_slots (worker_step result written s) = cancelled_slots s"
  using assms
  by (auto simp: unfailed_def worker_step_def worker_takes_def worker_finishes_def remove_pending_def Let_def cancelled_slots_def
      split: worker_at.splits list.splits item.splits sum.splits option.splits if_splits)

lemma run_session_cancels:
  assumes "unfailed (run_session env stream steps)" "ReaderRuns False \<notin> set steps"
  shows "cancelled_slots (run_session env stream steps) = set (observed (client_cancels env) env steps (new_session stream))"
  using assms
proof (induction steps rule: rev_induct)
  case Nil
  show ?case by (simp add: run_session_def new_session_def cancelled_slots_def)
next
  case (snoc a steps)
  let ?s = "run_session env stream steps"
  have run: "run_session env stream (steps @ [a]) = session_step env a ?s" by (simp add: run_session_def)
  have "unfailed ?s" using snoc.prems(1) unfailed_before run by metis
  with snoc have IH: "cancelled_slots ?s = set (observed (client_cancels env) env steps (new_session stream))" by simp
  have seen: "observed (client_cancels env) env (steps @ [a]) (new_session stream) =
      observed (client_cancels env) env steps (new_session stream) @ client_cancels env a ?s"
    by (simp add: observed_append run_session_def)
  show ?case
  proof (cases a)
    case (ReaderRuns written)
    from snoc.prems(2) ReaderRuns have written: "written" by (cases written) simp_all
    from snoc.prems(1) have "unfailed (reader_step env True ?s)" using written by (simp add: run_session_def ReaderRuns)
    with written reader_cancels ReaderRuns IH show ?thesis unfolding run seen by simp
  next
    case (WorkerRuns result written)
    with snoc.prems(1) worker_cancels [of result written ?s] IH show ?thesis unfolding run seen by (simp add: run)
  qed
qed

section \<open>The worker drains the session\<close>

fun worker_left :: "worker_at \<Rightarrow> nat" where
  "worker_left (Working batch items rs) = 1 + 4 * length items"
| "worker_left (Calling batch r f items rs) = 3 + 4 * length items"
| "worker_left (Finishing batch r f response items rs) = 2 + 4 * length items"
| "worker_left _ = 0"

fun queue_left :: "(string + envelope) list \<Rightarrow> nat" where
  "queue_left [] = 0"
| "queue_left (Inl e # q) = queue_left q"
| "queue_left (Inr en # q) = 2 + 4 * length (en_items en) + queue_left q"

definition work_left :: "session \<Rightarrow> nat" where
  "work_left s = worker_left (ss_worker s) + queue_left (ss_queue s)"

definition idle :: "session \<Rightarrow> bool" where
  "idle s \<longleftrightarrow> ss_worker s = Receiving \<and> ss_queue s = []"

lemma worker_progress:
  assumes "unfailed s" "ss_reader s = ReaderStopped" "\<not> idle s"
  shows "unfailed (worker_step result True s)" "ss_reader (worker_step result True s) = ReaderStopped"
    "work_left (worker_step result True s) < work_left s"
  using assms
  by (auto simp: unfailed_def idle_def work_left_def worker_step_def worker_takes_def worker_finishes_def remove_pending_def Let_def
      split: worker_at.splits list.splits item.splits sum.splits option.splits)

lemma worker_drains:
  assumes "unfailed s" "ss_reader s = ReaderStopped"
  shows "\<exists>n. unfailed (fold (session_step env) (map (\<lambda>i. WorkerRuns (results (m + i)) True) [0..<n]) s) \<and>
    idle (fold (session_step env) (map (\<lambda>i. WorkerRuns (results (m + i)) True) [0..<n]) s)"
  using assms
proof (induction "work_left s" arbitrary: s m rule: less_induct)
  case less
  show ?case
  proof (cases "idle s")
    case True
    with less.prems show ?thesis by (intro exI [of _ 0]) simp
  next
    case False
    note step = worker_progress [OF less.prems False, of "results m"]
    from less.hyps [OF step(3,1,2), of "Suc m"] obtain n where n:
      "unfailed (fold (session_step env) (map (\<lambda>i. WorkerRuns (results (Suc m + i)) True) [0..<n]) (worker_step (results m) True s))"
      "idle (fold (session_step env) (map (\<lambda>i. WorkerRuns (results (Suc m + i)) True) [0..<n]) (worker_step (results m) True s))"
      by blast
    have "map (\<lambda>i. WorkerRuns (results (m + i)) True) [0..<Suc n] =
        WorkerRuns (results m) True # map (\<lambda>i. WorkerRuns (results (Suc m + i)) True) [0..<n]"
      by (simp add: upt_conv_Cons map_Suc_upt [symmetric] comp_def del: upt_Suc)
    with n show ?thesis by (intro exI [of _ "Suc n"]) (simp del: upt_Suc)
  qed
qed

section \<open>Properties\<close>


text \<open>One call with identifier 7 is queued when the input ends.\<close>

definition demo_id :: json where "demo_id = JNumber (PosInt 7)"

definition demo_json :: json where
  "demo_json = JObject [(''jsonrpc'', JString ''2.0''), (''id'', demo_id), (''method'', JString ''x'')]"

definition demo_request :: request where
  "demo_request = \<lparr>rq_jsonrpc = ''2.0'', rq_id = Some demo_id, rq_method = ''x'', rq_params = None\<rparr>"

definition demo_env :: server_env where
  "demo_env = \<lparr>env_registered = (\<lambda>_. True), env_unknown_tool = (\<lambda>s. s), env_decode = (\<lambda>bytes. Parsed demo_json), env_max_frame = 8\<rparr>"

definition demo_steps :: "schedule list" where
  "demo_steps = [ReaderRuns True, ReaderRuns True, ReaderRuns True, ReaderRuns True]"

lemma demo_request_valid:
  "validate_request demo_json = Inr demo_request" "validate_method_params registered message demo_request = None"
  "rq_id demo_request = Some demo_id" "id_of demo_request = demo_id" "rq_method demo_request = ''x''"
  by (simp_all add: validate_request_def get_str_def demo_json_def demo_request_def demo_id_def validate_method_params_def
      allowed_params_def id_of_def)

lemma demo_frames: "read_frame 8 [Bytes [65, 10]] = (Inr (Some (Line [65])), [])" "read_frame 8 [] = (Inr None, [])"
  by (simp_all add: read_frame_def cut_chunk_def newline_def usize_max_def finish_frame_def carriage_return_def put_back_def)

lemma demo_run: "run_session demo_env [Bytes [65, 10]] demo_steps =
    \<lparr>ss_cancel = (\<lambda>_. False)(0 := False), ss_next = 1, ss_pending = [(request_key demo_id, 0)],
      ss_queue = [Inr \<lparr>en_batch = False, en_items = [Dispatch demo_request 0]\<rparr>], ss_output = [], ss_stream = [],
      ss_reader = ReaderStopped, ss_worker = Receiving, ss_log = [Admitted 0]\<rparr>"
proof -
  have s1: "session_step demo_env (ReaderRuns True) (new_session [Bytes [65, 10]]) =
    \<lparr>ss_cancel = (\<lambda>_. False), ss_next = 0, ss_pending = [], ss_queue = [], ss_output = [], ss_stream = [],
      ss_reader = Admitting False [demo_json] [], ss_worker = Receiving, ss_log = []\<rparr>"
    by (simp add: demo_frames new_session_def reader_step_def take_frame_def take_line_def demo_env_def demo_json_def)
  have s2: "session_step demo_env (ReaderRuns True) (\<lparr>ss_cancel = (\<lambda>_. False), ss_next = 0, ss_pending = [], ss_queue = [], ss_output = [], ss_stream = [],
      ss_reader = Admitting False [demo_json] [], ss_worker = Receiving, ss_log = []\<rparr>) =
    \<lparr>ss_cancel = (\<lambda>_. False)(0 := False), ss_next = 1, ss_pending = [(request_key demo_id, 0)], ss_queue = [], ss_output = [], ss_stream = [],
      ss_reader = Admitting False [] [Dispatch demo_request 0], ss_worker = Receiving, ss_log = [Admitted 0]\<rparr>"
    by (simp add: reader_step_def admit_def demo_request_valid MAX_PENDING_REQUESTS_def)
  have s3: "session_step demo_env (ReaderRuns True) (\<lparr>ss_cancel = (\<lambda>_. False)(0 := False), ss_next = 1, ss_pending = [(request_key demo_id, 0)], ss_queue = [], ss_output = [], ss_stream = [],
      ss_reader = Admitting False [] [Dispatch demo_request 0], ss_worker = Receiving, ss_log = [Admitted 0]\<rparr>) =
    \<lparr>ss_cancel = (\<lambda>_. False)(0 := False), ss_next = 1, ss_pending = [(request_key demo_id, 0)], ss_queue = [Inr \<lparr>en_batch = False, en_items = [Dispatch demo_request 0]\<rparr>], ss_output = [], ss_stream = [],
      ss_reader = ReadingFrame, ss_worker = Receiving, ss_log = [Admitted 0]\<rparr>"
    by (simp add: reader_step_def hand_over_def)
  have s4: "session_step demo_env (ReaderRuns True) (\<lparr>ss_cancel = (\<lambda>_. False)(0 := False), ss_next = 1, ss_pending = [(request_key demo_id, 0)], ss_queue = [Inr \<lparr>en_batch = False, en_items = [Dispatch demo_request 0]\<rparr>], ss_output = [], ss_stream = [],
      ss_reader = ReadingFrame, ss_worker = Receiving, ss_log = [Admitted 0]\<rparr>) =
    \<lparr>ss_cancel = (\<lambda>_. False)(0 := False), ss_next = 1, ss_pending = [(request_key demo_id, 0)], ss_queue = [Inr \<lparr>en_batch = False, en_items = [Dispatch demo_request 0]\<rparr>], ss_output = [], ss_stream = [],
      ss_reader = ReaderStopped, ss_worker = Receiving, ss_log = [Admitted 0]\<rparr>"
    by (simp add: reader_step_def take_frame_def demo_env_def demo_frames)
  show ?thesis unfolding run_session_def demo_steps_def fold.simps comp_def id_def s1 s2 s3 s4 ..
qed


end
