(* ===== verification/Cpu_Throttle.thy ===== *)
theory Cpu_Throttle
  imports Complex_Main Prelude
begin

text \<open>
  The CPU budget of the indexing phases (\<^verbatim>\<open>crates/nestweaver-engine/src/cpu_throttle.rs\<close>): a rolling
  window of billed CPU time, the wait of a worker over budget, and the reserve an index claims for its
  write phase.

  Durations are natural numbers of nanoseconds. What one measurement spreads over several buckets is a
  rational share of the CPU used, where the code multiplies in binary64 and rounds to a nanosecond. The
  two clocks are inputs of an event: the monotonic wall clock by the time that passed since the last
  measurement, the CPU clock by its reading, which may be anything. Sleeping is the return of a nap,
  after which the caller's next turn comes at some later event; a turn runs under the window's lock, so
  the interleavings of any number of callers are the lists of events. Debug and info lines are left out,
  the fields that limit their rate are kept.
\<close>

section \<open>Constants\<close>

definition millis :: "nat \<Rightarrow> nat" where "millis n = n * 1000000"

definition seconds :: "nat \<Rightarrow> nat" where "seconds n = n * 1000000000"

definition DEFAULT_PERCENT :: nat where "DEFAULT_PERCENT = 0"

definition MAX_PERCENT :: nat where "MAX_PERCENT = 40"

definition MIN_PERCENT :: nat where "MIN_PERCENT = 12"

definition WRITE_RESERVE :: nat where "WRITE_RESERVE = seconds 20"

definition WINDOW :: nat where "WINDOW = seconds 180"

definition SUB_WINDOW :: nat where "SUB_WINDOW = seconds 10"

definition MAX_WAIT_PER_CHECK :: nat where "MAX_WAIT_PER_CHECK = seconds 190"

definition SAMPLE_INTERVAL :: nat where "SAMPLE_INTERVAL = seconds 5"

definition ANNOUNCE_WAIT_OVER :: nat where "ANNOUNCE_WAIT_OVER = seconds 3"

definition MAX_SLEEP :: nat where "MAX_SLEEP = millis 250"

lemmas window_consts = WINDOW_def SUB_WINDOW_def seconds_def

section \<open>The window\<close>

type_synonym bucket = "nat \<times> rat"

record cpu_window =
  last_wall :: nat
  last_cpu :: nat
  buckets :: "bucket list"
  last_log :: "nat option"
  claimed :: nat
  notice_until :: "nat option"
  saturated :: bool

definition bucket_index :: "nat \<Rightarrow> nat" where
  "bucket_index wall = wall div SUB_WINDOW"

definition bucket_start :: "nat \<Rightarrow> nat" where
  "bucket_start index = SUB_WINDOW * min index (2 ^ 32 - 1)"

definition bucket_expiry :: "nat \<Rightarrow> nat" where
  "bucket_expiry index = bucket_start (index + 1) + WINDOW"

definition bill :: "nat \<Rightarrow> rat \<Rightarrow> bucket list \<Rightarrow> bucket list" where
  "bill index cpu bs =
     (if bs \<noteq> [] \<and> fst (last bs) = index then butlast bs @ [(index, snd (last bs) + cpu)] else bs @ [(index, cpu)])"

text \<open>The share of one bucket in the CPU used between two measurements.\<close>

definition bill_share :: "nat \<Rightarrow> nat \<Rightarrow> nat \<Rightarrow> nat \<Rightarrow> bucket list \<Rightarrow> bucket list" where
  "bill_share from now_wall used index bs =
     (let begins = max (bucket_start index) from; ends = min (bucket_start (index + 1)) now_wall
      in if begins < ends then bill index (of_nat (ends - begins) * (of_nat used / of_nat (now_wall - from))) bs else bs)"

definition charge :: "nat \<Rightarrow> nat \<Rightarrow> nat \<Rightarrow> bucket list \<Rightarrow> bucket list" where
  "charge from now_wall used bs =
     (if now_wall = from \<or> used = 0 then bill (bucket_index now_wall) (of_nat used) bs
      else
        let horizon = now_wall - (WINDOW + SUB_WINDOW); start = bucket_index (max from horizon)
        in fold (bill_share from now_wall used) [start..<bucket_index now_wall + 1] bs)"

definition expire :: "nat \<Rightarrow> bucket list \<Rightarrow> bucket list" where
  "expire now_wall bs = dropWhile (\<lambda>(index, _). bucket_expiry index \<le> now_wall) bs"

definition update_window :: "nat \<Rightarrow> nat \<Rightarrow> cpu_window \<Rightarrow> cpu_window" where
  "update_window now_wall now_cpu w =
     w\<lparr>last_cpu := max (last_cpu w) now_cpu, last_wall := now_wall,
       buckets := expire now_wall (charge (min (last_wall w) now_wall) now_wall (now_cpu - last_cpu w) (buckets w))\<rparr>"

definition total_of :: "bucket list \<Rightarrow> rat" where
  "total_of bs = sum_list (map snd bs)"

definition window_total :: "cpu_window \<Rightarrow> rat" where
  "window_total w = total_of (buckets w)"

fun wait_loop :: "nat \<Rightarrow> nat \<Rightarrow> rat \<Rightarrow> bucket list \<Rightarrow> nat" where
  "wait_loop budget now_wall remaining [] = 0"
| "wait_loop budget now_wall remaining ((index, cpu) # bs) =
     (if remaining \<le> of_nat budget then 0
      else let remaining' = max 0 (remaining - cpu)
           in if remaining' \<le> of_nat budget then bucket_expiry index - now_wall
              else wait_loop budget now_wall remaining' bs)"

definition wait_until_within :: "nat \<Rightarrow> nat \<Rightarrow> cpu_window \<Rightarrow> nat" where
  "wait_until_within budget now_wall w = wait_loop budget now_wall (window_total w) (buckets w)"

section \<open>Waiting\<close>

definition new_window :: "nat \<Rightarrow> cpu_window" where
  "new_window now_wall =
     \<lparr>last_wall = now_wall, last_cpu = 0, buckets = [], last_log = None, claimed = 0, notice_until = None, saturated = False\<rparr>"

definition from_env_value :: "string option \<Rightarrow> nat option" where
  "from_env_value value =
     (let given = (case Option.bind (map_option trim value) (\<lambda>v. if v = [] then None else parse_u32 v) of
                     Some p \<Rightarrow> p | None \<Rightarrow> DEFAULT_PERCENT);
          percent = (if MAX_PERCENT < given \<and> given < 100 then DEFAULT_PERCENT
                     else if 0 < given \<and> given < MIN_PERCENT then MIN_PERCENT else given)
      in if 0 < percent \<and> percent < 100 then Some (WINDOW * percent div 100) else None)"

definition note_log :: "nat \<Rightarrow> cpu_window \<Rightarrow> cpu_window" where
  "note_log now_wall w =
     (if pred_option (\<lambda>since. SUB_WINDOW \<le> now_wall - since) (last_log w) then w\<lparr>last_log := Some now_wall\<rparr> else w)"

definition announce_long_wait :: "nat \<Rightarrow> nat \<Rightarrow> cpu_window \<Rightarrow> cpu_window" where
  "announce_long_wait now_wall wait w =
     (if wait \<le> ANNOUNCE_WAIT_OVER \<or> (case notice_until w of Some until \<Rightarrow> now_wall < until | None \<Rightarrow> False) then w
      else w\<lparr>notice_until := Some (now_wall + wait)\<rparr>)"

definition claim_now :: "bool \<Rightarrow> cpu_window \<Rightarrow> cpu_window" where
  "claim_now claim w = (if claim then w\<lparr>claimed := claimed w + WRITE_RESERVE\<rparr> else w)"

datatype turn_outcome = Proceed | Nap nat

text \<open>One pass of the loop of \<^verbatim>\<open>wait_within\<close> that neither timed out nor was cancelled.\<close>

definition wait_turn :: "nat option \<Rightarrow> nat \<Rightarrow> bool \<Rightarrow> nat \<Rightarrow> nat \<Rightarrow> nat \<Rightarrow> cpu_window \<Rightarrow> cpu_window \<times> turn_outcome" where
  "wait_turn target given_limit claim slept now_wall now_cpu w0 =
     (let w = update_window now_wall now_cpu w0;
          used = window_total w;
          limit = (if claim then given_limit - claimed w else given_limit);
          w1 = (if saturated w \<and> used \<le> of_nat (case target of Some b \<Rightarrow> b | None \<Rightarrow> limit) then w\<lparr>saturated := False\<rparr> else w)
      in if used \<le> of_nat limit \<or> saturated w1 then (claim_now claim w1, Proceed)
         else
           let w2 = note_log now_wall w1;
               least = wait_until_within limit now_wall w2;
               wait = (if least = 0 \<and> claim then MAX_SLEEP else least);
               w3 = announce_long_wait now_wall wait w2;
               nap = min (min wait MAX_SLEEP) (MAX_WAIT_PER_CHECK - slept)
           in if nap = 0 then (claim_now claim w3, Proceed) else (w3, Nap nap))"

section \<open>Any number of callers\<close>

text \<open>A caller: not in the throttle, in its wait loop (limit, claim, slept so far), or with a reservation.\<close>

datatype caller = Away | Waiting nat bool nat | Reserved nat

record throttle =
  th_target :: "nat option"
  th_window :: cpu_window
  th_interrupted :: bool
  th_callers :: "nat \<Rightarrow> caller"

definition new_throttle :: "nat option \<Rightarrow> nat \<Rightarrow> throttle" where
  "new_throttle target now_wall =
     \<lparr>th_target = target, th_window = new_window now_wall, th_interrupted = False, th_callers = \<lambda>_. Away\<rparr>"

definition leaves :: "bool \<Rightarrow> caller" where
  "leaves claim = (if claim then Reserved WRITE_RESERVE else Away)"

definition check_with_cancel :: "nat \<Rightarrow> throttle \<Rightarrow> throttle" where
  "check_with_cancel c t =
     (case th_target t of None \<Rightarrow> t | Some budget \<Rightarrow> t\<lparr>th_callers := (th_callers t)(c := Waiting budget False 0)\<rparr>)"

definition reserve_write_headroom :: "nat \<Rightarrow> throttle \<Rightarrow> throttle" where
  "reserve_write_headroom c t =
     t\<lparr>th_callers := (th_callers t)(c :=
        (case th_target t of None \<Rightarrow> Reserved 0 | Some budget \<Rightarrow> Waiting (budget - WRITE_RESERVE) True 0))\<rparr>"

definition drop_reservation :: "nat \<Rightarrow> nat \<Rightarrow> throttle \<Rightarrow> throttle" where
  "drop_reservation c amount t =
     t\<lparr>th_callers := (th_callers t)(c := Away),
       th_window := (if amount = 0 then th_window t else (th_window t)\<lparr>claimed := claimed (th_window t) - amount\<rparr>)\<rparr>"

text \<open>A pass of the loop of a waiting caller: it is cancelled, it waits or proceeds, or it has waited long enough.\<close>

definition wait_within :: "nat \<Rightarrow> nat \<Rightarrow> bool \<Rightarrow> nat \<Rightarrow> bool \<Rightarrow> nat \<Rightarrow> nat \<Rightarrow> throttle \<Rightarrow> throttle" where
  "wait_within c limit claim slept cancelled elapsed now_cpu t =
     (let w = th_window t in
      if MAX_WAIT_PER_CHECK \<le> slept then
        t\<lparr>th_window := claim_now claim (w\<lparr>saturated := True\<rparr>), th_callers := (th_callers t)(c := leaves claim)\<rparr>
      else if th_interrupted t \<or> cancelled then
        t\<lparr>th_window := claim_now claim w, th_callers := (th_callers t)(c := leaves claim)\<rparr>
      else case wait_turn (th_target t) limit claim slept (last_wall w + elapsed) now_cpu w of
        (w', Proceed) \<Rightarrow> t\<lparr>th_window := w', th_callers := (th_callers t)(c := leaves claim)\<rparr>
      | (w', Nap nap) \<Rightarrow> t\<lparr>th_window := w', th_callers := (th_callers t)(c := Waiting limit claim (slept + nap))\<rparr>)"

datatype throttle_event =
  Check nat | Reserve nat | Turn nat bool nat nat | Release nat | Sample nat nat | InterruptWaits

fun throttle_step :: "throttle_event \<Rightarrow> throttle \<Rightarrow> throttle" where
  "throttle_step (Check c) t = (if th_callers t c = Away then check_with_cancel c t else t)"
| "throttle_step (Reserve c) t = (if th_callers t c = Away then reserve_write_headroom c t else t)"
| "throttle_step (Turn c cancelled elapsed now_cpu) t =
     (case th_callers t c of Waiting limit claim slept \<Rightarrow> wait_within c limit claim slept cancelled elapsed now_cpu t | _ \<Rightarrow> t)"
| "throttle_step (Release c) t = (case th_callers t c of Reserved amount \<Rightarrow> drop_reservation c amount t | _ \<Rightarrow> t)"
| "throttle_step (Sample elapsed now_cpu) t =
     t\<lparr>th_window := update_window (last_wall (th_window t) + elapsed) now_cpu (th_window t)\<rparr>"
| "throttle_step InterruptWaits t = t\<lparr>th_interrupted := True\<rparr>"

section \<open>Buckets\<close>

lemma SUB_WINDOW_pos [simp]: "0 < SUB_WINDOW"
  by (simp add: window_consts)

lemma bucket_start_mono: "i \<le> j \<Longrightarrow> bucket_start i \<le> bucket_start j"
  unfolding bucket_start_def by (intro mult_le_mono2 min.mono) simp_all

lemma expiry_mono: "i \<le> j \<Longrightarrow> bucket_expiry i \<le> bucket_expiry j"
  by (simp add: bucket_expiry_def bucket_start_mono)

definition window_ok :: "nat \<Rightarrow> bucket list \<Rightarrow> bool" where
  "window_ok now_wall bs \<longleftrightarrow> sorted_wrt (<) (map fst bs) \<and> (\<forall>(i, cpu)\<in>set bs. i \<le> bucket_index now_wall \<and> 0 \<le> cpu)"

definition recent :: "nat \<Rightarrow> bucket list \<Rightarrow> rat" where
  "recent k bs = total_of (filter (\<lambda>(i, _). k \<le> i) bs)"

lemma recent_0: "recent 0 bs = total_of bs"
  by (simp add: recent_def)

lemma total_nonneg: "\<forall>(i, cpu)\<in>set bs. 0 \<le> cpu \<Longrightarrow> 0 \<le> total_of bs"
  by (fastforce simp: total_of_def intro!: sum_list_nonneg)

lemma recent_nonneg: "window_ok now bs \<Longrightarrow> 0 \<le> recent k bs"
  unfolding recent_def by (rule total_nonneg) (auto simp: window_ok_def)

lemma recent_le_total: "window_ok now bs \<Longrightarrow> recent k bs \<le> total_of bs"
  unfolding window_ok_def recent_def total_of_def by (induction bs) auto

lemma bill_ok:
  assumes "window_ok now bs" "\<forall>(i, _)\<in>set bs. i \<le> index" "index \<le> bucket_index now" "0 \<le> cpu"
  shows "window_ok now (bill index cpu bs) \<and> (\<forall>(i, _)\<in>set (bill index cpu bs). i \<le> index) \<and>
    (k \<le> index \<longrightarrow> recent k (bill index cpu bs) = recent k bs + cpu)"
proof (cases bs rule: rev_cases)
  case Nil
  with assms show ?thesis by (simp add: bill_def window_ok_def recent_def total_of_def)
next
  case (snoc bs' b)
  obtain i0 c0 where b: "b = (i0, c0)" by fastforce
  have before: "\<forall>(i, _)\<in>set bs'. i < i0" using assms(1) snoc b by (force simp: window_ok_def sorted_wrt_append)
  have "i0 \<le> index" using assms(2) snoc b by simp
  with before assms snoc b show ?thesis
    by (cases "i0 = index") (auto simp: bill_def window_ok_def recent_def total_of_def sorted_wrt_append)
qed

lemma bill_share_ok:
  assumes "window_ok now bs" "\<forall>(i, _)\<in>set bs. i \<le> index" "index \<le> bucket_index now"
  shows "window_ok now (bill_share from now used index bs) \<and> (\<forall>(i, _)\<in>set (bill_share from now used index bs). i \<le> index) \<and>
    (k \<le> index \<longrightarrow> recent k (bill_share from now used index bs) = recent k bs +
      of_nat (min (bucket_start (index + 1)) now - max (bucket_start index) from) * (of_nat used / of_nat (now - from)))"
proof (cases "max (bucket_start index) from < min (bucket_start (index + 1)) now")
  case True
  have "0 \<le> of_nat (min (bucket_start (index + 1)) now - max (bucket_start index) from) * (of_nat used / of_nat (now - from) :: rat)"
    by simp
  from bill_ok [OF assms this, of k] True show ?thesis unfolding bill_share_def Let_def if_P [OF True] by blast
next
  case False
  then have "min (bucket_start (index + 1)) now - max (bucket_start index) from = 0" by linarith
  with assms show ?thesis unfolding bill_share_def Let_def if_not_P [OF False] by simp
qed

lemma fold_shares:
  assumes "window_ok now bs" "\<forall>(i, _)\<in>set bs. i \<le> start" "start \<le> n" "n \<le> bucket_index now + 1"
  shows "window_ok now (fold (bill_share from now used) [start..<n] bs) \<and>
    (\<forall>(i, _)\<in>set (fold (bill_share from now used) [start..<n] bs). i \<le> start \<or> i < n) \<and>
    (k \<le> start \<longrightarrow> recent k (fold (bill_share from now used) [start..<n] bs) = recent k bs +
      of_nat (min (bucket_start n) now - max (bucket_start start) from) * (of_nat used / of_nat (now - from)))"
  using assms(3,4)
proof (induction n rule: dec_induct)
  case base
  have "min (bucket_start start) now - max (bucket_start start) from = 0" by simp
  with assms(1,2) show ?case by auto
next
  case (step n)
  let ?bs = "fold (bill_share from now used) [start..<n] bs"
  let ?rate = "of_nat used / of_nat (now - from) :: rat"
  have ih: "window_ok now ?bs" "\<forall>(i, _)\<in>set ?bs. i \<le> n"
    "k \<le> start \<Longrightarrow> recent k ?bs = recent k bs + of_nat (min (bucket_start n) now - max (bucket_start start) from) * ?rate"
    using step by auto
  have starts: "bucket_start start \<le> bucket_start n" "bucket_start n \<le> bucket_start (Suc n)"
    using step(1) by (simp_all add: bucket_start_mono)
  then have "min (bucket_start (Suc n)) now - max (bucket_start start) from =
      (min (bucket_start n) now - max (bucket_start start) from) + (min (bucket_start (Suc n)) now - max (bucket_start n) from)"
    by (simp add: min_def max_def)
  then have cover: "(of_nat (min (bucket_start (Suc n)) now - max (bucket_start start) from) :: rat) =
      of_nat (min (bucket_start n) now - max (bucket_start start) from) + of_nat (min (bucket_start (Suc n)) now - max (bucket_start n) from)"
    by (metis of_nat_add)
  have "n \<le> bucket_index now" using step by simp
  from bill_share_ok [OF ih(1,2) this, of "from" used k] show ?case
    using step(1) ih(3)
    by (auto simp: cover distrib_right add.assoc le_less_trans simp del: of_nat_add times_divide_eq_right times_divide_eq_left)
qed

lemma charge_ok:
  assumes "window_ok from bs" "from \<le> now"
  shows "window_ok now (charge from now used bs)" "total_of (charge from now used bs) \<le> total_of bs + of_nat used"
    "k \<le> bucket_index from \<Longrightarrow> now - from \<le> WINDOW + SUB_WINDOW \<Longrightarrow> bucket_index now < 2 ^ 32 - 1 \<Longrightarrow>
       recent k (charge from now used bs) = recent k bs + of_nat used"
proof -
  have index: "bucket_index from \<le> bucket_index now" using assms(2) by (simp add: bucket_index_def div_le_mono)
  have ok: "window_ok now bs" and idx: "\<forall>(i, _)\<in>set bs. i \<le> bucket_index from"
    using assms(1) index by (auto simp: window_ok_def)
  then have idx': "\<forall>(i, _)\<in>set bs. i \<le> bucket_index now" using index by auto
  define start where "start = bucket_index (max from (now - (WINDOW + SUB_WINDOW)))"
  have starts: "bucket_index from \<le> start" "start \<le> bucket_index now + 1"
    using div_le_mono [of "from" "max from (now - (WINDOW + SUB_WINDOW))" SUB_WINDOW]
      div_le_mono [of "max from (now - (WINDOW + SUB_WINDOW))" now SUB_WINDOW] assms(2)
    by (simp_all add: start_def bucket_index_def le_SucI)
  have before: "\<forall>(i, _)\<in>set bs. i \<le> start" using idx starts(1) by auto
  let ?rate = "of_nat used / of_nat (now - from) :: rat"
  note shares = fold_shares [OF ok before starts(2) order_refl, of "from" used]
  have whole: "of_nat (now - from) * ?rate = of_nat used" if "from \<noteq> now" using that assms(2) by simp
  have all: "window_ok now (charge from now used bs) \<and> total_of (charge from now used bs) \<le> total_of bs + of_nat used"
  proof (cases "now = from \<or> used = 0")
    case True
    with bill_ok [OF ok idx' order_refl, of "of_nat used" 0] show ?thesis by (simp add: charge_def recent_0)
  next
    case False
    let ?n = "min (bucket_start (bucket_index now + 1)) now - max (bucket_start start) from"
    have "?n \<le> now - from" by linarith
    then have "(of_nat ?n :: rat) * ?rate \<le> of_nat (now - from) * ?rate" by (intro mult_right_mono) simp_all
    also have "\<dots> = of_nat used" using whole False by blast
    finally show ?thesis using shares [of 0] unfolding charge_def if_not_P [OF False] Let_def start_def [symmetric] recent_0 by simp
  qed
  then show "window_ok now (charge from now used bs)" "total_of (charge from now used bs) \<le> total_of bs + of_nat used" by blast+
  show "recent k (charge from now used bs) = recent k bs + of_nat used"
    if "k \<le> bucket_index from" "now - from \<le> WINDOW + SUB_WINDOW" "bucket_index now < 2 ^ 32 - 1"
  proof (cases "now = from \<or> used = 0")
    case True
    with bill_ok [OF ok idx' order_refl, of "of_nat used" k] that(1) index show ?thesis by (simp add: charge_def)
  next
    case False
    have "now - (WINDOW + SUB_WINDOW) \<le> from" using that(2) by linarith
    then have "start = bucket_index from" by (simp add: start_def max_absorb1)
    moreover have "bucket_start (bucket_index from) \<le> SUB_WINDOW * bucket_index from"
      unfolding bucket_start_def by (intro mult_le_mono2 min.cobounded1)
    then have "bucket_start (bucket_index from) \<le> from" unfolding bucket_index_def by (rule order_trans) simp
    moreover have "now < SUB_WINDOW * (bucket_index now + 1)"
      by (simp add: bucket_index_def dividend_less_times_div)
    then have "now < bucket_start (bucket_index now + 1)" using that(3) by (simp add: bucket_start_def)
    ultimately have "min (bucket_start (bucket_index now + 1)) now - max (bucket_start start) from = now - from" by simp
    with shares [of k] False that(1) starts whole show ?thesis
      unfolding charge_def if_not_P [OF False] Let_def start_def [symmetric] by simp
  qed
qed

lemma expire_filter: "sorted_wrt (<) (map fst bs) \<Longrightarrow> expire now bs = filter (\<lambda>(i, _). now < bucket_expiry i) bs"
proof (induction bs)
  case (Cons b bs)
  have "now < bucket_expiry i" if "(i, c) \<in> set bs" "now < bucket_expiry (fst b)" for i c
  proof -
    have "fst b < i" using Cons.prems that(1) by force
    then show ?thesis using expiry_mono [of "fst b" i] that(2) by linarith
  qed
  then have "now < bucket_expiry (fst b) \<Longrightarrow> filter (\<lambda>(i, _). now < bucket_expiry i) bs = bs" by (auto simp: filter_id_conv)
  with Cons show ?case by (cases b) (auto simp: expire_def)
qed (simp add: expire_def)

definition fresh_buckets :: "nat \<Rightarrow> bucket list \<Rightarrow> bool" where
  "fresh_buckets now bs \<longleftrightarrow> (\<forall>(i, _)\<in>set bs. now < bucket_expiry i)"

lemma expire_ok:
  assumes "window_ok now bs"
  shows "window_ok now (expire now bs)" "fresh_buckets now (expire now bs)" "total_of (expire now bs) \<le> total_of bs"
    "now < bucket_expiry k \<Longrightarrow> recent k (expire now bs) = recent k bs"
proof -
  have e: "expire now bs = filter (\<lambda>(i, _). now < bucket_expiry i) bs" using assms by (simp add: window_ok_def expire_filter)
  show "window_ok now (expire now bs)" "fresh_buckets now (expire now bs)"
    using assms by (auto simp: e window_ok_def fresh_buckets_def sorted_wrt_map sorted_wrt_filter)
  have "total_of (filter P bs) \<le> total_of bs" if "\<forall>(i, c)\<in>set bs. 0 \<le> c" for P :: "bucket \<Rightarrow> bool"
    using that unfolding total_of_def by (induction bs) auto
  then show "total_of (expire now bs) \<le> total_of bs" using assms by (simp add: e window_ok_def case_prod_unfold)
  have "k \<le> i \<Longrightarrow> now < bucket_expiry k \<Longrightarrow> now < bucket_expiry i" for i using expiry_mono [of k i] by linarith
  then have "now < bucket_expiry k \<Longrightarrow> filter (\<lambda>(i, _). k \<le> i) (expire now bs) = filter (\<lambda>(i, _). k \<le> i) bs"
    unfolding e filter_filter by (intro filter_cong) auto
  then show "now < bucket_expiry k \<Longrightarrow> recent k (expire now bs) = recent k bs" by (simp add: recent_def)
qed

text \<open>The invariant of the window: its buckets are in order, inside the window, and bill no more than was used.\<close>

definition billed_ok :: "cpu_window \<Rightarrow> bool" where
  "billed_ok w \<longleftrightarrow> window_ok (last_wall w) (buckets w) \<and> fresh_buckets (last_wall w) (buckets w) \<and>
     window_total w \<le> of_nat (last_cpu w)"

lemma update_window_ok:
  assumes "billed_ok w" "last_wall w \<le> now"
  shows "billed_ok (update_window now cpu w)"
    "k \<le> bucket_index (last_wall w) \<Longrightarrow> now < bucket_expiry k \<Longrightarrow> now - last_wall w \<le> WINDOW + SUB_WINDOW \<Longrightarrow>
       bucket_index now < 2 ^ 32 - 1 \<Longrightarrow>
       recent k (buckets (update_window now cpu w)) = recent k (buckets w) + of_nat (cpu - last_cpu w)"
proof -
  have ok: "window_ok (last_wall w) (buckets w)" using assms(1) by (simp add: billed_ok_def)
  have low: "min (last_wall w) now = last_wall w" using assms(2) by simp
  note charged = charge_ok [OF ok assms(2), where used = "cpu - last_cpu w"]
  note expired = expire_ok [OF charged(1)]
  have "(of_nat (last_cpu w) + of_nat (cpu - last_cpu w) :: rat) = of_nat (max (last_cpu w) cpu)"
    by (simp flip: of_nat_add)
  with expired(1-3) charged(2) assms(1) show "billed_ok (update_window now cpu w)"
    by (simp add: billed_ok_def update_window_def low window_total_def)
  show "recent k (buckets (update_window now cpu w)) = recent k (buckets w) + of_nat (cpu - last_cpu w)"
    if "k \<le> bucket_index (last_wall w)" "now < bucket_expiry k" "now - last_wall w \<le> WINDOW + SUB_WINDOW"
      "bucket_index now < 2 ^ 32 - 1"
    using expired(4) [OF that(2)] charged(3) [OF that(1,3,4)] by (simp add: update_window_def low)
qed

lemma bucket_count:
  assumes "billed_ok w"
  shows "length (buckets w) \<le> 19"
proof -
  let ?cur = "bucket_index (last_wall w)"
  have "fst ` set (buckets w) \<subseteq> {?cur - 18..?cur}"
  proof
    fix i
    assume "i \<in> fst ` set (buckets w)"
    then have i: "i \<le> ?cur" "last_wall w < bucket_expiry i" using assms by (auto simp: billed_ok_def window_ok_def fresh_buckets_def)
    have "bucket_expiry i \<le> SUB_WINDOW * (i + 1 + 18)" by (simp add: bucket_expiry_def bucket_start_def window_consts)
    with i(2) have "last_wall w < SUB_WINDOW * (i + 19)" by (simp add: ac_simps)
    then have "?cur < i + 19" by (simp add: bucket_index_def div_less_iff_less_mult mult.commute)
    with i(1) show "i \<in> {?cur - 18..?cur}" by simp
  qed
  then have "card (fst ` set (buckets w)) \<le> card {?cur - 18..?cur}" by (intro card_mono) auto
  also have "\<dots> \<le> 19" by simp
  finally have "card (set (map fst (buckets w))) \<le> 19" by simp
  moreover have "distinct (map fst (buckets w))" using assms by (auto simp: billed_ok_def window_ok_def strict_sorted_iff)
  ultimately show ?thesis using distinct_card [of "map fst (buckets w)"] by simp
qed

section \<open>The wait\<close>

lemma wait_loop_least:
  assumes "sorted_wrt (<) (map fst bs)" "\<forall>(i, c)\<in>set bs. 0 \<le> c \<and> now < bucket_expiry i" "of_nat budget < total_of bs"
  shows "total_of (expire (now + wait_loop budget now (total_of bs) bs) bs) \<le> of_nat budget \<and>
    0 < wait_loop budget now (total_of bs) bs \<and>
    (\<forall>t < wait_loop budget now (total_of bs) bs. of_nat budget < total_of (expire (now + t) bs))"
  using assms
proof (induction bs)
  case Nil
  then show ?case by (simp add: total_of_def)
next
  case (Cons b bs)
  obtain i c where b: "b = (i, c)" by fastforce
  have rest: "total_of (b # bs) = c + total_of bs" by (simp add: total_of_def b)
  have tail: "sorted_wrt (<) (map fst bs)" "\<forall>(i, c)\<in>set bs. 0 \<le> c \<and> now < bucket_expiry i" using Cons.prems by auto
  have nonneg: "0 \<le> total_of bs" by (rule total_nonneg) (use tail(2) in auto)
  have unexpired: "now < bucket_expiry i" using Cons.prems(2) b by simp
  have drop: "total_of (expire t (b # bs)) = (if bucket_expiry i \<le> t then total_of (expire t bs) else c + total_of bs)" for t
    by (simp add: expire_def b rest total_of_def)
  have remaining: "max 0 (total_of (b # bs) - c) = total_of bs" using nonneg rest by simp
  show ?case
  proof (cases "total_of bs \<le> of_nat budget")
    case True
    with Cons.prems(3) remaining have w: "wait_loop budget now (total_of (b # bs)) (b # bs) = bucket_expiry i - now"
      by (simp add: b)
    have "total_of (expire (bucket_expiry i) bs) \<le> total_of bs"
    proof -
      have "total_of (dropWhile P bs) \<le> total_of bs" for P :: "bucket \<Rightarrow> bool"
        using tail(2) unfolding total_of_def by (induction bs) (auto intro: order_trans)
      then show ?thesis by (simp add: expire_def)
    qed
    with True unexpired Cons.prems(3) show ?thesis by (auto simp: w [unfolded rest] drop rest)
  next
    case False
    with Cons.prems(3) remaining have w: "wait_loop budget now (total_of (b # bs)) (b # bs) = wait_loop budget now (total_of bs) bs"
      by (simp add: b)
    from False Cons.IH [OF tail] have ih: "total_of (expire (now + wait_loop budget now (total_of bs) bs) bs) \<le> of_nat budget"
      "0 < wait_loop budget now (total_of bs) bs"
      "\<And>t. t < wait_loop budget now (total_of bs) bs \<Longrightarrow> of_nat budget < total_of (expire (now + t) bs)" by auto
    have "bucket_expiry i \<le> now + wait_loop budget now (total_of bs) bs"
    proof (rule ccontr)
      assume early: "\<not> ?thesis"
      have "expire (now + wait_loop budget now (total_of bs) bs) bs = bs"
      proof (cases bs)
        case (Cons b' bs')
        then have "i < fst b'" using \<open>sorted_wrt (<) (map fst (b # bs))\<close> b by simp
        then have "bucket_expiry i \<le> bucket_expiry (fst b')" by (intro expiry_mono) simp
        with early Cons show ?thesis by (cases b') (simp add: expire_def)
      qed (simp add: expire_def)
      with ih(1) False show False by simp
    qed
    with ih Cons.prems(3) show ?thesis by (auto simp: w [unfolded rest] drop rest)
  qed
qed

lemma wait_until_within_least:
  assumes "billed_ok w" "of_nat budget < window_total w"
  shows "total_of (expire (last_wall w + wait_until_within budget (last_wall w) w) (buckets w)) \<le> of_nat budget \<and>
    0 < wait_until_within budget (last_wall w) w \<and>
    (\<forall>t < wait_until_within budget (last_wall w) w. of_nat budget < total_of (expire (last_wall w + t) (buckets w)))"
  unfolding wait_until_within_def window_total_def
  by (rule wait_loop_least) (use assms in \<open>auto simp: billed_ok_def window_ok_def fresh_buckets_def window_total_def\<close>)

section \<open>Every run\<close>

text \<open>What an event does to the measured part of the window: nothing, or one measurement.\<close>

definition measured :: "cpu_window \<Rightarrow> nat \<times> nat \<times> bucket list" where
  "measured w = (last_wall w, last_cpu w, buckets w)"

lemma measured_simps [simp]:
  "measured (w\<lparr>claimed := x\<rparr>) = measured w" "measured (w\<lparr>saturated := b\<rparr>) = measured w"
  "measured (w\<lparr>last_log := l\<rparr>) = measured w" "measured (w\<lparr>notice_until := l\<rparr>) = measured w"
  by (simp_all add: measured_def)

lemma measured_helpers [simp]:
  "measured (claim_now claim w) = measured w" "measured (note_log now w) = measured w"
  "measured (announce_long_wait now wait w) = measured w"
  by (simp_all add: claim_now_def note_log_def announce_long_wait_def)

lemma billed_ok_cong: "measured w = measured w' \<Longrightarrow> billed_ok w = billed_ok w'"
  by (simp add: measured_def billed_ok_def window_total_def)

lemma measured_turn: "wait_turn target limit claim slept now cpu w = (w', r) \<Longrightarrow> measured w' = measured (update_window now cpu w)"
  by (auto simp: wait_turn_def Let_def split: if_splits)

lemma measured_step:
  "measured (th_window (throttle_step e t)) = measured (th_window t) \<or>
   (\<exists>elapsed cpu. measured (th_window (throttle_step e t)) =
      measured (update_window (last_wall (th_window t) + elapsed) cpu (th_window t)))"
proof (cases e)
  case (Turn c cancelled elapsed cpu)
  then show ?thesis
    by (auto simp: wait_within_def Let_def split: caller.split prod.split turn_outcome.split dest!: measured_turn)
qed (auto simp: check_with_cancel_def reserve_write_headroom_def drop_reservation_def split: option.split caller.split)

text \<open>The callers: limits come from the target, sleeping is bounded, and the claims are the reservations held.\<close>

definition reserved :: "throttle \<Rightarrow> nat set" where
  "reserved t = {c. th_callers t c = Reserved WRITE_RESERVE}"

fun caller_ok :: "nat option \<Rightarrow> caller \<Rightarrow> bool" where
  "caller_ok target Away = True"
| "caller_ok target (Waiting limit claim slept) =
     (slept \<le> MAX_WAIT_PER_CHECK \<and> target \<noteq> None \<and> limit = (if claim then the target - WRITE_RESERVE else the target))"
| "caller_ok target (Reserved amount) = (amount = 0 \<or> amount = WRITE_RESERVE)"

definition callers_ok :: "throttle \<Rightarrow> bool" where
  "callers_ok t \<longleftrightarrow> finite (reserved t) \<and> claimed (th_window t) = WRITE_RESERVE * card (reserved t) \<and>
     (\<forall>c. caller_ok (th_target t) (th_callers t c))"

definition throttle_inv :: "throttle \<Rightarrow> bool" where
  "throttle_inv t \<longleftrightarrow> billed_ok (th_window t) \<and> callers_ok t"

lemma WRITE_RESERVE_pos [simp]: "0 < WRITE_RESERVE" "WRITE_RESERVE \<noteq> 0"
  by (simp_all add: WRITE_RESERVE_def seconds_def)

lemma claimed_simps [simp]: "claimed (update_window now cpu w) = claimed w" "claimed (note_log now w) = claimed w"
  "claimed (announce_long_wait now wait w) = claimed w"
  "claimed (claim_now claim w) = claimed w + (if claim then WRITE_RESERVE else 0)"
  by (simp_all add: update_window_def note_log_def announce_long_wait_def claim_now_def)

lemma claimed_turn:
  "wait_turn target limit claim slept now cpu w = (w', r) \<Longrightarrow>
     claimed w' = claimed w + (if claim \<and> r = Proceed then WRITE_RESERVE else 0)"
  by (auto simp: wait_turn_def Let_def split: if_splits)

lemma nap_bound: "wait_turn target limit claim slept now cpu w = (w', Nap nap) \<Longrightarrow> 0 < nap \<and> nap \<le> MAX_WAIT_PER_CHECK - slept"
  by (auto simp: wait_turn_def Let_def split: if_splits)

text \<open>A caller moves: what that does to the reservations.\<close>

lemma reserved_update:
  "reserved (t\<lparr>th_window := w, th_callers := (th_callers t)(c := l)\<rparr>) =
     (if l = Reserved WRITE_RESERVE then insert c (reserved t) else reserved t - {c})"
  by (auto simp: reserved_def)

lemma callers_ok_move:
  assumes "callers_ok t" "c \<notin> reserved t" "caller_ok (th_target t) l"
    and "claimed w = claimed (th_window t) + (if l = Reserved WRITE_RESERVE then WRITE_RESERVE else 0)"
  shows "callers_ok (t\<lparr>th_window := w, th_callers := (th_callers t)(c := l)\<rparr>)"
proof (cases "l = Reserved WRITE_RESERVE")
  case True
  with assms show ?thesis by (simp add: callers_ok_def reserved_update)
next
  case False
  moreover have "reserved t - {c} = reserved t" using assms(2) by blast
  ultimately show ?thesis using assms by (simp add: callers_ok_def reserved_update)
qed

lemma callers_ok_window: "callers_ok t \<Longrightarrow> claimed w = claimed (th_window t) \<Longrightarrow> callers_ok (t\<lparr>th_window := w\<rparr>)"
  by (simp add: callers_ok_def reserved_def)

lemma leaves_ok [simp]: "caller_ok target (leaves claim)" "leaves claim = Reserved WRITE_RESERVE \<longleftrightarrow> claim"
  by (simp_all add: leaves_def)

lemma callers_ok_turn:
  assumes "callers_ok t" "th_callers t c = Waiting limit claim slept"
  shows "callers_ok (wait_within c limit claim slept cancelled elapsed cpu t)"
proof -
  have out: "c \<notin> reserved t" using assms(2) by (simp add: reserved_def)
  have ok: "caller_ok (th_target t) (Waiting limit claim slept)" using assms unfolding callers_ok_def by metis
  let ?turn = "wait_turn (th_target t) limit claim slept (last_wall (th_window t) + elapsed) cpu (th_window t)"
  obtain w' r where turn: "?turn = (w', r)" by fastforce
  have early: "callers_ok (t\<lparr>th_window := claim_now claim w, th_callers := (th_callers t)(c := leaves claim)\<rparr>)"
    if "claimed w = claimed (th_window t)" for w
    using that by (intro callers_ok_move assms(1) out) (simp_all add: claim_now_def)
  consider "MAX_WAIT_PER_CHECK \<le> slept" | "slept < MAX_WAIT_PER_CHECK" "th_interrupted t \<or> cancelled"
    | "slept < MAX_WAIT_PER_CHECK" "\<not> (th_interrupted t \<or> cancelled)" by linarith
  then show ?thesis
  proof cases
    case 1
    with early [of "(th_window t)\<lparr>saturated := True\<rparr>"] show ?thesis by (simp add: wait_within_def)
  next
    case 2
    with early [of "th_window t"] show ?thesis by (simp add: wait_within_def)
  next
    case 3
    show ?thesis
    proof (cases r)
      case Proceed
      have "callers_ok (t\<lparr>th_window := w', th_callers := (th_callers t)(c := leaves claim)\<rparr>)"
        using claimed_turn [OF turn] Proceed by (intro callers_ok_move assms(1) out) simp_all
      with 3 turn Proceed show ?thesis by (simp add: wait_within_def Let_def)
    next
      case (Nap nap)
      have "slept + nap \<le> MAX_WAIT_PER_CHECK" using nap_bound [OF turn [unfolded Nap]] 3(1) by linarith
      then have "callers_ok (t\<lparr>th_window := w', th_callers := (th_callers t)(c := Waiting limit claim (slept + nap))\<rparr>)"
        using claimed_turn [OF turn] Nap ok by (intro callers_ok_move assms(1) out) simp_all
      with 3 turn Nap show ?thesis by (simp add: wait_within_def Let_def)
    qed
  qed
qed

lemma callers_ok_release:
  assumes "callers_ok t" "th_callers t c = Reserved amount"
  shows "callers_ok (drop_reservation c amount t)"
proof -
  have "caller_ok (th_target t) (Reserved amount)" using assms unfolding callers_ok_def by metis
  then have amount: "amount = 0 \<or> amount = WRITE_RESERVE" by simp
  have card: "card (reserved t - {c}) = card (reserved t) - 1" "0 < card (reserved t)" if "c \<in> reserved t"
    using that assms(1) by (auto simp: callers_ok_def card_gt_0_iff)
  have left: "reserved (drop_reservation c amount t) = reserved t - {c}" by (auto simp: reserved_def drop_reservation_def)
  have "claimed (th_window (drop_reservation c amount t)) = WRITE_RESERVE * card (reserved t - {c})"
  proof (cases "amount = 0")
    case True
    then have "reserved t - {c} = reserved t" using assms(2) by (auto simp: reserved_def)
    with True assms(1) show ?thesis by (simp add: drop_reservation_def callers_ok_def)
  next
    case False
    then have "c \<in> reserved t" using assms(2) amount by (simp add: reserved_def)
    with False amount assms(1) card show ?thesis
      by (simp add: drop_reservation_def callers_ok_def diff_mult_distrib2)
  qed
  moreover have "caller_ok (th_target (drop_reservation c amount t)) (th_callers (drop_reservation c amount t) d)" for d
    using assms(1) by (simp add: drop_reservation_def callers_ok_def)
  ultimately show ?thesis using assms(1) by (simp add: callers_ok_def left)
qed

lemma callers_ok_start:
  assumes "callers_ok t" "th_callers t c = Away"
  shows "callers_ok (check_with_cancel c t)" "callers_ok (reserve_write_headroom c t)"
proof -
  have out: "c \<notin> reserved t" using assms(2) by (simp add: reserved_def)
  have move: "callers_ok (t\<lparr>th_callers := (th_callers t)(c := l)\<rparr>)" if "caller_ok (th_target t) l" "l \<noteq> Reserved WRITE_RESERVE" for l
    using callers_ok_move [OF assms(1) out that(1), of "th_window t"] that(2) by simp
  show "callers_ok (check_with_cancel c t)" using move assms(1) by (simp add: check_with_cancel_def split: option.split)
  show "callers_ok (reserve_write_headroom c t)" using move by (simp add: reserve_write_headroom_def split: option.split)
qed

lemma callers_ok_step: "callers_ok t \<Longrightarrow> callers_ok (throttle_step e t)"
proof (cases e)
  case (Sample elapsed cpu)
  then show "callers_ok t \<Longrightarrow> ?thesis" by (simp add: callers_ok_window)
next
  case InterruptWaits
  then show "callers_ok t \<Longrightarrow> ?thesis" by (simp add: callers_ok_def reserved_def)
qed (auto intro: callers_ok_start callers_ok_turn callers_ok_release split: caller.split)

lemma billed_ok_step: "billed_ok (th_window t) \<Longrightarrow> billed_ok (th_window (throttle_step e t))"
proof -
  assume ok: "billed_ok (th_window t)"
  have "billed_ok (update_window (last_wall (th_window t) + elapsed) cpu (th_window t))" for elapsed cpu
    by (rule update_window_ok(1) [OF ok]) simp
  with ok measured_step [of e t] show ?thesis by (metis billed_ok_cong)
qed

lemma throttle_step_inv: "throttle_inv t \<Longrightarrow> throttle_inv (throttle_step e t)"
  by (simp add: throttle_inv_def billed_ok_step callers_ok_step)

interpretation throttle_runs: step_system throttle_step throttle_inv
  by unfold_locales (rule throttle_step_inv)

lemma new_throttle_inv: "throttle_inv (new_throttle target start)"
  by (simp add: throttle_inv_def new_throttle_def new_window_def billed_ok_def window_ok_def fresh_buckets_def window_total_def
      total_of_def callers_ok_def reserved_def)

definition run_throttle :: "nat option \<Rightarrow> nat \<Rightarrow> throttle_event list \<Rightarrow> throttle" where
  "run_throttle target start es = fold throttle_step es (new_throttle target start)"

lemma run_throttle_inv: "throttle_inv (run_throttle target start es)"
  unfolding run_throttle_def by (rule throttle_runs.run_inv) (rule new_throttle_inv)

lemma run_throttle_append: "run_throttle target start (es @ es') = fold throttle_step es' (run_throttle target start es)"
  by (simp add: run_throttle_def)

lemma window_moves:
  assumes "billed_ok (th_window t)" "w = th_window t" "w' = th_window (throttle_step e t)"
  shows "last_wall w \<le> last_wall w' \<and> last_cpu w \<le> last_cpu w' \<and>
    (k \<le> bucket_index (last_wall w) \<longrightarrow> last_wall w' < bucket_expiry k \<longrightarrow> last_wall w' - last_wall w \<le> WINDOW \<longrightarrow>
       bucket_index (last_wall w') < 2 ^ 32 - 1 \<longrightarrow>
       recent k (buckets w') = recent k (buckets w) + of_nat (last_cpu w' - last_cpu w))"
proof (cases "measured w' = measured w")
  case True
  then show ?thesis by (simp add: measured_def)
next
  case False
  then obtain elapsed cpu where m: "measured w' = measured (update_window (last_wall w + elapsed) cpu w)"
    using measured_step [of e t] assms(2,3) by blast
  then have f: "last_wall w' = last_wall w + elapsed" "last_cpu w' = max (last_cpu w) cpu"
    "buckets w' = buckets (update_window (last_wall w + elapsed) cpu w)"
    by (simp_all add: measured_def update_window_def)
  have "max (last_cpu w) cpu - last_cpu w = cpu - last_cpu w" by simp
  with f update_window_ok(2) [of w "last_wall w + elapsed" k cpu] assms(1,2) show ?thesis by simp
qed

lemma run_conservative:
  assumes "throttle_inv t" "t' = fold throttle_step es t"
    and "last_wall (th_window t') \<le> last_wall (th_window t) + WINDOW" "bucket_index (last_wall (th_window t')) < 2 ^ 32 - 1"
  shows "last_wall (th_window t) \<le> last_wall (th_window t') \<and> last_cpu (th_window t) \<le> last_cpu (th_window t') \<and>
    of_nat (last_cpu (th_window t') - last_cpu (th_window t)) \<le> recent (bucket_index (last_wall (th_window t))) (buckets (th_window t'))"
  using assms(2-4)
proof (induction es arbitrary: t' rule: rev_induct)
  case Nil
  then show ?case using assms(1) by (auto simp: throttle_inv_def billed_ok_def intro: recent_nonneg)
next
  case (snoc e es)
  let ?k = "bucket_index (last_wall (th_window t))"
  define m where "m = fold throttle_step es t"
  have inv: "throttle_inv m" unfolding m_def by (rule throttle_runs.run_inv [OF assms(1)])
  have t': "t' = throttle_step e m" using snoc.prems(1) by (simp add: m_def)
  note move = window_moves [of m "th_window m" "th_window t'" e ?k, OF _ refl]
  have mono: "last_wall (th_window m) \<le> last_wall (th_window t')" "last_cpu (th_window m) \<le> last_cpu (th_window t')"
    using move inv t' by (simp_all add: throttle_inv_def)
  have "bucket_index (last_wall (th_window m)) < 2 ^ 32 - 1"
    using snoc.prems(3) div_le_mono [OF mono(1), of SUB_WINDOW] by (simp add: bucket_index_def)
  with snoc.IH [OF m_def] snoc.prems(2) mono(1) have ih: "last_wall (th_window t) \<le> last_wall (th_window m)"
    "last_cpu (th_window t) \<le> last_cpu (th_window m)"
    "of_nat (last_cpu (th_window m) - last_cpu (th_window t)) \<le> recent ?k (buckets (th_window m))" by auto
  have k: "?k \<le> bucket_index (last_wall (th_window m))" using ih(1) by (simp add: bucket_index_def div_le_mono)
  have "last_wall (th_window t) < SUB_WINDOW * (?k + 1)" by (simp add: bucket_index_def dividend_less_times_div)
  moreover have "?k + 1 \<le> 2 ^ 32 - 1"
    using snoc.prems(3) div_le_mono [OF order_trans [OF ih(1) mono(1)], of SUB_WINDOW] by (simp add: bucket_index_def)
  ultimately have "last_wall (th_window t') < bucket_expiry ?k"
    using snoc.prems(2) by (simp add: bucket_expiry_def bucket_start_def)
  moreover have "last_wall (th_window t') - last_wall (th_window m) \<le> WINDOW" using snoc.prems(2) ih(1) by linarith
  ultimately have "recent ?k (buckets (th_window t')) =
      recent ?k (buckets (th_window m)) + of_nat (last_cpu (th_window t') - last_cpu (th_window m))"
    using move inv t' k snoc.prems(3) by (simp add: throttle_inv_def)
  moreover have "(of_nat (last_cpu (th_window t') - last_cpu (th_window t)) :: rat) =
      of_nat (last_cpu (th_window m) - last_cpu (th_window t)) + of_nat (last_cpu (th_window t') - last_cpu (th_window m))"
    using ih(2) mono(2) by (simp flip: of_nat_add)
  ultimately show ?case using ih mono by simp
qed

section \<open>Properties\<close>

text \<open>
  C13. The window forgives no CPU and bills none twice: whatever the callers and the sampler do, its total is
  at least the CPU time that was used since any earlier measurement at most 180 seconds ago, and at most
  the CPU time the process ever used. The wall clock is below the 1361 years after which bucket numbers
  no longer fit their 32 bits.
\<close>

theorem window_is_conservative:
  assumes "w = th_window (run_throttle target start es)" and "w' = th_window (run_throttle target start (es @ es'))"
    and "last_wall w' \<le> last_wall w + WINDOW" and "last_wall w' < SUB_WINDOW * (2 ^ 32 - 1)"
  shows "of_nat (last_cpu w' - last_cpu w) \<le> window_total w' \<and> window_total w' \<le> of_nat (last_cpu w')"
proof -
  have inv: "throttle_inv (run_throttle target start (es @ es'))" by (rule run_throttle_inv)
  have "bucket_index (last_wall w') < 2 ^ 32 - 1" using assms(4) by (simp add: bucket_index_def div_less_iff_less_mult mult.commute)
  with run_conservative [OF run_throttle_inv [of target start es] run_throttle_append [of target start es es']] assms(3)
  have "of_nat (last_cpu w' - last_cpu w) \<le> recent (bucket_index (last_wall w)) (buckets w')"
    unfolding assms(1,2) by blast
  also have "\<dots> \<le> window_total w'"
    using inv assms(2) by (auto simp: throttle_inv_def billed_ok_def window_total_def intro: recent_le_total)
  finally show ?thesis using inv assms(2) by (simp add: throttle_inv_def billed_ok_def)
qed

text \<open>
  The wait a worker computes is the least one: when no more CPU is used, the window is within the budget
  after that time, and at no earlier moment.
\<close>

theorem wait_is_least:
  assumes "w = th_window (run_throttle target start es)" and "of_nat budget < window_total w"
  shows "total_of (expire (last_wall w + wait_until_within budget (last_wall w) w) (buckets w)) \<le> of_nat budget \<and>
    (\<forall>t < wait_until_within budget (last_wall w) w. of_nat budget < total_of (expire (last_wall w + t) (buckets w)))"
proof -
  have "billed_ok w" using run_throttle_inv assms(1) by (simp add: throttle_inv_def)
  from wait_until_within_least [OF this assms(2)] show ?thesis by blast
qed

text \<open>
  C23. In every interleaving the claimed reserve is exactly that of the reservations held, so each claim is
  released once; no caller sleeps for more than 190 seconds; and the window keeps at most 19 buckets.
\<close>

theorem reservations_balance:
  "claimed (th_window (run_throttle target start es)) =
     WRITE_RESERVE * card {c. th_callers (run_throttle target start es) c = Reserved WRITE_RESERVE} \<and>
   {c. \<exists>limit claim slept. th_callers (run_throttle target start es) c = Waiting limit claim slept \<and> MAX_WAIT_PER_CHECK < slept} = {} \<and>
   length (buckets (th_window (run_throttle target start es))) \<le> 19"
proof -
  have inv: "throttle_inv (run_throttle target start es)" by (rule run_throttle_inv)
  then have "caller_ok (th_target (run_throttle target start es)) (th_callers (run_throttle target start es) c)" for c
    by (simp add: throttle_inv_def callers_ok_def)
  then have "\<not> (th_callers (run_throttle target start es) c = Waiting limit claim slept \<and> MAX_WAIT_PER_CHECK < slept)" for c limit claim slept
    by (metis caller_ok.simps(2) not_less)
  with inv bucket_count show ?thesis by (auto simp: throttle_inv_def callers_ok_def reserved_def)
qed

text \<open>
  A caller whose wait ends by its own turn - not cancelled, not timed out, the window not saturated by
  outside CPU - leaves within the budget, and a caller that took a reservation leaves room for it: the
  window's total and all claims together fit the budget (unless the window is empty).
\<close>

lemma wait_turn_proceeds:
  assumes "wait_turn (Some budget) limit claim slept now cpu w = (w', Proceed)" "\<not> saturated w'" "slept < MAX_WAIT_PER_CHECK"
    and "billed_ok w" "last_wall w \<le> now"
  shows "window_total w' \<le> of_nat (if claim then limit - claimed w else limit) \<and> claimed w' = claimed w + (if claim then WRITE_RESERVE else 0)"
proof -
  let ?u = "update_window now cpu w" and ?limit = "if claim then limit - claimed w else limit"
  have ok: "billed_ok ?u" and now: "last_wall ?u = now" using update_window_ok(1) [OF assms(4,5)] by (auto simp: update_window_def)
  have total: "window_total w' = window_total ?u" using measured_turn [OF assms(1)] by (simp add: measured_def window_total_def)
  have "window_total ?u \<le> of_nat ?limit"
  proof (rule ccontr)
    assume over: "\<not> window_total ?u \<le> of_nat ?limit"
    define w1 where "w1 = (if saturated ?u \<and> window_total ?u \<le> of_nat budget then ?u\<lparr>saturated := False\<rparr> else ?u)"
    have m1: "measured w1 = measured ?u" by (simp add: w1_def)
    have "0 < wait_until_within ?limit (last_wall (note_log now w1)) (note_log now w1)"
    proof (rule wait_until_within_least [THEN conjunct2, THEN conjunct1])
      show "billed_ok (note_log now w1)" using ok m1 billed_ok_cong [of "note_log now w1" ?u] by simp
      have "window_total (note_log now w1) = window_total ?u" using m1 measured_helpers(2) [of now w1] unfolding measured_def window_total_def by simp
      then show "of_nat ?limit < window_total (note_log now w1)" using over by simp
    qed
    moreover have "last_wall (note_log now w1) = now" using m1 measured_helpers(2) [of now w1] now unfolding measured_def by simp
    ultimately have least: "0 < wait_until_within ?limit now (note_log now w1)" by simp
    have "0 < MAX_SLEEP" by (simp add: MAX_SLEEP_def millis_def)
    with least assms(1,3) over have "saturated w1" "w' = claim_now claim w1"
      unfolding wait_turn_def Let_def w1_def [symmetric] claimed_simps option.simps by (auto split: if_splits)
    with assms(2) show False by (simp add: claim_now_def split: if_splits)
  qed
  with total claimed_turn [OF assms(1)] show ?thesis by simp
qed

text \<open>
  A waiting caller that is let through by its own turn (its wait neither interrupted nor cancelled
  nor out of time) leaves a window within the budget, in whatever state the interleaved calls have
  left the throttle. Unless the window is marked saturated: a caller that claims nothing leaves at
  most the budget recorded in the window, reservations of others not counted; a writer that claims
  its reserve leaves either an empty window, or one whose recorded time plus all reservations
  outstanding at that moment, its own included, is at most the budget.
\<close>

theorem proceeding_leaves_room:
  assumes "t = run_throttle (Some budget) start es" and "th_callers t c = Waiting limit claim slept"
    and "slept < MAX_WAIT_PER_CHECK" and "\<not> th_interrupted t" and "t' = throttle_step (Turn c False elapsed cpu) t"
    and "th_callers t' c = leaves claim"
  shows "saturated (th_window t') \<or>
    (if claim then window_total (th_window t') = 0 \<or> window_total (th_window t') + of_nat (claimed (th_window t')) \<le> of_nat budget
     else window_total (th_window t') \<le> of_nat budget)"
proof -
  have inv: "throttle_inv t" unfolding assms(1) by (rule run_throttle_inv)
  have "th_target (fold throttle_step es (new_throttle (Some budget) start)) = Some budget" for es
  proof (induction es rule: rev_induct)
    case (snoc e es)
    then show ?case by (cases e) (auto simp: check_with_cancel_def reserve_write_headroom_def drop_reservation_def wait_within_def Let_def
        split: caller.split prod.split turn_outcome.split option.split)
  qed (simp add: new_throttle_def)
  then have target: "th_target t = Some budget" by (simp add: assms(1) run_throttle_def)
  have "caller_ok (th_target t) (Waiting limit claim slept)"
    using inv assms(2) unfolding throttle_inv_def callers_ok_def by metis
  then have limit: "limit = (if claim then budget - WRITE_RESERVE else budget)" by (simp add: target)
  obtain w' r where turn: "wait_turn (Some budget) limit claim slept (last_wall (th_window t) + elapsed) cpu (th_window t) = (w', r)"
    by fastforce
  have "r = Proceed" "th_window t' = w'"
    using assms(2-6) turn target by (auto simp: wait_within_def Let_def leaves_def split: turn_outcome.splits if_splits)
  show ?thesis
  proof (cases "saturated w' \<or> window_total w' = 0")
    case True
    then show ?thesis using \<open>th_window t' = w'\<close> by auto
  next
    case False
    with \<open>r = Proceed\<close> wait_turn_proceeds [of budget limit claim slept _ cpu "th_window t" w'] turn assms(3) inv
    have room: "window_total w' \<le> of_nat (if claim then limit - claimed (th_window t) else limit)"
      "claimed w' = claimed (th_window t) + (if claim then WRITE_RESERVE else 0)" by (auto simp: throttle_inv_def)
    moreover have "billed_ok w'"
      using billed_ok_step [of t "Turn c False elapsed cpu"] inv assms(5) \<open>th_window t' = w'\<close> by (simp add: throttle_inv_def)
    then have "0 \<le> window_total w'"
      unfolding billed_ok_def window_total_def by (intro total_nonneg) (auto simp: window_ok_def)
    with False have "0 < window_total w'" by simp
    ultimately show ?thesis using limit \<open>th_window t' = w'\<close>
      by (cases claim) (auto simp: le_diff_conv simp flip: of_nat_add, linarith?)
  qed
qed

text \<open>A budget from the environment is none, or 12 to 40 percent of the window: always more than the write reserve.\<close>

theorem env_budget_exceeds_reserve:
  "from_env_value value \<in> insert None ((\<lambda>p. Some (WINDOW * p div 100)) ` {MIN_PERCENT..MAX_PERCENT}) \<and>
   WRITE_RESERVE + seconds 1 < WINDOW * MIN_PERCENT div 100"
proof -
  define given where "given = (case Option.bind (map_option trim value) (\<lambda>v. if v = [] then None else parse_u32 v) of
      Some p \<Rightarrow> p | None \<Rightarrow> DEFAULT_PERCENT)"
  define percent where "percent = (if MAX_PERCENT < given \<and> given < 100 then DEFAULT_PERCENT
      else if 0 < given \<and> given < MIN_PERCENT then MIN_PERCENT else given)"
  have v: "from_env_value value = (if 0 < percent \<and> percent < 100 then Some (WINDOW * percent div 100) else None)"
    by (simp only: from_env_value_def percent_def given_def Let_def)
  have "percent \<in> {MIN_PERCENT..MAX_PERCENT}" if "0 < percent" "percent < 100"
    using that by (auto simp: percent_def MIN_PERCENT_def MAX_PERCENT_def DEFAULT_PERCENT_def split: if_splits)
  then show ?thesis by (auto simp: v WRITE_RESERVE_def window_consts MIN_PERCENT_def)
qed

text \<open>Witnesses: a throttle of 12 percent (21.6 s), 30 s of CPU at one second, then a sample at 100 s.\<close>

definition busy_events :: "throttle_event list" where
  "busy_events = [Sample (seconds 1) (seconds 30)]"

lemma busy_window: "th_window (run_throttle (Some (seconds 21)) 0 busy_events) =
    \<lparr>last_wall = seconds 1, last_cpu = seconds 30, buckets = [(0, of_nat (seconds 30))], last_log = None, claimed = 0,
     notice_until = None, saturated = False\<rparr>"
  by (simp add: run_throttle_def busy_events_def new_throttle_def new_window_def update_window_def charge_def bucket_index_def
      window_consts bill_share_def bucket_start_def bill_def expire_def bucket_expiry_def Let_def)

theorem window_is_conservative_witness:
  "of_nat (seconds 30) \<le> window_total (th_window (run_throttle (Some (seconds 21)) 0 ([] @ busy_events)))"
proof -
  let ?w = "th_window (run_throttle (Some (seconds 21)) 0 [])" and ?w' = "th_window (run_throttle (Some (seconds 21)) 0 ([] @ busy_events))"
  have "last_wall ?w' \<le> last_wall ?w + WINDOW" "last_wall ?w' < SUB_WINDOW * (2 ^ 32 - 1)" "last_cpu ?w = 0" "last_cpu ?w' = seconds 30"
    by (simp_all add: busy_window) (simp_all add: run_throttle_def new_throttle_def new_window_def window_consts)
  with window_is_conservative [OF refl refl this(1,2)] show ?thesis by simp
qed

theorem wait_is_least_witness:
  "let w = th_window (run_throttle (Some (seconds 21)) 0 busy_events)
   in wait_until_within (seconds 21) (last_wall w) w = seconds 189 \<and>
      total_of (expire (last_wall w + seconds 189) (buckets w)) \<le> of_nat (seconds 21)"
proof -
  let ?w = "th_window (run_throttle (Some (seconds 21)) 0 busy_events)"
  have "of_nat (seconds 21) < window_total ?w" unfolding busy_window by (simp add: window_total_def total_of_def seconds_def)
  from wait_is_least [OF refl this]
  have "total_of (expire (last_wall ?w + wait_until_within (seconds 21) (last_wall ?w) ?w) (buckets ?w)) \<le> of_nat (seconds 21)" by blast
  moreover have "wait_until_within (seconds 21) (last_wall ?w) ?w = seconds 189"
    unfolding busy_window by (simp add: wait_until_within_def window_total_def total_of_def bucket_expiry_def bucket_start_def window_consts)
  ultimately show ?thesis by (simp add: Let_def)
qed

text \<open>An index asks for its reserve with ten seconds of a 40 second budget used.\<close>

definition reserve_events :: "throttle_event list" where
  "reserve_events = [Sample (seconds 1) (seconds 10), Reserve 0]"

theorem proceeding_leaves_room_witness:
  "let t' = throttle_step (Turn 0 False 0 (seconds 10)) (run_throttle (Some (seconds 40)) 0 reserve_events)
   in 0 < window_total (th_window t') \<and> window_total (th_window t') + of_nat (claimed (th_window t')) \<le> of_nat (seconds 40)"
proof -
  let ?t = "run_throttle (Some (seconds 40)) 0 reserve_events"
  let ?w = "\<lparr>last_wall = seconds 1, last_cpu = seconds 10, buckets = [(0, of_nat (seconds 10))], last_log = None, claimed = 0,
     notice_until = None, saturated = False\<rparr> :: cpu_window"
  have t: "?t = \<lparr>th_target = Some (seconds 40), th_window = ?w, th_interrupted = False,
      th_callers = (\<lambda>_. Away)(0 := Waiting (seconds 20) True 0)\<rparr>"
    by (simp add: run_throttle_def reserve_events_def new_throttle_def new_window_def update_window_def charge_def bucket_index_def
        window_consts bill_share_def bucket_start_def bill_def expire_def bucket_expiry_def Let_def reserve_write_headroom_def WRITE_RESERVE_def)
  have u: "update_window (seconds 1) (seconds 10) ?w = ?w"
    by (simp add: update_window_def charge_def bucket_index_def window_consts bill_def expire_def bucket_expiry_def bucket_start_def)
  have turn: "wait_turn (Some (seconds 40)) (seconds 20) True 0 (seconds 1) (seconds 10) ?w = (claim_now True ?w, Proceed)"
    unfolding wait_turn_def Let_def u by (simp add: window_total_def total_of_def seconds_def)
  let ?t' = "throttle_step (Turn 0 False 0 (seconds 10)) ?t"
  have pos: "0 < MAX_WAIT_PER_CHECK" by (simp add: MAX_WAIT_PER_CHECK_def seconds_def)
  have t': "?t' = \<lparr>th_target = Some (seconds 40), th_window = claim_now True ?w, th_interrupted = False,
      th_callers = (\<lambda>_. Away)(0 := Reserved WRITE_RESERVE)\<rparr>"
    using turn pos by (simp add: t wait_within_def leaves_def)
  have full: "0 < window_total (th_window ?t')" "\<not> saturated (th_window ?t')"
    unfolding t' by (simp_all add: claim_now_def window_total_def total_of_def seconds_def)
  have "saturated (th_window ?t') \<or> (if True then window_total (th_window ?t') = 0 \<or>
      window_total (th_window ?t') + of_nat (claimed (th_window ?t')) \<le> of_nat (seconds 40)
      else window_total (th_window ?t') \<le> of_nat (seconds 40))"
    by (rule proceeding_leaves_room [OF refl, where c = 0 and claim = True and slept = 0 and limit = "seconds 20", OF _ _ _ refl])
      (unfold t', unfold t, simp_all add: pos leaves_def)
  with full show ?thesis by (simp add: Let_def)
qed

end
