(* ===== verification/Symbol_Lookup.thy ===== *)
theory Symbol_Lookup
  imports Uid
begin

text \<open>
  Symbols and how a reader names them (\<^verbatim>\<open>nestweaver-schema/src/nodes.rs\<close>, the name lookup of
  \<^verbatim>\<open>nestweaver-store/src/read.rs\<close>, and the resolution of a target in
  \<^verbatim>\<open>nestweaver-engine/src/read_symbols.rs\<close>): the per-file module owner and its label, the
  qualified spec \<open>[file::][Container::]name\<close>, the rank of a file qualifier, container chains over the
  \<^verbatim>\<open>MEMBER_OF\<close> edges, and the readings of a spec that are tried when it names nothing.

  The graph database is a parameter, the record \<open>graph_db\<close> of the answers to the queries the code
  makes: each may fail. A symbol has the columns these modules read; summaries, hashes, embeddings,
  scores and type information are carried along by the code and left out here.
\<close>

section \<open>Symbols and module owners\<close>

datatype symbol_kind =
  Function | Class | Method | Interface | Trait | Enum | Module | Extension | Constant | Property | TypeAlias | Variable

datatype entry_point_kind =
  Main | HttpHandler | EventListener | TestEntry | LambdaHandler | CronJob | CliCommand | ModuleInit

record symbol =
  sy_uid :: string
  sy_name :: string
  sy_kind :: symbol_kind
  sy_repo_uid :: string
  sy_file_path :: string
  sy_start_line :: nat
  sy_signature :: string
  sy_entry_point_kind :: "entry_point_kind option"

fun kind_as_str :: "symbol_kind \<Rightarrow> string" where
  "kind_as_str Function = ''Function''"
| "kind_as_str Class = ''Class''"
| "kind_as_str Method = ''Method''"
| "kind_as_str Interface = ''Interface''"
| "kind_as_str Trait = ''Trait''"
| "kind_as_str Enum = ''Enum''"
| "kind_as_str Module = ''Module''"
| "kind_as_str Extension = ''Extension''"
| "kind_as_str Constant = ''Constant''"
| "kind_as_str Property = ''Property''"
| "kind_as_str TypeAlias = ''TypeAlias''"
| "kind_as_str Variable = ''Variable''"

definition is_module_owner :: "symbol \<Rightarrow> bool" where
  "is_module_owner s \<longleftrightarrow>
     sy_kind s = Module \<and> sy_name s = MODULE_OWNER_NAME \<and> sy_entry_point_kind s = Some ModuleInit"

definition module_owner_label :: "string \<Rightarrow> string" where
  "module_owner_label file_path = file_path @ ''::'' @ MODULE_OWNER_NAME"

definition display_name :: "symbol \<Rightarrow> string" where
  "display_name s = (if is_module_owner s then module_owner_label (sy_file_path s) else sy_name s)"

definition symbol_display_name :: "string \<Rightarrow> string \<Rightarrow> string" where
  "symbol_display_name name file_path = (if name = MODULE_OWNER_NAME then module_owner_label file_path else name)"

definition MODULE_OWNER_CONTEXT_CAP :: nat where
  "MODULE_OWNER_CONTEXT_CAP = 3"

definition is_module_owner_label :: "string \<Rightarrow> bool" where
  "is_module_owner_label label \<longleftrightarrow> label = MODULE_OWNER_NAME \<or> suffix (''::'' @ MODULE_OWNER_NAME) label"

definition omitted_module_owners_phrase :: "nat \<Rightarrow> string" where
  "omitted_module_owners_phrase omitted = ''+'' @ nat_dec omitted @ '' more files'' @ [CHR 0x27] @ '' top-level code''"

definition cap_module_owner_labels :: "string list \<Rightarrow> string list" where
  "cap_module_owner_labels labels =
     (let owners = filter is_module_owner_label labels;
          capped = filter (\<lambda>l. \<not> is_module_owner_label l) labels @ take MODULE_OWNER_CONTEXT_CAP owners;
          omitted = length owners - MODULE_OWNER_CONTEXT_CAP
      in if 0 < omitted then capped @ [omitted_module_owners_phrase omitted] else capped)"

section \<open>Qualified specs\<close>

text \<open>The library's \<open>split\<close> on the text \<open>::\<close>: at its leftmost occurrences that do not overlap.\<close>

fun split_path :: "string \<Rightarrow> string list" where
  "split_path [] = [[]]"
| "split_path [c] = [[c]]"
| "split_path (c # d # s) =
     (if c = CHR '':'' \<and> d = CHR '':'' then [] # split_path s
      else (case split_path (d # s) of [] \<Rightarrow> [[c]] | y # ys \<Rightarrow> (c # y) # ys))"

record qualified_spec =
  qs_qualifiers :: "string list"
  qs_name :: string

definition parse_spec :: "string \<Rightarrow> qualified_spec option" where
  "parse_spec spec =
     (let segments = split_path spec
      in if length segments < 2 \<or> [] \<in> set segments then None
         else Some \<lparr>qs_qualifiers = butlast segments, qs_name = last segments\<rparr>)"

definition max_container_depth :: "qualified_spec \<Rightarrow> nat" where
  "max_container_depth q = length (qs_qualifiers q)"

definition chain_matches :: "string list \<Rightarrow> string list \<Rightarrow> bool" where
  "chain_matches qualifiers chain \<longleftrightarrow>
     length qualifiers \<le> length chain \<and> list_all (\<lambda>(qualifier, container). qualifier = container) (zip (rev qualifiers) chain)"

text \<open>A leading \<open>./\<close> or \<open>/\<close> of a file qualifier is dropped, as often as it is there.\<close>

fun strip_root :: "string \<Rightarrow> string" where
  "strip_root (c # d # s) =
     (if c = CHR ''.'' \<and> d = CHR ''/'' then strip_root s
      else if c = CHR ''/'' then strip_root (d # s) else c # d # s)"
| "strip_root s = (if s = ''/'' then [] else s)"

definition path_suffix_of :: "string \<Rightarrow> string \<Rightarrow> bool" where
  "path_suffix_of qualifier path \<longleftrightarrow>
     path = qualifier \<or> (case strip_suffix qualifier path of None \<Rightarrow> False | Some head \<Rightarrow> suffix ''/'' head)"

text \<open>The path without the extension of its file name; a dot that starts the name starts no extension.\<close>

definition file_stem :: "string \<Rightarrow> string option" where
  "file_stem file_path =
     (let (dir, file) = (case rsplit_once (CHR ''/'') file_path of
            None \<Rightarrow> ([], file_path) | Some (d, f) \<Rightarrow> (d @ ''/'', f))
      in case rsplit_once (CHR ''.'') file of
           None \<Rightarrow> None
         | Some (base, _) \<Rightarrow> if base \<noteq> [] then Some (dir @ base) else None)"

definition normal_qualifier :: "string \<Rightarrow> string" where
  "normal_qualifier qualifier = strip_root (map (\<lambda>c. if c = CHR 0x5C then CHR ''/'' else c) qualifier)"

definition file_qualifier_rank :: "string \<Rightarrow> string \<Rightarrow> nat option" where
  "file_qualifier_rank qualifier file_path =
     (let qual = normal_qualifier qualifier
      in if qual = [] then None
         else if file_path = qual then Some 0
         else if path_suffix_of qual file_path then Some 1
         else case file_stem file_path of
           None \<Rightarrow> None
         | Some stem \<Rightarrow> if path_suffix_of qual stem then Some 2 else None)"

text \<open>Keep the candidates a spec names: by its container chain, or by the best file rank.\<close>

definition reads_by_file :: "qualified_spec \<Rightarrow> (string \<Rightarrow> string list) \<Rightarrow> symbol \<Rightarrow> nat option" where
  "reads_by_file q chain_of s =
     (case file_qualifier_rank (hd (qs_qualifiers q)) (sy_file_path s) of
        None \<Rightarrow> None
      | Some rank \<Rightarrow> if chain_matches (tl (qs_qualifiers q)) (chain_of (sy_uid s)) then Some rank else None)"

definition select :: "qualified_spec \<Rightarrow> symbol list \<Rightarrow> (string \<Rightarrow> string list) \<Rightarrow> symbol list" where
  "select q candidates chain_of =
     (let ranked = map (\<lambda>s. (s, chain_matches (qs_qualifiers q) (chain_of (sy_uid s)), reads_by_file q chain_of s)) candidates;
          ranks = List.map_filter (\<lambda>(_, _, rank). rank) ranked;
          best_file = (if ranks = [] then None else Some (Min (set ranks)))
      in map fst (filter (\<lambda>(_, by_container, by_file). by_container \<or> (by_file \<noteq> None \<and> by_file = best_file)) ranked))"

section \<open>The receiver of a Go method\<close>

definition is_alphanumeric :: "char \<Rightarrow> bool" where
  "is_alphanumeric c \<longleftrightarrow>
     is_ascii_alphabetic c \<or> is_ascii_digit c \<or> code c \<in> {0xAA, 0xB5, 0xBA, 0xB2, 0xB3, 0xB9, 0xBC, 0xBD, 0xBE} \<or>
     (0xC0 \<le> code c \<and> code c \<noteq> 0xD7 \<and> code c \<noteq> 0xF7)"

definition receiver_name :: "string \<Rightarrow> string option" where
  "receiver_name receiver =
     (case filter (\<lambda>t. t \<noteq> []) (split_by is_whitespace receiver) of
        [] \<Rightarrow> None
      | tokens \<Rightarrow>
          let ty = last (split (CHR ''.'') (hd (split (CHR ''['') (dropWhile (\<lambda>c. c = CHR ''*'') (last tokens)))))
          in if ty \<noteq> [] \<and> list_all (\<lambda>c. is_alphanumeric c \<or> c = CHR ''_'') ty then Some ty else None)"

definition go_receiver_type :: "string \<Rightarrow> string \<Rightarrow> string option" where
  "go_receiver_type file_path signature =
     (if \<not> suffix ''.go'' file_path then None
      else case strip_prefix ''func'' (trim_start_by is_whitespace signature) of
        None \<Rightarrow> None
      | Some rest \<Rightarrow>
      (case strip_prefix ''('' (trim_start_by is_whitespace rest) of
        None \<Rightarrow> None
      | Some rest' \<Rightarrow>
      (case split_once (CHR '')'') rest' of
        None \<Rightarrow> None
      | Some (receiver, _) \<Rightarrow> receiver_name receiver)))"

section \<open>Lookup in the graph\<close>

datatype store_error = QueryFailed string | PresentationLimitExceeded nat nat

type_synonym parent_row = "string \<times> string \<times> string"

record graph_db =
  db_named :: "string \<Rightarrow> store_error + symbol list"
  db_symbol :: "string \<Rightarrow> store_error + symbol"
  db_parents :: "string list \<Rightarrow> store_error + parent_row list"
  db_symbols :: "store_error + symbol list"

definition and_then :: "'e + 'a \<Rightarrow> ('a \<Rightarrow> 'e + 'b) \<Rightarrow> 'e + 'b" where
  "and_then r f = (case r of Inl e \<Rightarrow> Inl e | Inr x \<Rightarrow> f x)"

definition unwrap_or :: "'a \<Rightarrow> 'e + 'a \<Rightarrow> 'a" where
  "unwrap_or d r = (case r of Inl _ \<Rightarrow> d | Inr x \<Rightarrow> x)"

function chunks :: "nat \<Rightarrow> 'a list \<Rightarrow> 'a list list" where
  "chunks n xs = (if xs = [] \<or> n = 0 then [] else take n xs # chunks n (drop n xs))"
  by auto
termination by (relation "measure (\<lambda>(n, xs). length xs)") auto

declare chunks.simps [simp del]

text \<open>Of several parents of a symbol the one with the least UID is kept.\<close>

fun keep_parent :: "parent_row \<Rightarrow> (string \<rightharpoonup> string \<times> string) \<Rightarrow> (string \<rightharpoonup> string \<times> string)" where
  "keep_parent (child, parent_uid, parent_name) parents =
     (case parents child of
        Some (kept, _) \<Rightarrow> if kept \<le> parent_uid then parents else parents(child \<mapsto> (parent_uid, parent_name))
      | None \<Rightarrow> parents(child \<mapsto> (parent_uid, parent_name)))"

fun read_parents :: "graph_db \<Rightarrow> string list list \<Rightarrow> (string \<rightharpoonup> string \<times> string) \<Rightarrow> store_error + (string \<rightharpoonup> string \<times> string)" where
  "read_parents db [] parents = Inr parents"
| "read_parents db (chunk # rest) parents =
     and_then (db_parents db chunk) (\<lambda>rows. read_parents db rest (fold keep_parent rows parents))"

definition member_of_parents :: "graph_db \<Rightarrow> string list \<Rightarrow> store_error + (string \<rightharpoonup> string \<times> string)" where
  "member_of_parents db uids = read_parents db (chunks 512 uids) Map.empty"

text \<open>One level of the climb: each origin with a parent gets the parent's name and moves there.\<close>

type_synonym chain_map = "string \<rightharpoonup> string list"

definition chain_at :: "chain_map \<Rightarrow> string \<Rightarrow> string list" where
  "chain_at found uid = (case found uid of None \<Rightarrow> [] | Some chain \<Rightarrow> chain)"

fun climb :: "(string \<rightharpoonup> string \<times> string) \<Rightarrow> (string \<times> string) list \<Rightarrow> chain_map \<Rightarrow> (string \<times> string) list \<times> chain_map" where
  "climb parents [] found = ([], found)"
| "climb parents ((origin, place) # frontier) found =
     (case parents place of
        None \<Rightarrow> climb parents frontier found
      | Some (parent_uid, parent_name) \<Rightarrow>
          let (frontier', found') = climb parents frontier (found(origin \<mapsto> chain_at found origin @ [parent_name]))
          in ((origin, parent_uid) # frontier', found'))"

fun climb_levels :: "graph_db \<Rightarrow> nat \<Rightarrow> (string \<times> string) list \<Rightarrow> chain_map \<Rightarrow> store_error + chain_map" where
  "climb_levels db 0 frontier found = Inr found"
| "climb_levels db (Suc depth) frontier found =
     (if frontier = [] then Inr found
      else and_then (member_of_parents db (remdups_adj (sort (map snd frontier)))) (\<lambda>parents.
             case climb parents frontier found of (frontier', found') \<Rightarrow> climb_levels db depth frontier' found'))"

definition container_chains :: "graph_db \<Rightarrow> string list \<Rightarrow> nat \<Rightarrow> store_error + chain_map" where
  "container_chains db uids depth = climb_levels db depth (map (\<lambda>uid. (uid, uid)) uids) Map.empty"

definition add_receiver :: "symbol \<Rightarrow> chain_map \<Rightarrow> chain_map" where
  "add_receiver s found =
     (if chain_at found (sy_uid s) \<noteq> [] then found
      else case go_receiver_type (sy_file_path s) (sy_signature s) of
        None \<Rightarrow> found
      | Some receiver \<Rightarrow> found(sy_uid s \<mapsto> [receiver]))"

definition symbol_container_chains :: "graph_db \<Rightarrow> symbol list \<Rightarrow> nat \<Rightarrow> store_error + chain_map" where
  "symbol_container_chains db symbols depth =
     and_then (container_chains db (map sy_uid symbols) depth) (\<lambda>found.
       Inr (if 0 < depth then fold add_receiver symbols found else found))"

definition lookup_symbols_by_spec :: "graph_db \<Rightarrow> string \<Rightarrow> store_error + symbol list" where
  "lookup_symbols_by_spec db spec =
     and_then (db_named db spec) (\<lambda>exact.
       case parse_spec spec of
         None \<Rightarrow> Inr exact
       | Some q \<Rightarrow>
           if exact \<noteq> [] then Inr exact
           else and_then (db_named db (qs_name q)) (\<lambda>candidates.
             if candidates = [] then Inr candidates
             else and_then (symbol_container_chains db candidates (max_container_depth q)) (\<lambda>found.
               Inr (select q candidates (chain_at found)))))"

section \<open>Resolving the spec of a read\<close>

record spec_resolution =
  sr_symbols :: "symbol list"
  sr_qualifier_ignored :: "(string \<times> string) option"

definition no_resolution :: spec_resolution where
  "no_resolution = \<lparr>sr_symbols = [], sr_qualifier_ignored = None\<rparr>"

text \<open>A failed scan of the symbol names keeps the qualifier.\<close>

definition qualifier_may_name_a_file :: "graph_db \<Rightarrow> symbol list option \<Rightarrow> string \<Rightarrow> bool" where
  "qualifier_may_name_a_file db table qualifier \<longleftrightarrow>
     (if list_ex (\<lambda>c. c = CHR ''/'' \<or> c = CHR 0x5C \<or> c = CHR ''.'') qualifier then True
      else case table of
        Some symbols \<Rightarrow> list_ex (\<lambda>s. file_qualifier_rank qualifier (sy_file_path s) \<noteq> None) symbols
      | None \<Rightarrow>
          (case db_symbols db of
             Inl _ \<Rightarrow> True
           | Inr symbols \<Rightarrow> list_ex (\<lambda>s. file_qualifier_rank qualifier (sy_file_path s) \<noteq> None) symbols))"

fun find_reading :: "graph_db \<Rightarrow> string list \<Rightarrow> nat list \<Rightarrow> (nat \<times> string \<times> symbol list) option" where
  "find_reading db segments [] = None"
| "find_reading db segments (k # ks) =
     (let reading = join ''::'' (drop k segments);
          symbols = unwrap_or [] (lookup_symbols_by_spec db reading)
      in if symbols \<noteq> [] then Some (k, reading, symbols) else find_reading db segments ks)"

definition shorter_qualified_reading :: "graph_db \<Rightarrow> string list \<Rightarrow> (nat \<times> string \<times> symbol list) option" where
  "shorter_qualified_reading db segments = find_reading db segments [1..<length segments - 1]"

definition last_dotted_segment :: "string \<Rightarrow> string" where
  "last_dotted_segment name = last (split (CHR ''.'') name)"

definition resolve_dotted :: "graph_db \<Rightarrow> string \<Rightarrow> spec_resolution" where
  "resolve_dotted db spec =
     (let qualified = (case rsplit_once (CHR ''.'') spec of
            None \<Rightarrow> []
          | Some (owner, member) \<Rightarrow>
              if owner \<noteq> [] \<and> member \<noteq> [] then unwrap_or [] (lookup_symbols_by_spec db (owner @ ''::'' @ member)) else [])
      in \<lparr>sr_symbols = (if qualified \<noteq> [] then qualified else unwrap_or [] (db_named db (last_dotted_segment spec))),
          sr_qualifier_ignored = None\<rparr>)"

definition resolve_qualified :: "graph_db \<Rightarrow> string \<Rightarrow> qualified_spec \<Rightarrow> spec_resolution" where
  "resolve_qualified db spec q =
     (let strict = unwrap_or [] (lookup_symbols_by_spec db spec)
      in if strict \<noteq> [] \<or> qs_name q = MODULE_OWNER_NAME then \<lparr>sr_symbols = strict, sr_qualifier_ignored = None\<rparr>
         else let segments = split_path spec
              in if length segments < 3 \<or> qualifier_may_name_a_file db None (hd segments) then no_resolution
                 else case shorter_qualified_reading db segments of
                   None \<Rightarrow> no_resolution
                 | Some (dropped, reading, symbols) \<Rightarrow>
                     \<lparr>sr_symbols = symbols, sr_qualifier_ignored = Some (join ''::'' (take dropped segments), reading)\<rparr>)"

definition resolve_spec_detailed :: "graph_db \<Rightarrow> string \<Rightarrow> spec_resolution" where
  "resolve_spec_detailed db spec =
     (if prefix ''sym:'' spec then
        \<lparr>sr_symbols = (case db_symbol db spec of Inl _ \<Rightarrow> [] | Inr s \<Rightarrow> [s]), sr_qualifier_ignored = None\<rparr>
      else case parse_spec spec of
        Some q \<Rightarrow> resolve_qualified db spec q
      | None \<Rightarrow> resolve_dotted db spec)"

definition resolve_spec :: "graph_db \<Rightarrow> string \<Rightarrow> symbol list" where
  "resolve_spec db spec = sr_symbols (resolve_spec_detailed db spec)"

section \<open>Specs and their text\<close>

text \<open>The text of a spec, and the specs that have one: segments that are not empty and are cut apart again.\<close>

definition spec_segments :: "qualified_spec \<Rightarrow> string list" where
  "spec_segments q = qs_qualifiers q @ [qs_name q]"

definition spec_text :: "qualified_spec \<Rightarrow> string" where
  "spec_text q = join ''::'' (spec_segments q)"

definition closed_segment :: "string \<Rightarrow> bool" where
  "closed_segment p \<longleftrightarrow> \<not> sublist ''::'' p \<and> (p \<noteq> [] \<longrightarrow> last p \<noteq> CHR '':'')"

definition spec_ok :: "qualified_spec \<Rightarrow> bool" where
  "spec_ok q \<longleftrightarrow>
     qs_qualifiers q \<noteq> [] \<and> [] \<notin> set (spec_segments q) \<and> list_all closed_segment (qs_qualifiers q) \<and>
     \<not> sublist ''::'' (qs_name q)"

lemma split_path_not_Nil [simp]: "split_path s \<noteq> []"
  by (induction s rule: split_path.induct) (auto split: list.splits)

lemma join_Cons: "xs \<noteq> [] \<Longrightarrow> join sep (x # xs) = x @ sep @ join sep xs"
  by (cases xs) simp_all

lemma join_split_path [simp]: "join ''::'' (split_path s) = s"
proof (induction s rule: split_path.induct)
  case (3 c d s)
  show ?case
  proof (cases "c = CHR '':'' \<and> d = CHR '':''")
    case False
    obtain y ys where y: "split_path (d # s) = y # ys" by (cases "split_path (d # s)") simp_all
    then have "join ''::'' ((c # y) # ys) = c # join ''::'' (y # ys)" by (cases ys) simp_all
    with 3(2) [OF False] y False show ?thesis by auto
  qed (use 3(1) in \<open>simp add: join_Cons\<close>)
qed simp_all

lemma split_path_parts: "list_all closed_segment (butlast (split_path s)) \<and> \<not> sublist ''::'' (last (split_path s))"
proof (induction s rule: split_path.induct)
  case (3 c d s)
  show ?case
  proof (cases "c = CHR '':'' \<and> d = CHR '':''")
    case True
    with 3(1) show ?thesis by (simp add: closed_segment_def sublist_Cons_right)
  next
    case False
    obtain y ys where y: "split_path (d # s) = y # ys" by (cases "split_path (d # s)") simp_all
    have hd: "y = [] \<or> hd y = d" and y2: "y = [] \<Longrightarrow> d = CHR '':''"
      using y by (cases s; auto split: if_splits list.splits)+
    have cons: "\<not> sublist ''::'' (c # y)" if "\<not> sublist ''::'' y"
      using that False hd by (cases y) (auto simp: sublist_Cons_right prefix_Cons)
    show ?thesis
    proof (cases ys)
      case Nil
      with 3(2) [OF False] y False cons show ?thesis by (auto split: list.splits)
    next
      case (Cons z zs)
      have "closed_segment (c # y)" using 3(2) [OF False] y Cons cons False y2
        by (cases "y = []") (auto simp: closed_segment_def)
      with 3(2) [OF False] y Cons False show ?thesis by (auto split: list.splits)
    qed
  qed
qed (simp_all add: sublist_Cons_right)

lemma split_path_closed: "closed_segment p \<Longrightarrow> split_path (p @ CHR '':'' # CHR '':'' # s) = p # split_path s"
proof (induction p rule: split_path.induct)
  case (2 c)
  then show ?case by (auto simp: closed_segment_def)
next
  case (3 c d p)
  have "\<not> (c = CHR '':'' \<and> d = CHR '':'')" using 3(3) by (auto simp: closed_segment_def sublist_Cons_right)
  moreover have "closed_segment (d # p)" using 3(3) by (auto simp: closed_segment_def sublist_Cons_right split: if_splits)
  ultimately show ?case using 3(2) by auto
qed simp

lemma split_path_single: "\<not> sublist ''::'' p \<Longrightarrow> split_path p = [p]"
proof (induction p rule: split_path.induct)
  case (3 c d p)
  have "\<not> (c = CHR '':'' \<and> d = CHR '':'')" using 3(3) by (auto simp: sublist_Cons_right)
  moreover have "\<not> sublist ''::'' (d # p)" using 3(3) by (auto simp: sublist_Cons_right)
  ultimately show ?case using 3(2) by auto
qed simp_all

lemma split_path_join: "list_all closed_segment ps \<Longrightarrow> \<not> sublist ''::'' p \<Longrightarrow> split_path (join ''::'' (ps @ [p])) = ps @ [p]"
  by (induction ps) (simp_all add: split_path_single join_Cons split_path_closed)

lemma parse_spec_text: "spec_ok q \<Longrightarrow> parse_spec (spec_text q) = Some q"
  by (cases q) (auto simp: spec_ok_def spec_text_def spec_segments_def parse_spec_def split_path_join Let_def)

lemma parse_spec_SomeD:
  assumes "parse_spec s = Some q"
  shows "spec_ok q \<and> s = spec_text q" and "spec_segments q = split_path s"
proof -
  have seg: "length (split_path s) \<ge> 2" "[] \<notin> set (split_path s)"
    and q: "q = \<lparr>qs_qualifiers = butlast (split_path s), qs_name = last (split_path s)\<rparr>"
    using assms by (auto simp: parse_spec_def Let_def split: if_splits)
  show segs: "spec_segments q = split_path s" by (simp add: spec_segments_def q)
  have "butlast (split_path s) \<noteq> []" using seg(1) by (cases "split_path s" rule: rev_cases) auto
  with seg segs split_path_parts [of s] show "spec_ok q \<and> s = spec_text q"
    by (simp add: spec_ok_def spec_text_def) (simp add: q)
qed

interpretation specs: canonical_codec spec_text parse_spec spec_ok
  by unfold_locales (auto simp: parse_spec_text dest: parse_spec_SomeD)

section \<open>The rank of a file qualifier\<close>

text \<open>A path and a qualifier are compared by whole components.\<close>

abbreviation components :: "string \<Rightarrow> string list" where
  "components \<equiv> split (CHR ''/'')"

lemma join_append: "xs \<noteq> [] \<Longrightarrow> ys \<noteq> [] \<Longrightarrow> join sep (xs @ ys) = join sep xs @ sep @ join sep ys"
proof (induction xs)
  case (Cons x xs)
  then show ?case by (cases "xs = []") (simp_all add: join_Cons)
qed simp

lemma path_suffix_components: "path_suffix_of qual path \<longleftrightarrow> suffix (components qual) (components path)"
proof
  assume "path_suffix_of qual path"
  then consider "path = qual" | head where "path = head @ qual" "suffix ''/'' head"
    by (auto simp: path_suffix_of_def strip_suffix_Some_iff split: option.splits)
  then show "suffix (components qual) (components path)"
  proof cases
    case (2 head)
    then obtain h where "path = h @ CHR ''/'' # qual" by (auto simp: suffix_def)
    then show ?thesis by (auto simp: split_by_append_sep suffix_def)
  qed simp
next
  assume "suffix (components qual) (components path)"
  then obtain zs where zs: "components path = zs @ components qual" by (auto simp: suffix_def)
  show "path_suffix_of qual path"
  proof (cases "zs = []")
    case True
    then have "join ''/'' (components path) = join ''/'' (components qual)" using zs by simp
    then show ?thesis by (simp add: join_split path_suffix_of_def)
  next
    case False
    have "path = join ''/'' (components path)" by (simp add: join_split)
    also have "\<dots> = (join ''/'' zs @ ''/'') @ qual" using False zs by (simp add: join_append join_split)
    finally have "strip_suffix qual path = Some (join ''/'' zs @ ''/'')" by (simp add: strip_suffix_Some_iff)
    then show ?thesis by (simp add: path_suffix_of_def suffix_def)
  qed
qed

lemma last_component:
  obtains leaf dir where "CHR ''/'' \<notin> set leaf" "components path = butlast (components path) @ [leaf]"
    "\<And>x. CHR ''/'' \<notin> set x \<Longrightarrow> components (dir @ x) = butlast (components path) @ [x]"
    "file_stem path = (case rsplit_once (CHR ''.'') leaf of None \<Rightarrow> None
       | Some (base, _) \<Rightarrow> if base \<noteq> [] then Some (dir @ base) else None)"
proof (cases "rsplit_once (CHR ''/'') path")
  case None
  then have "CHR ''/'' \<notin> set path" by (simp add: rsplit_once_None_iff)
  have single: "components x = [x]" if "CHR ''/'' \<notin> set x" for x using that by (intro split_by_id) auto
  show ?thesis
    by (rule that [of path "[]"]) (use \<open>CHR ''/'' \<notin> set path\<close> single None in \<open>simp_all add: file_stem_def\<close>)
next
  case (Some p)
  obtain d f where p: "p = (d, f)" by (cases p)
  from rsplit_once_SomeD [OF Some [unfolded p]] have path: "path = d @ CHR ''/'' # f" and f: "CHR ''/'' \<notin> set f" by auto
  have comps: "components (d @ ''/'' @ x) = components d @ [x]" if "CHR ''/'' \<notin> set x" for x
  proof -
    have "components x = [x]" using that by (intro split_by_id) auto
    then show ?thesis by (simp add: split_by_append_sep)
  qed
  have "butlast (components path) = components d" using comps [OF f] path by simp
  then show ?thesis
    by (intro that [of f "d @ ''/''"]) (use comps comps [OF f] f Some p path in \<open>simp_all add: file_stem_def\<close>)
qed

lemma components_inject: "components a = components b \<longleftrightarrow> a = b"
  using join_split [of "CHR ''/''"] by metis

lemma file_stem_components:
  "file_stem path = Some stem \<longleftrightarrow>
     (\<exists>base ext. base \<noteq> [] \<and> CHR ''.'' \<notin> set ext \<and> last (components path) = base @ ''.'' @ ext \<and>
        components stem = butlast (components path) @ [base])"
proof -
  obtain leaf dir where leaf: "CHR ''/'' \<notin> set leaf" and comps: "components path = butlast (components path) @ [leaf]"
    and dir: "\<And>x. CHR ''/'' \<notin> set x \<Longrightarrow> components (dir @ x) = butlast (components path) @ [x]"
    and stem: "file_stem path = (case rsplit_once (CHR ''.'') leaf of None \<Rightarrow> None
       | Some (base, _) \<Rightarrow> if base \<noteq> [] then Some (dir @ base) else None)"
    by (rule last_component [of path]) (rule that)
  have last: "last (components path) = leaf" using arg_cong [OF comps, of last] by (simp only: last_snoc)
  have cut: "rsplit_once (CHR ''.'') leaf = Some (base, ext) \<longleftrightarrow> leaf = base @ ''.'' @ ext \<and> CHR ''.'' \<notin> set ext" for base ext
    using rsplit_once_append [of "CHR ''.''" ext base] rsplit_once_SomeD [of "CHR ''.''" leaf base ext] by auto
  have named: "components x = butlast (components path) @ [base] \<longleftrightarrow> x = dir @ base" if "leaf = base @ ''.'' @ ext" for x base ext
    using dir [of base] leaf that components_inject [of x "dir @ base"] by simp
  have "file_stem path = Some stem \<longleftrightarrow> (\<exists>base ext. rsplit_once (CHR ''.'') leaf = Some (base, ext) \<and> base \<noteq> [] \<and> stem = dir @ base)"
    by (auto simp: stem split: option.splits)
  also have "\<dots> \<longleftrightarrow> (\<exists>base ext. leaf = base @ ''.'' @ ext \<and> CHR ''.'' \<notin> set ext \<and> base \<noteq> [] \<and>
      components stem = butlast (components path) @ [base])"
    unfolding cut using named [of _ _ stem] by metis
  finally show ?thesis using last by auto
qed

text \<open>
  C32. How a file qualifier ranks a path, by whole path components: rank 0 is the path itself, rank 1 a
  proper tail of its components, rank 2 a tail of its components with the extension of the file name
  left out, and nothing else matches; the qualifier is read with \<open>/\<close> for every backslash and
  without leading \<open>./\<close> and \<open>/\<close>.
\<close>

theorem file_rank_by_components:
  fixes qualifier path :: string
  defines "qual \<equiv> normal_qualifier qualifier"
  shows "(file_qualifier_rank qualifier path = Some 0 \<longleftrightarrow> qual \<noteq> [] \<and> path = qual) \<and>
    (file_qualifier_rank qualifier path = Some 1 \<longleftrightarrow> qual \<noteq> [] \<and> path \<noteq> qual \<and> suffix (components qual) (components path)) \<and>
    (file_qualifier_rank qualifier path = Some 2 \<longleftrightarrow> qual \<noteq> [] \<and> \<not> suffix (components qual) (components path) \<and>
       (\<exists>base ext. base \<noteq> [] \<and> CHR ''.'' \<notin> set ext \<and> last (components path) = base @ ''.'' @ ext \<and>
          suffix (components qual) (butlast (components path) @ [base]))) \<and>
    file_qualifier_rank qualifier path \<in> {None, Some 0, Some 1, Some 2} \<and>
    \<not> prefix ''/'' qual \<and> \<not> prefix ''./'' qual"
proof -
  have root: "\<not> prefix ''/'' (strip_root s) \<and> \<not> prefix ''./'' (strip_root s)" for s
    by (induction s rule: strip_root.induct) auto
  have two: "file_qualifier_rank qualifier path = Some 2 \<longleftrightarrow> qual \<noteq> [] \<and> \<not> path_suffix_of qual path \<and>
      (\<exists>stem. file_stem path = Some stem \<and> path_suffix_of qual stem)"
    by (auto simp: file_qualifier_rank_def qual_def Let_def path_suffix_of_def split: option.splits)
  moreover have "(\<exists>stem. file_stem path = Some stem \<and> path_suffix_of qual stem) \<longleftrightarrow>
      (\<exists>base ext. base \<noteq> [] \<and> CHR ''.'' \<notin> set ext \<and> last (components path) = base @ ''.'' @ ext \<and>
          suffix (components qual) (butlast (components path) @ [base]))"
  proof -
    have "components (join ''/'' (butlast (components path) @ [base])) = butlast (components path) @ [base]"
      if "last (components path) = base @ ''.'' @ ext" for base ext
    proof (rule split_join)
      fix x assume "x \<in> set (butlast (components path) @ [base])"
      moreover have "CHR ''/'' \<notin> set x" if "x \<in> set (components path)" for x using that split_by_parts by fastforce
      moreover have "base @ ''.'' @ ext \<in> set (components path)" using that last_in_set [of "components path"] by simp
      ultimately show "CHR ''/'' \<notin> set x" using in_set_butlastD [of x "components path"] by fastforce
    qed simp
    then show ?thesis unfolding file_stem_components path_suffix_components by metis
  qed
  ultimately show ?thesis using root
    by (auto simp: file_qualifier_rank_def qual_def Let_def path_suffix_components normal_qualifier_def split: option.splits)
qed

section \<open>What a spec selects\<close>

lemma chain_matches_iff: "chain_matches qualifiers chain \<longleftrightarrow> prefix (rev qualifiers) chain"
proof -
  have "list_all (\<lambda>(a, b). a = b) (zip xs ys) \<and> length xs \<le> length ys \<longleftrightarrow> prefix xs ys" for xs ys :: "string list"
  proof (induction xs arbitrary: ys)
    case (Cons x xs)
    then show ?case by (cases ys) auto
  qed simp
  from this [of "rev qualifiers" chain] show ?thesis by (auto simp: chain_matches_def)
qed

definition best_reading :: "qualified_spec \<Rightarrow> symbol list \<Rightarrow> (string \<Rightarrow> string list) \<Rightarrow> symbol \<Rightarrow> bool" where
  "best_reading q candidates chain_of s \<longleftrightarrow>
     (\<exists>rank. reads_by_file q chain_of s = Some rank \<and>
        (\<forall>t\<in>set candidates. \<forall>r. reads_by_file q chain_of t = Some r \<longrightarrow> rank \<le> r))"

lemma select_filter:
  "select q candidates chain_of =
     filter (\<lambda>s. prefix (rev (qs_qualifiers q)) (chain_of (sy_uid s)) \<or> best_reading q candidates chain_of s) candidates"
proof -
  let ?rank = "reads_by_file q chain_of"
  let ?ranks = "List.map_filter ?rank candidates"
  have ranks: "List.map_filter (\<lambda>(_, _, rank). rank) (map (\<lambda>s. (s, P s, ?rank s)) candidates) = ?ranks" for P :: "symbol \<Rightarrow> bool"
    by (induction candidates) (simp_all add: List.map_filter_def)
  have mem: "r \<in> set ?ranks \<longleftrightarrow> (\<exists>t\<in>set candidates. ?rank t = Some r)" for r by (force simp: List.map_filter_def)
  have best: "(?rank s \<noteq> None \<and> ?rank s = (if ?ranks = [] then None else Some (Min (set ?ranks)))) = best_reading q candidates chain_of s"
    if "s \<in> set candidates" for s
  proof (cases "?rank s")
    case (Some r)
    then have "r \<in> set ?ranks" using that mem by blast
    then have "?ranks \<noteq> []" by auto
    have "r = Min (set ?ranks) \<longleftrightarrow> (\<forall>r'\<in>set ?ranks. r \<le> r')"
      using \<open>r \<in> set ?ranks\<close> by (metis List.finite_set Min_eqI Min_le)
    with Some \<open>?ranks \<noteq> []\<close> show ?thesis unfolding best_reading_def using mem by auto
  qed (simp add: best_reading_def)
  have cut: "map fst (filter (\<lambda>(_, a, b). a \<or> Q b) (map (\<lambda>s. (s, P s, ?rank s)) candidates)) = filter (\<lambda>s. P s \<or> Q (?rank s)) candidates"
    for P Q by (induction candidates) simp_all
  show ?thesis unfolding select_def Let_def ranks chain_matches_iff cut by (rule filter_cong) (simp_all only: best)
qed

section \<open>Container chains\<close>

lemma chain_at_update [simp]: "chain_at (found(uid \<mapsto> chain)) x = (if x = uid then chain else chain_at found x)"
  by (simp add: chain_at_def)

lemma chain_at_empty [simp]: "chain_at Map.empty uid = []"
  by (simp add: chain_at_def)

text \<open>The parent with the least UID, and the names met when climbing from parent to parent.\<close>

definition least_parent :: "parent_row list \<Rightarrow> string \<Rightarrow> (string \<times> string) option" where
  "least_parent edges uid =
     (let ps = map (fst \<circ> snd) (filter (\<lambda>e. fst e = uid) edges)
      in if ps = [] then None else map_option (Pair (Min (set ps))) (map_of (map snd edges) (Min (set ps))))"

fun ancestors :: "parent_row list \<Rightarrow> nat \<Rightarrow> string \<Rightarrow> string list" where
  "ancestors edges 0 uid = []"
| "ancestors edges (Suc depth) uid =
     (case least_parent edges uid of None \<Rightarrow> [] | Some (parent_uid, parent_name) \<Rightarrow> parent_name # ancestors edges depth parent_uid)"

text \<open>
  What the graph database is relied on for: the rows of a name query have that name and a UID each,
  the rows of a parent query are the \<open>MEMBER_OF\<close> edges of the given children, and a parent has one name.
\<close>

definition graph_lib :: "graph_db \<Rightarrow> parent_row list \<Rightarrow> bool" where
  "graph_lib db edges \<longleftrightarrow>
     (\<forall>name rows. db_named db name = Inr rows \<longrightarrow> distinct (map sy_uid rows) \<and> (\<forall>s\<in>set rows. sy_name s = name)) \<and>
     (\<forall>uids. \<exists>rows. db_parents db uids = Inr rows \<and> set rows = {e \<in> set edges. fst e \<in> set uids}) \<and>
     inj_on fst (snd ` set edges)"

lemma concat_chunks: "0 < n \<Longrightarrow> concat (chunks n xs) = xs"
proof (induction n xs rule: chunks.induct)
  case (1 n xs)
  then show ?case by (subst chunks.simps) auto
qed

definition least_of :: "('a::linorder \<times> 'b) set \<Rightarrow> ('a \<times> 'b) option \<Rightarrow> bool" where
  "least_of ps p \<longleftrightarrow> (case p of None \<Rightarrow> ps = {} | Some p \<Rightarrow> p \<in> ps \<and> (\<forall>p'\<in>ps. fst p \<le> fst p'))"

lemma least_of_unique: "least_of ps p \<Longrightarrow> least_of ps p' \<Longrightarrow> inj_on fst ps \<Longrightarrow> p = p'"
proof (cases p)
  case (Some a)
  assume least: "least_of ps p" "least_of ps p'" and inj: "inj_on fst ps"
  then obtain b where b: "p' = Some b" using Some by (cases p') (auto simp: least_of_def)
  have "a \<in> ps" "b \<in> ps" "fst a = fst b" using least by (auto simp: least_of_def Some b intro: order_antisym)
  with inj have "a = b" by (auto dest: inj_onD)
  with Some b show ?thesis by simp
next
  case None
  assume "least_of ps p" "least_of ps p'"
  with None show ?thesis by (cases p') (auto simp: least_of_def)
qed

lemma fold_keep_parent: "least_of (set_option (m child) \<union> {p. (child, p) \<in> set rows}) (fold keep_parent rows m child)"
proof (induction rows arbitrary: m)
  case Nil
  then show ?case by (cases "m child") (simp_all add: least_of_def)
next
  case (Cons row rows)
  obtain c pu pn where row: "row = (c, pu, pn)" by (cases row)
  let ?m = "keep_parent row m"
  have IH: "least_of (set_option (?m child) \<union> {p. (child, p) \<in> set rows}) (fold keep_parent rows ?m child)" by (rule Cons)
  show ?case
  proof (cases "c = child")
    case False
    then have "?m child = m child" by (auto simp: row split: option.splits)
    with IH False show ?thesis by (simp add: row)
  next
    case True
    show ?thesis
    proof (cases "m child")
      case None
      have "?m child = Some (pu, pn)" using True None by (simp add: row)
      moreover have "set_option (m child) \<union> {p. (child, p) \<in> set (row # rows)} = insert (pu, pn) {p. (child, p) \<in> set rows}"
        using True None by (auto simp: row)
      ultimately show ?thesis using IH by simp
    next
      case (Some k)
      obtain ku kn where k: "k = (ku, kn)" by (cases k)
      show ?thesis
      proof (cases "ku \<le> pu")
        case le: True
        have "?m child = Some k" using True Some k le by (simp add: row)
        with IH le k have "least_of (insert (pu, pn) (insert k {p. (child, p) \<in> set rows})) (fold keep_parent rows ?m child)"
          by (auto simp: least_of_def split: option.splits)
        moreover have "set_option (m child) \<union> {p. (child, p) \<in> set (row # rows)} = insert (pu, pn) (insert k {p. (child, p) \<in> set rows})"
          using True Some by (auto simp: row)
        ultimately show ?thesis by simp
      next
        case gt: False
        have "?m child = Some (pu, pn)" using True Some k gt by (simp add: row)
        with IH gt k have "least_of (insert (pu, pn) (insert k {p. (child, p) \<in> set rows})) (fold keep_parent rows ?m child)"
          by (auto simp: least_of_def split: option.splits)
        moreover have "set_option (m child) \<union> {p. (child, p) \<in> set (row # rows)} = insert (pu, pn) (insert k {p. (child, p) \<in> set rows})"
          using True Some by (auto simp: row)
        ultimately show ?thesis by simp
      qed
    qed
  qed
qed

lemma least_parent_least:
  assumes "inj_on fst (snd ` set edges)"
  shows "least_of {p. (uid, p) \<in> set edges} (least_parent edges uid)"
proof -
  let ?ps = "{p. (uid, p) \<in> set edges}"
  let ?us = "map (fst \<circ> snd) (filter (\<lambda>e. fst e = uid) edges)"
  have us: "set ?us = fst ` ?ps" by force
  show ?thesis
  proof (cases "?us = []")
    case True
    then have "?ps = {}" using us by simp
    moreover have "least_parent edges uid = None" using True by (simp add: least_parent_def)
    ultimately show ?thesis by (simp add: least_of_def)
  next
    case False
    let ?u = "Min (set ?us)"
    have "?u \<in> set ?us" by (rule Min_in) (simp_all only: List.finite_set set_empty False not_False_eq_True)
    then have "?u \<in> fst ` ?ps" by (simp only: us)
    then obtain n where n: "(uid, ?u, n) \<in> set edges" by force
    then obtain n' where n': "map_of (map snd edges) ?u = Some n'" by (force simp: map_of_eq_None_iff dest: weak_map_of_SomeI)
    have "(?u, n') \<in> snd ` set edges" using map_of_SomeD [OF n'] by force
    moreover have "(?u, n) \<in> snd ` set edges" using n by force
    ultimately have "(?u, n') = (?u, n)" using assms by (metis (no_types, lifting) fst_conv inj_onD)
    then have "n' = n" by simp
    have fin: "finite (fst ` ?ps)" using us by (metis List.finite_set)
    have "?u \<le> fst p" if "p \<in> ?ps" for p unfolding us by (rule Min_le [OF fin]) (use that in blast)
    with \<open>n' = n\<close> show ?thesis using n n' False unfolding least_parent_def least_of_def Let_def by (simp del: set_map)
  qed
qed

lemma read_parents_rows:
  assumes "graph_lib db edges"
  shows "\<exists>rows. read_parents db cs m = Inr (fold keep_parent rows m) \<and> set rows = {e \<in> set edges. fst e \<in> set (concat cs)}"
proof (induction cs arbitrary: m)
  case (Cons c cs)
  obtain rows where rows: "db_parents db c = Inr rows" "set rows = {e \<in> set edges. fst e \<in> set c}"
    using assms unfolding graph_lib_def by blast
  from Cons [of "fold keep_parent rows m"] obtain rest
    where "read_parents db cs (fold keep_parent rows m) = Inr (fold keep_parent rest (fold keep_parent rows m))"
      and "set rest = {e \<in> set edges. fst e \<in> set (concat cs)}" by blast
  with rows show ?case by (intro exI [of _ "rows @ rest"]) (auto simp: and_then_def)
qed (simp add: exI [of _ "[]"])

lemma member_of_parents_least:
  assumes "graph_lib db edges"
  obtains parents where "member_of_parents db uids = Inr parents" "\<And>uid. uid \<in> set uids \<Longrightarrow> parents uid = least_parent edges uid"
proof -
  from read_parents_rows [OF assms, of "chunks 512 uids" Map.empty] obtain rows
    where rows: "read_parents db (chunks 512 uids) Map.empty = Inr (fold keep_parent rows Map.empty)"
      "set rows = {e \<in> set edges. fst e \<in> set uids}" by (auto simp: concat_chunks)
  have inj: "inj_on fst (snd ` set edges)" using assms by (simp add: graph_lib_def)
  have "fold keep_parent rows Map.empty uid = least_parent edges uid" if "uid \<in> set uids" for uid
  proof (rule least_of_unique)
    show "least_of {p. (uid, p) \<in> set edges} (least_parent edges uid)" by (rule least_parent_least [OF inj])
    show "least_of {p. (uid, p) \<in> set edges} (fold keep_parent rows Map.empty uid)"
      using fold_keep_parent [of Map.empty uid rows] rows(2) that by simp
    show "inj_on fst {p. (uid, p) \<in> set edges}" using inj by (rule inj_on_subset) force
  qed
  with rows(1) that show ?thesis by (auto simp: member_of_parents_def)
qed

lemma climb_frontier:
  assumes "climb parents frontier found = (frontier', found')" and "distinct (map fst frontier)"
  shows "map_of frontier' x = (case map_of frontier x of None \<Rightarrow> None | Some place \<Rightarrow> map_option fst (parents place)) \<and>
    chain_at found' x = chain_at found x @ (case map_of frontier x of None \<Rightarrow> [] | Some place \<Rightarrow>
      (case parents place of None \<Rightarrow> [] | Some (_, parent_name) \<Rightarrow> [parent_name])) \<and>
    distinct (map fst frontier') \<and> set (map fst frontier') \<subseteq> set (map fst frontier)"
  using assms
proof (induction parents frontier found arbitrary: frontier' found' rule: climb.induct)
  case (2 parents origin place frontier found)
  have out: "map_of frontier origin = None" using 2(4) by (auto simp: map_of_eq_None_iff)
  show ?case
  proof (cases "parents place")
    case None
    with 2 out show ?thesis by auto
  next
    case (Some p)
    obtain pu pn where p: "p = (pu, pn)" by (cases p)
    obtain fr fo where climbed: "climb parents frontier (found(origin \<mapsto> chain_at found origin @ [pn])) = (fr, fo)" by fastforce
    with 2(3) Some p have eq: "frontier' = (origin, pu) # fr" "found' = fo" by auto
    from 2(2) [OF Some p [symmetric] climbed] 2(4) have IH: "map_of fr x = (case map_of frontier x of None \<Rightarrow> None | Some place \<Rightarrow> map_option fst (parents place))"
      "chain_at fo x = (if x = origin then chain_at found origin @ [pn] else chain_at found x) @ (case map_of frontier x of None \<Rightarrow> [] | Some place \<Rightarrow>
        (case parents place of None \<Rightarrow> [] | Some (_, parent_name) \<Rightarrow> [parent_name]))"
      "distinct (map fst fr)" "set (map fst fr) \<subseteq> set (map fst frontier)" unfolding chain_at_update by auto
    have "origin \<notin> set (map fst fr)" using IH(4) 2(4) by auto
    with IH out Some p eq show ?thesis by auto
  qed
qed auto

lemma climb_levels_ancestors:
  assumes "graph_lib db edges" and "distinct (map fst frontier)"
  shows "\<exists>found'. climb_levels db depth frontier found = Inr found' \<and>
    (\<forall>x. chain_at found' x = chain_at found x @ (case map_of frontier x of None \<Rightarrow> [] | Some place \<Rightarrow> ancestors edges depth place))"
  using assms(2)
proof (induction depth arbitrary: frontier found)
  case (Suc depth)
  show ?case
  proof (cases "frontier = []")
    case False
    obtain parents where parents: "member_of_parents db (remdups_adj (sort (map snd frontier))) = Inr parents"
      "\<And>uid. uid \<in> snd ` set frontier \<Longrightarrow> parents uid = least_parent edges uid"
      using member_of_parents_least [OF assms(1), of "remdups_adj (sort (map snd frontier))"] by auto
    obtain fr fo where climbed: "climb parents frontier found = (fr, fo)" by fastforce
    note step = climb_frontier [OF climbed Suc.prems]
    from Suc.IH [of fr fo] step obtain found' where found': "climb_levels db depth fr fo = Inr found'"
      "\<And>x. chain_at found' x = chain_at fo x @ (case map_of fr x of None \<Rightarrow> [] | Some place \<Rightarrow> ancestors edges depth place)" by blast
    have "chain_at found' x = chain_at found x @ (case map_of frontier x of None \<Rightarrow> [] | Some place \<Rightarrow> ancestors edges (Suc depth) place)" for x
    proof (cases "map_of frontier x")
      case (Some place)
      then have "place \<in> snd ` set frontier" by (force dest: map_of_SomeD)
      with parents(2) have "parents place = least_parent edges place" by blast
      with Some step [of x] found'(2) [of x] show ?thesis by (auto split: option.splits)
    qed (use step [of x] found'(2) [of x] in simp)
    with False parents(1) climbed found'(1) show ?thesis by (auto simp: and_then_def)
  qed simp
qed (auto split: option.splits)

lemma container_chains_total:
  assumes "graph_lib db edges" and "distinct uids"
  obtains found where "container_chains db uids depth = Inr found" "\<And>uid. uid \<in> set uids \<Longrightarrow> chain_at found uid = ancestors edges depth uid"
proof -
  have "distinct (map fst (map (\<lambda>uid. (uid, uid)) uids))" using assms(2) by (simp add: comp_def)
  from climb_levels_ancestors [OF assms(1) this, of depth Map.empty] obtain found
    where "climb_levels db depth (map (\<lambda>uid. (uid, uid)) uids) Map.empty = Inr found"
      "\<And>x. chain_at found x = (case map_of (map (\<lambda>uid. (uid, uid)) uids) x of None \<Rightarrow> [] | Some place \<Rightarrow> ancestors edges depth place)"
    by auto
  moreover have "map_of (map (\<lambda>uid. (uid, uid)) uids) uid = Some uid" if "uid \<in> set uids" for uid
    using that by (induction uids) auto
  ultimately show ?thesis using that by (auto simp: container_chains_def)
qed

text \<open>A symbol's container chain: the names of its ancestors, or the receiver of a Go method without a parent.\<close>

definition owner_chain :: "parent_row list \<Rightarrow> nat \<Rightarrow> symbol \<Rightarrow> string list" where
  "owner_chain edges depth s =
     (if ancestors edges depth (sy_uid s) \<noteq> [] then ancestors edges depth (sy_uid s)
      else if depth = 0 then []
      else case go_receiver_type (sy_file_path s) (sy_signature s) of None \<Rightarrow> [] | Some receiver \<Rightarrow> [receiver])"

lemma chain_add_receiver:
  "chain_at (add_receiver s found) x =
     (if x = sy_uid s \<and> chain_at found x = [] then
        (case go_receiver_type (sy_file_path s) (sy_signature s) of None \<Rightarrow> [] | Some receiver \<Rightarrow> [receiver])
      else chain_at found x)"
  by (auto simp: add_receiver_def split: option.splits)

lemma chain_add_receivers:
  assumes "distinct (map sy_uid symbols)" and "s \<in> set symbols"
  shows "chain_at (fold add_receiver symbols found) (sy_uid s) =
    (if chain_at found (sy_uid s) = [] then
        (case go_receiver_type (sy_file_path s) (sy_signature s) of None \<Rightarrow> [] | Some receiver \<Rightarrow> [receiver])
      else chain_at found (sy_uid s))"
  using assms
proof (induction symbols arbitrary: found)
  case (Cons t symbols)
  have other: "chain_at (fold add_receiver ts found) x = chain_at found x" if "x \<notin> sy_uid ` set ts" for ts found x
    using that by (induction ts arbitrary: found) (auto simp: chain_add_receiver)
  show ?case
  proof (cases "s = t")
    case True
    with Cons.prems(1) have "sy_uid s \<notin> sy_uid ` set symbols" by auto
    with True other show ?thesis by (auto simp: chain_add_receiver)
  next
    case False
    with Cons.prems have s: "s \<in> set symbols" by simp
    then have "sy_uid s \<in> sy_uid ` set symbols" by (rule imageI)
    with Cons.prems(1) have "sy_uid s \<noteq> sy_uid t" by auto
    note s this
    with Cons.prems(1) Cons.IH show ?thesis by (simp add: chain_add_receiver)
  qed
qed simp

lemma symbol_container_chains_total:
  assumes "graph_lib db edges" and "distinct (map sy_uid symbols)"
  obtains found where "symbol_container_chains db symbols depth = Inr found"
    "\<And>s. s \<in> set symbols \<Longrightarrow> chain_at found (sy_uid s) = owner_chain edges depth s"
proof -
  obtain found where found: "container_chains db (map sy_uid symbols) depth = Inr found"
    "\<And>uid. uid \<in> set (map sy_uid symbols) \<Longrightarrow> chain_at found uid = ancestors edges depth uid"
    using container_chains_total [OF assms] by blast
  let ?found = "if 0 < depth then fold add_receiver symbols found else found"
  have "chain_at ?found (sy_uid s) = owner_chain edges depth s" if "s \<in> set symbols" for s
    using chain_add_receivers [OF assms(2) that, of found] found(2) that by (auto simp: owner_chain_def)
  with found(1) that [of ?found] show ?thesis by (simp add: symbol_container_chains_def and_then_def)
qed

section \<open>What a lookup answers\<close>

text \<open>How qualifiers read a symbol: as its container chain, or as its file followed by its container chain.\<close>

definition owned_by :: "parent_row list \<Rightarrow> nat \<Rightarrow> string list \<Rightarrow> symbol \<Rightarrow> bool" where
  "owned_by edges depth qualifiers s \<longleftrightarrow> prefix (rev qualifiers) (owner_chain edges depth s)"

definition file_reading :: "parent_row list \<Rightarrow> string list \<Rightarrow> symbol \<Rightarrow> nat option" where
  "file_reading edges qualifiers s =
     (if owned_by edges (length qualifiers) (tl qualifiers) s then file_qualifier_rank (hd qualifiers) (sy_file_path s) else None)"

definition reads :: "parent_row list \<Rightarrow> string list \<Rightarrow> symbol \<Rightarrow> bool" where
  "reads edges qualifiers s \<longleftrightarrow> owned_by edges (length qualifiers) qualifiers s \<or> file_reading edges qualifiers s \<noteq> None"

definition best_file :: "parent_row list \<Rightarrow> string list \<Rightarrow> symbol list \<Rightarrow> symbol \<Rightarrow> bool" where
  "best_file edges qualifiers candidates s \<longleftrightarrow>
     (\<exists>rank. file_reading edges qualifiers s = Some rank \<and>
        (\<forall>t\<in>set candidates. \<forall>r. file_reading edges qualifiers t = Some r \<longrightarrow> rank \<le> r))"

lemma lookup_by_spec:
  assumes lib: "graph_lib db edges" and "db_named db spec = Inr []" and "parse_spec spec = Some q"
    and named: "db_named db (qs_name q) = Inr candidates"
  shows "lookup_symbols_by_spec db spec = Inr (filter (\<lambda>s. owned_by edges (length (qs_qualifiers q)) (qs_qualifiers q) s \<or>
    best_file edges (qs_qualifiers q) candidates s) candidates)"
proof (cases "candidates = []")
  case False
  have dist: "distinct (map sy_uid candidates)" using lib named unfolding graph_lib_def by blast
  let ?n = "length (qs_qualifiers q)"
  obtain found where found: "symbol_container_chains db candidates ?n = Inr found"
    "\<And>s. s \<in> set candidates \<Longrightarrow> chain_at found (sy_uid s) = owner_chain edges ?n s"
    using symbol_container_chains_total [OF lib dist] by blast
  have by_file: "reads_by_file q (chain_at found) s = file_reading edges (qs_qualifiers q) s" if "s \<in> set candidates" for s
    using found(2) [OF that] by (auto simp: reads_by_file_def file_reading_def owned_by_def chain_matches_iff split: option.splits)
  have "best_reading q candidates (chain_at found) s = best_file edges (qs_qualifiers q) candidates s" if "s \<in> set candidates" for s
    using that by (simp add: best_reading_def best_file_def by_file cong: ball_cong)
  then have "select q candidates (chain_at found) = filter (\<lambda>s. owned_by edges ?n (qs_qualifiers q) s \<or>
      best_file edges (qs_qualifiers q) candidates s) candidates"
    unfolding select_filter by (intro filter_cong) (simp_all add: found(2) owned_by_def)
  with False assms found(1) show ?thesis by (simp add: lookup_symbols_by_spec_def and_then_def max_container_depth_def)
qed (use assms in \<open>simp add: lookup_symbols_by_spec_def and_then_def\<close>)

lemma lookup_sound:
  assumes lib: "graph_lib db edges" and look: "lookup_symbols_by_spec db spec = Inr found" and s: "s \<in> set found"
  shows "sy_name s = spec \<or> (\<exists>q. parse_spec spec = Some q \<and> sy_name s = qs_name q \<and> reads edges (qs_qualifiers q) s)"
proof (cases "db_named db spec")
  case (Inr exact)
  have named: "sy_name s = name" if "db_named db name = Inr rows" "s \<in> set rows" for name rows
    using lib that unfolding graph_lib_def by blast
  show ?thesis
  proof (cases "found = exact")
    case True
    with named [OF Inr] s show ?thesis by blast
  next
    case False
    with look Inr obtain q where q: "parse_spec spec = Some q" "exact = []"
      by (auto simp: lookup_symbols_by_spec_def and_then_def split: option.splits if_splits)
    with look Inr obtain candidates where c: "db_named db (qs_name q) = Inr candidates"
      by (auto simp: lookup_symbols_by_spec_def and_then_def split: sum.splits)
    with lookup_by_spec [OF lib _ q(1) c] Inr q(2) look s show ?thesis
      by (auto simp: q(1) reads_def best_file_def dest: named [OF c])
  qed
qed (use look in \<open>simp add: lookup_symbols_by_spec_def and_then_def\<close>)

lemma find_reading_SomeD:
  "find_reading db segments ks = Some (k, reading, found) \<Longrightarrow>
     k \<in> set ks \<and> reading = join ''::'' (drop k segments) \<and> found = unwrap_or [] (lookup_symbols_by_spec db reading)"
  by (induction ks) (auto simp: Let_def split: if_splits)

lemma parse_spec_drop:
  assumes "parse_spec spec = Some q" and "k < length (qs_qualifiers q)"
  shows "parse_spec (join ''::'' (drop k (split_path spec))) = Some \<lparr>qs_qualifiers = drop k (qs_qualifiers q), qs_name = qs_name q\<rparr>"
proof -
  let ?r = "\<lparr>qs_qualifiers = drop k (qs_qualifiers q), qs_name = qs_name q\<rparr>"
  have ok: "spec_ok q" and segs: "split_path spec = spec_segments q" using parse_spec_SomeD [OF assms(1)] by simp_all
  have "spec_segments ?r = drop k (split_path spec)" using assms(2) by (simp add: spec_segments_def segs)
  moreover have "spec_ok ?r" using ok assms(2) set_drop_subset [of k "qs_qualifiers q"]
    by (auto simp: spec_ok_def spec_segments_def list_all_iff)
  ultimately show ?thesis using parse_spec_text [of ?r] by (simp add: spec_text_def)
qed

text \<open>
  C15. Resolving a qualified spec never falls back to the bare name: every symbol answered either bears
  the very text of the spec or of a shorter reading as its name, or bears the last segment and is
  read by at least one qualifier, as its container chain or as its file. A shorter reading answers
  only when the leading qualifier cannot name a file, and never for the owner of a module.
\<close>

theorem resolve_never_guesses:
  assumes "graph_lib db edges" and "\<not> prefix ''sym:'' spec" and "parse_spec spec = Some q"
    and "s \<in> set (resolve_spec db spec)"
  shows "\<exists>k < length (qs_qualifiers q).
    (k = 0 \<or> qs_name q \<noteq> MODULE_OWNER_NAME \<and> \<not> qualifier_may_name_a_file db None (hd (qs_qualifiers q))) \<and>
    (sy_name s = join ''::'' (drop k (split_path spec)) \<or> sy_name s = qs_name q \<and> reads edges (drop k (qs_qualifiers q)) s)"
proof -
  have segs: "split_path spec = qs_qualifiers q @ [qs_name q]" and quals: "qs_qualifiers q \<noteq> []"
    using parse_spec_SomeD [OF assms(3)] by (simp_all add: spec_segments_def spec_ok_def)
  have sound: "sy_name s = join ''::'' (drop k (split_path spec)) \<or> sy_name s = qs_name q \<and> reads edges (drop k (qs_qualifiers q)) s"
    if "k < length (qs_qualifiers q)" and "s \<in> set (unwrap_or [] (lookup_symbols_by_spec db (join ''::'' (drop k (split_path spec)))))" for k
  proof -
    from that(2) obtain found where "lookup_symbols_by_spec db (join ''::'' (drop k (split_path spec))) = Inr found" "s \<in> set found"
      by (cases "lookup_symbols_by_spec db (join ''::'' (drop k (split_path spec)))") (auto simp: unwrap_or_def)
    from lookup_sound [OF assms(1) this] parse_spec_drop [OF assms(3) that(1)] show ?thesis by auto
  qed
  have r: "s \<in> set (sr_symbols (resolve_qualified db spec q))"
    using assms(2-4) by (simp add: resolve_spec_def resolve_spec_detailed_def)
  show ?thesis
  proof (cases "unwrap_or [] (lookup_symbols_by_spec db spec) \<noteq> [] \<or> qs_name q = MODULE_OWNER_NAME")
    case True
    with r have "s \<in> set (unwrap_or [] (lookup_symbols_by_spec db spec))" by (auto simp: resolve_qualified_def Let_def)
    with sound [of 0] quals show ?thesis by (intro exI [of _ 0]) simp
  next
    case False
    with r obtain k reading found where "shorter_qualified_reading db (split_path spec) = Some (k, reading, found)"
      and "s \<in> set found" and leading: "\<not> qualifier_may_name_a_file db None (hd (split_path spec))"
      by (auto simp: resolve_qualified_def Let_def no_resolution_def split: if_splits option.splits)
    then have "k < length (qs_qualifiers q)" "s \<in> set (unwrap_or [] (lookup_symbols_by_spec db (join ''::'' (drop k (split_path spec)))))"
      unfolding shorter_qualified_reading_def by (auto dest!: find_reading_SomeD simp: segs)
    with sound [of k] False leading quals segs show ?thesis by (intro exI [of _ k]) auto
  qed
qed

text \<open>A graph given by its rows answers the queries as relied on.\<close>

definition graph_of :: "symbol list \<Rightarrow> parent_row list \<Rightarrow> graph_db" where
  "graph_of symbols edges =
     \<lparr>db_named = \<lambda>name. Inr (filter (\<lambda>s. sy_name s = name) symbols),
      db_symbol = \<lambda>uid. (case find (\<lambda>s. sy_uid s = uid) symbols of None \<Rightarrow> Inl (QueryFailed uid) | Some s \<Rightarrow> Inr s),
      db_parents = \<lambda>uids. Inr (filter (\<lambda>e. fst e \<in> set uids) edges),
      db_symbols = Inr symbols\<rparr>"

lemma graph_of_lib:
  assumes "distinct (map sy_uid symbols)" and "inj_on fst (snd ` set edges)"
  shows "graph_lib (graph_of symbols edges) edges"
proof -
  have "distinct (map sy_uid (filter P symbols))" for P using assms(1) by (rule distinct_map_filter)
  with assms(2) show ?thesis by (auto simp: graph_lib_def graph_of_def)
qed

definition demo_symbol :: "string \<Rightarrow> string \<Rightarrow> string \<Rightarrow> symbol" where
  "demo_symbol uid name path =
     \<lparr>sy_uid = uid, sy_name = name, sy_kind = Function, sy_repo_uid = ''repo:a'', sy_file_path = path, sy_start_line = 1,
      sy_signature = [], sy_entry_point_kind = None\<rparr>"

definition demo_graph :: graph_db where
  "demo_graph = graph_of [demo_symbol ''c'' ''Svc'' ''b.ts'', demo_symbol ''m'' ''run'' ''b.ts''] [(''m'', ''c'', ''Svc'')]"

lemma demo_graph_lib: "graph_lib demo_graph [(''m'', ''c'', ''Svc'')]"
  unfolding demo_graph_def by (rule graph_of_lib) (simp_all add: demo_symbol_def)

lemma demo_resolves: "resolve_spec demo_graph ''z::Svc::run'' = [demo_symbol ''m'' ''run'' ''b.ts'']"
  by code_simp

theorem resolve_never_guesses_witness: "reads [(''m'', ''c'', ''Svc'')] [''Svc''] (demo_symbol ''m'' ''run'' ''b.ts'')"
proof -
  let ?s = "demo_symbol ''m'' ''run'' ''b.ts''" and ?q = "\<lparr>qs_qualifiers = [''z'', ''Svc''], qs_name = ''run''\<rparr>"
  have parse: "parse_spec ''z::Svc::run'' = Some ?q" and "\<not> prefix ''sym:'' ''z::Svc::run''" by code_simp+
  moreover have "?s \<in> set (resolve_spec demo_graph ''z::Svc::run'')" by (simp add: demo_resolves)
  ultimately obtain k where "k < length (qs_qualifiers ?q)" and k: "sy_name ?s = join ''::'' (drop k (split_path ''z::Svc::run'')) \<or>
      sy_name ?s = qs_name ?q \<and> reads [(''m'', ''c'', ''Svc'')] (drop k (qs_qualifiers ?q)) ?s"
    using resolve_never_guesses [OF demo_graph_lib, of "''z::Svc::run''" ?q ?s] by blast
  then have "k = 0 \<or> k = 1" by auto
  moreover have "\<not> reads [(''m'', ''c'', ''Svc'')] [''z'', ''Svc''] ?s"
    "sy_name ?s \<noteq> join ''::'' (drop 0 (split_path ''z::Svc::run''))" "sy_name ?s \<noteq> join ''::'' (drop 1 (split_path ''z::Svc::run''))"
    by code_simp+
  ultimately show ?thesis using k by (elim disjE) simp_all
qed

text \<open>
  The text of a qualified spec determines it: what parses is exactly the text of a spec with at
  least one qualifier whose segments are not empty and do not run into their separators.
\<close>

theorem spec_parse_canonical: "parse_spec s = Some q \<longleftrightarrow> spec_ok q \<and> s = spec_text q"
  by (rule specs.dec_iff)

text \<open>
  The container chains of the symbols of a query, read level by level for all of them at once in
  batches of parent queries, are the chains each symbol gets by climbing alone from parent to
  parent, taking the parent with the least UID where there are several.
\<close>

theorem chains_climb_least_parents:
  assumes "graph_lib db edges" and "distinct uids"
  shows "\<exists>found. container_chains db uids depth = Inr found \<and> map (chain_at found) uids = map (ancestors edges depth) uids"
  using container_chains_total [OF assms, of depth] by (metis map_eq_conv)

theorem chains_climb_least_parents_witness:
  "\<exists>found. container_chains demo_graph [''m'', ''c''] 3 = Inr found \<and> map (chain_at found) [''m'', ''c''] = [[''Svc''], []]"
proof -
  have "map (ancestors [(''m'', ''c'', ''Svc'')] 3) [''m'', ''c''] = [[''Svc''], []]" by code_simp
  with chains_climb_least_parents [OF demo_graph_lib, of "[''m'', ''c'']" 3] show ?thesis by simp
qed

end
