(* ===== verification/Symbol_Search.thy ===== *)
theory Symbol_Search
  imports Complex_Main Symbol_Lookup "HOL-Library.Product_Lexorder" "HOL-Library.Multiset"
begin

text \<open>
  The ranked substring search over symbol names (\<^verbatim>\<open>nestweaver-store/src/traverse.rs\<close>, with the
  configuration of \<^verbatim>\<open>nestweaver-store/src/ranking.rs\<close>): one pass over the table of names keeps the
  best \<open>limit\<close> candidates in a bounded heap and counts the matches up to a cap. The lemmas show that
  the page is the front of the full ranking and that the count is what it says.

  The heap of the standard library is the list of what it holds, with the greatest element under the
  order of the candidates at its head; its inner layout is not observable. Scores are rationals.
\<close>

section \<open>Configuration\<close>

record path_deboost_rule =
  pd_prefix :: "string option"
  pd_suffix :: "string option"
  pd_factor :: rat

record seed_resolution_config =
  sc_path_deboost :: "path_deboost_rule list"
  sc_kind_priority :: "string list"

definition default_kind_priority :: "string list" where
  "default_kind_priority =
     [''Class'', ''Interface'', ''TypeAlias'', ''Method'', ''Function'', ''Constant'', ''Property'', ''Variable'', ''Module'',
      ''Enum'', ''Trait'', ''Extension'']"

definition prefix_rule :: "string \<Rightarrow> rat \<Rightarrow> path_deboost_rule" where
  "prefix_rule p factor = \<lparr>pd_prefix = Some p, pd_suffix = None, pd_factor = factor\<rparr>"

definition suffix_rule :: "string \<Rightarrow> rat \<Rightarrow> path_deboost_rule" where
  "suffix_rule s factor = \<lparr>pd_prefix = None, pd_suffix = Some s, pd_factor = factor\<rparr>"

definition default_seed_resolution :: seed_resolution_config where
  "default_seed_resolution =
     \<lparr>sc_path_deboost =
        [prefix_rule ''/playwright/'' (2 / 10), prefix_rule ''/__tests__/'' (3 / 10), prefix_rule ''/cypress/'' (3 / 10),
         prefix_rule ''/e2e/'' (3 / 10), prefix_rule ''/tests/'' (3 / 10), prefix_rule ''/test/'' (3 / 10),
         prefix_rule ''/spec/'' (3 / 10), prefix_rule ''/__mocks__/'' (3 / 10), prefix_rule ''/fixtures/'' (4 / 10),
         prefix_rule ''/jasmine/'' (2 / 10), prefix_rule ''/mocha/'' (2 / 10), prefix_rule ''/qunit/'' (2 / 10),
         prefix_rule ''/jest/'' (2 / 10), prefix_rule ''/karma/'' (2 / 10),
         suffix_rule ''.test.tsx'' (5 / 10), suffix_rule ''.test.ts'' (5 / 10), suffix_rule ''.test.jsx'' (5 / 10),
         suffix_rule ''.test.js'' (5 / 10), suffix_rule ''.spec.ts'' (5 / 10)],
      sc_kind_priority = default_kind_priority\<rparr>"

definition rule_matches :: "string \<Rightarrow> path_deboost_rule \<Rightarrow> bool" where
  "rule_matches file_path rule \<longleftrightarrow>
     (case (pd_prefix rule, pd_suffix rule) of
        (Some p, None) \<Rightarrow> sublist p (''/'' @ to_lowercase file_path)
      | (None, Some s) \<Rightarrow> suffix s file_path
      | _ \<Rightarrow> False)"

fun compute_path_factor :: "string \<Rightarrow> path_deboost_rule list \<Rightarrow> rat" where
  "compute_path_factor file_path [] = 1"
| "compute_path_factor file_path (rule # rules) =
     (if rule_matches file_path rule then pd_factor rule else 1) * compute_path_factor file_path rules"

fun position :: "('a \<Rightarrow> bool) \<Rightarrow> 'a list \<Rightarrow> nat option" where
  "position P [] = None"
| "position P (x # xs) = (if P x then Some 0 else map_option Suc (position P xs))"

definition kind_rank :: "symbol_kind \<Rightarrow> string list \<Rightarrow> nat" where
  "kind_rank kind kind_priority =
     (case position (\<lambda>k. k = kind_as_str kind) kind_priority of None \<Rightarrow> 2 ^ 64 - 1 | Some i \<Rightarrow> i)"

section \<open>The table of names and the page\<close>

type_synonym name_table = "(string \<times> symbol) list"

definition name_table_of :: "symbol list \<Rightarrow> name_table" where
  "name_table_of rows = map (\<lambda>s. (to_lowercase (sy_name s), s)) rows"

definition symbol_name_table :: "graph_db \<Rightarrow> store_error + name_table" where
  "symbol_name_table db = and_then (db_symbols db) (\<lambda>rows. Inr (name_table_of rows))"

definition scan_table :: "(string \<Rightarrow> symbol \<Rightarrow> 'a option) \<Rightarrow> name_table \<Rightarrow> 'a list" where
  "scan_table visit table = List.map_filter (\<lambda>(lower, s). visit lower s) table"

record ranked_symbol =
  rk_tier :: nat
  rk_score :: rat
  rk_kind :: nat
  rk_path :: string
  rk_ordinal :: nat
  rk_symbol :: symbol

text \<open>The order of the candidates: a lesser key ranks better.\<close>

definition rank_key :: "ranked_symbol \<Rightarrow> int \<times> rat \<times> nat \<times> string \<times> nat" where
  "rank_key r = (- int (rk_tier r), - rk_score r, rk_kind r, rk_path r, rk_ordinal r)"

definition heap_peek :: "ranked_symbol list \<Rightarrow> ranked_symbol" where
  "heap_peek heap = last (sort_key rank_key heap)"

definition heap_pop :: "ranked_symbol list \<Rightarrow> ranked_symbol list" where
  "heap_pop heap = remove1 (heap_peek heap) heap"

definition push_bounded :: "nat \<Rightarrow> ranked_symbol \<Rightarrow> ranked_symbol list \<Rightarrow> ranked_symbol list" where
  "push_bounded limit r heap =
     (if limit = 0 then heap
      else if length heap < limit then r # heap
      else if rank_key r < rank_key (heap_peek heap) then r # heap_pop heap
      else heap)"

definition name_match :: "string \<Rightarrow> string \<Rightarrow> string \<Rightarrow> symbol \<Rightarrow> nat \<times> rat" where
  "name_match query needle lower s =
     (if sy_name s = query then (3, 4)
      else if lower = needle then (2, 4)
      else if prefix needle lower then (1, 2)
      else (0, 1))"

definition listed_for :: "string \<Rightarrow> (symbol \<Rightarrow> bool) \<Rightarrow> string \<times> symbol \<Rightarrow> bool" where
  "listed_for needle keep entry \<longleftrightarrow>
     (case entry of (lower, s) \<Rightarrow> sublist needle lower \<and> \<not> (is_module_owner s \<and> lower \<noteq> needle) \<and> keep s)"

definition rank_of :: "string \<Rightarrow> seed_resolution_config \<Rightarrow> nat \<times> string \<times> symbol \<Rightarrow> ranked_symbol" where
  "rank_of query cfg entry =
     (case entry of (ordinal, lower, s) \<Rightarrow>
        let (tier, base_score) = name_match query (to_lowercase query) lower s
        in \<lparr>rk_tier = tier, rk_score = base_score * compute_path_factor (sy_file_path s) (sc_path_deboost cfg),
            rk_kind = kind_rank (sy_kind s) (sc_kind_priority cfg), rk_path = sy_file_path s, rk_ordinal = ordinal, rk_symbol = s\<rparr>)"

record search_scan =
  ss_heap :: "ranked_symbol list"
  ss_counted :: nat
  ss_saturated :: bool

definition scan_entry ::
  "string \<Rightarrow> nat \<Rightarrow> seed_resolution_config \<Rightarrow> nat \<Rightarrow> (symbol \<Rightarrow> bool) \<Rightarrow> nat \<times> string \<times> symbol \<Rightarrow> search_scan \<Rightarrow> search_scan" where
  "scan_entry query limit cfg count_cap keep entry st =
     (if \<not> listed_for (to_lowercase query) keep (snd entry) then st
      else
        let counted = (if ss_counted st < count_cap then ss_counted st + 1 else ss_counted st);
            saturated = (if ss_counted st < count_cap then ss_saturated st \<or> counted = count_cap else True)
        in \<lparr>ss_heap = push_bounded limit (rank_of query cfg entry) (ss_heap st), ss_counted = counted, ss_saturated = saturated\<rparr>)"

datatype search_total = ExactTotal nat | LowerBound nat

record symbol_search_page =
  sp_symbols :: "symbol list"
  sp_total :: search_total

definition SEARCH_PRESENTATION_LIMIT_MAX :: nat where
  "SEARCH_PRESENTATION_LIMIT_MAX = 10000"

definition SYMBOL_SEARCH_COUNT_CAP :: nat where
  "SYMBOL_SEARCH_COUNT_CAP = 100000"

definition rank_symbol_name_page ::
  "name_table \<Rightarrow> string \<Rightarrow> nat \<Rightarrow> seed_resolution_config \<Rightarrow> nat \<Rightarrow> (symbol \<Rightarrow> bool) \<Rightarrow> store_error + symbol_search_page" where
  "rank_symbol_name_page table query limit cfg count_cap keep =
     (if SEARCH_PRESENTATION_LIMIT_MAX < limit then Inl (PresentationLimitExceeded limit SEARCH_PRESENTATION_LIMIT_MAX)
      else
        let st = fold (scan_entry query limit cfg count_cap keep) (enumerate 0 table) \<lparr>ss_heap = [], ss_counted = 0, ss_saturated = False\<rparr>
        in Inr \<lparr>sp_symbols = map rk_symbol (sort_key rank_key (ss_heap st)),
                sp_total = (if ss_saturated st then LowerBound (ss_counted st) else ExactTotal (ss_counted st))\<rparr>)"

definition search_page :: "name_table \<Rightarrow> string \<Rightarrow> nat \<Rightarrow> seed_resolution_config \<Rightarrow> store_error + symbol_search_page" where
  "search_page table query limit cfg = rank_symbol_name_page table query limit cfg SYMBOL_SEARCH_COUNT_CAP (\<lambda>_. True)"

definition search_page_filtered ::
  "name_table \<Rightarrow> string \<Rightarrow> nat \<Rightarrow> seed_resolution_config \<Rightarrow> (symbol \<Rightarrow> bool) \<Rightarrow> store_error + symbol_search_page" where
  "search_page_filtered table query limit cfg keep = rank_symbol_name_page table query limit cfg SYMBOL_SEARCH_COUNT_CAP keep"

definition search_symbols_by_name_page :: "graph_db \<Rightarrow> string \<Rightarrow> nat \<Rightarrow> seed_resolution_config \<Rightarrow> store_error + symbol_search_page" where
  "search_symbols_by_name_page db query limit cfg =
     (if SEARCH_PRESENTATION_LIMIT_MAX < limit then Inl (PresentationLimitExceeded limit SEARCH_PRESENTATION_LIMIT_MAX)
      else and_then (symbol_name_table db) (\<lambda>table. search_page table query limit cfg))"

section \<open>The bounded heap keeps the best\<close>

lemma sort_key_unique:
  assumes "mset xs = mset ys" and "inj_on f (set ys)" and "sorted (map f ys)"
  shows "sort_key f xs = ys"
proof (rule properties_for_sort_key)
  show "filter (\<lambda>x. f k = f x) ys = filter (\<lambda>x. f k = f x) xs" if "k \<in> set ys" for k
  proof -
    have one: "filter (\<lambda>x. f k = f x) zs = replicate (count (mset zs) k) k" if "set zs \<subseteq> set ys" for zs
      using that \<open>k \<in> set ys\<close> assms(2) by (induction zs) (auto simp: inj_on_def)
    have "set xs = set ys" using assms(1) by (rule mset_eq_setD)
    then show ?thesis using one [of ys] one [of xs] assms(1) by simp
  qed
qed (use assms in auto)

lemma take_insort: "take n (insort_key f x ys) = take n (insort_key f x (take n ys))"
  by (induction ys arbitrary: n) (auto simp: take_Cons split: nat.splits)

lemma sorted_last: "sorted (map f xs) \<Longrightarrow> y \<in> set xs \<Longrightarrow> f y \<le> f (last xs)"
  by (induction xs) auto

lemma insort_last: "\<forall>y\<in>set ys. f y < f x \<Longrightarrow> insort_key f x ys = ys @ [x]"
  by (induction ys) auto

lemma take_insort_better:
  assumes "ys \<noteq> []" and "sorted (map f ys)" and "f x < f (last ys)"
  shows "take (length ys) (insort_key f x ys) = insort_key f x (butlast ys)"
  using assms
proof (induction ys)
  case (Cons y ys)
  show ?case
  proof (cases "ys = []")
    case False
    with Cons show ?thesis by (auto simp: take_Cons' butlast_conv_take)
  qed (use Cons in auto)
qed simp

lemma push_bounded_best:
  assumes "inj_on rank_key (insert r (set seen))" and "r \<notin> set seen"
    and heap: "sort_key rank_key heap = take limit (sort_key rank_key seen)"
  shows "sort_key rank_key (push_bounded limit r heap) = take limit (sort_key rank_key (r # seen))"
proof -
  let ?sort = "sort_key rank_key"
  have len: "length heap = min limit (length seen)" using arg_cong [OF heap, of length] by simp
  have sub: "set heap \<subseteq> set seen" using heap by (metis set_sort set_take_subset)
  have take: "take limit (?sort (r # seen)) = take limit (insort_key rank_key r (?sort heap))"
    using take_insort [of limit rank_key r "?sort seen"] by (simp add: heap)
  show ?thesis
  proof (cases "length heap < limit")
    case True
    then show ?thesis using take by (simp add: push_bounded_def)
  next
    case full: False
    then have full: "length heap = limit" using len by simp
    show ?thesis
    proof (cases "limit = 0")
      case False
      then have ne: "?sort heap \<noteq> []" using full by (metis length_0_conv length_sort)
      have sorted: "sorted (map rank_key (?sort heap))" by simp
      have peek: "heap_peek heap \<in> set heap" using ne unfolding heap_peek_def by (metis last_in_set set_sort)
      show ?thesis
      proof (cases "rank_key r < rank_key (heap_peek heap)")
        case True
        have "?sort (heap_pop heap) = butlast (?sort heap)"
        proof (rule sort_key_unique)
          have "mset (butlast (?sort heap) @ [last (?sort heap)]) = mset heap" unfolding append_butlast_last_id [OF ne] by simp
          then have "mset heap = add_mset (heap_peek heap) (mset (butlast (?sort heap)))" by (simp add: heap_peek_def)
          then show "mset (heap_pop heap) = mset (butlast (?sort heap))" using peek by (simp add: heap_pop_def)
          show "inj_on rank_key (set (butlast (?sort heap)))"
          proof (rule inj_on_subset [OF assms(1)])
            have "set (butlast (?sort heap)) \<subseteq> set heap" by (metis in_set_butlastD set_sort subsetI)
            then show "set (butlast (?sort heap)) \<subseteq> insert r (set seen)" using sub by blast
          qed
          show "sorted (map rank_key (butlast (?sort heap)))" using sorted by (simp add: map_butlast sorted_butlast)
        qed
        with True False full take take_insort_better [OF ne sorted, of r] show ?thesis
          by (simp add: push_bounded_def heap_peek_def)
      next
        case worse: False
        have "rank_key y < rank_key r" if "y \<in> set heap" for y
        proof -
          have "rank_key y \<le> rank_key (heap_peek heap)" unfolding heap_peek_def
            by (rule sorted_last [OF sorted]) (simp add: that)
          moreover have "rank_key y \<noteq> rank_key r" using that sub assms(1,2) by (auto simp: inj_on_def)
          ultimately show ?thesis using worse by auto
        qed
        then have "insort_key rank_key r (?sort heap) = ?sort heap @ [r]" by (intro insort_last) simp
        with worse False full take show ?thesis by (simp add: push_bounded_def)
      qed
    qed (use heap in \<open>simp add: push_bounded_def\<close>)
  qed
qed

section \<open>The page is the front of the full ranking\<close>

text \<open>All candidates of a query, ranked without a bound.\<close>

definition ranked_matches :: "string \<Rightarrow> seed_resolution_config \<Rightarrow> (symbol \<Rightarrow> bool) \<Rightarrow> (nat \<times> string \<times> symbol) list \<Rightarrow> ranked_symbol list" where
  "ranked_matches query cfg keep entries =
     map (rank_of query cfg) (filter (\<lambda>entry. listed_for (to_lowercase query) keep (snd entry)) entries)"

definition full_ranking :: "name_table \<Rightarrow> string \<Rightarrow> seed_resolution_config \<Rightarrow> (symbol \<Rightarrow> bool) \<Rightarrow> ranked_symbol list" where
  "full_ranking table query cfg keep = sort_key rank_key (ranked_matches query cfg keep (enumerate 0 table))"

lemma rank_of_simps [simp]: "rk_ordinal (rank_of query cfg entry) = fst entry" "rk_symbol (rank_of query cfg entry) = snd (snd entry)"
  "rk_tier (rank_of query cfg entry) = fst (name_match query (to_lowercase query) (fst (snd entry)) (snd (snd entry)))"
  by (auto simp: rank_of_def name_match_def split: prod.splits)

lemma ordinals_ranked: "set (map rk_ordinal (ranked_matches query cfg keep es)) \<subseteq> fst ` set es"
  by (auto simp: ranked_matches_def)

lemma inj_rank_key:
  assumes "distinct (map fst es)"
  shows "inj_on rank_key (set (ranked_matches query cfg keep es))"
proof (rule inj_onI)
  fix a b assume a: "a \<in> set (ranked_matches query cfg keep es)" and b: "b \<in> set (ranked_matches query cfg keep es)"
    and "rank_key a = rank_key b"
  then obtain x y where x: "x \<in> set es" "a = rank_of query cfg x" and y: "y \<in> set es" "b = rank_of query cfg y"
    by (auto simp: ranked_matches_def)
  with \<open>rank_key a = rank_key b\<close> have "fst x = fst y" by (simp add: rank_key_def)
  with assms x(1) y(1) have "x = y" by (auto simp: distinct_map inj_on_def)
  with x(2) y(2) show "a = b" by simp
qed

lemma scan_entry_listed:
  assumes "listed_for (to_lowercase query) keep (snd e)"
  shows "ss_heap (scan_entry query limit cfg count_cap keep e st) = push_bounded limit (rank_of query cfg e) (ss_heap st)"
    and "ss_counted (scan_entry query limit cfg count_cap keep e st) = (if ss_counted st < count_cap then ss_counted st + 1 else ss_counted st)"
    and "ss_saturated (scan_entry query limit cfg count_cap keep e st) =
      (ss_saturated st \<or> count_cap \<le> ss_counted st \<or> ss_counted st + 1 = count_cap)"
  using assms by (auto simp: scan_entry_def Let_def)

lemma scan_entries:
  fixes query limit cfg count_cap keep
  assumes "distinct (map fst es)"
  defines "st \<equiv> fold (scan_entry query limit cfg count_cap keep) es \<lparr>ss_heap = [], ss_counted = 0, ss_saturated = False\<rparr>"
  shows "sort_key rank_key (ss_heap st) = take limit (sort_key rank_key (ranked_matches query cfg keep es)) \<and>
    ss_counted st = min count_cap (length (ranked_matches query cfg keep es)) \<and>
    (ss_saturated st \<longleftrightarrow> ranked_matches query cfg keep es \<noteq> [] \<and> count_cap \<le> length (ranked_matches query cfg keep es))"
  using assms(1) unfolding st_def
proof (induction es rule: rev_induct)
  case (snoc e es)
  let ?M = "ranked_matches query cfg keep"
  let ?st = "fold (scan_entry query limit cfg count_cap keep) es \<lparr>ss_heap = [], ss_counted = 0, ss_saturated = False\<rparr>"
  have dist: "distinct (map fst es)" using snoc.prems by simp
  show ?case
  proof (cases "listed_for (to_lowercase query) keep (snd e)")
    case False
    then have "?M (es @ [e]) = ?M es" by (simp add: ranked_matches_def)
    with False snoc.IH [OF dist] show ?thesis by (simp add: scan_entry_def)
  next
    case True
    let ?r = "rank_of query cfg e"
    have M: "?M (es @ [e]) = ?M es @ [?r]" using True by (simp add: ranked_matches_def)
    have inj: "inj_on rank_key (set (?M es @ [?r]))" using inj_rank_key [OF snoc.prems, of query cfg keep] by (simp only: M)
    have new: "?r \<notin> set (?M es)"
    proof
      assume "?r \<in> set (?M es)"
      then have "rk_ordinal ?r \<in> set (map rk_ordinal (?M es))" unfolding set_map by (rule imageI)
      then have "fst e \<in> fst ` set es" using ordinals_ranked [of query cfg keep es] by auto
      with snoc.prems show False by simp
    qed
    have "sort_key rank_key (?M es @ [?r]) = sort_key rank_key (?r # ?M es)"
    proof (rule sort_key_unique)
      show "inj_on rank_key (set (sort_key rank_key (?r # ?M es)))" using inj by (simp only: set_sort set_append list.set Un_insert_right sup_bot_right)
    qed (simp_all only: sorted_sort_key mset_sort mset_append mset.simps union_mset_add_mset_right empty_neutral)
    moreover have "sort_key rank_key (push_bounded limit ?r (ss_heap ?st)) = take limit (sort_key rank_key (?r # ?M es))"
      by (rule push_bounded_best) (use inj new snoc.IH [OF dist] in simp_all)
    ultimately show ?thesis using snoc.IH [OF dist] by (auto simp: M scan_entry_listed [OF True])
  qed
qed (simp_all add: ranked_matches_def)

text \<open>
  C11. The page is the front of the full ranking: the bounded heap returns exactly as many symbols as the
  limit allows from the front of all the matches sorted by match tier, path-adjusted score, kind, path and place in the
  table; the total counts the matches, exactly below the cap and as a lower bound from there on.
\<close>

theorem page_is_front_of_ranking:
  fixes table query cfg keep
  assumes "limit \<le> SEARCH_PRESENTATION_LIMIT_MAX" and "0 < count_cap"
  defines "n \<equiv> length (full_ranking table query cfg keep)"
  shows "rank_symbol_name_page table query limit cfg count_cap keep =
    Inr \<lparr>sp_symbols = map rk_symbol (take limit (full_ranking table query cfg keep)),
         sp_total = (if n < count_cap then ExactTotal n else LowerBound count_cap)\<rparr>"
proof -
  have "distinct (map fst (enumerate 0 table))" by simp
  note scanned = scan_entries [OF this, of query limit cfg count_cap keep]
  have "n = length (ranked_matches query cfg keep (enumerate 0 table))" by (simp add: n_def full_ranking_def)
  with scanned assms(1,2) show ?thesis by (auto simp: rank_symbol_name_page_def full_ranking_def Let_def min_def)
qed

lemma sorted_key_split:
  assumes "sorted (map f xs)" and "\<And>x y. x \<in> set xs \<Longrightarrow> y \<in> set xs \<Longrightarrow> P x \<Longrightarrow> \<not> P y \<Longrightarrow> f x < f y"
  shows "xs = filter P xs @ filter (\<lambda>x. \<not> P x) xs"
  using assms
proof (induction xs)
  case (Cons x xs)
  show ?case
  proof (cases "P x")
    case False
    have "\<not> P y" if "y \<in> set xs" for y
    proof
      assume "P y"
      then have "f y < f x" using Cons.prems(2) [of y x] that False by simp
      moreover have "f x \<le> f y" using Cons.prems(1) that by simp
      ultimately show False by simp
    qed
    then have "filter P xs = []" "filter (\<lambda>x. \<not> P x) xs = xs" by (simp_all add: filter_empty_conv filter_id_conv)
    with False show ?thesis by simp
  qed (use Cons in auto)
qed simp

text \<open>
  C26. A fuzzier match never displaces an exact one from a capped page: as many symbols as bear exactly
  the name asked for, in its case, come first on the page, as far as the page goes.
\<close>

theorem exact_names_lead:
  assumes "rank_symbol_name_page table query limit cfg count_cap keep = Inr page" and "0 < count_cap"
  shows "list_all (\<lambda>s. sy_name s = query)
    (take (length (filter (\<lambda>entry. listed_for (to_lowercase query) keep entry \<and> sy_name (snd entry) = query) table)) (sp_symbols page))"
proof -
  let ?R = "full_ranking table query cfg keep" and ?P = "\<lambda>r. sy_name (rk_symbol r) = query"
  let ?M = "ranked_matches query cfg keep (enumerate 0 table)"
  have limit: "limit \<le> SEARCH_PRESENTATION_LIMIT_MAX" using assms(1) by (auto simp: rank_symbol_name_page_def split: if_splits)
  have page: "sp_symbols page = map rk_symbol (take limit ?R)"
    using page_is_front_of_ranking [OF limit assms(2), of table query cfg keep] assms(1) by simp
  have tier: "rk_tier r = 3 \<longleftrightarrow> ?P r" and bound: "rk_tier r \<le> 3" if "r \<in> set ?M" for r
    using that by (auto simp: ranked_matches_def name_match_def split: if_splits)
  have lead: "?R = filter ?P ?R @ filter (\<lambda>r. \<not> ?P r) ?R"
  proof (rule sorted_key_split)
    show "sorted (map rank_key ?R)" by (simp add: full_ranking_def)
    fix a b assume "a \<in> set ?R" "b \<in> set ?R" "?P a" "\<not> ?P b"
    with tier [of a] tier [of b] bound [of b] have "rk_tier a = 3" "rk_tier b < 3" by (auto simp: full_ranking_def)
    then show "rank_key a < rank_key b" by (simp add: rank_key_def)
  qed
  have "length (filter ?P ?R) = length (filter ?P ?M)" unfolding full_ranking_def by (metis mset_filter mset_sort size_mset)
  also have "\<dots> = length (filter (\<lambda>entry. listed_for (to_lowercase query) keep entry \<and> sy_name (snd entry) = query) table)"
  proof -
    have "length (filter (\<lambda>e. Q (snd e)) (enumerate k xs)) = length (filter Q xs)" for Q k and xs :: name_table
      by (induction xs arbitrary: k) simp_all
    from this [of "\<lambda>entry. listed_for (to_lowercase query) keep entry \<and> sy_name (snd entry) = query" 0 table]
    show ?thesis by (simp add: ranked_matches_def filter_map comp_def conj_commute)
  qed
  finally have count: "length (filter ?P ?R) = \<dots>" .
  have "set (take (length (filter ?P ?R)) (take limit ?R)) \<subseteq> set (take (length (filter ?P ?R)) ?R)"
    by (simp add: min.commute set_take_subset_set_take)
  also have "take (length (filter ?P ?R)) ?R = filter ?P ?R" by (subst lead) simp
  finally have "list_all ?P (take (length (filter ?P ?R)) (take limit ?R))" by (auto simp: list_all_iff)
  then show ?thesis unfolding page count by (simp add: take_map list.pred_map comp_def)
qed

text \<open>A page of one for a name that three symbols contain, with a count capped at two.\<close>

definition demo_names :: name_table where
  "demo_names = name_table_of [demo_symbol ''a'' ''parse_all'' ''a.ts'', demo_symbol ''b'' ''Parse'' ''tests/b.ts'',
     demo_symbol ''c'' ''parse'' ''tests/c.ts'']"

lemma demo_page: "rank_symbol_name_page demo_names ''parse'' 1 default_seed_resolution 2 (\<lambda>_. True) =
    Inr \<lparr>sp_symbols = [demo_symbol ''c'' ''parse'' ''tests/c.ts''], sp_total = LowerBound 2\<rparr>"
  by code_simp

theorem page_is_front_of_ranking_witness:
  "map rk_symbol (take 1 (full_ranking demo_names ''parse'' default_seed_resolution (\<lambda>_. True))) =
     [demo_symbol ''c'' ''parse'' ''tests/c.ts'']"
  using page_is_front_of_ranking [of 1 2 demo_names "''parse''" default_seed_resolution "\<lambda>_. True"]
  by (simp add: demo_page SEARCH_PRESENTATION_LIMIT_MAX_def del: One_nat_def)

theorem exact_names_lead_witness:
  "list_all (\<lambda>s. sy_name s = ''parse'') [demo_symbol ''c'' ''parse'' ''tests/c.ts'']"
proof -
  have "length (filter (\<lambda>entry. listed_for (to_lowercase ''parse'') (\<lambda>_. True) entry \<and> sy_name (snd entry) = ''parse'') demo_names) = 1"
    by code_simp
  with exact_names_lead [OF demo_page] show ?thesis by simp
qed

end
