(* ===== verification/Did_You_Mean.thy ===== *)
theory Did_You_Mean
  imports Symbol_Search
begin

text \<open>
  The suggestions of a name that resolves to nothing (\<^verbatim>\<open>nestweaver-engine/src/did_you_mean.rs\<close> and
  the not-found part of \<^verbatim>\<open>nestweaver-engine/src/read_symbols.rs\<close>): the members of the file a spec
  names, the substring matches, and the names a small typo away, found by a bounded edit distance.
  The lemmas show that the distance is the least number of edits, that suggestions are few, distinct
  and visible, and that a suggested spec resolves to the symbol it was made from.

  Errors of the store are passed on as they are, without the context the code prints before them.
\<close>

section \<open>The bounded edit distance\<close>

definition DID_YOU_MEAN_LIMIT :: nat where
  "DID_YOU_MEAN_LIMIT = 5"

definition DID_YOU_MEAN_OVER_FETCH :: nat where
  "DID_YOU_MEAN_OVER_FETCH = DID_YOU_MEAN_LIMIT * 4"

definition max_edit_distance :: "nat \<Rightarrow> nat" where
  "max_edit_distance len = (if len \<le> 2 then 0 else if len = 3 \<or> len = 4 then 1 else 2)"

definition abs_diff :: "nat \<Rightarrow> nat \<Rightarrow> nat" where
  "abs_diff m n = (if m < n then n - m else m - n)"

text \<open>The next row of the table, cell by cell, from the row above it.\<close>

definition next_row :: "'a \<Rightarrow> 'a list \<Rightarrow> nat \<Rightarrow> nat list \<Rightarrow> nat list" where
  "next_row ca b i previous =
     fold (\<lambda>j current.
         let substitute = previous ! j + (if ca \<noteq> b ! j then 1 else 0)
         in current @ [min (min substitute (previous ! (j + 1) + 1)) (current ! j + 1)])
       [0..<length b] [i + 1]"

fun edit_rows :: "'a list \<Rightarrow> 'a list \<Rightarrow> nat \<Rightarrow> nat \<Rightarrow> nat list \<Rightarrow> nat option" where
  "edit_rows [] b limit i previous = (if last previous \<le> limit then Some (last previous) else None)"
| "edit_rows (ca # a) b limit i previous =
     (let current = next_row ca b i previous
      in if limit < Min (set current) then None else edit_rows a b limit (i + 1) current)"

definition bounded_edit_distance :: "'a list \<Rightarrow> 'a list \<Rightarrow> nat \<Rightarrow> nat option" where
  "bounded_edit_distance a b limit =
     (if limit < abs_diff (length a) (length b) then None else edit_rows a b limit 0 [0..<length b + 1])"

section \<open>Candidates\<close>

definition typo_match :: "string \<Rightarrow> (symbol \<Rightarrow> bool) \<Rightarrow> string \<Rightarrow> symbol \<Rightarrow> (nat \<times> symbol) option" where
  "typo_match needle keep lower s =
     (let limit = max_edit_distance (length needle)
      in if is_module_owner s \<or> limit < abs_diff (length lower) (length needle) \<or> \<not> keep s then None
         else case bounded_edit_distance needle lower limit of
           None \<Rightarrow> None
         | Some distance \<Rightarrow> if 0 < distance then Some (distance, s) else None)"

definition edit_distance_matches :: "name_table \<Rightarrow> string \<Rightarrow> (symbol \<Rightarrow> bool) \<Rightarrow> symbol list" where
  "edit_distance_matches table name keep =
     (let needle = to_lowercase name
      in if max_edit_distance (length needle) = 0 then []
         else map snd (take DID_YOU_MEAN_OVER_FETCH
                (sort_key (\<lambda>(distance, s). (distance, sy_name s, sy_file_path s)) (scan_table (typo_match needle keep) table))))"

text \<open>Up to the limit of names, each once, in order, after the names already there.\<close>

fun merge_names :: "string list \<Rightarrow> string list \<Rightarrow> string list" where
  "merge_names names [] = names"
| "merge_names names (name # rest) =
     (if length names = DID_YOU_MEAN_LIMIT then names
      else if name \<in> set names then merge_names names rest
      else merge_names (names @ [name]) rest)"

definition suggestion_of :: "chain_map \<Rightarrow> bool \<Rightarrow> symbol \<Rightarrow> string" where
  "suggestion_of containers qualified s =
     (if qualified then
        (case chain_at containers (sy_uid s) of
           container # _ \<Rightarrow> sy_file_path s @ ''::'' @ container @ ''::'' @ sy_name s
         | [] \<Rightarrow> sy_file_path s @ ''::'' @ sy_name s)
      else display_name s)"

definition format_suggestions :: "graph_db \<Rightarrow> bool \<Rightarrow> symbol list \<Rightarrow> store_error + string list" where
  "format_suggestions db qualified symbols =
     and_then (if qualified then symbol_container_chains db symbols 1 else Inr Map.empty) (\<lambda>containers.
       Inr (merge_names [] (map (suggestion_of containers qualified) symbols)))"

definition member_match :: "string \<Rightarrow> (symbol \<Rightarrow> bool) \<Rightarrow> string \<Rightarrow> symbol \<Rightarrow> (nat \<times> symbol) option" where
  "member_match qualifier keep lower s =
     (if is_module_owner s \<or> \<not> keep s then None
      else map_option (\<lambda>rank. (rank, s)) (file_qualifier_rank qualifier (sy_file_path s)))"

definition file_members :: "name_table \<Rightarrow> string \<Rightarrow> (symbol \<Rightarrow> bool) \<Rightarrow> symbol list" where
  "file_members table qualifier keep =
     (let members = scan_table (member_match qualifier keep) table
      in if members = [] then []
         else sort_key (\<lambda>s. (sy_file_path s, sy_start_line s, sy_name s))
                (map snd (filter (\<lambda>(rank, _). rank = Min (set (map fst members))) members)))"

definition in_class :: "chain_map \<Rightarrow> string list \<Rightarrow> symbol list \<Rightarrow> symbol list" where
  "in_class containers inner members =
     (if inner = [] then members
      else let found = filter (\<lambda>s. case chain_at containers (sy_uid s) of container # _ \<Rightarrow> container = last inner | [] \<Rightarrow> False) members
           in if found \<noteq> [] then found else members)"

definition close_distance :: "string \<Rightarrow> symbol \<Rightarrow> nat option" where
  "close_distance name s =
     (let needle = to_lowercase name; lower = to_lowercase (sy_name s)
      in if sublist needle lower \<or> sublist lower needle then Some 0
         else bounded_edit_distance needle lower (max_edit_distance (length needle)))"

definition close_members :: "string \<Rightarrow> symbol list \<Rightarrow> symbol list" where
  "close_members name members =
     (let close = List.map_filter (\<lambda>s. map_option (\<lambda>distance. (distance, s)) (close_distance name s)) members
      in if close = [] then members else map snd (sort_key fst close))"

definition file_member_suggestions :: "graph_db \<Rightarrow> name_table \<Rightarrow> qualified_spec \<Rightarrow> (symbol \<Rightarrow> bool) \<Rightarrow> store_error + string list" where
  "file_member_suggestions db table spec keep =
     (let members = file_members table (hd (qs_qualifiers spec)) keep
      in if members = [] then Inr []
         else and_then (symbol_container_chains db members 1) (\<lambda>containers.
           format_suggestions db True (close_members (qs_name spec) (in_class containers (tl (qs_qualifiers spec)) members))))"

definition file_base :: "string \<Rightarrow> string" where
  "file_base path = last (split_by (\<lambda>c. c = CHR ''/'' \<or> c = CHR 0x5C) path)"

definition same_file_name :: "qualified_spec option \<Rightarrow> symbol \<Rightarrow> bool" where
  "same_file_name qualified s =
     (case qualified of
        Some spec \<Rightarrow>
          if qs_name spec = MODULE_OWNER_NAME then file_base (sy_file_path s) = file_base (hd (qs_qualifiers spec)) else True
      | None \<Rightarrow> True)"

definition qualified_query :: "string \<Rightarrow> qualified_spec option" where
  "qualified_query query = (if prefix ''sym:'' query then None else parse_spec query)"

definition searched_name :: "string \<Rightarrow> string" where
  "searched_name query = (case qualified_query query of Some spec \<Rightarrow> qs_name spec | None \<Rightarrow> query)"

definition rejected_query :: "string \<Rightarrow> bool" where
  "rejected_query query \<longleftrightarrow> CHR '':'' \<in> set (searched_name query) \<or> trim (searched_name query) = []"

definition visible_matches :: "symbol list \<Rightarrow> name_table \<Rightarrow> string \<Rightarrow> (symbol \<Rightarrow> bool) \<Rightarrow> symbol list" where
  "visible_matches page table query keep =
     (let visible = filter (\<lambda>s. keep s \<and> same_file_name (qualified_query query) s) page; search = searched_name query
      in if search \<noteq> MODULE_OWNER_NAME
         then visible @ filter (\<lambda>s. sy_uid s \<notin> sy_uid ` set visible) (edit_distance_matches table search keep)
         else visible)"

definition search_candidates :: "graph_db \<Rightarrow> name_table \<Rightarrow> string \<Rightarrow> (symbol \<Rightarrow> bool) \<Rightarrow> store_error + string list" where
  "search_candidates db table query keep =
     and_then (search_page table (searched_name query) DID_YOU_MEAN_OVER_FETCH default_seed_resolution) (\<lambda>page.
       format_suggestions db (qualified_query query \<noteq> None) (visible_matches (sp_symbols page) table query keep))"

definition candidates_from_table :: "graph_db \<Rightarrow> name_table \<Rightarrow> string \<Rightarrow> (symbol \<Rightarrow> bool) \<Rightarrow> store_error + string list" where
  "candidates_from_table db table query keep =
     and_then (case qualified_query query of None \<Rightarrow> Inr [] | Some spec \<Rightarrow> file_member_suggestions db table spec keep) (\<lambda>members.
       if members \<noteq> [] then Inr members else search_candidates db table query keep)"

text \<open>The table is fetched into its slot once, when a query first needs it.\<close>

definition did_you_mean_candidates_with_table ::
  "graph_db \<Rightarrow> name_table option \<Rightarrow> string \<Rightarrow> (symbol \<Rightarrow> bool) \<Rightarrow> name_table option \<times> (store_error + string list)" where
  "did_you_mean_candidates_with_table db slot query keep =
     (if rejected_query query then (slot, Inr [])
      else case slot of
        Some table \<Rightarrow> (slot, candidates_from_table db table query keep)
      | None \<Rightarrow>
          (case symbol_name_table db of
             Inl e \<Rightarrow> (None, Inl e)
           | Inr table \<Rightarrow> (Some table, candidates_from_table db table query keep)))"

definition did_you_mean_candidates :: "graph_db \<Rightarrow> string \<Rightarrow> (symbol \<Rightarrow> bool) \<Rightarrow> store_error + string list" where
  "did_you_mean_candidates db query keep = snd (did_you_mean_candidates_with_table db None query keep)"

definition did_you_mean_line :: "string list \<Rightarrow> string option" where
  "did_you_mean_line candidates =
     (if candidates = [] then None else Some (''Did you mean: '' @ join '', '' candidates @ ''?''))"

text \<open>Whether a name is met when the limit is already reached, which ends the merge of the seeds.\<close>

fun merge_stops :: "string list \<Rightarrow> string list \<Rightarrow> bool" where
  "merge_stops names [] = False"
| "merge_stops names (name # rest) =
     (if length names = DID_YOU_MEAN_LIMIT then True
      else if name \<in> set names then merge_stops names rest
      else merge_stops (names @ [name]) rest)"

fun merge_seeds ::
  "graph_db \<Rightarrow> (symbol \<Rightarrow> bool) \<Rightarrow> string list \<Rightarrow> name_table option \<Rightarrow> string list \<Rightarrow> store_error + string list" where
  "merge_seeds db keep [] slot names = Inr names"
| "merge_seeds db keep (seed # seeds) slot names =
     (if prefix ''sym:'' (trim seed) \<or> parse_spec (trim seed) = None then merge_seeds db keep seeds slot names
      else case did_you_mean_candidates_with_table db slot (trim seed) keep of
        (slot', Inl e) \<Rightarrow> Inl e
      | (slot', Inr found) \<Rightarrow>
          if merge_stops names found then Inr (merge_names names found)
          else merge_seeds db keep seeds slot' (merge_names names found))"

definition qualified_seed_suggestions :: "graph_db \<Rightarrow> string list \<Rightarrow> (symbol \<Rightarrow> bool) \<Rightarrow> store_error + string list" where
  "qualified_seed_suggestions db seeds keep = merge_seeds db keep seeds None []"

section \<open>The not-found targets of a read\<close>

definition offer_shorter :: "graph_db \<Rightarrow> name_table option \<Rightarrow> string \<Rightarrow> string list \<Rightarrow> string list" where
  "offer_shorter db slot spec found =
     (if parse_spec spec = None then found
      else let segments = split_path spec
           in if \<not> qualifier_may_name_a_file db (map_option (map snd) slot) (hd segments) then found
              else case shorter_qualified_reading db segments of
                None \<Rightarrow> found
              | Some (_, reading, _) \<Rightarrow> reading # filter (\<lambda>name. name \<noteq> reading) found)"

fun suggest_targets ::
  "graph_db \<Rightarrow> string list \<Rightarrow> name_table option \<Rightarrow> (string \<rightharpoonup> string list) \<Rightarrow> (string \<rightharpoonup> string list)" where
  "suggest_targets db [] slot by_target = by_target"
| "suggest_targets db (spec # specs) slot by_target =
     (if prefix ''sym:'' spec \<or> by_target spec \<noteq> None then suggest_targets db specs slot by_target
      else case did_you_mean_candidates_with_table db slot spec (\<lambda>_. True) of (slot', result) \<Rightarrow>
        let names = merge_names [] (offer_shorter db slot' spec (unwrap_or [] result))
        in suggest_targets db specs slot' (if names = [] then by_target else by_target(spec \<mapsto> names)))"

definition not_found_suggestions_by_target :: "graph_db \<Rightarrow> string list \<Rightarrow> (string \<rightharpoonup> string list)" where
  "not_found_suggestions_by_target db not_found = suggest_targets db not_found None Map.empty"

definition flatten_suggestions :: "string list \<Rightarrow> (string \<rightharpoonup> string list) \<Rightarrow> string list" where
  "flatten_suggestions not_found by_target =
     fold (\<lambda>spec names. merge_names names (case by_target spec of None \<Rightarrow> [] | Some found \<Rightarrow> found)) not_found []"

definition not_found_suggestions :: "graph_db \<Rightarrow> string list \<Rightarrow> string list" where
  "not_found_suggestions db not_found = flatten_suggestions not_found (not_found_suggestions_by_target db not_found)"

section \<open>The distance is the least number of edits\<close>

text \<open>A script of \<open>n\<close> edits turns one text into the other: keep, substitute, delete and insert.\<close>

inductive edits :: "nat \<Rightarrow> 'a list \<Rightarrow> 'a list \<Rightarrow> bool" where
  finished: "edits 0 [] []"
| kept: "edits n a b \<Longrightarrow> edits n (x # a) (x # b)"
| substituted: "edits n a b \<Longrightarrow> edits (Suc n) (x # a) (y # b)"
| deleted: "edits n a b \<Longrightarrow> edits (Suc n) (x # a) b"
| inserted: "edits n a b \<Longrightarrow> edits (Suc n) a (y # b)"

fun lev :: "'a list \<Rightarrow> 'a list \<Rightarrow> nat" where
  "lev [] b = length b"
| "lev (x # a) [] = Suc (length a)"
| "lev (x # a) (y # b) =
     min (min (lev a b + (if x \<noteq> y then 1 else 0)) (lev a (y # b) + 1)) (lev (x # a) b + 1)"

lemma lev_least: "edits n a b \<Longrightarrow> lev a b \<le> n"
proof (induction rule: edits.induct)
  case (deleted n a b x)
  then show ?case by (cases b; cases a) auto
next
  case (inserted n a b y)
  then show ?case by (cases a) auto
qed auto

lemma lev_edits: "edits (lev a b) a b"
proof (induction a b rule: lev.induct)
  case (1 b)
  then show ?case by (induction b) (auto intro: edits.intros)
next
  case (2 x a)
  have "edits (length a) a []" by (induction a) (auto intro: edits.intros)
  then show ?case by (auto intro: edits.intros)
next
  case (3 x a y b)
  then have "edits (lev a b + (if x \<noteq> y then 1 else 0)) (x # a) (y # b)" "edits (lev a (y # b) + 1) (x # a) (y # b)"
    "edits (lev (x # a) b + 1) (x # a) (y # b)" by (auto intro: edits.intros)
  then show ?case by (auto simp: min_def)
qed

lemma lev_Least: "lev a b = (LEAST n. edits n a b)"
  by (rule Least_equality [symmetric]) (rule lev_edits, rule lev_least)

lemma edits_snoc:
  assumes "edits n a b"
  shows "edits n (a @ [x]) (b @ [x])" and "edits (Suc n) (a @ [x]) (b @ [y])"
    and "edits (Suc n) (a @ [x]) b" and "edits (Suc n) a (b @ [y])"
  using assms by (induction rule: edits.induct) (auto intro: edits.intros)

lemma edits_rev: "edits n a b \<Longrightarrow> edits n (rev a) (rev b)"
  by (induction rule: edits.induct) (auto intro: edits.intros edits_snoc)

lemma lev_rev: "lev (rev a) (rev b) = lev a b"
  using lev_least [OF edits_rev [OF lev_edits [of a b]]] lev_least [OF edits_rev [OF lev_edits [of "rev a" "rev b"]]] by simp

lemma lev_snoc:
  "lev (a @ [x]) (b @ [y]) = min (min (lev a b + (if x \<noteq> y then 1 else 0)) (lev a (b @ [y]) + 1)) (lev (a @ [x]) b + 1)"
  using lev_rev [of "a @ [x]" "b @ [y]"] lev_rev [of a b] lev_rev [of a "b @ [y]"] lev_rev [of "a @ [x]" b] by simp

lemma lev_Nil_right [simp]: "lev a [] = length a"
  by (cases a) simp_all

lemma edits_length: "edits n a b \<Longrightarrow> abs_diff (length a) (length b) \<le> n"
  by (induction rule: edits.induct) (auto simp: abs_diff_def split: if_splits)

lemma edits_prefix: "edits n (p @ q) b \<Longrightarrow> \<exists>j\<le>length b. \<exists>m\<le>n. edits m p (take j b)"
proof (induction n "p @ q" b arbitrary: p rule: edits.induct)
  case finished
  then show ?case by (auto intro: edits.finished)
next
  case (kept n a b x)
  show ?case
  proof (cases p)
    case (Cons x' p')
    with kept obtain j m where "j \<le> length b" "m \<le> n" "edits m p' (take j b)" by auto
    with Cons kept show ?thesis by (intro exI [of _ "Suc j"]) (auto intro: edits.intros)
  qed (auto intro!: exI [of _ 0] edits.finished)
next
  case (substituted n a b x y)
  show ?case
  proof (cases p)
    case (Cons x' p')
    with substituted obtain j m where "j \<le> length b" "m \<le> n" "edits m p' (take j b)" by auto
    with Cons show ?thesis by (intro exI [of _ "Suc j"]) (auto intro: edits.intros)
  qed (auto intro!: exI [of _ 0] edits.finished)
next
  case (deleted n a b x)
  show ?case
  proof (cases p)
    case (Cons x' p')
    with deleted obtain j m where "j \<le> length b" "m \<le> n" "edits m p' (take j b)" by auto
    with Cons show ?thesis by (intro exI [of _ j]) (auto intro: edits.intros)
  qed (auto intro!: exI [of _ 0] edits.finished)
next
  case (inserted n b y)
  then obtain j m where "j \<le> length b" "m \<le> n" "edits m p (take j b)" by blast
  then show ?case by (intro exI [of _ "Suc j"]) (auto intro: edits.intros)
qed

definition row_of :: "'a list \<Rightarrow> 'a list \<Rightarrow> nat list" where
  "row_of a b = map (\<lambda>j. lev a (take j b)) [0..<length b + 1]"

lemma next_row_prefix:
  "k \<le> length b \<Longrightarrow>
   fold (\<lambda>j current.
         let substitute = row_of a b ! j + (if ca \<noteq> b ! j then 1 else 0)
         in current @ [min (min substitute (row_of a b ! (j + 1) + 1)) (current ! j + 1)])
       [0..<k] [length a + 1] = map (\<lambda>j. lev (a @ [ca]) (take j b)) [0..<k + 1]"
proof (induction k)
  case (Suc k)
  have nths: "row_of a b ! k = lev a (take k b)" "row_of a b ! Suc k = lev a (take (Suc k) b)"
    using Suc.prems by (simp_all add: row_of_def del: upt_Suc)
  have cut: "take (Suc k) b = take k b @ [b ! k]" using Suc.prems by (simp add: take_Suc_conv_app_nth)
  have cell: "map (\<lambda>j. lev (a @ [ca]) (take j b)) [0..<k + 1] ! k = lev (a @ [ca]) (take k b)" by (simp del: upt_Suc)
  have "lev (a @ [ca]) (take (Suc k) b) =
      min (min (lev a (take k b) + (if ca \<noteq> b ! k then 1 else 0)) (lev a (take (Suc k) b) + 1)) (lev (a @ [ca]) (take k b) + 1)"
    unfolding cut by (rule lev_snoc)
  with Suc nths cell show ?case by (simp add: Let_def)
qed simp

lemma next_row_of: "next_row ca b (length a) (row_of a b) = row_of (a @ [ca]) b"
  using next_row_prefix [of "length b" b a ca] by (simp add: next_row_def row_of_def)

lemma edit_rows_lev:
  "edit_rows q b limit (length p) (row_of p b) = (if lev (p @ q) b \<le> limit then Some (lev (p @ q) b) else None)"
proof (induction q arbitrary: p)
  case Nil
  have "last (row_of p b) = lev p b" by (simp add: row_of_def)
  then show ?case by simp
next
  case (Cons ca q)
  have step: "next_row ca b (length p) (row_of p b) = row_of (p @ [ca]) b" by (rule next_row_of)
  show ?case
  proof (cases "limit < Min (set (row_of (p @ [ca]) b))")
    case True
    from edits_prefix [of "lev (p @ ca # q) b" "p @ [ca]" q b] lev_edits [of "p @ ca # q" b]
    obtain j m where j: "j \<le> length b" "m \<le> lev (p @ ca # q) b" "edits m (p @ [ca]) (take j b)" by auto
    then have "lev (p @ [ca]) (take j b) \<in> set (row_of (p @ [ca]) b)" by (auto simp: row_of_def simp del: upt_Suc)
    then have "Min (set (row_of (p @ [ca]) b)) \<le> lev (p @ [ca]) (take j b)" by (intro Min_le) auto
    also have "\<dots> \<le> lev (p @ ca # q) b" using lev_least [OF j(3)] j(2) by simp
    finally show ?thesis using True by (simp add: step)
  next
    case False
    with Cons [of "p @ [ca]"] show ?thesis by (simp add: step)
  qed
qed

text \<open>
  C14. The bounded edit distance is exact: it answers with the least number of kept, substituted, deleted
  and inserted characters that turns one text into the other when that is at most the limit, and
  with nothing otherwise; the early exits on the lengths and on the least cell of a row lose no answer.
\<close>

theorem bounded_distance_exact:
  "bounded_edit_distance a b limit = (let d = (LEAST n. edits n a b) in if d \<le> limit then Some d else None)"
proof -
  have "row_of [] b = [0..<length b + 1]" unfolding row_of_def by (rule map_idI) auto
  then have "edit_rows a b limit 0 [0..<length b + 1] = edit_rows a b limit (length ([] :: 'a list)) (row_of [] b)" by simp
  also have "\<dots> = (if lev a b \<le> limit then Some (lev a b) else None)" using edit_rows_lev [of a b limit "[]"] by simp
  finally have rows: "edit_rows a b limit 0 [0..<length b + 1] = (if lev a b \<le> limit then Some (lev a b) else None)" .
  have "abs_diff (length a) (length b) \<le> lev a b" by (rule edits_length [OF lev_edits])
  with rows show ?thesis by (simp add: bounded_edit_distance_def lev_Least [symmetric] Let_def)
qed

section \<open>Suggestions are few, distinct and visible\<close>

lemma merge_names_bounds:
  "length names \<le> DID_YOU_MEAN_LIMIT \<Longrightarrow> distinct names \<Longrightarrow>
     length (merge_names names new) \<le> DID_YOU_MEAN_LIMIT \<and> distinct (merge_names names new) \<and>
     set (merge_names names new) \<subseteq> set names \<union> set new"
  by (induction names new rule: merge_names.induct) auto

text \<open>The candidates are drawn from the table, and only those the caller may see.\<close>

definition drawn_from :: "name_table \<Rightarrow> (symbol \<Rightarrow> bool) \<Rightarrow> symbol list \<Rightarrow> bool" where
  "drawn_from table keep symbols \<longleftrightarrow>
     mset symbols \<subseteq># mset (filter keep (map snd table))"

lemma drawn_fromD: "drawn_from table keep symbols \<Longrightarrow> s \<in> set symbols \<Longrightarrow> s \<in> snd ` set table \<and> keep s"
  using set_mset_mono [of "mset symbols" "mset (filter keep (map snd table))"] by (auto simp: drawn_from_def)

lemma distinct_mset_sub:
  assumes "mset xs \<subseteq># mset ys" and "distinct ys"
  shows "distinct xs"
proof -
  have "count (mset xs) a \<le> 1" for a
  proof -
    have "count (mset xs) a \<le> count (mset ys) a" using assms(1) by (rule mset_subset_eq_count)
    also have "\<dots> \<le> 1" using assms(2) by (simp add: distinct_count_atmost_1)
    finally show ?thesis .
  qed
  then show ?thesis by (metis count_greater_zero_iff distinct_count_atmost_1 le_antisym less_one not_less set_mset_mset count_eq_zero_iff)
qed

lemma drawn_from_distinct:
  assumes "drawn_from table keep symbols" and "distinct (map sy_uid (map snd table))"
  shows "distinct (map sy_uid symbols)"
proof -
  have "mset (map sy_uid symbols) \<subseteq># mset (map sy_uid (filter keep (map snd table)))"
    using assms(1) unfolding drawn_from_def mset_map by (rule image_mset_subseteq_mono)
  moreover have "distinct (map sy_uid (filter keep (map snd table)))" using assms(2) by (rule distinct_map_filter)
  ultimately show ?thesis by (rule distinct_mset_sub)
qed

lemma drawn_from_sub: "drawn_from table keep symbols \<Longrightarrow> mset symbols' \<subseteq># mset symbols \<Longrightarrow> drawn_from table keep symbols'"
  unfolding drawn_from_def by (rule subset_mset.order_trans)

lemma mset_filter_sub: "mset (filter P xs) \<subseteq># mset xs"
  by (simp add: mset_filter)

lemma mset_take_sub: "mset (take n xs) \<subseteq># mset xs"
  by (metis append_take_drop_id mset_append mset_subset_eq_add_left)

lemma sub_add_mset: "M \<subseteq># N \<Longrightarrow> M \<subseteq># add_mset b N"
  by (metis add_mset_add_single mset_subset_eq_add_left subset_mset.order_trans)

lemma mset_scan_sub:
  assumes "\<And>lower s x. visit lower s = Some x \<Longrightarrow> f x = s \<and> keep s"
  shows "mset (map f (scan_table visit table)) \<subseteq># mset (filter keep (map snd table))"
proof (induction table)
  case (Cons e table)
  obtain lower s where e: "e = (lower, s)" by (cases e)
  show ?case
  proof (cases "visit lower s")
    case None
    with Cons e show ?thesis by (auto simp: scan_table_def List.map_filter_def intro: sub_add_mset)
  next
    case (Some x)
    with assms [OF Some] Cons e show ?thesis by (simp add: scan_table_def List.map_filter_def)
  qed
qed (simp add: scan_table_def List.map_filter_def)

lemma edit_matches_drawn: "drawn_from table keep (edit_distance_matches table name keep)"
proof -
  let ?found = "scan_table (typo_match (to_lowercase name) keep) table"
  have found: "mset (map snd ?found) \<subseteq># mset (filter keep (map snd table))"
    by (rule mset_scan_sub) (auto simp: typo_match_def Let_def split: if_splits option.splits)
  let ?key = "\<lambda>(distance, s). (distance, sy_name s, sy_file_path s)"
  have "mset (map snd (take n (sort_key ?key xs))) \<subseteq># mset (map snd xs)" for n and xs :: "(nat \<times> symbol) list"
    using image_mset_subseteq_mono [OF mset_take_sub [of n "sort_key ?key xs"], of snd] by simp
  then have "mset (map snd (take n (sort_key ?key ?found))) \<subseteq># mset (filter keep (map snd table))" for n
    using found by (rule subset_mset.order_trans)
  then show ?thesis by (simp add: edit_distance_matches_def drawn_from_def Let_def del: mset_filter mset_map)
qed

lemma page_drawn:
  assumes "search_page table query limit cfg = Inr page"
  shows "mset (sp_symbols page) \<subseteq># mset (map snd table)"
proof -
  have limit: "limit \<le> SEARCH_PRESENTATION_LIMIT_MAX"
    using assms by (auto simp: search_page_def rank_symbol_name_page_def split: if_splits)
  have cap: "0 < SYMBOL_SEARCH_COUNT_CAP" by (simp add: SYMBOL_SEARCH_COUNT_CAP_def)
  let ?M = "ranked_matches query cfg (\<lambda>_. True) (enumerate 0 table)"
  have "sp_symbols page = map rk_symbol (take limit (full_ranking table query cfg (\<lambda>_. True)))"
    using page_is_front_of_ranking [OF limit cap, of table query cfg "\<lambda>_. True"] assms by (auto simp: search_page_def)
  also have "mset \<dots> \<subseteq># mset (map rk_symbol ?M)"
    using image_mset_subseteq_mono [OF mset_take_sub [of limit "full_ranking table query cfg (\<lambda>_. True)"], of rk_symbol]
    by (simp add: full_ranking_def)
  also have "mset (map rk_symbol ?M) \<subseteq># mset (map snd table)"
  proof -
    have "mset (map (snd \<circ> snd) (filter P (enumerate n table))) \<subseteq># mset (map snd table)" for P n
      by (induction table arbitrary: n) (auto intro: sub_add_mset)
    from this [of "\<lambda>entry. listed_for (to_lowercase query) (\<lambda>_. True) (snd entry)" 0] show ?thesis
      by (simp add: ranked_matches_def comp_def)
  qed
  finally show ?thesis .
qed

lemma mset_disjoint_sub:
  assumes "mset xs \<subseteq># M" and "mset ys \<subseteq># M" and "set xs \<inter> set ys = {}"
  shows "mset (xs @ ys) \<subseteq># M"
proof (rule mset_subset_eqI)
  fix x
  have "count (mset xs) x \<le> count M x" "count (mset ys) x \<le> count M x" using assms(1,2) by (simp_all add: mset_subset_eq_count)
  moreover have "count (mset xs) x = 0 \<or> count (mset ys) x = 0" using assms(3) by (auto simp: count_eq_zero_iff)
  ultimately show "count (mset (xs @ ys)) x \<le> count M x" unfolding mset_append count_union by linarith
qed

lemma visible_matches_drawn:
  assumes "mset page \<subseteq># mset (map snd table)"
  shows "drawn_from table keep (visible_matches page table query keep)"
proof -
  let ?visible = "filter (\<lambda>s. keep s \<and> same_file_name (qualified_query query) s) page"
  let ?typos = "filter (\<lambda>s. sy_uid s \<notin> sy_uid ` set ?visible) (edit_distance_matches table (searched_name query) keep)"
  have "mset ?visible = filter_mset (same_file_name (qualified_query query)) (filter_mset keep (mset page))"
    by (simp add: filter_filter_mset conj_commute)
  also have "\<dots> \<subseteq># filter_mset keep (mset (map snd table))"
    using multiset_filter_mono [OF assms, of keep] by (meson multiset_filter_subset subset_mset.order_trans)
  finally have v: "drawn_from table keep ?visible" by (simp add: drawn_from_def)
  have t: "drawn_from table keep ?typos" using edit_matches_drawn by (rule drawn_from_sub) (rule mset_filter_sub)
  have "drawn_from table keep (?visible @ ?typos)" using v t unfolding drawn_from_def by (rule mset_disjoint_sub) auto
  with v show ?thesis by (simp add: visible_matches_def Let_def)
qed

lemma file_members_drawn: "drawn_from table keep (file_members table qualifier keep)"
proof -
  let ?found = "scan_table (member_match qualifier keep) table"
  have "mset (map snd ?found) \<subseteq># mset (filter keep (map snd table))"
    by (rule mset_scan_sub) (auto simp: member_match_def split: if_splits)
  moreover have "mset (map snd (filter P ?found)) \<subseteq># mset (map snd ?found)" for P
    unfolding mset_map by (rule image_mset_subseteq_mono) (rule mset_filter_sub)
  ultimately have "mset (map snd (filter P ?found)) \<subseteq># mset (filter keep (map snd table))" for P
    by (blast intro: subset_mset.order_trans)
  then show ?thesis by (simp add: file_members_def drawn_from_def Let_def del: mset_filter mset_map)
qed

lemma in_class_drawn: "drawn_from table keep members \<Longrightarrow> drawn_from table keep (in_class containers inner members)"
  by (auto simp: in_class_def Let_def intro: drawn_from_sub mset_filter_sub)

lemma close_members_drawn:
  assumes "drawn_from table keep members"
  shows "drawn_from table keep (close_members name members)"
proof -
  have "mset (map snd (List.map_filter (\<lambda>s. map_option (\<lambda>d. (d, s)) (g s)) xs)) \<subseteq># mset xs" for g :: "symbol \<Rightarrow> nat option" and xs
    by (induction xs) (auto simp: List.map_filter_def intro: sub_add_mset split: option.splits)
  from this [of "close_distance name" members] show ?thesis
    using assms by (auto simp: close_members_def Let_def intro: drawn_from_sub)
qed

lemma and_then_Inr: "and_then r f = Inr y \<longleftrightarrow> (\<exists>x. r = Inr x \<and> f x = Inr y)"
  by (cases r) (auto simp: and_then_def)

text \<open>Every answer is the rendering of symbols drawn from the table.\<close>

lemma candidates_formatted:
  assumes "candidates_from_table db table query keep = Inr names" and "names \<noteq> []"
  shows "\<exists>symbols. drawn_from table keep symbols \<and> format_suggestions db (qualified_query query \<noteq> None) symbols = Inr names"
proof -
  obtain members where members: "(case qualified_query query of None \<Rightarrow> Inr [] | Some spec \<Rightarrow> file_member_suggestions db table spec keep) = Inr members"
    and rest: "(if members \<noteq> [] then Inr members else search_candidates db table query keep) = Inr names"
    using assms(1) by (auto simp: candidates_from_table_def and_then_Inr)
  show ?thesis
  proof (cases "members = []")
    case False
    with members obtain spec where spec: "qualified_query query = Some spec" "file_member_suggestions db table spec keep = Inr members"
      by (auto split: option.splits)
    let ?members = "file_members table (hd (qs_qualifiers spec)) keep"
    from spec(2) False obtain containers
      where "format_suggestions db True (close_members (qs_name spec) (in_class containers (tl (qs_qualifiers spec)) ?members)) = Inr members"
      by (auto simp: file_member_suggestions_def Let_def and_then_Inr split: if_splits)
    moreover have "drawn_from table keep (close_members (qs_name spec) (in_class containers (tl (qs_qualifiers spec)) ?members))"
      by (intro close_members_drawn in_class_drawn file_members_drawn)
    ultimately show ?thesis using rest False spec(1) by auto
  next
    case True
    with rest obtain page where page: "search_page table (searched_name query) DID_YOU_MEAN_OVER_FETCH default_seed_resolution = Inr page"
      and "format_suggestions db (qualified_query query \<noteq> None) (visible_matches (sp_symbols page) table query keep) = Inr names"
      by (auto simp: search_candidates_def and_then_Inr)
    with visible_matches_drawn [OF page_drawn [OF page]] show ?thesis by blast
  qed
qed

lemma did_you_mean_formatted:
  assumes "did_you_mean_candidates db query keep = Inr names" and "names \<noteq> []" and "db_symbols db = Inr rows"
  shows "\<exists>symbols. drawn_from (name_table_of rows) keep symbols \<and> format_suggestions db (qualified_query query \<noteq> None) symbols = Inr names"
proof -
  have "candidates_from_table db (name_table_of rows) query keep = Inr names"
    using assms by (simp add: did_you_mean_candidates_def did_you_mean_candidates_with_table_def symbol_name_table_def and_then_def split: if_splits)
  then show ?thesis using assms(2) by (rule candidates_formatted)
qed

lemma name_table_symbols [simp]: "map snd (name_table_of rows) = rows"
  by (induction rows) (simp_all add: name_table_of_def)

text \<open>
  C22. The suggestions of a miss are at most five, are distinct, and are made only from symbols of the
  graph that the caller may see: a symbol the caller's filter rejects is never named.
\<close>

theorem suggestions_few_and_visible:
  assumes "did_you_mean_candidates db query keep = Inr names" and "db_symbols db = Inr rows"
  shows "length names \<le> 5 \<and> distinct names \<and>
    set names \<subseteq> {suggestion_of containers (qualified_query query \<noteq> None) s |containers s. s \<in> set rows \<and> keep s}"
proof (cases "names = []")
  case False
  from did_you_mean_formatted [OF assms(1) False assms(2)] obtain symbols containers
    where drawn: "drawn_from (name_table_of rows) keep symbols"
      and names: "names = merge_names [] (map (suggestion_of containers (qualified_query query \<noteq> None)) symbols)"
    by (auto simp: format_suggestions_def and_then_Inr)
  have snd: "snd ` set (name_table_of rows) = set rows" by (metis list.set_map name_table_symbols)
  have "set symbols \<subseteq> {s \<in> set rows. keep s}" using drawn_fromD [OF drawn] by (auto simp: snd)
  moreover have "length names \<le> 5" "distinct names" "set names \<subseteq> suggestion_of containers (qualified_query query \<noteq> None) ` set symbols"
    using merge_names_bounds [of "[]" "map (suggestion_of containers (qualified_query query \<noteq> None)) symbols"]
    by (simp_all add: names DID_YOU_MEAN_LIMIT_def)
  ultimately show ?thesis by blast
qed simp

section \<open>Suggestions resolve\<close>

text \<open>
  A symbol that can be addressed by text: its name, its path and its container are not empty and
  have no colon, and its path is written the way a qualifier is read.
\<close>

definition plain_text :: "string \<Rightarrow> bool" where
  "plain_text t \<longleftrightarrow> t \<noteq> [] \<and> CHR '':'' \<notin> set t"

definition addressable :: "parent_row list \<Rightarrow> symbol \<Rightarrow> bool" where
  "addressable edges s \<longleftrightarrow>
     plain_text (sy_name s) \<and> plain_text (sy_file_path s) \<and> normal_qualifier (sy_file_path s) = sy_file_path s \<and>
     list_all plain_text (owner_chain edges 1 s)"

text \<open>The name query answers with exactly the rows of that name.\<close>

definition names_answered :: "graph_db \<Rightarrow> symbol list \<Rightarrow> bool" where
  "names_answered db rows \<longleftrightarrow> (\<forall>name. \<exists>found. db_named db name = Inr found \<and> set found = {s \<in> set rows. sy_name s = name})"

lemma plain_closed: "plain_text p \<Longrightarrow> closed_segment p \<and> \<not> sublist ''::'' p"
proof -
  assume p: "plain_text p"
  then have "\<not> sublist ''::'' p" by (auto simp: plain_text_def sublist_def)
  moreover have "last p \<noteq> CHR '':''" using p last_in_set [of p] unfolding plain_text_def by metis
  ultimately show ?thesis by (simp add: closed_segment_def)
qed

lemma parse_plain: "plain_text p \<Longrightarrow> parse_spec p = None"
  by (simp add: parse_spec_def split_path_single plain_closed)

lemma parse_plain_spec:
  assumes "list_all plain_text qualifiers" and "qualifiers \<noteq> []" and "plain_text name"
  shows "parse_spec (join ''::'' (qualifiers @ [name])) = Some \<lparr>qs_qualifiers = qualifiers, qs_name = name\<rparr>"
proof -
  have "spec_ok \<lparr>qs_qualifiers = qualifiers, qs_name = name\<rparr>"
    using assms by (auto simp: spec_ok_def spec_segments_def list_all_iff plain_closed) (auto simp: plain_text_def)
  from parse_spec_text [OF this] show ?thesis by (simp add: spec_text_def spec_segments_def)
qed

lemma owner_chain_deeper: "prefix (owner_chain edges 1 s) (owner_chain edges (Suc (Suc n)) s)"
  by (auto simp: owner_chain_def split: option.splits)

lemma colon_join: "length ps \<ge> 2 \<Longrightarrow> CHR '':'' \<in> set (join ''::'' ps)"
  by (cases ps; cases "tl ps") auto

text \<open>A spec of the file, the container if there is one, and the name finds the symbol.\<close>

lemma spec_finds:
  assumes lib: "graph_lib db edges" and names: "names_answered db rows" and s: "s \<in> set rows" and addr: "addressable edges s"
    and inner: "inner = [] \<or> owner_chain edges 1 s = inner" and short: "length inner \<le> 1"
    and unnamed: "join ''::'' ((sy_file_path s # inner) @ [sy_name s]) \<notin> sy_name ` set rows"
  shows "\<exists>found. lookup_symbols_by_spec db (join ''::'' ((sy_file_path s # inner) @ [sy_name s])) = Inr found \<and> s \<in> set found"
proof -
  let ?quals = "sy_file_path s # inner" let ?spec = "join ''::'' (?quals @ [sy_name s])"
  from addr have "list_all plain_text ?quals" "plain_text (sy_name s)" using inner by (auto simp: addressable_def)
  then have parse: "parse_spec ?spec = Some \<lparr>qs_qualifiers = ?quals, qs_name = sy_name s\<rparr>" by (intro parse_plain_spec) simp_all
  obtain found where found: "db_named db (sy_name s) = Inr found" "set found = {t \<in> set rows. sy_name t = sy_name s}"
    using names unfolding names_answered_def by blast
  obtain exact where exact: "db_named db ?spec = Inr exact" "set exact = {t \<in> set rows. sy_name t = ?spec}"
    using names unfolding names_answered_def by blast
  have "set exact = {}" unfolding exact(2) using unnamed by force
  then have "exact = []" by simp
  with exact(1) have none: "db_named db ?spec = Inr []" by simp
  have "owned_by edges (length ?quals) inner s"
  proof (cases "inner = []")
    case False
    with short obtain c where c: "inner = [c]" by (cases inner) auto
    then have "prefix [c] (owner_chain edges 2 s)" using inner owner_chain_deeper [of edges s 0] by (simp add: numeral_2_eq_2)
    with c show ?thesis by (simp add: owned_by_def numeral_2_eq_2)
  qed (simp add: owned_by_def)
  then have "file_reading edges ?quals s = Some 0"
    using addr by (auto simp: file_reading_def file_qualifier_rank_def addressable_def plain_text_def Let_def)
  then have "best_file edges ?quals found s" by (auto simp: best_file_def)
  with lookup_by_spec [OF lib none parse, of found] found s show ?thesis by auto
qed

text \<open>
  How a suggestion spells a symbol: after a qualified miss by its file, its container if it has one,
  and its name; otherwise by its name, and a module owner by its file and its name.
\<close>

definition spelling :: "parent_row list \<Rightarrow> bool \<Rightarrow> symbol \<Rightarrow> string" where
  "spelling edges qualified s =
     (if qualified then join ''::'' ((sy_file_path s # owner_chain edges 1 s) @ [sy_name s])
      else if is_module_owner s then join ''::'' ((sy_file_path s # []) @ [sy_name s])
      else sy_name s)"

lemma owner_chain_one: "length (owner_chain edges 1 s) \<le> 1"
  by (auto simp: owner_chain_def split: option.splits)

lemma suggestion_spelling:
  assumes "qualified \<longrightarrow> chain_at containers (sy_uid s) = owner_chain edges 1 s"
  shows "suggestion_of containers qualified s = spelling edges qualified s"
proof (cases "owner_chain edges 1 s")
  case Nil
  with assms show ?thesis
    by (auto simp: suggestion_of_def spelling_def display_name_def module_owner_label_def is_module_owner_def)
next
  case (Cons c cs)
  with owner_chain_one [of edges s] have "cs = []" by simp
  with Cons assms show ?thesis
    by (auto simp: suggestion_of_def spelling_def display_name_def module_owner_label_def is_module_owner_def)
qed

lemma spelling_resolves:
  assumes lib: "graph_lib db edges" and names: "names_answered db rows" and s: "s \<in> set rows"
    and way: "spelling edges qualified s = sy_name s \<or> (addressable edges s \<and> spelling edges qualified s \<notin> sy_name ` set rows)"
  shows "\<exists>found. lookup_symbols_by_spec db (spelling edges qualified s) = Inr found \<and> s \<in> set found"
proof (cases "spelling edges qualified s = sy_name s")
  case True
  obtain found where found: "db_named db (sy_name s) = Inr found" "set found = {t \<in> set rows. sy_name t = sy_name s}"
    using names unfolding names_answered_def by blast
  then have "s \<in> set found" using s by simp
  moreover have "found \<noteq> []" using \<open>s \<in> set found\<close> by auto
  ultimately show ?thesis using found(1) True by (auto simp: lookup_symbols_by_spec_def and_then_def split: option.split)
next
  case False
  with way have addr: "addressable edges s" "spelling edges qualified s \<notin> sy_name ` set rows" by simp_all
  show ?thesis
  proof (cases "qualified")
    case True
    with spec_finds [OF lib names s addr(1), of "owner_chain edges 1 s"] addr(2) owner_chain_one show ?thesis
      by (simp add: spelling_def)
  next
    case unqualified: False
    with False have "is_module_owner s" by (simp add: spelling_def split: if_splits)
    with unqualified spec_finds [OF lib names s addr(1), of "[]"] addr(2) show ?thesis by (simp add: spelling_def)
  qed
qed

text \<open>
  C19. A suggestion works. Every suggested text spells a symbol of the graph that the caller may see; and
  passed back as it is, it resolves, with that symbol among the results, whenever it is the bare
  name of the symbol, or the symbol has a plain name, path and container (not empty, without a
  colon, the path as a qualifier is read) and no symbol is itself named by the whole text. The
  graph store is assumed to answer name and container queries from its rows.
\<close>

theorem suggestions_resolve:
  assumes "graph_lib db edges" and "names_answered db rows" and "db_symbols db = Inr rows" and "distinct (map sy_uid rows)"
    and "did_you_mean_candidates db query keep = Inr names" and "name \<in> set names"
  shows "(\<exists>s\<in>set rows. keep s \<and> name = spelling edges (qualified_query query \<noteq> None) s) \<and>
    (\<forall>s\<in>set rows. name = spelling edges (qualified_query query \<noteq> None) s \<and>
        (name = sy_name s \<or> (addressable edges s \<and> name \<notin> sy_name ` set rows)) \<longrightarrow>
      (\<exists>found. lookup_symbols_by_spec db name = Inr found \<and> s \<in> set found))"
proof -
  let ?qualified = "qualified_query query \<noteq> None"
  have "names \<noteq> []" using assms(6) by auto
  from did_you_mean_formatted [OF assms(5) this assms(3)] obtain symbols
    where drawn: "drawn_from (name_table_of rows) keep symbols" and formatted: "format_suggestions db ?qualified symbols = Inr names" by blast
  have dist: "distinct (map sy_uid symbols)" using drawn_from_distinct [OF drawn] assms(4) by simp
  obtain owners where owners: "symbol_container_chains db symbols 1 = Inr owners"
    "\<And>s. s \<in> set symbols \<Longrightarrow> chain_at owners (sy_uid s) = owner_chain edges 1 s"
    using symbol_container_chains_total [OF assms(1) dist] by blast
  let ?containers = "if ?qualified then owners else Map.empty"
  have "names = merge_names [] (map (suggestion_of ?containers ?qualified) symbols)"
    using formatted owners(1) by (auto simp: format_suggestions_def and_then_def split: if_splits)
  with assms(6) merge_names_bounds [of "[]" "map (suggestion_of ?containers ?qualified) symbols"]
  obtain s where s: "s \<in> set symbols" "name = suggestion_of ?containers ?qualified s" by auto
  then have "name = spelling edges ?qualified s" using owners(2) [OF s(1)] suggestion_spelling by auto
  moreover have "snd ` set (name_table_of rows) = set rows" by (metis list.set_map name_table_symbols)
  then have "s \<in> set rows" "keep s" using drawn_fromD [OF drawn s(1)] by simp_all
  ultimately show ?thesis using spelling_resolves [OF assms(1,2)] by blast
qed

text \<open>
  A name that holds the separator cannot be addressed: a shell function \<open>pkg::fn\<close> is suggested after a
  miss in its file, but the suggestion is read as a member of \<open>pkg\<close> and finds nothing.
\<close>

theorem suggestion_of_qualified_name_is_lost:
  "did_you_mean_candidates (graph_of [demo_symbol ''f'' ''pkg::fn'' ''a.sh''] []) ''a.sh::fm'' (\<lambda>_. True) = Inr [''a.sh::pkg::fn''] \<and>
   lookup_symbols_by_spec (graph_of [demo_symbol ''f'' ''pkg::fn'' ''a.sh''] []) ''a.sh::pkg::fn'' = Inr []"
proof
  show "did_you_mean_candidates (graph_of [demo_symbol ''f'' ''pkg::fn'' ''a.sh''] []) ''a.sh::fm'' (\<lambda>_. True) = Inr [''a.sh::pkg::fn'']"
    by code_simp
  show "lookup_symbols_by_spec (graph_of [demo_symbol ''f'' ''pkg::fn'' ''a.sh''] []) ''a.sh::pkg::fn'' = Inr []"
    by code_simp
qed

text \<open>A typo in the name of a method of a named file.\<close>

lemma demo_suggestions: "did_you_mean_candidates demo_graph ''b.ts::rum'' (\<lambda>s. sy_repo_uid s = ''repo:a'') = Inr [''b.ts::Svc::run'']"
  by code_simp

lemma demo_rows: "db_symbols demo_graph = Inr [demo_symbol ''c'' ''Svc'' ''b.ts'', demo_symbol ''m'' ''run'' ''b.ts'']"
  by (simp add: demo_graph_def graph_of_def)

theorem suggestions_few_and_visible_witness:
  "length [''b.ts::Svc::run''] \<le> 5 \<and> (\<exists>containers s. ''b.ts::Svc::run'' = suggestion_of containers True s \<and> sy_repo_uid s = ''repo:a'')"
proof -
  have "qualified_query ''b.ts::rum'' \<noteq> None" by code_simp
  with suggestions_few_and_visible [OF demo_suggestions demo_rows] show ?thesis by auto
qed

theorem suggestions_resolve_witness:
  "\<exists>found. lookup_symbols_by_spec demo_graph ''b.ts::Svc::run'' = Inr found \<and> demo_symbol ''m'' ''run'' ''b.ts'' \<in> set found"
proof -
  let ?edges = "[(''m'', ''c'', ''Svc'')]" and ?m = "demo_symbol ''m'' ''run'' ''b.ts''" and ?c = "demo_symbol ''c'' ''Svc'' ''b.ts''"
  have "distinct (map sy_uid [?c, ?m])" by code_simp
  moreover have "names_answered demo_graph [?c, ?m]"
    by (auto simp: names_answered_def demo_graph_def graph_of_def)
  moreover have "addressable ?edges ?m" "''b.ts::Svc::run'' = spelling ?edges (qualified_query ''b.ts::rum'' \<noteq> None) ?m" by code_simp+
  moreover have "''b.ts::Svc::run'' \<notin> sy_name ` set [?c, ?m]" by (simp add: demo_symbol_def)
  ultimately show ?thesis using suggestions_resolve [OF demo_graph_lib _ demo_rows _ demo_suggestions, of "''b.ts::Svc::run''"] by fastforce
qed

end
