(* ===== verification/Publication_State.thy ===== *)
theory Publication_State
  imports Prelude
begin

text \<open>
  The journal entry of a publication rebuild (\<^verbatim>\<open>crates/nestweaver-engine/src/publication_operation.rs\<close>):
  its phases, its plan, its state, the checks on a stored entry, and the effect of every checkpoint as a
  function from the entry to an error or the next entry. The journal that stores entries is in
  \<open>Publication_Journal\<close>.

  A \<open>BTreeMap<String, String>\<close> is the list of its bindings in key order. UUIDs are 128-bit words; the
  parser and the printer of the \<^verbatim>\<open>uuid\<close> crate, BLAKE3 and the JSON serialisation are the fields of
  \<open>pub_lib\<close>, a parameter of the definitions that use them.
\<close>

section \<open>Results\<close>

type_synonym uuid = "128 word"

datatype publication_phase =
  Planned | Graph | TextSearch | Regex | Embeddings | Metadata | Validating | Ready | Activating
  | Activated | Cancelled

text \<open>The failures raised as \<^verbatim>\<open>PermanentPublicationFailure\<close>: a retry cannot fix them.\<close>

datatype permanent_failure =
    P_LinkedArtifact string
  | P_LinkInSlot string
  | P_ArtifactOutside string
  | P_CorruptArtifact string
  | P_UndescribedFiles "string list"
  | P_CasConflict "uuid option" "uuid option"

text \<open>Every other error is one with its own data, or a message (with the phase or the path it names).\<close>

datatype pub_error =
    InvalidUuid string string
  | NilUuid string
  | StaleWriter u64 u64
  | FailedAt publication_phase string
  | InvalidTransition publication_phase publication_phase
  | InvalidJournalTransition publication_phase publication_phase
  | ReadFailed string
  | DecodeFailed string
  | UnsupportedVersion u32
  | Permanent permanent_failure
  | Bail string
  | BailPhase string publication_phase
  | BailPath string string

fun is_permanent :: "pub_error \<Rightarrow> bool" where
  "is_permanent (Permanent _) = True"
| "is_permanent _ = False"

abbreviation LinkedArtifact :: "string \<Rightarrow> pub_error" where
  "LinkedArtifact p \<equiv> Permanent (P_LinkedArtifact p)"

abbreviation LinkInSlot :: "string \<Rightarrow> pub_error" where
  "LinkInSlot p \<equiv> Permanent (P_LinkInSlot p)"

abbreviation ArtifactOutside :: "string \<Rightarrow> pub_error" where
  "ArtifactOutside p \<equiv> Permanent (P_ArtifactOutside p)"

abbreviation CorruptArtifact :: "string \<Rightarrow> pub_error" where
  "CorruptArtifact p \<equiv> Permanent (P_CorruptArtifact p)"

abbreviation UndescribedFiles :: "string list \<Rightarrow> pub_error" where
  "UndescribedFiles ps \<equiv> Permanent (P_UndescribedFiles ps)"

abbreviation CasConflict :: "uuid option \<Rightarrow> uuid option \<Rightarrow> pub_error" where
  "CasConflict expected observed \<equiv> Permanent (P_CasConflict expected observed)"

definition SameIdentity :: pub_error where
  "SameIdentity = Bail ''brain_uuid and publication_uuid must be distinct''"

definition TargetIsIncumbent :: pub_error where
  "TargetIsIncumbent = Bail ''target publication must differ from the expected incumbent''"

definition PlanIncomplete :: pub_error where
  "PlanIncomplete = Bail ''publication plan requires input fingerprint, producer version, and non-zero format version''"

definition IncompatibleResume :: pub_error where
  "IncompatibleResume = Bail ''publication operation is incompatible with the requested resume''"

definition CancellationRequested :: pub_error where
  "CancellationRequested = Bail ''publication cancellation is requested''"

definition NotAccepting :: pub_error where
  "NotAccepting = Bail ''publication operation is not accepting work''"

definition InvalidProgress :: pub_error where
  "InvalidProgress = Bail ''invalid publication progress''"

definition AlreadyExists :: pub_error where
  "AlreadyExists = Bail ''create publication operation: already exists''"

definition WrongIdentity :: pub_error where
  "WrongIdentity = Bail ''identity does not match''"

definition ChecksumMismatch :: pub_error where
  "ChecksumMismatch = Bail ''checksum mismatch''"

definition ImmutableFields :: pub_error where
  "ImmutableFields = Bail ''publication checkpoint attempted to rewrite immutable journal fields''"

definition TerminalImmutable :: pub_error where
  "TerminalImmutable = Bail ''terminal publication operations are immutable''"

definition RevisionExhausted :: pub_error where
  "RevisionExhausted = Bail ''publication operation revision exhausted''"

definition AuthorityReplaced :: pub_error where
  "AuthorityReplaced = Bail ''publication journal authority was replaced''"

definition LockNotAuthorized :: pub_error where
  "LockNotAuthorized = Bail ''publication root lock does not authorize the root''"

definition CancelNotRequested :: pub_error where
  "CancelNotRequested = Bail ''publication cancellation was not requested''"

definition FailureIncomplete :: pub_error where
  "FailureIncomplete = Bail ''publication failure requires a code and message''"

definition NotRetryable :: pub_error where
  "NotRetryable = Bail ''publication failure is not retryable; discard explicitly''"

definition BaselinePhase :: pub_error where
  "BaselinePhase = Bail ''publication graph baseline requires an active graph phase''"

definition NotValidating :: pub_error where
  "NotValidating = Bail ''publication can become ready only from validating''"

definition FailedOrCancelled :: pub_error where
  "FailedOrCancelled = Bail ''publication operation is failed or cancelled''"

definition NotActivatable :: pub_error where
  "NotActivatable = Bail ''publication activation requires ready or activating phase''"

definition ManifestChanged :: pub_error where
  "ManifestChanged = Bail ''publication manifest digest mismatch''"

definition NoCurrent :: pub_error where
  "NoCurrent = Bail ''no selected publication''"

definition NotSelected :: pub_error where
  "NotSelected = Bail ''CURRENT does not select the validated target publication''"

definition SelectedPublication :: pub_error where
  "SelectedPublication = Bail ''refusing to discard the currently selected publication''"

definition ReadableJournal :: pub_error where
  "ReadableJournal = Bail ''publication operation journal is readable''"

definition FormatMismatch :: pub_error where
  "FormatMismatch = Bail ''publication bundle format does not match''"

definition EmptyProducer :: pub_error where
  "EmptyProducer = Bail ''publication bundle producer version is empty''"

definition NoArtifacts :: pub_error where
  "NoArtifacts = Bail ''publication bundle describes no artifacts''"

definition EmptyPath :: pub_error where
  "EmptyPath = Bail ''publication bundle contains an empty artifact path''"

definition DirtyGraph :: pub_error where
  "DirtyGraph = Bail ''refusing from dirty graph''"

definition NoGraphIdentity :: pub_error where
  "NoGraphIdentity = Bail ''graph has no publication identity''"

definition ForeignBrain :: pub_error where
  "ForeignBrain = Bail ''refusing across brains''"

definition WrongPredecessor :: pub_error where
  "WrongPredecessor = Bail ''CURRENT pointer declares a wrong predecessor''"

definition RolledBackAlready :: pub_error where
  "RolledBackAlready = Bail ''CURRENT already represents the one-step rollback''"

definition RollbackConflict :: pub_error where
  "RollbackConflict = Bail ''CURRENT rollback conflict''"

definition NoGraphArtifact :: pub_error where
  "NoGraphArtifact = Bail ''selected publication has no graph artifact''"

definition TwoGraphArtifacts :: pub_error where
  "TwoGraphArtifacts = Bail ''selected publication has more than one graph artifact''"

definition NotRegularFile :: pub_error where
  "NotRegularFile = Bail ''selected publication graph is not a regular file''"

definition RebuildRequired :: pub_error where
  "RebuildRequired = Bail ''the selected publication was built by an older storage engine''"

definition OperationTerminal :: "publication_phase \<Rightarrow> pub_error" where
  "OperationTerminal p = BailPhase ''publication operation is terminal'' p"

definition CannotCancel :: "publication_phase \<Rightarrow> pub_error" where
  "CannotCancel p = BailPhase ''cannot cancel terminal publication phase'' p"

definition CannotFail :: "publication_phase \<Rightarrow> pub_error" where
  "CannotFail p = BailPhase ''cannot fail terminal publication phase'' p"

definition CannotRescope :: "publication_phase \<Rightarrow> pub_error" where
  "CannotRescope p = BailPhase ''publication operation cannot be rescoped'' p"

definition StillRunning :: "publication_phase \<Rightarrow> pub_error" where
  "StillRunning p = BailPhase ''only a cancelled or failed staging operation may be discarded'' p"

definition UnsafePath :: "string \<Rightarrow> pub_error" where
  "UnsafePath p = BailPath ''unsafe publication artifact path'' p"

definition InvalidDigest :: "string \<Rightarrow> pub_error" where
  "InvalidDigest p = BailPath ''expected a 64-character hexadecimal BLAKE3 digest'' p"

definition DigestConflict :: "string \<Rightarrow> pub_error" where
  "DigestConflict p = BailPath ''artifact was already checkpointed with a different digest'' p"

definition DuplicateArtifact :: "string \<Rightarrow> pub_error" where
  "DuplicateArtifact p = BailPath ''publication bundle contains duplicate artifact'' p"

definition CaseOnlyDifference :: "string \<Rightarrow> pub_error" where
  "CaseOnlyDifference p = BailPath ''publication bundle contains artifact paths differing only by case'' p"

definition ForeignArtifact :: "string \<Rightarrow> pub_error" where
  "ForeignArtifact p = BailPath ''publication artifact has foreign identity'' p"

definition BadArtifactMetadata :: "string \<Rightarrow> pub_error" where
  "BadArtifactMetadata p = BailPath ''publication artifact has incompatible schema/producer/fingerprint metadata'' p"

definition GenerationMismatch :: "string \<Rightarrow> pub_error" where
  "GenerationMismatch p = BailPath ''publication artifact source generation does not match bundle'' p"

type_synonym 'a pub_result = "pub_error + 'a"

text \<open>\<^verbatim>\<open>?\<close> on a result, and \<^verbatim>\<open>if c { bail!(e) }\<close>.\<close>

fun and_then :: "'a pub_result \<Rightarrow> ('a \<Rightarrow> 'b pub_result) \<Rightarrow> 'b pub_result" where
  "and_then (Inl e) f = Inl e"
| "and_then (Inr x) f = f x"

definition bail_if :: "bool \<Rightarrow> pub_error \<Rightarrow> unit pub_result" where
  "bail_if c e = (if c then Inl e else Inr ())"

lemma and_then_Inr_iff [simp]: "and_then r f = Inr y \<longleftrightarrow> (\<exists>x. r = Inr x \<and> f x = Inr y)"
  by (cases r) auto

lemma bail_if_Inr_iff [simp]: "bail_if c e = Inr u \<longleftrightarrow> \<not> c"
  by (auto simp: bail_if_def)

section \<open>Phases\<close>

fun is_terminal :: "publication_phase \<Rightarrow> bool" where
  "is_terminal Activated = True"
| "is_terminal Cancelled = True"
| "is_terminal _ = False"

fun successor :: "publication_phase \<Rightarrow> publication_phase option" where
  "successor Planned = Some Graph"
| "successor Graph = Some TextSearch"
| "successor TextSearch = Some Regex"
| "successor Regex = Some Embeddings"
| "successor Embeddings = Some Metadata"
| "successor Metadata = Some Validating"
| "successor Validating = Some Ready"
| "successor Ready = Some Activating"
| "successor Activating = Some Activated"
| "successor Activated = None"
| "successor Cancelled = None"

text \<open>The slot is still being staged; from \<open>Ready\<close> on it is sealed.\<close>

fun phase_accepts_rescope :: "publication_phase \<Rightarrow> bool" where
  "phase_accepts_rescope Planned = True"
| "phase_accepts_rescope Graph = True"
| "phase_accepts_rescope TextSearch = True"
| "phase_accepts_rescope Regex = True"
| "phase_accepts_rescope Embeddings = True"
| "phase_accepts_rescope Metadata = True"
| "phase_accepts_rescope Validating = True"
| "phase_accepts_rescope _ = False"

lemma is_terminal_iff: "is_terminal p \<longleftrightarrow> p = Activated \<or> p = Cancelled"
  by (cases p) simp_all

lemma staged_not_terminal: "phase_accepts_rescope p \<Longrightarrow> \<not> is_terminal p"
  by (cases p) simp_all

section \<open>Ordered maps\<close>

type_synonym btree = "(string \<times> string) list"

fun bt_insert :: "string \<Rightarrow> string \<Rightarrow> btree \<Rightarrow> btree" where
  "bt_insert k v [] = [(k, v)]"
| "bt_insert k v ((k', v') # m) =
     (if k < k' then (k, v) # (k', v') # m
      else if k = k' then (k, v) # m
      else (k', v') # bt_insert k v m)"

definition bt_remove :: "string \<Rightarrow> btree \<Rightarrow> btree" where
  "bt_remove k m = [(k', v) \<leftarrow> m. k' \<noteq> k]"

lemma map_of_bt_insert [simp]: "map_of (bt_insert k v m) = (map_of m)(k \<mapsto> v)"
  by (induction m) (auto simp: fun_eq_iff)

lemma map_of_bt_remove [simp]: "map_of (bt_remove k m) = (map_of m)(k := None)"
  by (induction m) (auto simp: bt_remove_def fun_eq_iff)

lemma set_bt_insert: "fst ` set (bt_insert k v m) = insert k (fst ` set m)"
  by (induction k v m rule: bt_insert.induct) auto

lemma sorted_bt_insert:
  "sorted_wrt (<) (map fst m) \<Longrightarrow> sorted_wrt (<) (map fst (bt_insert k v m))"
proof (induction m)
  case (Cons b m)
  obtain k' v' where b: "b = (k', v')" by (cases b)
  have keys: "set (map fst (bt_insert k v m)) = insert k (set (map fst m))"
    using set_bt_insert [of k v m] by simp
  from Cons b keys show ?case by (auto simp del: set_map)
qed simp

lemma sorted_bt_remove:
  "sorted_wrt (<) (map fst m) \<Longrightarrow> sorted_wrt (<) (map fst (bt_remove k m))"
  by (induction m) (auto simp: bt_remove_def)

section \<open>The entry\<close>

record publication_plan =
  pl_operation_uuid :: string
  pl_brain_uuid :: string
  pl_target_publication_uuid :: string
  pl_expected_current_publication_uuid :: "string option"
  pl_input_fingerprint :: string
  pl_producer_version :: string
  pl_publication_format_version :: u32
  pl_created_unix_millis :: u64

record publication_progress =
  pg_completed :: u64
  pg_total :: "u64 option"
  pg_message :: string

record publication_failure =
  fl_phase :: publication_phase
  fl_code :: string
  fl_message :: string
  fl_retryable :: bool

record op_state =
  st_state_version :: u32
  st_revision :: u64
  st_plan :: publication_plan
  st_phase :: publication_phase
  st_cancel_requested :: bool
  st_progress :: "publication_progress option"
  st_completed_artifacts :: btree
  st_validated_manifest_blake3 :: "string option"
  st_failure :: "publication_failure option"
  st_updated_unix_millis :: u64

record pub_identity =
  id_brain_uuid :: string
  id_publication_uuid :: string

datatype artifact_kind =
  K_Graph | K_SourceManifest | K_PreservedState | K_CompatibilityStamp | K_InstanceConfig | K_Ranking
  | K_RepoManifest | K_MarkdownDerivation | K_Bm25 | K_Regex | K_Embeddings | K_ParsedCache
  | K_ResolutionDependencies | K_FileMetadata | K_GitActivity | K_Cochange | K_Interactions
  | K_Extensions | K_Aliases | K_Bundles | K_Generation | K_WriteAheadLog | K_WorkspaceClone

record artifact =
  af_path :: string
  af_kind :: artifact_kind
  af_schema_version :: u32
  af_byte_size :: u64
  af_blake3 :: string
  af_brain_uuid :: string
  af_publication_uuid :: string
  af_producer_version :: string
  af_source_graph_generation :: u64
  af_algorithm_fingerprint :: string

record pub_bundle =
  bn_format_version :: u32
  bn_brain_uuid :: string
  bn_publication_uuid :: string
  bn_producer_version :: string
  bn_source_graph_generation :: u64
  bn_artifacts :: "artifact list"

record pointer_payload =
  pp_version :: u32
  pp_brain_uuid :: string
  pp_publication_uuid :: string
  pp_expected_previous_publication_uuid :: "string option"
  pp_rolled_back_from_publication_uuid :: "string option"
  pp_manifest_blake3 :: string

record source_file =
  sf_path :: string
  sf_byte_size :: u64
  sf_change_token :: "string option"
  sf_content_blake3 :: string

record repo_source =
  rp_uid :: string
  rp_url :: string
  rp_instance_id :: string
  rp_name :: "string option"
  rp_root_path :: string
  rp_observed_head :: "string option"
  rp_content_blake3 :: string
  rp_file_count :: u64
  rp_files :: "source_file list"

record vault_source =
  vs_uid :: string
  vs_name :: string
  vs_instance_id :: string
  vs_root_path :: string
  vs_content_blake3 :: string
  vs_file_count :: u64
  vs_files :: "source_file list"

record source_manifest =
  sm_version :: u32
  sm_repos :: "repo_source list"
  sm_vaults :: "vault_source list"

record operation_inputs =
  oi_version :: u32
  oi_input_fingerprint :: string
  oi_config_blake3 :: string
  oi_preserved_state_fingerprint :: string
  oi_sources :: source_manifest

record pub_lib =
  lib_parse_uuid :: "string \<Rightarrow> uuid option"
  lib_show_uuid :: "uuid \<Rightarrow> string"
  lib_blake3_hex :: "string \<Rightarrow> string"
  lib_state_json :: "op_state \<Rightarrow> string"
  lib_inputs_json :: "operation_inputs \<Rightarrow> string"
  lib_payload_json :: "pointer_payload \<Rightarrow> string"
  lib_bundle_of_json :: "string \<Rightarrow> pub_bundle option"

text \<open>What the uuid crate documents of its canonical (hyphenated, lower-case) text.\<close>

definition uuid_roundtrip :: "pub_lib \<Rightarrow> bool" where
  "uuid_roundtrip L \<longleftrightarrow> (\<forall>u. lib_parse_uuid L (lib_show_uuid L u) = Some u)"

definition parse_non_nil_uuid :: "pub_lib \<Rightarrow> string \<Rightarrow> string \<Rightarrow> uuid pub_result" where
  "parse_non_nil_uuid L label v =
     (case lib_parse_uuid L v of
        None \<Rightarrow> Inl (InvalidUuid label v)
      | Some u \<Rightarrow> if u = 0 then Inl (NilUuid label) else Inr u)"

definition uuid_equal :: "pub_lib \<Rightarrow> string \<Rightarrow> string \<Rightarrow> bool pub_result" where
  "uuid_equal L l r =
     (case lib_parse_uuid L l of
        None \<Rightarrow> Inl (InvalidUuid [] l)
      | Some a \<Rightarrow> (case lib_parse_uuid L r of
          None \<Rightarrow> Inl (InvalidUuid [] r)
        | Some b \<Rightarrow> Inr (a = b)))"

lemma parse_non_nil_Inr_iff [simp]:
  "parse_non_nil_uuid L label v = Inr u \<longleftrightarrow> lib_parse_uuid L v = Some u \<and> u \<noteq> 0"
  by (auto simp: parse_non_nil_uuid_def split: option.splits)

lemma uuid_equal_Inr_iff [simp]:
  "uuid_equal L l r = Inr b \<longleftrightarrow>
     (\<exists>x y. lib_parse_uuid L l = Some x \<and> lib_parse_uuid L r = Some y \<and> b = (x = y))"
  by (auto simp: uuid_equal_def split: option.splits)

definition plan_validate :: "pub_lib \<Rightarrow> publication_plan \<Rightarrow> unit pub_result" where
  "plan_validate L p =
     and_then (parse_non_nil_uuid L ''operation_uuid'' (pl_operation_uuid p)) (\<lambda>_.
     and_then (parse_non_nil_uuid L ''brain_uuid'' (pl_brain_uuid p)) (\<lambda>_.
     and_then (parse_non_nil_uuid L ''target_publication_uuid'' (pl_target_publication_uuid p)) (\<lambda>target.
     and_then
       (case pl_expected_current_publication_uuid p of
          None \<Rightarrow> Inr ()
        | Some expected \<Rightarrow>
            and_then (parse_non_nil_uuid L ''expected_current_publication_uuid'' expected) (\<lambda>e.
            bail_if (e = target) TargetIsIncumbent)) (\<lambda>_.
     bail_if (pl_input_fingerprint p = [] \<or> pl_producer_version p = []
              \<or> pl_publication_format_version p = 0) PlanIncomplete))))"

definition OPERATION_STATE_VERSION :: u32 where
  "OPERATION_STATE_VERSION = 1"

definition new_state :: "pub_lib \<Rightarrow> publication_plan \<Rightarrow> op_state pub_result" where
  "new_state L p =
     and_then (plan_validate L p) (\<lambda>_.
     Inr \<lparr>st_state_version = OPERATION_STATE_VERSION, st_revision = 0, st_plan = p, st_phase = Planned,
          st_cancel_requested = False, st_progress = None, st_completed_artifacts = [],
          st_validated_manifest_blake3 = None, st_failure = None,
          st_updated_unix_millis = pl_created_unix_millis p\<rparr>)"

definition resumable_with :: "pub_lib \<Rightarrow> op_state \<Rightarrow> publication_plan \<Rightarrow> unit pub_result" where
  "resumable_with L s requested =
     and_then (plan_validate L requested) (\<lambda>_.
     and_then (bail_if (is_terminal (st_phase s)) (OperationTerminal (st_phase s))) (\<lambda>_.
     let p = st_plan s in
     bail_if (pl_operation_uuid p \<noteq> pl_operation_uuid requested
              \<or> pl_brain_uuid p \<noteq> pl_brain_uuid requested
              \<or> pl_target_publication_uuid p \<noteq> pl_target_publication_uuid requested
              \<or> pl_expected_current_publication_uuid p \<noteq> pl_expected_current_publication_uuid requested
              \<or> pl_input_fingerprint p \<noteq> pl_input_fingerprint requested
              \<or> pl_producer_version p \<noteq> pl_producer_version requested
              \<or> pl_publication_format_version p \<noteq> pl_publication_format_version requested)
       IncompatibleResume))"

section \<open>Checks on a stored entry and on an update\<close>

record journal_envelope =
  je_checksum_blake3 :: string
  je_state :: op_state

definition state_checksum :: "pub_lib \<Rightarrow> op_state \<Rightarrow> string" where
  "state_checksum L s = lib_blake3_hex L (lib_state_json L s)"

definition validate_loaded_state :: "pub_lib \<Rightarrow> string \<Rightarrow> journal_envelope \<Rightarrow> unit pub_result" where
  "validate_loaded_state L requested e =
     and_then (bail_if (st_state_version (je_state e) \<noteq> OPERATION_STATE_VERSION)
       (UnsupportedVersion (st_state_version (je_state e)))) (\<lambda>_.
     and_then (plan_validate L (st_plan (je_state e))) (\<lambda>_.
     and_then (uuid_equal L requested (pl_operation_uuid (st_plan (je_state e)))) (\<lambda>same.
     and_then (bail_if (\<not> same) WrongIdentity) (\<lambda>_.
     bail_if (state_checksum L (je_state e) \<noteq> je_checksum_blake3 e) ChecksumMismatch))))"

definition validate_update :: "pub_lib \<Rightarrow> op_state \<Rightarrow> op_state \<Rightarrow> unit pub_result" where
  "validate_update L incumbent nxt =
     and_then (plan_validate L (st_plan nxt)) (\<lambda>_.
     and_then (bail_if (st_state_version nxt \<noteq> OPERATION_STATE_VERSION
                        \<or> st_plan nxt \<noteq> st_plan incumbent
                        \<or> st_revision nxt \<noteq> st_revision incumbent
                        \<or> st_updated_unix_millis nxt \<noteq> st_updated_unix_millis incumbent)
       ImmutableFields) (\<lambda>_.
     and_then (bail_if (is_terminal (st_phase incumbent) \<and> nxt \<noteq> incumbent) TerminalImmutable) (\<lambda>_.
     bail_if (st_phase nxt \<noteq> st_phase incumbent
              \<and> successor (st_phase incumbent) \<noteq> Some (st_phase nxt)
              \<and> \<not> (st_phase nxt = Cancelled \<and> st_cancel_requested nxt))
       (InvalidJournalTransition (st_phase incumbent) (st_phase nxt)))))"

section \<open>The effect of a checkpoint\<close>

type_synonym update = "op_state \<Rightarrow> op_state pub_result"

definition advance_update :: "publication_phase \<Rightarrow> update" where
  "advance_update ph s =
     and_then (bail_if (st_cancel_requested s) CancellationRequested) (\<lambda>_.
     and_then
       (case st_failure s of None \<Rightarrow> Inr () | Some f \<Rightarrow> Inl (FailedAt (fl_phase f) (fl_message f))) (\<lambda>_.
     and_then (bail_if (successor (st_phase s) \<noteq> Some ph) (InvalidTransition (st_phase s) ph)) (\<lambda>_.
     Inr (s\<lparr>st_phase := ph, st_progress := None\<rparr>))))"

definition accepts_work :: "op_state \<Rightarrow> bool" where
  "accepts_work s \<longleftrightarrow> \<not> is_terminal (st_phase s) \<and> \<not> st_cancel_requested s \<and> st_failure s = None"

definition progress_update :: "publication_progress \<Rightarrow> update" where
  "progress_update pg s =
     and_then (bail_if (\<not> accepts_work s) NotAccepting) (\<lambda>_.
     and_then (bail_if (pg_message pg = []
                        \<or> (case pg_total pg of None \<Rightarrow> False | Some t \<Rightarrow> t < pg_completed pg))
       InvalidProgress) (\<lambda>_.
     Inr (s\<lparr>st_progress := Some pg\<rparr>)))"

text \<open>Components of a Unix path, as \<^verbatim>\<open>Path::components\<close> yields them.\<close>

datatype component = RootDir | CurDir | ParentDir | Normal string

definition path_components :: "string \<Rightarrow> component list" where
  "path_components s =
     (let segs = split CHR ''/'' s in
      (case s of
         [] \<Rightarrow> []
       | c # _ \<Rightarrow> if c = CHR ''/'' then [RootDir] else if hd segs = ''.'' then [CurDir] else [])
      @ map (\<lambda>g. if g = ''..'' then ParentDir else Normal g) [g \<leftarrow> segs. g \<noteq> [] \<and> g \<noteq> ''.''])"

definition is_absolute :: "string \<Rightarrow> bool" where
  "is_absolute s \<longleftrightarrow> s \<noteq> [] \<and> hd s = CHR ''/''"

fun is_normal :: "component \<Rightarrow> bool" where
  "is_normal (Normal g) = True"
| "is_normal _ = False"

definition validate_relative_path :: "string \<Rightarrow> unit pub_result" where
  "validate_relative_path p =
     bail_if (p = [] \<or> is_absolute p \<or> (\<exists>c\<in>set (path_components p). \<not> is_normal c)) (UnsafePath p)"

definition is_ascii_hexdigit :: "char \<Rightarrow> bool" where
  "is_ascii_hexdigit c \<longleftrightarrow>
     is_ascii_digit c \<or> (65 \<le> code c \<and> code c \<le> 70) \<or> (97 \<le> code c \<and> code c \<le> 102)"

definition validate_digest :: "string \<Rightarrow> unit pub_result" where
  "validate_digest v = bail_if (str_len v \<noteq> 64 \<or> \<not> list_all is_ascii_hexdigit v) (InvalidDigest v)"

definition artifact_update :: "string \<Rightarrow> string \<Rightarrow> update" where
  "artifact_update p d s =
     and_then (validate_relative_path p) (\<lambda>_.
     and_then (validate_digest d) (\<lambda>_.
     and_then (bail_if (\<not> accepts_work s) NotAccepting) (\<lambda>_.
     and_then (bail_if (case map_of (st_completed_artifacts s) p of None \<Rightarrow> False | Some i \<Rightarrow> i \<noteq> d)
       (DigestConflict p)) (\<lambda>_.
     Inr (s\<lparr>st_completed_artifacts := bt_insert p d (st_completed_artifacts s)\<rparr>)))))"

definition ready_update :: "string \<Rightarrow> update" where
  "ready_update digest s =
     Inr (s\<lparr>st_validated_manifest_blake3 := Some digest, st_phase := Ready, st_progress := None\<rparr>)"

definition activating_update :: "update" where
  "activating_update s = Inr (s\<lparr>st_phase := Activating, st_progress := None\<rparr>)"

definition cancel_update :: "update" where
  "cancel_update s =
     and_then (bail_if (is_terminal (st_phase s)) (CannotCancel (st_phase s))) (\<lambda>_.
     Inr (s\<lparr>st_cancel_requested := True\<rparr>))"

definition acknowledge_update :: "update" where
  "acknowledge_update s =
     and_then (bail_if (\<not> st_cancel_requested s) CancelNotRequested) (\<lambda>_.
     Inr (s\<lparr>st_phase := Cancelled, st_progress := None\<rparr>))"

definition failure_update :: "string \<Rightarrow> string \<Rightarrow> bool \<Rightarrow> update" where
  "failure_update c m retryable s =
     and_then (bail_if (is_terminal (st_phase s)) (CannotFail (st_phase s))) (\<lambda>_.
     and_then (bail_if (c = [] \<or> m = []) FailureIncomplete) (\<lambda>_.
     Inr (s\<lparr>st_failure := Some \<lparr>fl_phase = st_phase s, fl_code = c, fl_message = m,
                                 fl_retryable = retryable\<rparr>\<rparr>)))"

definition permanently_failed :: "op_state \<Rightarrow> bool" where
  "permanently_failed s \<longleftrightarrow> (case st_failure s of None \<Rightarrow> False | Some f \<Rightarrow> \<not> fl_retryable f)"

definition resume_update :: "pub_lib \<Rightarrow> publication_plan \<Rightarrow> update" where
  "resume_update L requested s =
     and_then (resumable_with L s requested) (\<lambda>_.
     and_then (bail_if (permanently_failed s) NotRetryable) (\<lambda>_.
     Inr (s\<lparr>st_failure := None, st_cancel_requested := False\<rparr>)))"

definition relink_base_key :: "pub_lib \<Rightarrow> string \<Rightarrow> string" where
  "relink_base_key L input = ''relink/base_generation/'' @ lib_blake3_hex L input"

definition baseline_update :: "pub_lib \<Rightarrow> u64 \<Rightarrow> update" where
  "baseline_update L generation s =
     and_then (bail_if (st_phase s \<noteq> Graph \<or> st_cancel_requested s \<or> st_failure s \<noteq> None)
       BaselinePhase) (\<lambda>_.
     let key = relink_base_key L (pl_input_fingerprint (st_plan s)) in
     Inr (case map_of (st_completed_artifacts s) key of
            Some _ \<Rightarrow> s
          | None \<Rightarrow> s\<lparr>st_completed_artifacts :=
                        bt_insert key (nat_dec (unat generation)) (st_completed_artifacts s)\<rparr>))"

record relink_scope =
  rs_input_fingerprint :: string
  rs_source_fingerprints :: btree
  rs_graph_base_generation :: "nat option"

definition code_link_scope :: "pub_lib \<Rightarrow> op_state \<Rightarrow> relink_scope" where
  "code_link_scope L s =
     \<lparr>rs_input_fingerprint = pl_input_fingerprint (st_plan s),
      rs_source_fingerprints =
        [(k, v) \<leftarrow> st_completed_artifacts s. prefix ''graph/repo/'' k \<or> prefix ''graph/vault/'' k],
      rs_graph_base_generation =
        Option.bind
          (map_of (st_completed_artifacts s) (relink_base_key L (pl_input_fingerprint (st_plan s))))
          parse_u64\<rparr>"

lemmas update_defs =
  advance_update_def progress_update_def artifact_update_def ready_update_def activating_update_def
  cancel_update_def acknowledge_update_def failure_update_def resume_update_def baseline_update_def

section \<open>What an accepted update does\<close>

text \<open>The phases a checkpoint may move between.\<close>

definition phase_move :: "publication_phase \<Rightarrow> publication_phase \<Rightarrow> bool" where
  "phase_move p q \<longleftrightarrow> q = p \<or> (\<not> is_terminal p \<and> (successor p = Some q \<or> q = Cancelled))"

lemma phase_move_refl [simp]: "phase_move p p"
  by (simp add: phase_move_def)

lemma phase_move_terminal: "phase_move p q \<Longrightarrow> is_terminal p \<Longrightarrow> q = p"
  by (simp add: phase_move_def)

lemma validate_update_Inr:
  assumes "validate_update L inc nxt = Inr u"
  shows "plan_validate L (st_plan nxt) = Inr ()" "st_plan nxt = st_plan inc"
    "st_state_version nxt = OPERATION_STATE_VERSION" "st_revision nxt = st_revision inc"
    "phase_move (st_phase inc) (st_phase nxt)" "is_terminal (st_phase inc) \<Longrightarrow> nxt = inc"
  using assms by (auto simp: validate_update_def phase_move_def)

text \<open>The state machine of an operation: a journal that is absent, or holds a revision and a phase.\<close>

datatype journal_view = Absent | At nat publication_phase

inductive journal_step :: "journal_view \<Rightarrow> journal_view \<Rightarrow> bool" where
  js_create: "journal_step Absent (At 0 Planned)"
| js_checkpoint: "phase_move p q \<Longrightarrow> journal_step (At n p) (At (Suc n) q)"
| js_rewind: "phase_accepts_rescope p \<Longrightarrow>
    journal_step (At n p) (At (Suc n) (if p = Planned then Planned else Graph))"
| js_discard: "journal_step (At n p) Absent"

inductive_simps journal_step_at [simp]: "journal_step (At n p) v"
inductive_simps journal_step_absent [simp]: "journal_step Absent v"

end
