(* ===== verification/Publication_Journal.thy ===== *)
theory Publication_Journal
  imports Publication_State "HOL-Library.AList" "HOL-Library.Product_Lexorder"
begin

text \<open>
  The journal of publication operations on disk (\<^verbatim>\<open>publication_operation.rs\<close>): \<open>operations/<uuid>/\<close>
  below the publication root, one directory per operation, and the optimistic compare-and-swap by which
  every writer replaces \<open>state.json\<close>.

  A directory of the root is an association list from entry names, in the order the directory is read.
  \<open>atomic_replace_file\<close> writes a whole file or leaves the old one, so a write that fails is a call that
  did not happen. The clock and the answer of \<open>journal_lock.is_current()\<close> are arguments of a call.
\<close>

section \<open>The publication root\<close>

datatype journal_file = Undecodable | Envelope journal_envelope

record inputs_envelope =
  ie_checksum_blake3 :: string
  ie_inputs :: operation_inputs

record op_dir =
  od_state :: "journal_file option"
  od_inputs :: "inputs_envelope option"

record current_pointer = pointer_payload +
  cp_checksum_blake3 :: string

datatype current_file = Unparsable | Pointer current_pointer

text \<open>What a walk of a slot yields: regular files with their bytes, links with the bytes of the regular
  file they lead to (if they lead to one), and directories.\<close>

datatype slot_entry = Regular string | Link "string option" | Directory

type_synonym slot = "(string \<times> slot_entry) list"

record pub_root =
  pr_operations :: "(string \<times> op_dir) list"
  pr_current :: "current_file option"
  pr_slots :: "(string \<times> slot) list"

definition operation_path :: "pub_lib \<Rightarrow> string \<Rightarrow> string pub_result" where
  "operation_path L u =
     and_then (parse_non_nil_uuid L ''operation_uuid'' u) (\<lambda>v. Inr (lib_show_uuid L v))"

definition slot_path :: "pub_lib \<Rightarrow> string \<Rightarrow> string pub_result" where
  "slot_path L u =
     and_then (parse_non_nil_uuid L ''publication_uuid'' u) (\<lambda>v. Inr (lib_show_uuid L v))"

lemma operation_path_Inr_iff [simp]:
  "operation_path L u = Inr nm \<longleftrightarrow>
     (\<exists>v. lib_parse_uuid L u = Some v \<and> v \<noteq> 0 \<and> nm = lib_show_uuid L v)"
  by (auto simp: operation_path_def)

lemma slot_path_Inr_iff [simp]:
  "slot_path L u = Inr nm \<longleftrightarrow>
     (\<exists>v. lib_parse_uuid L u = Some v \<and> v \<noteq> 0 \<and> nm = lib_show_uuid L v)"
  by (auto simp: slot_path_def)

lemma show_uuid_inj: "uuid_roundtrip L \<Longrightarrow> lib_show_uuid L u = lib_show_uuid L v \<longleftrightarrow> u = v"
  unfolding uuid_roundtrip_def by (metis option.inject)

section \<open>Loading and storing an entry\<close>

definition load_file :: "pub_lib \<Rightarrow> string \<Rightarrow> op_dir option \<Rightarrow> op_state pub_result" where
  "load_file L u dir =
     (case Option.bind dir od_state of
        None \<Rightarrow> Inl (ReadFailed u)
      | Some Undecodable \<Rightarrow> Inl (DecodeFailed u)
      | Some (Envelope e) \<Rightarrow> and_then (validate_loaded_state L u e) (\<lambda>_. Inr (je_state e)))"

definition load_operation :: "pub_lib \<Rightarrow> pub_root \<Rightarrow> string \<Rightarrow> op_state pub_result" where
  "load_operation L r u =
     and_then (parse_non_nil_uuid L ''operation_uuid'' u) (\<lambda>_.
     and_then (operation_path L u) (\<lambda>nm. load_file L u (map_of (pr_operations r) nm)))"

definition envelope_of :: "pub_lib \<Rightarrow> op_state \<Rightarrow> journal_file" where
  "envelope_of L s = Envelope \<lparr>je_checksum_blake3 = state_checksum L s, je_state = s\<rparr>"

definition persist_state :: "pub_lib \<Rightarrow> string \<Rightarrow> op_state \<Rightarrow> pub_root \<Rightarrow> pub_root" where
  "persist_state L nm s r =
     r\<lparr>pr_operations :=
         AList.update nm
           (case map_of (pr_operations r) nm of
              None \<Rightarrow> \<lparr>od_state = Some (envelope_of L s), od_inputs = None\<rparr>
            | Some d \<Rightarrow> d\<lparr>od_state := Some (envelope_of L s)\<rparr>)
           (pr_operations r)\<rparr>"

definition create_operation ::
  "pub_lib \<Rightarrow> publication_plan \<Rightarrow> pub_root \<Rightarrow> pub_root \<times> op_state pub_result" where
  "create_operation L p r =
     (case and_then (new_state L p) (\<lambda>s.
           and_then (operation_path L (pl_operation_uuid p)) (\<lambda>nm.
           and_then (bail_if (map_of (pr_operations r) nm \<noteq> None) AlreadyExists) (\<lambda>_.
           Inr (nm, s)))) of
        Inl e \<Rightarrow> (r, Inl e)
      | Inr (nm, s) \<Rightarrow> (persist_state L nm s r, Inr s))"

section \<open>Listing\<close>

record invalid_operation =
  io_operation_uuid :: string
  io_error :: pub_error

record operation_list =
  ol_operations :: "op_state list"
  ol_invalid_operations :: "invalid_operation list"

fun load_all :: "pub_lib \<Rightarrow> pub_root \<Rightarrow> string list \<Rightarrow> op_state list \<times> invalid_operation list" where
  "load_all L r [] = ([], [])"
| "load_all L r (nm # nms) =
     (let (ok, bad) = load_all L r nms in
      if lib_parse_uuid L nm = None then (ok, bad)
      else case load_operation L r nm of
        Inr s \<Rightarrow> (s # ok, bad)
      | Inl e \<Rightarrow> (ok, \<lparr>io_operation_uuid = nm, io_error = e\<rparr> # bad))"

definition list_operations :: "pub_lib \<Rightarrow> pub_root \<Rightarrow> operation_list" where
  "list_operations L r =
     (let (ok, bad) = load_all L r (map fst (pr_operations r)) in
      \<lparr>ol_operations =
         sort_key (\<lambda>s. (pl_created_unix_millis (st_plan s), pl_operation_uuid (st_plan s))) ok,
       ol_invalid_operations = sort_key io_operation_uuid bad\<rparr>)"

section \<open>Checkpoints\<close>

definition next_state ::
  "pub_lib \<Rightarrow> u64 \<Rightarrow> bool \<Rightarrow> u64 \<Rightarrow> update \<Rightarrow> op_state \<Rightarrow> op_state pub_result" where
  "next_state L now authority expected f incumbent =
     and_then (bail_if (st_revision incumbent \<noteq> expected) (StaleWriter expected (st_revision incumbent))) (\<lambda>_.
     and_then (f incumbent) (\<lambda>nxt.
     and_then (validate_update L incumbent nxt) (\<lambda>_.
     and_then (bail_if (st_revision incumbent = - 1) RevisionExhausted) (\<lambda>_.
     and_then (bail_if (\<not> authority) AuthorityReplaced) (\<lambda>_.
     Inr (nxt\<lparr>st_revision := st_revision incumbent + 1,
              st_updated_unix_millis := max now (st_updated_unix_millis incumbent)\<rparr>))))))"

definition checkpoint_operation ::
  "pub_lib \<Rightarrow> u64 \<Rightarrow> bool \<Rightarrow> string \<Rightarrow> u64 \<Rightarrow> update \<Rightarrow> pub_root \<Rightarrow> pub_root \<times> op_state pub_result" where
  "checkpoint_operation L now authority u expected f r =
     (case and_then (load_operation L r u) (\<lambda>incumbent.
           and_then (next_state L now authority expected f incumbent) (\<lambda>nxt.
           and_then (operation_path L u) (\<lambda>nm. Inr (nm, nxt)))) of
        Inl e \<Rightarrow> (r, Inl e)
      | Inr (nm, nxt) \<Rightarrow> (persist_state L nm nxt r, Inr nxt))"

definition advance_phase where
  "advance_phase L now authority u expected ph r =
     checkpoint_operation L now authority u expected (advance_update ph) r"

definition update_progress where
  "update_progress L now authority u expected pg r =
     checkpoint_operation L now authority u expected (progress_update pg) r"

definition record_artifact where
  "record_artifact L now authority u expected p d r =
     checkpoint_operation L now authority u expected (artifact_update p d) r"

definition request_cancel where
  "request_cancel L now authority u expected r =
     checkpoint_operation L now authority u expected cancel_update r"

definition acknowledge_cancel where
  "acknowledge_cancel L now authority u expected r =
     checkpoint_operation L now authority u expected acknowledge_update r"

definition record_op_failure where
  "record_op_failure L now authority u expected c m retryable r =
     checkpoint_operation L now authority u expected (failure_update c m retryable) r"

definition resume_operation where
  "resume_operation L now authority requested expected r =
     checkpoint_operation L now authority (pl_operation_uuid requested) expected (resume_update L requested) r"

definition record_code_link_base_generation where
  "record_code_link_base_generation L now authority u expected g r =
     checkpoint_operation L now authority u expected (baseline_update L g) r"

lemmas checkpoint_calls =
  advance_phase_def update_progress_def record_artifact_def request_cancel_def acknowledge_cancel_def
  record_op_failure_def resume_operation_def record_code_link_base_generation_def

section \<open>What a checkpoint does\<close>

lemma load_file_Inr_iff:
  "load_file L u dir = Inr s \<longleftrightarrow>
     (\<exists>d e. dir = Some d \<and> od_state d = Some (Envelope e) \<and> validate_loaded_state L u e = Inr ()
        \<and> s = je_state e)"
proof (cases "Option.bind dir od_state")
  case None
  then show ?thesis by (cases dir) (auto simp: load_file_def)
next
  case (Some fl)
  then show ?thesis by (cases dir; cases fl) (auto simp: load_file_def)
qed

lemma load_operation_Inr_iff:
  "load_operation L r u = Inr s \<longleftrightarrow>
     (\<exists>v e d. lib_parse_uuid L u = Some v \<and> v \<noteq> 0
        \<and> map_of (pr_operations r) (lib_show_uuid L v) = Some d \<and> od_state d = Some (Envelope e)
        \<and> validate_loaded_state L u e = Inr () \<and> s = je_state e)"
  by (auto simp: load_operation_def load_file_Inr_iff)

lemma validate_loaded_Inr_iff:
  "validate_loaded_state L u e = Inr w \<longleftrightarrow>
     st_state_version (je_state e) = OPERATION_STATE_VERSION
     \<and> plan_validate L (st_plan (je_state e)) = Inr ()
     \<and> (\<exists>v. lib_parse_uuid L u = Some v \<and> lib_parse_uuid L (pl_operation_uuid (st_plan (je_state e))) = Some v)
     \<and> state_checksum L (je_state e) = je_checksum_blake3 e"
  by (auto simp: validate_loaded_state_def)

lemma loaded_plan:
  assumes "load_operation L r u = Inr s"
  shows "plan_validate L (st_plan s) = Inr ()" "st_state_version s = OPERATION_STATE_VERSION"
    "lib_parse_uuid L (pl_operation_uuid (st_plan s)) = lib_parse_uuid L u"
  using assms by (auto simp: load_operation_Inr_iff validate_loaded_Inr_iff)

lemma map_of_persist [simp]:
  "map_of (pr_operations (persist_state L nm s r)) =
     (map_of (pr_operations r))(nm \<mapsto>
        (case map_of (pr_operations r) nm of
              None \<Rightarrow> \<lparr>od_state = Some (envelope_of L s), od_inputs = None\<rparr>
            | Some d \<Rightarrow> d\<lparr>od_state := Some (envelope_of L s)\<rparr>))"
  by (simp add: persist_state_def update_conv')

lemma persist_other [simp]:
  "pr_current (persist_state L nm s r) = pr_current r"
  "pr_slots (persist_state L nm s r) = pr_slots r"
  by (simp_all add: persist_state_def)

text \<open>A stored entry is what a load returns.\<close>

lemma load_persist:
  assumes "lib_parse_uuid L u = Some v" "v \<noteq> 0"
    and "plan_validate L (st_plan s) = Inr ()" "st_state_version s = OPERATION_STATE_VERSION"
    and "lib_parse_uuid L (pl_operation_uuid (st_plan s)) = Some v"
  shows "load_operation L (persist_state L (lib_show_uuid L v) s r) u = Inr s"
  using assms
  by (auto simp: load_operation_Inr_iff validate_loaded_Inr_iff envelope_of_def split: option.splits)

lemma load_persist_other:
  assumes "lib_parse_uuid L u = Some w" "lib_show_uuid L w \<noteq> nm"
  shows "load_operation L (persist_state L nm s r) u = load_operation L r u"
  using assms by (simp add: load_operation_def load_file_def operation_path_def parse_non_nil_uuid_def)

lemma checkpoint_Inr:
  assumes "checkpoint_operation L now authority u expected f r = (r', Inr s)"
  obtains v inc nxt where
    "lib_parse_uuid L u = Some v" "v \<noteq> 0" "load_operation L r u = Inr inc"
    "st_revision inc = expected" "expected \<noteq> - 1" "authority" "f inc = Inr nxt"
    "validate_update L inc nxt = Inr ()"
    "s = nxt\<lparr>st_revision := expected + 1, st_updated_unix_millis := max now (st_updated_unix_millis inc)\<rparr>"
    "r' = persist_state L (lib_show_uuid L v) s r"
  using assms
  by (auto simp: checkpoint_operation_def next_state_def split: sum.splits prod.splits)

lemma checkpoint_Inl:
  "checkpoint_operation L now authority u expected f r = (r', Inl e) \<Longrightarrow> r' = r"
  by (auto simp: checkpoint_operation_def split: sum.splits prod.splits)

lemma checkpoint_effect:
  assumes "checkpoint_operation L now authority u expected f r = (r', Inr s)"
  obtains inc where
    "load_operation L r u = Inr inc" "st_revision inc = expected" "expected \<noteq> - 1"
    "st_revision s = expected + 1" "st_plan s = st_plan inc"
    "phase_move (st_phase inc) (st_phase s)" "load_operation L r' u = Inr s"
    "pr_current r' = pr_current r" "pr_slots r' = pr_slots r"
proof -
  from assms show ?thesis
  proof (rule checkpoint_Inr)
    fix v inc nxt
    assume a: "lib_parse_uuid L u = Some v" "v \<noteq> 0" "load_operation L r u = Inr inc"
      "st_revision inc = expected" "expected \<noteq> - 1" "validate_update L inc nxt = Inr ()"
      "s = nxt\<lparr>st_revision := expected + 1, st_updated_unix_millis := max now (st_updated_unix_millis inc)\<rparr>"
      "r' = persist_state L (lib_show_uuid L v) s r"
    note vu = validate_update_Inr [OF a(6)]
    have "load_operation L r' u = Inr s"
      unfolding a(8) using a(1,2,7) vu loaded_plan(3) [OF a(3)] by (intro load_persist) simp_all
    with a vu show thesis by (intro that) simp_all
  qed
qed

text \<open>A call with an outdated revision is refused and writes nothing.\<close>

lemma checkpoint_stale:
  assumes "load_operation L r u = Inr inc" "st_revision inc \<noteq> expected"
  shows "checkpoint_operation L now authority u expected f r =
           (r, Inl (StaleWriter expected (st_revision inc)))"
  using assms by (simp add: checkpoint_operation_def next_state_def bail_if_def)

lemma word_Suc_neq: "x \<noteq> x + (1 :: u64)"
  by simp

text \<open>
  Of two writers of one operation that observed the same revision at most one succeeds: once one of
  them has committed, every later checkpoint from that revision, whatever it would write, is refused as
  stale with the committed revision and leaves the publication root as it is.
\<close>

theorem second_writer_is_stale:
  assumes "checkpoint_operation L now authority u expected f r = (r', Inr s)"
  shows "checkpoint_operation L now' authority' u expected g r' =
           (r', Inl (StaleWriter expected (expected + 1)))"
proof -
  obtain inc where "load_operation L r' u = Inr s" "st_revision s = expected + 1"
    using assms by (rule checkpoint_effect)
  then show ?thesis
    using checkpoint_stale [of L r' u s expected now' authority' g] by simp
qed

end
