(* ===== verification/Publication_Slots.thy ===== *)
theory Publication_Slots
  imports Publication_Journal
begin

text \<open>
  The contents of a publication slot (\<^verbatim>\<open>crates/nestweaver-engine/src/publication.rs\<close>): the manifest of a
  bundle and its checks, the trust state of a derived artifact, the comparison of a slot with its
  manifest, and the paths by which slots are named.

  A slot is the list of the entries a walk below it yields, by their path relative to the slot. Looking
  an artifact up normalises its path, as the file system does; a path that leads through a linked
  directory finds nothing (the walk refuses the link in any case).
\<close>

section \<open>Identities and manifests\<close>

definition identity_validate :: "pub_lib \<Rightarrow> pub_identity \<Rightarrow> unit pub_result" where
  "identity_validate L i =
     and_then (parse_non_nil_uuid L ''brain_uuid'' (id_brain_uuid i)) (\<lambda>brain.
     and_then (parse_non_nil_uuid L ''publication_uuid'' (id_publication_uuid i)) (\<lambda>publication.
     bail_if (brain = publication) SameIdentity))"

definition normal_path :: "string \<Rightarrow> string" where
  "normal_path p = join ''/'' (List.map_filter (\<lambda>c. case c of Normal g \<Rightarrow> Some g | _ \<Rightarrow> None) (path_components p))"

definition unsafe_path :: "string \<Rightarrow> bool" where
  "unsafe_path p \<longleftrightarrow> is_absolute p \<or> \<not> list_all is_normal (path_components p)"

text \<open>The checks on one descriptor, given the normal paths seen before it, as they are and lowered.\<close>

definition check_artifact ::
  "pub_lib \<Rightarrow> pub_bundle \<Rightarrow> uuid \<Rightarrow> uuid \<Rightarrow> string list \<Rightarrow> string list \<Rightarrow> artifact \<Rightarrow> unit pub_result" where
  "check_artifact L b brain publication paths folded d =
     and_then (bail_if (af_path d = []) EmptyPath) (\<lambda>_.
     and_then (bail_if (unsafe_path (af_path d)) (UnsafePath (af_path d))) (\<lambda>_.
     and_then (bail_if (normal_path (af_path d) \<in> set paths) (DuplicateArtifact (af_path d))) (\<lambda>_.
     and_then (bail_if (to_lowercase (normal_path (af_path d)) \<in> set folded)
       (CaseOnlyDifference (af_path d))) (\<lambda>_.
     and_then (parse_non_nil_uuid L ''artifact brain_uuid'' (af_brain_uuid d)) (\<lambda>observed_brain.
     and_then (parse_non_nil_uuid L ''artifact publication_uuid'' (af_publication_uuid d)) (\<lambda>observed_publication.
     and_then (bail_if (observed_brain \<noteq> brain \<or> observed_publication \<noteq> publication)
       (ForeignArtifact (af_path d))) (\<lambda>_.
     and_then (bail_if (af_producer_version d \<noteq> bn_producer_version b
                        \<or> af_algorithm_fingerprint d = [] \<or> af_schema_version d = 0)
       (BadArtifactMetadata (af_path d))) (\<lambda>_.
     and_then (bail_if (af_source_graph_generation d \<noteq> bn_source_graph_generation b)
       (GenerationMismatch (af_path d))) (\<lambda>_.
     validate_digest (af_blake3 d))))))))))"

fun check_artifacts ::
  "pub_lib \<Rightarrow> pub_bundle \<Rightarrow> uuid \<Rightarrow> uuid \<Rightarrow> string list \<Rightarrow> string list \<Rightarrow> artifact list \<Rightarrow> unit pub_result" where
  "check_artifacts L b brain publication paths folded [] = Inr ()"
| "check_artifacts L b brain publication paths folded (d # ds) =
     and_then (check_artifact L b brain publication paths folded d) (\<lambda>_.
     check_artifacts L b brain publication
       (normal_path (af_path d) # paths) (to_lowercase (normal_path (af_path d)) # folded) ds)"

definition validate_metadata :: "pub_lib \<Rightarrow> u32 \<Rightarrow> pub_bundle \<Rightarrow> unit pub_result" where
  "validate_metadata L expected_format b =
     and_then (bail_if (bn_format_version b \<noteq> expected_format) FormatMismatch) (\<lambda>_.
     and_then (identity_validate L \<lparr>id_brain_uuid = bn_brain_uuid b,
                                    id_publication_uuid = bn_publication_uuid b\<rparr>) (\<lambda>_.
     and_then (bail_if (bn_producer_version b = []) EmptyProducer) (\<lambda>_.
     and_then (parse_non_nil_uuid L ''bundle brain_uuid'' (bn_brain_uuid b)) (\<lambda>brain.
     and_then (parse_non_nil_uuid L ''bundle publication_uuid'' (bn_publication_uuid b)) (\<lambda>publication.
     and_then (bail_if (bn_artifacts b = []) NoArtifacts) (\<lambda>_.
     check_artifacts L b brain publication [] [] (bn_artifacts b)))))))"

section \<open>The trust state of a derived artifact\<close>

record artifact_expectation =
  ae_path :: string
  ae_kind :: artifact_kind
  ae_schema_version :: u32
  ae_brain_uuid :: string
  ae_publication_uuid :: string
  ae_source_graph_generation :: u64
  ae_algorithm_fingerprint :: string

datatype artifact_state =
    A_Ready
  | A_Missing string
  | A_Stale string u64 u64
  | A_Incompatible string
  | A_ForeignIdentity string string string string string
  | A_Corrupt string

text \<open>The observation: an unreadable descriptor, none, or one. The reasons in words are not modelled.\<close>

definition classify_artifact_descriptor ::
  "pub_lib \<Rightarrow> artifact_expectation \<Rightarrow> unit + artifact option \<Rightarrow> artifact_state" where
  "classify_artifact_descriptor L x observed =
     (case observed of
        Inl _ \<Rightarrow> A_Corrupt (ae_path x)
      | Inr None \<Rightarrow> A_Missing (ae_path x)
      | Inr (Some d) \<Rightarrow>
        (case and_then (identity_validate L \<lparr>id_brain_uuid = af_brain_uuid d,
                                            id_publication_uuid = af_publication_uuid d\<rparr>) (\<lambda>_.
              and_then (parse_non_nil_uuid L ''expected brain_uuid'' (ae_brain_uuid x)) (\<lambda>eb.
              and_then (parse_non_nil_uuid L ''observed brain_uuid'' (af_brain_uuid d)) (\<lambda>ob.
              and_then (parse_non_nil_uuid L ''expected publication_uuid'' (ae_publication_uuid x)) (\<lambda>ep.
              and_then (parse_non_nil_uuid L ''observed publication_uuid'' (af_publication_uuid d)) (\<lambda>op.
              Inr (eb = ob \<and> ep = op)))))) of
           Inl _ \<Rightarrow> A_Corrupt (ae_path x)
         | Inr False \<Rightarrow> A_ForeignIdentity (ae_path x) (ae_brain_uuid x) (af_brain_uuid d)
                          (ae_publication_uuid x) (af_publication_uuid d)
         | Inr True \<Rightarrow>
             if af_path d \<noteq> ae_path x \<or> af_kind d \<noteq> ae_kind x
                \<or> af_schema_version d \<noteq> ae_schema_version x
                \<or> af_algorithm_fingerprint d \<noteq> ae_algorithm_fingerprint x
             then A_Incompatible (ae_path x)
             else if af_source_graph_generation d \<noteq> ae_source_graph_generation x
             then A_Stale (ae_path x) (ae_source_graph_generation x) (af_source_graph_generation d)
             else A_Ready))"

section \<open>A slot against its manifest\<close>

definition PUBLICATION_MANIFEST_FILE :: string where
  "PUBLICATION_MANIFEST_FILE = ''publication.json''"

definition PUBLICATION_GRAPH_FILE :: string where
  "PUBLICATION_GRAPH_FILE = ''graph.lbug''"

definition slot_lookup :: "slot \<Rightarrow> string \<Rightarrow> slot_entry option" where
  "slot_lookup s p = map_of s (normal_path p)"

text \<open>\<^verbatim>\<open>fs::read\<close>, which follows links.\<close>

definition slot_read :: "slot \<Rightarrow> string \<Rightarrow> string option" where
  "slot_read s p =
     (case slot_lookup s p of
        Some (Regular bytes) \<Rightarrow> Some bytes
      | Some (Link target) \<Rightarrow> target
      | _ \<Rightarrow> None)"

datatype artifact_bytes = Verified | Live

definition check_described :: "pub_lib \<Rightarrow> artifact_bytes \<Rightarrow> slot \<Rightarrow> artifact \<Rightarrow> unit pub_result" where
  "check_described L mode s d =
     (case slot_lookup s (af_path d) of
        None \<Rightarrow> Inl (ReadFailed (af_path d))
      | Some (Link _) \<Rightarrow> Inl (LinkedArtifact (af_path d))
      | Some e \<Rightarrow>
          and_then (bail_if (is_absolute (af_path d)) (ArtifactOutside (af_path d))) (\<lambda>_.
          if mode \<noteq> Verified then Inr ()
          else case e of
            Regular bytes \<Rightarrow>
              bail_if (length bytes \<noteq> unat (af_byte_size d) \<or> lib_blake3_hex L bytes \<noteq> af_blake3 d)
                (CorruptArtifact (af_path d))
          | _ \<Rightarrow> Inl (ReadFailed (af_path d))))"

fun check_all_described :: "pub_lib \<Rightarrow> artifact_bytes \<Rightarrow> slot \<Rightarrow> artifact list \<Rightarrow> unit pub_result" where
  "check_all_described L mode s [] = Inr ()"
| "check_all_described L mode s (d # ds) =
     and_then (check_described L mode s d) (\<lambda>_. check_all_described L mode s ds)"

definition is_write_lock :: "pub_bundle \<Rightarrow> string \<Rightarrow> bool" where
  "is_write_lock b nm \<longleftrightarrow>
     list_ex (\<lambda>a. af_kind a = K_Graph \<and> nm = af_path a @ ''.write.lock'') (bn_artifacts b)"

fun walk_slot :: "pub_bundle \<Rightarrow> slot \<Rightarrow> string list pub_result" where
  "walk_slot b [] = Inr []"
| "walk_slot b ((nm, e) # rest) =
     (case e of
        Link _ \<Rightarrow> Inl (LinkInSlot nm)
      | Directory \<Rightarrow> walk_slot b rest
      | Regular _ \<Rightarrow>
          and_then (walk_slot b rest) (\<lambda>present.
          Inr (if nm = PUBLICATION_MANIFEST_FILE \<or> is_write_lock b nm then present else nm # present)))"

definition validate_slot_contents :: "pub_lib \<Rightarrow> slot \<Rightarrow> pub_bundle \<Rightarrow> artifact_bytes \<Rightarrow> unit pub_result" where
  "validate_slot_contents L s b mode =
     and_then (check_all_described L mode s (bn_artifacts b)) (\<lambda>_.
     and_then (walk_slot b s) (\<lambda>present.
     let undescribed = sort [nm \<leftarrow> present. nm \<notin> set (map af_path (bn_artifacts b))]
     in bail_if (undescribed \<noteq> []) (UndescribedFiles undescribed)))"

text \<open>The specification of a sealed slot: it holds what the manifest declares, byte for byte, and
  nothing else.\<close>

fun entry_declared :: "pub_bundle \<Rightarrow> string \<times> slot_entry \<Rightarrow> bool" where
  "entry_declared b (nm, Directory) = True"
| "entry_declared b (nm, Link _) = False"
| "entry_declared b (nm, Regular _) =
     (nm = PUBLICATION_MANIFEST_FILE \<or> is_write_lock b nm \<or> nm \<in> set (map af_path (bn_artifacts b)))"

definition artifact_intact :: "pub_lib \<Rightarrow> slot \<Rightarrow> artifact \<Rightarrow> bool" where
  "artifact_intact L s d \<longleftrightarrow>
     (case slot_lookup s (af_path d) of
        Some (Regular bytes) \<Rightarrow> length bytes = unat (af_byte_size d) \<and> lib_blake3_hex L bytes = af_blake3 d
      | _ \<Rightarrow> False)"

definition slot_sealed :: "pub_lib \<Rightarrow> slot \<Rightarrow> pub_bundle \<Rightarrow> bool" where
  "slot_sealed L s b \<longleftrightarrow> list_all (artifact_intact L s) (bn_artifacts b) \<and> list_all (entry_declared b) s"

lemma check_artifacts_safe:
  "check_artifacts L b brain publication paths folded ds = Inr u \<Longrightarrow>
     list_all (\<lambda>d. \<not> unsafe_path (af_path d)) ds"
  by (induction ds arbitrary: paths folded) (auto simp: check_artifact_def)

lemma metadata_safe:
  "validate_metadata L fmt b = Inr u \<Longrightarrow> list_all (\<lambda>d. \<not> is_absolute (af_path d)) (bn_artifacts b)"
  by (auto simp: validate_metadata_def list_all_iff unsafe_path_def dest!: check_artifacts_safe)

lemma check_described_Verified:
  "\<not> is_absolute (af_path d) \<Longrightarrow> check_described L Verified s d = Inr () \<longleftrightarrow> artifact_intact L s d"
  by (auto simp: check_described_def artifact_intact_def bail_if_def
      split: option.splits slot_entry.splits)

lemma check_all_Verified:
  "list_all (\<lambda>d. \<not> is_absolute (af_path d)) ds \<Longrightarrow>
     check_all_described L Verified s ds = Inr () \<longleftrightarrow> list_all (artifact_intact L s) ds"
  by (induction ds) (auto simp: check_described_Verified)

lemma walk_slot_eq:
  "(\<exists>present. walk_slot b s = Inr present
      \<and> [nm \<leftarrow> present. nm \<notin> set (map af_path (bn_artifacts b))] = []) \<longleftrightarrow> list_all (entry_declared b) s"
proof (induction s)
  case (Cons x s)
  obtain nm e where x: "x = (nm, e)" by (cases x)
  from Cons show ?case by (cases e; cases "walk_slot b s") (auto simp: x split: if_splits)
qed simp

text \<open>
  The check a slot passes before activation accepts exactly the sealed slots: every artifact of the
  manifest is a regular file of the slot with the declared size and digest, no entry is a link, and no
  file is present that the manifest does not declare (apart from the manifest itself and the writer-lock
  file beside the graph).
\<close>

theorem slot_check_exact:
  assumes "validate_metadata L fmt b = Inr ()"
  shows "validate_slot_contents L s b Verified = Inr () \<longleftrightarrow> slot_sealed L s b"
proof -
  have "sort xs = [] \<longleftrightarrow> xs = []" for xs :: "string list"
    by (metis set_empty set_sort)
  with check_all_Verified [OF metadata_safe [OF assms]] walk_slot_eq [of b s] show ?thesis
    unfolding validate_slot_contents_def slot_sealed_def Let_def
    by (auto simp del: set_map)
qed

end
