(* ===== verification/Publication_Scope.thy ===== *)
theory Publication_Scope
  imports Publication_Journal
begin

text \<open>
  Resuming a publication whose inputs changed (\<^verbatim>\<open>publication_operation.rs\<close>): the record of the inputs an
  operation was built from, the decision what a resume must redo, and the rewind of the journal.
\<close>

section \<open>The recorded inputs\<close>

definition OPERATION_INPUTS_VERSION :: u32 where
  "OPERATION_INPUTS_VERSION = 1"

definition write_operation_inputs ::
  "pub_lib \<Rightarrow> string \<Rightarrow> operation_inputs \<Rightarrow> pub_root \<Rightarrow> pub_root \<times> unit pub_result" where
  "write_operation_inputs L u i r =
     (case and_then (parse_non_nil_uuid L ''operation_uuid'' u) (\<lambda>_.
           and_then (operation_path L u) (\<lambda>nm.
           case map_of (pr_operations r) nm of
             None \<Rightarrow> Inl (ReadFailed u)
           | Some d \<Rightarrow> Inr (nm, d))) of
        Inl e \<Rightarrow> (r, Inl e)
      | Inr (nm, d) \<Rightarrow>
          (r\<lparr>pr_operations :=
               AList.update nm
                 (d\<lparr>od_inputs := Some \<lparr>ie_checksum_blake3 = lib_blake3_hex L (lib_inputs_json L i),
                                       ie_inputs = i\<rparr>\<rparr>)
                 (pr_operations r)\<rparr>, Inr ()))"

definition load_operation_inputs :: "pub_lib \<Rightarrow> pub_root \<Rightarrow> string \<Rightarrow> operation_inputs option" where
  "load_operation_inputs L r u =
     (case operation_path L u of
        Inl _ \<Rightarrow> None
      | Inr nm \<Rightarrow>
          Option.bind (map_of (pr_operations r) nm) (\<lambda>d.
          Option.bind (od_inputs d) (\<lambda>e.
          if lib_blake3_hex L (lib_inputs_json L (ie_inputs e)) = ie_checksum_blake3 e
             \<and> oi_version (ie_inputs e) = OPERATION_INPUTS_VERSION
          then Some (ie_inputs e) else None)))"

section \<open>What changed\<close>

datatype resume_scope = Unchanged | Rescope "string list" "string list" bool | Restart string

definition repo_moved :: "repo_source \<Rightarrow> repo_source \<Rightarrow> bool" where
  "repo_moved before repo \<longleftrightarrow>
     rp_url before \<noteq> rp_url repo \<or> rp_name before \<noteq> rp_name repo
     \<or> rp_instance_id before \<noteq> rp_instance_id repo \<or> rp_root_path before \<noteq> rp_root_path repo"

definition repo_changed :: "repo_source \<Rightarrow> repo_source \<Rightarrow> bool" where
  "repo_changed before repo \<longleftrightarrow>
     rp_content_blake3 before \<noteq> rp_content_blake3 repo \<or> rp_observed_head before \<noteq> rp_observed_head repo"

definition vault_moved :: "vault_source \<Rightarrow> vault_source \<Rightarrow> bool" where
  "vault_moved before vault \<longleftrightarrow>
     vs_name before \<noteq> vs_name vault \<or> vs_instance_id before \<noteq> vs_instance_id vault
     \<or> vs_root_path before \<noteq> vs_root_path vault"

definition vault_changed :: "vault_source \<Rightarrow> vault_source \<Rightarrow> bool" where
  "vault_changed before vault \<longleftrightarrow> vs_content_blake3 before \<noteq> vs_content_blake3 vault"

text \<open>The recorded repositories are collected into a map, in which a later entry of a uid replaces an
  earlier one; the recorded vaults are searched from the front.\<close>

fun scan_repos :: "repo_source list \<Rightarrow> repo_source list \<Rightarrow> string + string list" where
  "scan_repos recorded [] = Inr []"
| "scan_repos recorded (repo # rest) =
     (case find (\<lambda>b. rp_uid b = rp_uid repo) (rev recorded) of
        None \<Rightarrow> Inl (''repository '' @ rp_url repo @ '' was added'')
      | Some before \<Rightarrow>
          if repo_moved before repo then Inl (''repository '' @ rp_url repo @ '' was moved or renamed'')
          else case scan_repos recorded rest of
            Inl reason \<Rightarrow> Inl reason
          | Inr uids \<Rightarrow> Inr (if repo_changed before repo then rp_uid repo # uids else uids))"

fun scan_vaults :: "vault_source list \<Rightarrow> vault_source list \<Rightarrow> string + string list" where
  "scan_vaults recorded [] = Inr []"
| "scan_vaults recorded (vault # rest) =
     (case find (\<lambda>b. vs_uid b = vs_uid vault) recorded of
        None \<Rightarrow> Inl (''vault '' @ vs_root_path vault @ '' was added'')
      | Some before \<Rightarrow>
          if vault_moved before vault then Inl (''vault '' @ vs_root_path vault @ '' was moved or renamed'')
          else case scan_vaults recorded rest of
            Inl reason \<Rightarrow> Inl reason
          | Inr uids \<Rightarrow> Inr (if vault_changed before vault then vs_uid vault # uids else uids))"

definition plan_resume_scope ::
  "operation_inputs \<Rightarrow> source_manifest \<Rightarrow> string \<Rightarrow> string \<Rightarrow> resume_scope" where
  "plan_resume_scope recorded current config_blake3 preserved_state_fingerprint =
     (if oi_config_blake3 recorded \<noteq> config_blake3 then Restart ''the instance configuration changed''
      else if sm_version (oi_sources recorded) \<noteq> sm_version current
      then Restart ''the source manifest format changed''
      else case scan_repos (sm_repos (oi_sources recorded)) (sm_repos current) of
        Inl reason \<Rightarrow> Restart reason
      | Inr repos \<Rightarrow>
      (case find (\<lambda>b. rp_uid b \<notin> set (map rp_uid (sm_repos current))) (sm_repos (oi_sources recorded)) of
        Some removed \<Rightarrow> Restart (''repository '' @ rp_url removed @ '' was removed'')
      | None \<Rightarrow>
      (case scan_vaults (sm_vaults (oi_sources recorded)) (sm_vaults current) of
        Inl reason \<Rightarrow> Restart reason
      | Inr vaults \<Rightarrow>
      (case find (\<lambda>b. vs_uid b \<notin> set (map vs_uid (sm_vaults current))) (sm_vaults (oi_sources recorded)) of
        Some removed \<Rightarrow> Restart (''vault '' @ vs_root_path removed @ '' was removed'')
      | None \<Rightarrow>
      (let preserved_state_changed =
             oi_preserved_state_fingerprint recorded \<noteq> preserved_state_fingerprint
       in if repos = [] \<and> vaults = [] \<and> \<not> preserved_state_changed then Unchanged
          else Rescope repos vaults preserved_state_changed)))))"

section \<open>The scope is exact\<close>

text \<open>Which recorded source a current one continues.\<close>

definition repo_before :: "repo_source list \<Rightarrow> repo_source \<Rightarrow> repo_source option" where
  "repo_before recorded repo = find (\<lambda>b. rp_uid b = rp_uid repo) (rev recorded)"

definition vault_before :: "vault_source list \<Rightarrow> vault_source \<Rightarrow> vault_source option" where
  "vault_before recorded vault = find (\<lambda>b. vs_uid b = vs_uid vault) recorded"

definition repo_stays :: "repo_source list \<Rightarrow> repo_source \<Rightarrow> bool" where
  "repo_stays recorded repo \<longleftrightarrow>
     (case repo_before recorded repo of None \<Rightarrow> False | Some b \<Rightarrow> \<not> repo_moved b repo)"

definition repo_drifts :: "repo_source list \<Rightarrow> repo_source \<Rightarrow> bool" where
  "repo_drifts recorded repo \<longleftrightarrow>
     (case repo_before recorded repo of None \<Rightarrow> False | Some b \<Rightarrow> repo_changed b repo)"

definition vault_stays :: "vault_source list \<Rightarrow> vault_source \<Rightarrow> bool" where
  "vault_stays recorded vault \<longleftrightarrow>
     (case vault_before recorded vault of None \<Rightarrow> False | Some b \<Rightarrow> \<not> vault_moved b vault)"

definition vault_drifts :: "vault_source list \<Rightarrow> vault_source \<Rightarrow> bool" where
  "vault_drifts recorded vault \<longleftrightarrow>
     (case vault_before recorded vault of None \<Rightarrow> False | Some b \<Rightarrow> vault_changed b vault)"

lemmas source_defs =
  repo_stays_def repo_drifts_def vault_stays_def vault_drifts_def repo_before_def vault_before_def

lemma scan_repos_Inr:
  "list_all (repo_stays recorded) repos \<Longrightarrow>
     scan_repos recorded repos = Inr (map rp_uid (filter (repo_drifts recorded) repos))"
  by (induction repos) (auto simp: source_defs split: option.splits)

lemma scan_repos_Inl:
  "\<not> list_all (repo_stays recorded) repos \<Longrightarrow> \<exists>reason. scan_repos recorded repos = Inl reason"
  by (induction repos) (auto simp: source_defs split: option.splits sum.splits)

lemma scan_vaults_Inr:
  "list_all (vault_stays recorded) vaults \<Longrightarrow>
     scan_vaults recorded vaults = Inr (map vs_uid (filter (vault_drifts recorded) vaults))"
  by (induction vaults) (auto simp: source_defs split: option.splits)

lemma scan_vaults_Inl:
  "\<not> list_all (vault_stays recorded) vaults \<Longrightarrow> \<exists>reason. scan_vaults recorded vaults = Inl reason"
  by (induction vaults) (auto simp: source_defs split: option.splits sum.splits)

text \<open>The sources, where they live and how they are indexed are the ones recorded.\<close>

definition same_sources :: "operation_inputs \<Rightarrow> source_manifest \<Rightarrow> string \<Rightarrow> bool" where
  "same_sources recorded current config_blake3 \<longleftrightarrow>
     oi_config_blake3 recorded = config_blake3
     \<and> sm_version (oi_sources recorded) = sm_version current
     \<and> list_all (repo_stays (sm_repos (oi_sources recorded))) (sm_repos current)
     \<and> set (map rp_uid (sm_repos (oi_sources recorded))) \<subseteq> set (map rp_uid (sm_repos current))
     \<and> list_all (vault_stays (sm_vaults (oi_sources recorded))) (sm_vaults current)
     \<and> set (map vs_uid (sm_vaults (oi_sources recorded))) \<subseteq> set (map vs_uid (sm_vaults current))"

definition changed_repos :: "operation_inputs \<Rightarrow> source_manifest \<Rightarrow> string list" where
  "changed_repos recorded current =
     map rp_uid (filter (repo_drifts (sm_repos (oi_sources recorded))) (sm_repos current))"

definition changed_vaults :: "operation_inputs \<Rightarrow> source_manifest \<Rightarrow> string list" where
  "changed_vaults recorded current =
     map vs_uid (filter (vault_drifts (sm_vaults (oi_sources recorded))) (sm_vaults current))"

lemma find_outside_None_iff: "find (\<lambda>b. f b \<notin> A) bs = None \<longleftrightarrow> set (map f bs) \<subseteq> A"
  by (auto simp: find_None_iff)

lemma plan_resume_scope_same:
  assumes "same_sources recorded current config_blake3"
  shows "plan_resume_scope recorded current config_blake3 fp =
     (if changed_repos recorded current = [] \<and> changed_vaults recorded current = []
         \<and> oi_preserved_state_fingerprint recorded = fp
      then Unchanged
      else Rescope (changed_repos recorded current) (changed_vaults recorded current)
             (oi_preserved_state_fingerprint recorded \<noteq> fp))"
proof -
  have "find (\<lambda>b. rp_uid b \<notin> set (map rp_uid (sm_repos current))) (sm_repos (oi_sources recorded)) = None"
    "find (\<lambda>b. vs_uid b \<notin> set (map vs_uid (sm_vaults current))) (sm_vaults (oi_sources recorded)) = None"
    using assms unfolding find_outside_None_iff same_sources_def by simp_all
  with assms show ?thesis
    by (simp add: plan_resume_scope_def same_sources_def scan_repos_Inr scan_vaults_Inr
        changed_repos_def changed_vaults_def del: set_map)
qed

lemma plan_resume_scope_other:
  assumes "\<not> same_sources recorded current config_blake3"
  shows "\<exists>reason. plan_resume_scope recorded current config_blake3 fp = Restart reason"
proof -
  let ?rr = "sm_repos (oi_sources recorded)" and ?rv = "sm_vaults (oi_sources recorded)"
  let ?fr = "find (\<lambda>b. rp_uid b \<notin> set (map rp_uid (sm_repos current))) ?rr"
  let ?fv = "find (\<lambda>b. vs_uid b \<notin> set (map vs_uid (sm_vaults current))) ?rv"
  note d = plan_resume_scope_def [of recorded current config_blake3 fp]
  consider "oi_config_blake3 recorded \<noteq> config_blake3" | "sm_version (oi_sources recorded) \<noteq> sm_version current"
    | "\<not> list_all (repo_stays ?rr) (sm_repos current)"
    | "list_all (repo_stays ?rr) (sm_repos current)" "?fr \<noteq> None"
    | "list_all (repo_stays ?rr) (sm_repos current)" "?fr = None" "\<not> list_all (vault_stays ?rv) (sm_vaults current)"
    | "list_all (repo_stays ?rr) (sm_repos current)" "?fr = None"
      "list_all (vault_stays ?rv) (sm_vaults current)" "?fv \<noteq> None"
    using assms unfolding same_sources_def find_outside_None_iff by blast
  then show ?thesis
  proof cases
    case 3
    with scan_repos_Inl [OF 3] show ?thesis by (auto simp: d)
  next
    case 4
    then show ?thesis by (auto simp: d scan_repos_Inr simp del: set_map)
  next
    case 5
    with scan_vaults_Inl [OF 5(3)] show ?thesis by (auto simp: d scan_repos_Inr simp del: set_map)
  next
    case 6
    then show ?thesis by (auto simp: d scan_repos_Inr scan_vaults_Inr simp del: set_map)
  qed (auto simp: d)
qed

text \<open>
  A resume is scoped exactly: when the configuration, the manifest format and the set, place and name
  of the sources are the recorded ones, it redoes precisely the repositories and vaults whose content or
  commit differs (and nothing when no source and no preserved state changed); in every other case it
  falls back to a full rebuild.
\<close>

theorem resume_scope_exact:
  "(plan_resume_scope recorded current config_blake3 fp = Unchanged \<longleftrightarrow>
     same_sources recorded current config_blake3 \<and> changed_repos recorded current = []
     \<and> changed_vaults recorded current = [] \<and> oi_preserved_state_fingerprint recorded = fp)
   \<and> (plan_resume_scope recorded current config_blake3 fp = Rescope repos vaults preserved \<longleftrightarrow>
     same_sources recorded current config_blake3 \<and> repos = changed_repos recorded current
     \<and> vaults = changed_vaults recorded current \<and> preserved = (oi_preserved_state_fingerprint recorded \<noteq> fp)
     \<and> \<not> (repos = [] \<and> vaults = [] \<and> \<not> preserved))
   \<and> ((\<exists>reason. plan_resume_scope recorded current config_blake3 fp = Restart reason) \<longleftrightarrow>
     \<not> same_sources recorded current config_blake3)"
  by (cases "same_sources recorded current config_blake3";
      use plan_resume_scope_same [of recorded current config_blake3 fp]
        plan_resume_scope_other [of recorded current config_blake3 fp] in auto)

section \<open>Rewinding the journal\<close>

definition invalidate :: "string \<Rightarrow> btree \<Rightarrow> btree" where
  "invalidate checkpoint m = bt_insert (''relink/'' @ checkpoint) ''invalidated'' (bt_remove checkpoint m)"

definition rescope_state ::
  "pub_lib \<Rightarrow> u64 \<Rightarrow> bool \<Rightarrow> publication_plan \<Rightarrow> u64 \<Rightarrow> string list \<Rightarrow> op_state \<Rightarrow> op_state pub_result" where
  "rescope_state L now authority requested expected invalidated inc =
     and_then (bail_if (st_revision inc \<noteq> expected) (StaleWriter expected (st_revision inc))) (\<lambda>_.
     and_then (bail_if (\<not> phase_accepts_rescope (st_phase inc) \<or> st_cancel_requested inc)
       (CannotRescope (st_phase inc))) (\<lambda>_.
     and_then (bail_if (permanently_failed inc) NotRetryable) (\<lambda>_.
     and_then (bail_if (requested\<lparr>pl_input_fingerprint := pl_input_fingerprint (st_plan inc)\<rparr> \<noteq> st_plan inc)
       IncompatibleResume) (\<lambda>_.
     let nxt = inc\<lparr>st_plan := (st_plan inc)\<lparr>pl_input_fingerprint := pl_input_fingerprint requested\<rparr>,
                   st_phase := (if st_phase inc \<noteq> Planned then Graph else st_phase inc),
                   st_completed_artifacts := fold invalidate invalidated (st_completed_artifacts inc),
                   st_failure := None, st_progress := None, st_validated_manifest_blake3 := None\<rparr>
     in and_then (plan_validate L (st_plan nxt)) (\<lambda>_.
        and_then (bail_if (st_revision inc = - 1) RevisionExhausted) (\<lambda>_.
        and_then (bail_if (\<not> authority) AuthorityReplaced) (\<lambda>_.
        Inr (nxt\<lparr>st_revision := st_revision inc + 1,
                 st_updated_unix_millis := max now (st_updated_unix_millis inc)\<rparr>))))))))"

definition rescope_operation ::
  "pub_lib \<Rightarrow> u64 \<Rightarrow> bool \<Rightarrow> publication_plan \<Rightarrow> u64 \<Rightarrow> string list \<Rightarrow> pub_root \<Rightarrow>
     pub_root \<times> op_state pub_result" where
  "rescope_operation L now authority requested expected invalidated r =
     (case and_then (plan_validate L requested) (\<lambda>_.
           and_then (load_operation L r (pl_operation_uuid requested)) (\<lambda>inc.
           and_then (rescope_state L now authority requested expected invalidated inc) (\<lambda>nxt.
           and_then (operation_path L (pl_operation_uuid requested)) (\<lambda>nm. Inr (nm, nxt))))) of
        Inl e \<Rightarrow> (r, Inl e)
      | Inr (nm, nxt) \<Rightarrow> (persist_state L nm nxt r, Inr nxt))"

lemma rescope_Inl: "rescope_operation L now authority requested expected cs r = (r', Inl e) \<Longrightarrow> r' = r"
  by (auto simp: rescope_operation_def split: sum.splits prod.splits)

lemma rescope_Inr:
  assumes "rescope_operation L now authority requested expected cs r = (r', Inr s)"
  obtains v inc where
    "lib_parse_uuid L (pl_operation_uuid requested) = Some v" "v \<noteq> 0"
    "load_operation L r (pl_operation_uuid requested) = Inr inc"
    "st_revision inc = expected" "expected \<noteq> - 1" "authority" "phase_accepts_rescope (st_phase inc)"
    "\<not> st_cancel_requested inc" "\<not> permanently_failed inc"
    "requested\<lparr>pl_input_fingerprint := pl_input_fingerprint (st_plan inc)\<rparr> = st_plan inc"
    "plan_validate L (st_plan s) = Inr ()"
    "s = inc\<lparr>st_plan := (st_plan inc)\<lparr>pl_input_fingerprint := pl_input_fingerprint requested\<rparr>,
             st_phase := (if st_phase inc = Planned then Planned else Graph),
             st_completed_artifacts := fold invalidate cs (st_completed_artifacts inc),
             st_failure := None, st_progress := None, st_validated_manifest_blake3 := None,
             st_revision := expected + 1, st_updated_unix_millis := max now (st_updated_unix_millis inc)\<rparr>"
    "r' = persist_state L (lib_show_uuid L v) s r"
  using assms
  by (auto simp: rescope_operation_def rescope_state_def Let_def split: sum.splits prod.splits)

lemma rescope_effect:
  assumes "rescope_operation L now authority requested expected cs r = (r', Inr s)"
  obtains inc where
    "load_operation L r (pl_operation_uuid requested) = Inr inc" "st_revision inc = expected"
    "expected \<noteq> - 1" "st_revision s = expected + 1" "phase_accepts_rescope (st_phase inc)"
    "st_phase s = (if st_phase inc = Planned then Planned else Graph)"
    "st_plan s = (st_plan inc)\<lparr>pl_input_fingerprint := pl_input_fingerprint requested\<rparr>"
    "st_plan s = requested" "st_completed_artifacts s = fold invalidate cs (st_completed_artifacts inc)"
    "load_operation L r' (pl_operation_uuid requested) = Inr s"
    "pr_current r' = pr_current r" "pr_slots r' = pr_slots r"
proof -
  from assms show ?thesis
  proof (rule rescope_Inr)
    fix v inc
    assume a: "lib_parse_uuid L (pl_operation_uuid requested) = Some v" "v \<noteq> 0"
      "load_operation L r (pl_operation_uuid requested) = Inr inc"
      "st_revision inc = expected" "expected \<noteq> - 1" "phase_accepts_rescope (st_phase inc)"
      "requested\<lparr>pl_input_fingerprint := pl_input_fingerprint (st_plan inc)\<rparr> = st_plan inc"
      "plan_validate L (st_plan s) = Inr ()"
      "s = inc\<lparr>st_plan := (st_plan inc)\<lparr>pl_input_fingerprint := pl_input_fingerprint requested\<rparr>,
             st_phase := (if st_phase inc = Planned then Planned else Graph),
             st_completed_artifacts := fold invalidate cs (st_completed_artifacts inc),
             st_failure := None, st_progress := None, st_validated_manifest_blake3 := None,
             st_revision := expected + 1, st_updated_unix_millis := max now (st_updated_unix_millis inc)\<rparr>"
      "r' = persist_state L (lib_show_uuid L v) s r"
    have fields: "st_plan s = (st_plan inc)\<lparr>pl_input_fingerprint := pl_input_fingerprint requested\<rparr>"
      "st_phase s = (if st_phase inc = Planned then Planned else Graph)" "st_revision s = expected + 1"
      "st_completed_artifacts s = fold invalidate cs (st_completed_artifacts inc)"
      "st_state_version s = st_state_version inc"
      by (simp_all add: a(9))
    have "st_plan s = requested"
      using arg_cong [OF a(7), of "pl_input_fingerprint_update (\<lambda>_. pl_input_fingerprint requested)"]
      by (simp add: fields(1))
    moreover have "load_operation L r' (pl_operation_uuid requested) = Inr s"
      unfolding a(10) using a(1,2,8) loaded_plan(2) [OF a(3)] calculation fields(5)
      by (intro load_persist) simp_all
    moreover have "pr_current r' = pr_current r" "pr_slots r' = pr_slots r"
      unfolding a(10) by simp_all
    ultimately show thesis
      by (intro that [OF a(3,4,5) fields(3) a(6) fields(2) fields(1) _ fields(4)])
  qed
qed

text \<open>What is left of the checkpoints.\<close>

lemma map_of_fold_invalidate_other:
  "k \<notin> set cs \<Longrightarrow> k \<notin> (@) ''relink/'' ` set cs \<Longrightarrow>
     map_of (fold invalidate cs m) k = map_of m k"
  by (induction cs arbitrary: m) (auto simp: invalidate_def)

lemma map_of_fold_invalidate_marker:
  "c \<in> set cs \<Longrightarrow> list_all (prefix ''graph/'') cs \<Longrightarrow>
     map_of (fold invalidate cs m) (''relink/'' @ c) = Some ''invalidated''"
proof (induction cs arbitrary: m)
  case (Cons d cs)
  have "''relink/'' @ c \<notin> set cs" if "c \<notin> set cs"
    using Cons.prems(2) by (auto simp: list_all_iff)
  show ?case
  proof (cases "c \<in> set cs")
    case True
    with Cons show ?thesis by simp
  next
    case False
    then have "c = d" using Cons.prems by simp
    moreover have "''relink/'' @ c \<notin> set cs"
      using Cons.prems(2) by (auto simp: list_all_iff)
    moreover have "''relink/'' @ c \<notin> (@) ''relink/'' ` set cs"
      using False by auto
    ultimately show ?thesis
      by (simp add: map_of_fold_invalidate_other) (simp add: invalidate_def)
  qed
qed simp

lemma map_of_fold_invalidate_gone:
  "c \<in> set cs \<Longrightarrow> list_all (prefix ''graph/'') cs \<Longrightarrow> map_of (fold invalidate cs m) c = None"
proof (induction cs arbitrary: m)
  case (Cons d cs)
  show ?case
  proof (cases "c \<in> set cs")
    case True
    with Cons show ?thesis by simp
  next
    case False
    then have c: "c = d" "prefix ''graph/'' c" using Cons.prems by auto
    then have "c \<notin> (@) ''relink/'' ` set (d # cs)" by auto
    with False c show ?thesis
      by (simp add: map_of_fold_invalidate_other) (auto simp: invalidate_def)
  qed
qed simp

section \<open>What a resume does\<close>

definition publication_graph_checkpoint :: "pub_lib \<Rightarrow> string \<Rightarrow> string \<Rightarrow> string" where
  "publication_graph_checkpoint L kind u = ''graph/'' @ kind @ ''/'' @ lib_blake3_hex L u @ ''.done''"

definition invalidated_checkpoints ::
  "pub_lib \<Rightarrow> source_manifest \<Rightarrow> string list \<Rightarrow> string list \<Rightarrow> string list" where
  "invalidated_checkpoints L sources repos vaults =
     map (\<lambda>repo. publication_graph_checkpoint L ''repo'' (rp_uid repo))
       (filter (\<lambda>repo. rp_uid repo \<in> set repos) (sm_repos sources))
     @ map (\<lambda>vault. publication_graph_checkpoint L ''vault'' (vs_uid vault))
       (filter (\<lambda>vault. vs_uid vault \<in> set vaults) (sm_vaults sources))"

lemma invalidated_are_graph: "list_all (prefix ''graph/'') (invalidated_checkpoints L sources repos vaults)"
  by (auto simp: list_all_iff invalidated_checkpoints_def publication_graph_checkpoint_def)

end
