(* ===== verification/Publication_Cutover.thy ===== *)
theory Publication_Cutover
  imports Publication_Slots Publication_Scope
begin

text \<open>
  Switching the selected publication (\<^verbatim>\<open>publication.rs\<close> and the activation half of
  \<^verbatim>\<open>publication_operation.rs\<close>): the \<open>CURRENT\<close> pointer, its compare-and-swap, activation in two
  checkpoints, the one-step rollback, and the two ways a slot is removed.

  An operation that writes returns the root it leaves behind with its result, so that what it wrote
  before an error stays written. What the operating system and the graph store answer during a call is
  the record \<open>authority\<close>: the clock, whether the two locks are still held, whether the incumbent graph is
  clean, and the identity it carries.
\<close>

section \<open>The pointer\<close>

definition CURRENT_POINTER_VERSION :: u32 where
  "CURRENT_POINTER_VERSION = 1"

definition with_checksum :: "pub_lib \<Rightarrow> pointer_payload \<Rightarrow> current_pointer" where
  "with_checksum L p =
     \<lparr>pp_version = pp_version p, pp_brain_uuid = pp_brain_uuid p,
      pp_publication_uuid = pp_publication_uuid p,
      pp_expected_previous_publication_uuid = pp_expected_previous_publication_uuid p,
      pp_rolled_back_from_publication_uuid = pp_rolled_back_from_publication_uuid p,
      pp_manifest_blake3 = pp_manifest_blake3 p,
      cp_checksum_blake3 = lib_blake3_hex L (lib_payload_json L p)\<rparr>"

definition payload_digest :: "pub_lib \<Rightarrow> current_pointer \<Rightarrow> string" where
  "payload_digest L p = lib_blake3_hex L (lib_payload_json L (pointer_payload.truncate p))"

definition pointer_new :: "pub_lib \<Rightarrow> pub_identity \<Rightarrow> string option \<Rightarrow> string \<Rightarrow> pointer_payload pub_result" where
  "pointer_new L i previous manifest =
     and_then (identity_validate L i) (\<lambda>_.
     and_then (validate_digest manifest) (\<lambda>_.
     and_then
       (case previous of
          None \<Rightarrow> Inr ()
        | Some pv \<Rightarrow>
            and_then (parse_non_nil_uuid L ''expected_previous_publication_uuid'' pv) (\<lambda>a.
            and_then (parse_non_nil_uuid L ''publication_uuid'' (id_publication_uuid i)) (\<lambda>b.
            bail_if (a = b) WrongPredecessor))) (\<lambda>_.
     Inr \<lparr>pp_version = CURRENT_POINTER_VERSION, pp_brain_uuid = id_brain_uuid i,
          pp_publication_uuid = id_publication_uuid i,
          pp_expected_previous_publication_uuid = previous,
          pp_rolled_back_from_publication_uuid = None, pp_manifest_blake3 = manifest\<rparr>)))"

definition pointer_validate :: "pub_lib \<Rightarrow> current_pointer \<Rightarrow> unit pub_result" where
  "pointer_validate L p =
     and_then (bail_if (pp_version p \<noteq> CURRENT_POINTER_VERSION) (UnsupportedVersion (pp_version p))) (\<lambda>_.
     and_then (identity_validate L \<lparr>id_brain_uuid = pp_brain_uuid p,
                                    id_publication_uuid = pp_publication_uuid p\<rparr>) (\<lambda>_.
     and_then (validate_digest (pp_manifest_blake3 p)) (\<lambda>_.
     and_then (validate_digest (cp_checksum_blake3 p)) (\<lambda>_.
     and_then
       (case pp_expected_previous_publication_uuid p of
          None \<Rightarrow> Inr ()
        | Some pv \<Rightarrow>
            and_then (parse_non_nil_uuid L ''expected_previous_publication_uuid'' pv) (\<lambda>a.
            and_then (parse_non_nil_uuid L ''publication_uuid'' (pp_publication_uuid p)) (\<lambda>b.
            bail_if (a = b) WrongPredecessor))) (\<lambda>_.
     and_then
       (case pp_rolled_back_from_publication_uuid p of
          None \<Rightarrow> Inr ()
        | Some ab \<Rightarrow>
            and_then (parse_non_nil_uuid L ''rolled_back_from_publication_uuid'' ab) (\<lambda>a.
            and_then (parse_non_nil_uuid L ''publication_uuid'' (pp_publication_uuid p)) (\<lambda>b.
            and_then (bail_if (a = b) WrongPredecessor) (\<lambda>_.
            bail_if (pp_expected_previous_publication_uuid p \<noteq> None) WrongPredecessor)))) (\<lambda>_.
     bail_if (payload_digest L p \<noteq> cp_checksum_blake3 p) ChecksumMismatch))))))"

text \<open>A rollback pointer is built and then checked, so its two UUIDs must differ.\<close>

definition pointer_after_rollback ::
  "pub_lib \<Rightarrow> pub_identity \<Rightarrow> string \<Rightarrow> string \<Rightarrow> current_pointer pub_result" where
  "pointer_after_rollback L i abandoned manifest =
     and_then (pointer_new L i None manifest) (\<lambda>payload.
     let p = with_checksum L (payload\<lparr>pp_rolled_back_from_publication_uuid := Some abandoned\<rparr>)
     in and_then (pointer_validate L p) (\<lambda>_. Inr p))"

definition read_current :: "pub_lib \<Rightarrow> pub_root \<Rightarrow> current_pointer option pub_result" where
  "read_current L r =
     (case pr_current r of
        None \<Rightarrow> Inr None
      | Some Unparsable \<Rightarrow> Inl (DecodeFailed ''CURRENT'')
      | Some (Pointer p) \<Rightarrow> and_then (pointer_validate L p) (\<lambda>_. Inr (Some p)))"

record authority =
  au_now :: u64
  au_journal_lock :: bool
  au_root_lock :: bool
  au_lease_clean :: bool
  au_graph_identity :: "pub_identity option"

definition ensure_authorizes :: "authority \<Rightarrow> unit pub_result" where
  "ensure_authorizes au = bail_if (\<not> au_root_lock au) LockNotAuthorized"

definition parse_optional :: "pub_lib \<Rightarrow> string \<Rightarrow> string option \<Rightarrow> uuid option pub_result" where
  "parse_optional L label v =
     (case v of None \<Rightarrow> Inr None | Some t \<Rightarrow> and_then (parse_non_nil_uuid L label t) (\<lambda>u. Inr (Some u)))"

definition slot_manifest :: "pub_lib \<Rightarrow> pub_root \<Rightarrow> string \<Rightarrow> string pub_result" where
  "slot_manifest L r u =
     and_then (slot_path L u) (\<lambda>nm.
     case Option.bind (map_of (pr_slots r) nm) (\<lambda>s. slot_read s PUBLICATION_MANIFEST_FILE) of
       None \<Rightarrow> Inl (ReadFailed PUBLICATION_MANIFEST_FILE)
     | Some bytes \<Rightarrow> Inr bytes)"

text \<open>Everything a switch must pass before the pointer is replaced.\<close>

definition cas_check ::
  "pub_lib \<Rightarrow> authority \<Rightarrow> string option \<Rightarrow> current_pointer \<Rightarrow> pub_root \<Rightarrow> unit pub_result" where
  "cas_check L au expected_current nxt r =
     and_then (ensure_authorizes au) (\<lambda>_.
     and_then (bail_if (\<not> au_lease_clean au) DirtyGraph) (\<lambda>_.
     and_then (pointer_validate L nxt) (\<lambda>_.
     and_then (case au_graph_identity au of None \<Rightarrow> Inl NoGraphIdentity | Some i \<Rightarrow> Inr i) (\<lambda>incumbent.
     and_then (parse_non_nil_uuid L ''incumbent brain_uuid'' (id_brain_uuid incumbent)) (\<lambda>ib.
     and_then (parse_non_nil_uuid L ''next brain_uuid'' (pp_brain_uuid nxt)) (\<lambda>nb.
     and_then (bail_if (ib \<noteq> nb) ForeignBrain) (\<lambda>_.
     and_then (read_current L r) (\<lambda>current.
     and_then (parse_optional L ''current publication_uuid'' (map_option pp_publication_uuid current)) (\<lambda>observed.
     and_then (parse_optional L ''expected current publication_uuid'' expected_current) (\<lambda>expected.
     and_then (bail_if (observed \<noteq> expected) (CasConflict expected observed)) (\<lambda>_.
     and_then (parse_optional L ''declared previous publication_uuid''
                 (pp_expected_previous_publication_uuid nxt)) (\<lambda>declared.
     and_then (parse_optional L ''rolled_back_from_publication_uuid''
                 (pp_rolled_back_from_publication_uuid nxt)) (\<lambda>rollback.
     and_then (bail_if (\<not> (if rollback \<noteq> None then rollback = expected \<and> declared = None
                             else declared = expected)) WrongPredecessor) (\<lambda>_.
     and_then (slot_manifest L r (pp_publication_uuid nxt)) (\<lambda>bytes.
     bail_if (lib_blake3_hex L bytes \<noteq> pp_manifest_blake3 nxt) ManifestChanged)))))))))))))))"

definition compare_and_swap_current ::
  "pub_lib \<Rightarrow> authority \<Rightarrow> string option \<Rightarrow> current_pointer \<Rightarrow> pub_root \<Rightarrow> pub_root \<times> unit pub_result" where
  "compare_and_swap_current L au expected_current nxt r =
     (case cas_check L au expected_current nxt r of
        Inl e \<Rightarrow> (r, Inl e)
      | Inr _ \<Rightarrow> (r\<lparr>pr_current := Some (Pointer nxt)\<rparr>, Inr ()))"

section \<open>Validation and activation\<close>

definition validate_target_slot :: "pub_lib \<Rightarrow> pub_root \<Rightarrow> op_state \<Rightarrow> string pub_result" where
  "validate_target_slot L r s =
     and_then (slot_path L (pl_target_publication_uuid (st_plan s))) (\<lambda>nm.
     and_then (slot_manifest L r (pl_target_publication_uuid (st_plan s))) (\<lambda>bytes.
     and_then (case lib_bundle_of_json L bytes of
                 None \<Rightarrow> Inl (DecodeFailed PUBLICATION_MANIFEST_FILE) | Some b \<Rightarrow> Inr b) (\<lambda>b.
     and_then (validate_metadata L (pl_publication_format_version (st_plan s)) b) (\<lambda>_.
     and_then (uuid_equal L (bn_brain_uuid b) (pl_brain_uuid (st_plan s))) (\<lambda>same_brain.
     and_then (bail_if (\<not> same_brain) WrongIdentity) (\<lambda>_.
     and_then (uuid_equal L (bn_publication_uuid b) (pl_target_publication_uuid (st_plan s))) (\<lambda>same.
     and_then (bail_if (\<not> same \<or> bn_producer_version b \<noteq> pl_producer_version (st_plan s))
       WrongIdentity) (\<lambda>_.
     and_then (validate_slot_contents L (the (map_of (pr_slots r) nm)) b Verified) (\<lambda>_.
     Inr (lib_blake3_hex L bytes))))))))))"

definition mark_ready ::
  "pub_lib \<Rightarrow> authority \<Rightarrow> string \<Rightarrow> u64 \<Rightarrow> pub_root \<Rightarrow> pub_root \<times> op_state pub_result" where
  "mark_ready L au u expected r =
     (case and_then (load_operation L r u) (\<lambda>inc.
           and_then (bail_if (st_revision inc \<noteq> expected) (StaleWriter expected (st_revision inc))) (\<lambda>_.
           and_then (bail_if (st_phase inc \<noteq> Validating) NotValidating) (\<lambda>_.
           validate_target_slot L r inc))) of
        Inl e \<Rightarrow> (r, Inl e)
      | Inr digest \<Rightarrow>
          checkpoint_operation L (au_now au) (au_journal_lock au) u expected (ready_update digest) r)"

text \<open>The second half of a selection: the pointer, unless it selects the target already.\<close>

definition already_selected :: "pub_lib \<Rightarrow> op_state \<Rightarrow> current_pointer option \<Rightarrow> bool" where
  "already_selected L s current \<longleftrightarrow>
     (case current of
        None \<Rightarrow> False
      | Some p \<Rightarrow>
          uuid_equal L (pp_publication_uuid p) (pl_target_publication_uuid (st_plan s)) = Inr True
          \<and> pp_manifest_blake3 p = (case st_validated_manifest_blake3 s of None \<Rightarrow> [] | Some d \<Rightarrow> d))"

definition target_pointer :: "pub_lib \<Rightarrow> authority \<Rightarrow> op_state \<Rightarrow> pub_root \<Rightarrow> current_pointer pub_result" where
  "target_pointer L au s r =
     and_then (validate_target_slot L r s) (\<lambda>digest.
     and_then (bail_if (st_validated_manifest_blake3 s \<noteq> Some digest) ManifestChanged) (\<lambda>_.
     and_then (pointer_new L \<lparr>id_brain_uuid = pl_brain_uuid (st_plan s),
                              id_publication_uuid = pl_target_publication_uuid (st_plan s)\<rparr>
                 (pl_expected_current_publication_uuid (st_plan s)) digest) (\<lambda>payload.
     and_then (bail_if (\<not> au_journal_lock au) AuthorityReplaced) (\<lambda>_.
     Inr (with_checksum L payload)))))"

definition select_current ::
  "pub_lib \<Rightarrow> authority \<Rightarrow> op_state \<Rightarrow> pub_root \<Rightarrow> pub_root \<times> op_state pub_result" where
  "select_current L au s r =
     (case read_current L r of
        Inl e \<Rightarrow> (r, Inl e)
      | Inr current \<Rightarrow>
          if already_selected L s current then (r, Inr s)
          else case target_pointer L au s r of
                 Inl e \<Rightarrow> (r, Inl e)
               | Inr nxt \<Rightarrow>
                   (case compare_and_swap_current L au
                           (pl_expected_current_publication_uuid (st_plan s)) nxt r of
                      (r', Inl e) \<Rightarrow> (r', Inl e)
                    | (r', Inr _) \<Rightarrow> (r', Inr s)))"

definition select_operation ::
  "pub_lib \<Rightarrow> authority \<Rightarrow> string \<Rightarrow> u64 \<Rightarrow> pub_root \<Rightarrow> pub_root \<times> op_state pub_result" where
  "select_operation L au u expected r =
     (case and_then (ensure_authorizes au) (\<lambda>_.
           and_then (load_operation L r u) (\<lambda>s.
           and_then (bail_if (st_revision s \<noteq> expected) (StaleWriter expected (st_revision s))) (\<lambda>_.
           and_then (bail_if (st_failure s \<noteq> None \<or> st_cancel_requested s) FailedOrCancelled) (\<lambda>_.
           Inr s)))) of
        Inl e \<Rightarrow> (r, Inl e)
      | Inr s \<Rightarrow>
          if st_phase s = Ready then
            (case checkpoint_operation L (au_now au) (au_journal_lock au) u expected activating_update r of
               (r', Inl e) \<Rightarrow> (r', Inl e)
             | (r', Inr s') \<Rightarrow> select_current L au s' r')
          else if st_phase s \<noteq> Activating then (r, Inl NotActivatable)
          else select_current L au s r)"

definition complete_activation ::
  "pub_lib \<Rightarrow> authority \<Rightarrow> string \<Rightarrow> u64 \<Rightarrow> pub_root \<Rightarrow> pub_root \<times> op_state pub_result" where
  "complete_activation L au u expected r =
     (case and_then (load_operation L r u) (\<lambda>s.
           and_then (bail_if (st_revision s \<noteq> expected \<or> st_phase s \<noteq> Activating) NotActivatable) (\<lambda>_.
           and_then (read_current L r) (\<lambda>current.
           case current of
             None \<Rightarrow> Inl NoCurrent
           | Some p \<Rightarrow>
               and_then (uuid_equal L (pp_publication_uuid p) (pl_target_publication_uuid (st_plan s))) (\<lambda>same.
               bail_if (\<not> same \<or> pp_manifest_blake3 p
                          \<noteq> (case st_validated_manifest_blake3 s of None \<Rightarrow> [] | Some d \<Rightarrow> d))
                 NotSelected)))) of
        Inl e \<Rightarrow> (r, Inl e)
      | Inr _ \<Rightarrow> advance_phase L (au_now au) (au_journal_lock au) u expected Activated r)"

definition activate_operation ::
  "pub_lib \<Rightarrow> authority \<Rightarrow> string \<Rightarrow> u64 \<Rightarrow> pub_root \<Rightarrow> pub_root \<times> op_state pub_result" where
  "activate_operation L au u expected r =
     (case select_operation L au u expected r of
        (r', Inl e) \<Rightarrow> (r', Inl e)
      | (r', Inr s) \<Rightarrow> complete_activation L au u (st_revision s) r')"

section \<open>Rollback\<close>

definition SNAPSHOT_FORMAT_VERSION :: u32 where
  "SNAPSHOT_FORMAT_VERSION = 4"

definition LEGACY_ENGINE_SNAPSHOT_FORMAT_VERSION :: u32 where
  "LEGACY_ENGINE_SNAPSHOT_FORMAT_VERSION = 3"

text \<open>The pointer to the retained predecessor, checked as an activation target is, except for the bytes
  of its artifacts: a selected graph stays writable.\<close>

definition predecessor_pointer ::
  "pub_lib \<Rightarrow> current_pointer \<Rightarrow> string \<Rightarrow> pub_root \<Rightarrow> current_pointer pub_result" where
  "predecessor_pointer L current previous r =
     and_then (slot_path L previous) (\<lambda>nm.
     and_then (slot_manifest L r previous) (\<lambda>bytes.
     and_then (case lib_bundle_of_json L bytes of
                 None \<Rightarrow> Inl (DecodeFailed PUBLICATION_MANIFEST_FILE) | Some b \<Rightarrow> Inr b) (\<lambda>b.
     and_then (validate_metadata L SNAPSHOT_FORMAT_VERSION b) (\<lambda>_.
     and_then (parse_non_nil_uuid L ''rollback predecessor publication_uuid'' (bn_publication_uuid b)) (\<lambda>bp.
     and_then (parse_non_nil_uuid L ''CURRENT predecessor publication_uuid'' previous) (\<lambda>cp.
     and_then (bail_if (bp \<noteq> cp) WrongIdentity) (\<lambda>_.
     and_then (parse_non_nil_uuid L ''rollback predecessor brain_uuid'' (bn_brain_uuid b)) (\<lambda>bb.
     and_then (parse_non_nil_uuid L ''CURRENT brain_uuid'' (pp_brain_uuid current)) (\<lambda>cb.
     and_then (bail_if (bb \<noteq> cb) WrongIdentity) (\<lambda>_.
     and_then (validate_slot_contents L (the (map_of (pr_slots r) nm)) b Live) (\<lambda>_.
     pointer_after_rollback L \<lparr>id_brain_uuid = bn_brain_uuid b, id_publication_uuid = bn_publication_uuid b\<rparr>
       (pp_publication_uuid current) (lib_blake3_hex L bytes))))))))))))"

definition rollback_check ::
  "pub_lib \<Rightarrow> authority \<Rightarrow> string \<Rightarrow> pub_root \<Rightarrow> current_pointer pub_result" where
  "rollback_check L au expected_current r =
     and_then (ensure_authorizes au) (\<lambda>_.
     and_then (bail_if (\<not> au_lease_clean au) DirtyGraph) (\<lambda>_.
     and_then (read_current L r) (\<lambda>c.
     and_then (case c of None \<Rightarrow> Inl NoCurrent | Some p \<Rightarrow> Inr p) (\<lambda>current.
     and_then (bail_if (pp_rolled_back_from_publication_uuid current \<noteq> None) RolledBackAlready) (\<lambda>_.
     and_then (parse_non_nil_uuid L ''expected current publication_uuid'' expected_current) (\<lambda>e.
     and_then (parse_non_nil_uuid L ''observed current publication_uuid'' (pp_publication_uuid current)) (\<lambda>ob.
     and_then (bail_if (e \<noteq> ob) RollbackConflict) (\<lambda>_.
     and_then (case au_graph_identity au of None \<Rightarrow> Inl NoGraphIdentity | Some i \<Rightarrow> Inr i) (\<lambda>i.
     and_then (parse_non_nil_uuid L ''rollback brain_uuid'' (id_brain_uuid i)) (\<lambda>gb.
     and_then (parse_non_nil_uuid L ''CURRENT brain_uuid'' (pp_brain_uuid current)) (\<lambda>cb.
     and_then (bail_if (gb \<noteq> cb) ForeignBrain) (\<lambda>_.
     Inr current))))))))))))"

definition rollback_current_under_lock ::
  "pub_lib \<Rightarrow> authority \<Rightarrow> string \<Rightarrow> pub_root \<Rightarrow> pub_root \<times> current_pointer option pub_result" where
  "rollback_current_under_lock L au expected_current r =
     (case rollback_check L au expected_current r of
        Inl e \<Rightarrow> (r, Inl e)
      | Inr current \<Rightarrow>
          (case pp_expected_previous_publication_uuid current of
             None \<Rightarrow> (r\<lparr>pr_current := None\<rparr>, Inr None)
           | Some previous \<Rightarrow>
               (case predecessor_pointer L current previous r of
                  Inl e \<Rightarrow> (r, Inl e)
                | Inr nxt \<Rightarrow>
                    (case compare_and_swap_current L au (Some (pp_publication_uuid current)) nxt r of
                       (r', Inl e) \<Rightarrow> (r', Inl e)
                     | (r', Inr _) \<Rightarrow> (r', Inr (Some nxt))))))"

section \<open>Discarding an operation\<close>

definition discard_check :: "pub_lib \<Rightarrow> authority \<Rightarrow> string \<Rightarrow> u64 \<Rightarrow> pub_root \<Rightarrow> op_state pub_result" where
  "discard_check L au u expected r =
     and_then (ensure_authorizes au) (\<lambda>_.
     and_then (load_operation L r u) (\<lambda>s.
     and_then (bail_if (st_revision s \<noteq> expected) (StaleWriter expected (st_revision s))) (\<lambda>_.
     and_then (bail_if (st_phase s \<noteq> Cancelled \<and> st_failure s = None) (StillRunning (st_phase s))) (\<lambda>_.
     and_then (read_current L r) (\<lambda>c.
     and_then (bail_if (case c of None \<Rightarrow> False
                        | Some p \<Rightarrow> uuid_equal L (pp_publication_uuid p)
                                      (pl_target_publication_uuid (st_plan s)) = Inr True)
       SelectedPublication) (\<lambda>_.
     Inr s))))))"

text \<open>The slot is first renamed into the directory of the operation, then the directory is renamed out of
  the UUID namespace; a crash between the two leaves the first state.\<close>

definition discard_move_slot :: "pub_lib \<Rightarrow> authority \<Rightarrow> string \<Rightarrow> u64 \<Rightarrow> pub_root \<Rightarrow> pub_root \<times> unit pub_result" where
  "discard_move_slot L au u expected r =
     (case and_then (discard_check L au u expected r) (\<lambda>s.
           slot_path L (pl_target_publication_uuid (st_plan s))) of
        Inl e \<Rightarrow> (r, Inl e)
      | Inr nm \<Rightarrow> (r\<lparr>pr_slots := AList.delete nm (pr_slots r)\<rparr>, Inr ()))"

definition discard_operation :: "pub_lib \<Rightarrow> authority \<Rightarrow> string \<Rightarrow> u64 \<Rightarrow> pub_root \<Rightarrow> pub_root \<times> unit pub_result" where
  "discard_operation L au u expected r =
     (case discard_move_slot L au u expected r of
        (r', Inl e) \<Rightarrow> (r', Inl e)
      | (r', Inr _) \<Rightarrow>
          (case operation_path L u of
             Inl e \<Rightarrow> (r', Inl e)
           | Inr nm \<Rightarrow> (r'\<lparr>pr_operations := AList.delete nm (pr_operations r')\<rparr>, Inr ())))"

definition discard_invalid_operation :: "pub_lib \<Rightarrow> authority \<Rightarrow> string \<Rightarrow> pub_root \<Rightarrow> pub_root \<times> unit pub_result" where
  "discard_invalid_operation L au u r =
     (case and_then (ensure_authorizes au) (\<lambda>_.
           and_then (operation_path L u) (\<lambda>nm.
           and_then (case map_of (pr_operations r) nm of None \<Rightarrow> Inl (ReadFailed u) | Some d \<Rightarrow> Inr d) (\<lambda>d.
           case load_file L u (Some d) of
             Inr _ \<Rightarrow> Inl ReadableJournal
           | Inl _ \<Rightarrow> Inr nm))) of
        Inl e \<Rightarrow> (r, Inl e)
      | Inr nm \<Rightarrow> (r\<lparr>pr_operations := AList.delete nm (pr_operations r)\<rparr>, Inr ()))"

section \<open>Pruning\<close>

datatype retention =
    SelectedByCurrent
  | RetainedPredecessor
  | TargetOfOperation string publication_phase
  | UnreadableOperation string

record slot_disposition =
  sd_publication_uuid :: string
  sd_bytes :: nat
  sd_retained_because :: "retention option"

record prune_report =
  rp_slots :: "slot_disposition list"
  rp_removed_bytes :: nat
  rp_dry_run :: bool

fun entry_bytes :: "slot_entry \<Rightarrow> nat" where
  "entry_bytes (Regular bytes) = length bytes"
| "entry_bytes _ = 0"

definition directory_bytes :: "slot \<Rightarrow> nat" where
  "directory_bytes s = sum_list (map (\<lambda>(nm, e). entry_bytes e) s)"

text \<open>The retained slots by the text of their UUID; the first reason recorded for a text stands.\<close>

definition retained_slots :: "current_pointer option \<Rightarrow> op_state list \<Rightarrow> (string \<times> retention) list" where
  "retained_slots current ops =
     (case current of
        None \<Rightarrow> []
      | Some p \<Rightarrow>
          (pp_publication_uuid p, SelectedByCurrent)
          # (case pp_expected_previous_publication_uuid p of
               None \<Rightarrow> [] | Some pv \<Rightarrow> [(pv, RetainedPredecessor)]))
     @ map (\<lambda>s. (pl_target_publication_uuid (st_plan s),
                 TargetOfOperation (pl_operation_uuid (st_plan s)) (st_phase s)))
         (filter (\<lambda>s. \<not> is_terminal (st_phase s)) ops)"

definition retained_because :: "(string \<times> retention) list \<Rightarrow> string option \<Rightarrow> string \<Rightarrow> retention option" where
  "retained_because retained blocked nm =
     (case map_of retained nm of
        Some why \<Rightarrow> Some why
      | None \<Rightarrow> map_option UnreadableOperation blocked)"

text \<open>A root without slots is reported before \<open>CURRENT\<close> is read.\<close>

definition prune_reason :: "pub_lib \<Rightarrow> pub_root \<Rightarrow> current_pointer option \<Rightarrow> string \<Rightarrow> retention option" where
  "prune_reason L r current =
     (let ops = list_operations L r
      in retained_because (retained_slots current (ol_operations ops))
           (case ol_invalid_operations ops of [] \<Rightarrow> None | i # _ \<Rightarrow> Some (io_operation_uuid i)))"

definition prune_slots :: "pub_lib \<Rightarrow> authority \<Rightarrow> bool \<Rightarrow> pub_root \<Rightarrow> pub_root \<times> prune_report pub_result" where
  "prune_slots L au dry_run r =
     (case ensure_authorizes au of
        Inl e \<Rightarrow> (r, Inl e)
      | Inr _ \<Rightarrow>
          if pr_slots r = []
          then (r, Inr \<lparr>rp_slots = [], rp_removed_bytes = 0, rp_dry_run = dry_run\<rparr>)
          else
            (case read_current L r of
               Inl e \<Rightarrow> (r, Inl e)
             | Inr current \<Rightarrow>
                 (let why = prune_reason L r current
                  in (if dry_run then r else r\<lparr>pr_slots := [(nm, s) \<leftarrow> pr_slots r. why nm \<noteq> None]\<rparr>,
                      Inr \<lparr>rp_slots = sort_key sd_publication_uuid
                             (map (\<lambda>(nm, s). \<lparr>sd_publication_uuid = nm, sd_bytes = directory_bytes s,
                                              sd_retained_because = why nm\<rparr>) (pr_slots r)),
                           rp_removed_bytes = sum_list [directory_bytes s. (nm, s) \<leftarrow> pr_slots r, why nm = None],
                           rp_dry_run = dry_run\<rparr>))))"

section \<open>Which database a reader opens\<close>

text \<open>\<open>graph_identity\<close> answers for the graph store: the identity the graph at a path of a slot carries.\<close>

definition path_exists :: "slot \<Rightarrow> string \<Rightarrow> bool" where
  "path_exists s p = (case slot_lookup s p of None \<Rightarrow> False | Some (Link None) \<Rightarrow> False | Some _ \<Rightarrow> True)"

definition graph_identity_matches :: "pub_lib \<Rightarrow> pub_identity option \<Rightarrow> uuid \<Rightarrow> uuid \<Rightarrow> unit pub_result" where
  "graph_identity_matches L found cb cp =
     (case found of
        None \<Rightarrow> Inl NoGraphIdentity
      | Some i \<Rightarrow>
          and_then (parse_non_nil_uuid L ''selected graph brain_uuid'' (id_brain_uuid i)) (\<lambda>gb.
          and_then (bail_if (gb \<noteq> cb) WrongIdentity) (\<lambda>_.
          and_then (parse_non_nil_uuid L ''selected graph publication_uuid'' (id_publication_uuid i)) (\<lambda>gp.
          bail_if (gp \<noteq> cp) WrongIdentity))))"

text \<open>The one graph of the bundle; with checkpoint debris beside it only a writable open may look inside.\<close>

definition resolve_graph ::
  "pub_lib \<Rightarrow> (string \<Rightarrow> string \<Rightarrow> pub_identity option pub_result) \<Rightarrow> bool \<Rightarrow> pub_bundle \<Rightarrow> slot \<Rightarrow> string \<Rightarrow>
     uuid \<Rightarrow> uuid \<Rightarrow> string pub_result" where
  "resolve_graph L graph_identity refuse_legacy b s nm cb cp =
     (case filter (\<lambda>a. af_kind a = K_Graph) (bn_artifacts b) of
        [] \<Rightarrow> Inl NoGraphArtifact
      | g # gs \<Rightarrow>
          and_then (bail_if (gs \<noteq> []) TwoGraphArtifacts) (\<lambda>_.
          and_then (bail_if (\<not> path_exists s (af_path g)) (ReadFailed (af_path g))) (\<lambda>_.
          and_then (bail_if (slot_read s (af_path g) = None) NotRegularFile) (\<lambda>_.
          and_then (bail_if refuse_legacy RebuildRequired) (\<lambda>_.
          if path_exists s (af_path g @ ''.wal.checkpoint'') \<or> path_exists s (af_path g @ ''.shadow'')
          then Inr (af_path g)
          else and_then (graph_identity nm (af_path g)) (\<lambda>found.
               and_then (graph_identity_matches L found cb cp) (\<lambda>_. Inr (af_path g))))))))"

definition resolve_selected_database ::
  "pub_lib \<Rightarrow> (string \<Rightarrow> string \<Rightarrow> pub_identity option pub_result) \<Rightarrow> bool \<Rightarrow> pub_root \<Rightarrow>
     ((string \<times> string) \<times> pub_identity) option pub_result" where
  "resolve_selected_database L graph_identity allow_legacy_engine r =
     and_then (read_current L r) (\<lambda>current.
     case current of
       None \<Rightarrow> Inr None
     | Some p \<Rightarrow>
         and_then (slot_path L (pp_publication_uuid p)) (\<lambda>nm.
         and_then (slot_manifest L r (pp_publication_uuid p)) (\<lambda>bytes.
         and_then (bail_if (lib_blake3_hex L bytes \<noteq> pp_manifest_blake3 p) ManifestChanged) (\<lambda>_.
         and_then (case lib_bundle_of_json L bytes of
                     None \<Rightarrow> Inl (DecodeFailed PUBLICATION_MANIFEST_FILE) | Some b \<Rightarrow> Inr b) (\<lambda>b.
         let legacy = (bn_format_version b = LEGACY_ENGINE_SNAPSHOT_FORMAT_VERSION);
             s = the (map_of (pr_slots r) nm)
         in and_then (validate_metadata L (if legacy then LEGACY_ENGINE_SNAPSHOT_FORMAT_VERSION
                                           else SNAPSHOT_FORMAT_VERSION) b) (\<lambda>_.
         and_then (parse_non_nil_uuid L ''CURRENT brain_uuid'' (pp_brain_uuid p)) (\<lambda>cb.
         and_then (parse_non_nil_uuid L ''bundle brain_uuid'' (bn_brain_uuid b)) (\<lambda>bb.
         and_then (bail_if (cb \<noteq> bb) WrongIdentity) (\<lambda>_.
         and_then (parse_non_nil_uuid L ''CURRENT publication_uuid'' (pp_publication_uuid p)) (\<lambda>cp.
         and_then (parse_non_nil_uuid L ''bundle publication_uuid'' (bn_publication_uuid b)) (\<lambda>bp.
         and_then (bail_if (cp \<noteq> bp) WrongIdentity) (\<lambda>_.
         and_then (resolve_graph L graph_identity (legacy \<and> \<not> allow_legacy_engine) b s nm cb cp) (\<lambda>path.
         Inr (Some ((nm, path), \<lparr>id_brain_uuid = pp_brain_uuid p,
                                id_publication_uuid = pp_publication_uuid p\<rparr>)))))))))))))))"

section \<open>What a switch establishes\<close>

lemma with_checksum_simps [simp]:
  "pp_version (with_checksum L p) = pp_version p"
  "pp_brain_uuid (with_checksum L p) = pp_brain_uuid p"
  "pp_publication_uuid (with_checksum L p) = pp_publication_uuid p"
  "pp_expected_previous_publication_uuid (with_checksum L p) = pp_expected_previous_publication_uuid p"
  "pp_rolled_back_from_publication_uuid (with_checksum L p) = pp_rolled_back_from_publication_uuid p"
  "pp_manifest_blake3 (with_checksum L p) = pp_manifest_blake3 p"
  by (simp_all add: with_checksum_def)

lemma pointer_new_Inr:
  assumes "pointer_new L i previous manifest = Inr p"
  shows "pp_brain_uuid p = id_brain_uuid i" "pp_publication_uuid p = id_publication_uuid i"
    "pp_expected_previous_publication_uuid p = previous" "pp_rolled_back_from_publication_uuid p = None"
    "pp_manifest_blake3 p = manifest"
  using assms by (auto simp: pointer_new_def)

lemma pointer_after_rollback_Inr:
  assumes "pointer_after_rollback L i abandoned manifest = Inr p"
  shows "pp_brain_uuid p = id_brain_uuid i" "pp_publication_uuid p = id_publication_uuid i"
    "pp_expected_previous_publication_uuid p = None" "pp_rolled_back_from_publication_uuid p = Some abandoned"
    "pp_manifest_blake3 p = manifest" "pointer_validate L p = Inr ()"
  using assms pointer_new_Inr [of L i None manifest]
  by (auto simp: pointer_after_rollback_def Let_def)

lemma target_pointer_Inr:
  assumes "target_pointer L au s r = Inr p"
  shows "validate_target_slot L r s = Inr (pp_manifest_blake3 p)"
    "st_validated_manifest_blake3 s = Some (pp_manifest_blake3 p)"
    "pp_publication_uuid p = pl_target_publication_uuid (st_plan s)"
    "pp_brain_uuid p = pl_brain_uuid (st_plan s)"
    "pp_expected_previous_publication_uuid p = pl_expected_current_publication_uuid (st_plan s)"
    "pp_rolled_back_from_publication_uuid p = None"
  using assms pointer_new_Inr by (fastforce simp: target_pointer_def)+

lemma read_current_Inr:
  "read_current L r = Inr c \<longleftrightarrow>
     (pr_current r = None \<and> c = None
      \<or> (\<exists>p. pr_current r = Some (Pointer p) \<and> pointer_validate L p = Inr () \<and> c = Some p))"
  by (auto simp: read_current_def split: option.splits current_file.splits)

lemma cas_Inr:
  assumes "compare_and_swap_current L au expected nxt r = (r', Inr u)"
  obtains bytes c x where "r' = r\<lparr>pr_current := Some (Pointer nxt)\<rparr>" "pointer_validate L nxt = Inr ()"
    "slot_manifest L r (pp_publication_uuid nxt) = Inr bytes" "lib_blake3_hex L bytes = pp_manifest_blake3 nxt"
    "read_current L r = Inr c"
    "parse_optional L ''current publication_uuid'' (map_option pp_publication_uuid c) = Inr x"
    "parse_optional L ''expected current publication_uuid'' expected = Inr x"
    "au_root_lock au" "au_lease_clean au"
  using assms
  by (auto simp: compare_and_swap_current_def cas_check_def ensure_authorizes_def split: sum.splits)

lemma cas_Inl: "compare_and_swap_current L au expected nxt r = (r', Inl e) \<Longrightarrow> r' = r"
  by (auto simp: compare_and_swap_current_def split: sum.splits)

lemma validate_target_Inr:
  assumes "validate_target_slot L r s = Inr digest"
  obtains bytes b t sl where
    "slot_manifest L r (pl_target_publication_uuid (st_plan s)) = Inr bytes" "digest = lib_blake3_hex L bytes"
    "lib_bundle_of_json L bytes = Some b"
    "validate_metadata L (pl_publication_format_version (st_plan s)) b = Inr ()"
    "lib_parse_uuid L (bn_brain_uuid b) = lib_parse_uuid L (pl_brain_uuid (st_plan s))"
    "lib_parse_uuid L (bn_publication_uuid b) = lib_parse_uuid L (pl_target_publication_uuid (st_plan s))"
    "lib_parse_uuid L (pl_target_publication_uuid (st_plan s)) = Some t" "t \<noteq> 0"
    "map_of (pr_slots r) (lib_show_uuid L t) = Some sl" "validate_slot_contents L sl b Verified = Inr ()"
    "slot_read sl PUBLICATION_MANIFEST_FILE = Some bytes"
proof -
  obtain t bytes b where a: "slot_path L (pl_target_publication_uuid (st_plan s)) = Inr (lib_show_uuid L t)"
    "lib_parse_uuid L (pl_target_publication_uuid (st_plan s)) = Some t" "t \<noteq> 0"
    "slot_manifest L r (pl_target_publication_uuid (st_plan s)) = Inr bytes"
    "lib_bundle_of_json L bytes = Some b"
    "validate_metadata L (pl_publication_format_version (st_plan s)) b = Inr ()"
    "lib_parse_uuid L (bn_brain_uuid b) = lib_parse_uuid L (pl_brain_uuid (st_plan s))"
    "lib_parse_uuid L (bn_publication_uuid b) = lib_parse_uuid L (pl_target_publication_uuid (st_plan s))"
    "validate_slot_contents L (the (map_of (pr_slots r) (lib_show_uuid L t))) b Verified = Inr ()"
    "digest = lib_blake3_hex L bytes"
    using assms by (auto simp: validate_target_slot_def split: option.splits)
  obtain sl where "map_of (pr_slots r) (lib_show_uuid L t) = Some sl"
    "slot_read sl PUBLICATION_MANIFEST_FILE = Some bytes"
    using a(2,4) by (auto simp: slot_manifest_def bind_eq_Some_conv split: option.splits)
  with a show thesis by (intro that [of bytes b t sl]) simp_all
qed

lemma rollback_check_Inr:
  assumes "rollback_check L au e r = Inr current"
  shows "read_current L r = Inr (Some current)" "pr_current r = Some (Pointer current)"
    "pointer_validate L current = Inr ()" "pp_rolled_back_from_publication_uuid current = None"
    "lib_parse_uuid L e = lib_parse_uuid L (pp_publication_uuid current)"
    "au_root_lock au" "au_lease_clean au"
proof -
  have split: "(case c of None \<Rightarrow> Inl NoCurrent | Some p \<Rightarrow> Inr p) = Inr p' \<longleftrightarrow> c = Some p'"
    for c :: "current_pointer option" and p'
    by (cases c) auto
  from assms have facts: "read_current L r = Inr (Some current) \<and> pp_rolled_back_from_publication_uuid current = None
      \<and> lib_parse_uuid L e = lib_parse_uuid L (pp_publication_uuid current) \<and> au_root_lock au \<and> au_lease_clean au"
    unfolding rollback_check_def ensure_authorizes_def
    by (simp only: and_then_Inr_iff bail_if_Inr_iff parse_non_nil_Inr_iff split sum.inject) (elim exE conjE, simp)
  then show r: "read_current L r = Inr (Some current)"
    and "pp_rolled_back_from_publication_uuid current = None"
    and "lib_parse_uuid L e = lib_parse_uuid L (pp_publication_uuid current)"
    and "au_root_lock au" "au_lease_clean au"
    by simp_all
  from r show "pr_current r = Some (Pointer current)" "pointer_validate L current = Inr ()"
    by (auto simp: read_current_Inr)
qed

lemma predecessor_pointer_Inr:
  assumes "predecessor_pointer L current previous r = Inr p"
  obtains bytes b where "slot_manifest L r previous = Inr bytes" "lib_bundle_of_json L bytes = Some b"
    "validate_metadata L SNAPSHOT_FORMAT_VERSION b = Inr ()"
    "lib_parse_uuid L (bn_publication_uuid b) = lib_parse_uuid L previous"
    "lib_parse_uuid L (bn_brain_uuid b) = lib_parse_uuid L (pp_brain_uuid current)"
    "pp_brain_uuid p = bn_brain_uuid b" "pp_publication_uuid p = bn_publication_uuid b"
    "pp_expected_previous_publication_uuid p = None"
    "pp_rolled_back_from_publication_uuid p = Some (pp_publication_uuid current)"
    "pp_manifest_blake3 p = lib_blake3_hex L bytes" "pointer_validate L p = Inr ()"
proof -
  obtain bytes b where a: "slot_manifest L r previous = Inr bytes" "lib_bundle_of_json L bytes = Some b"
    "validate_metadata L SNAPSHOT_FORMAT_VERSION b = Inr ()"
    "lib_parse_uuid L (bn_publication_uuid b) = lib_parse_uuid L previous"
    "lib_parse_uuid L (bn_brain_uuid b) = lib_parse_uuid L (pp_brain_uuid current)"
    "pointer_after_rollback L \<lparr>id_brain_uuid = bn_brain_uuid b, id_publication_uuid = bn_publication_uuid b\<rparr>
       (pp_publication_uuid current) (lib_blake3_hex L bytes) = Inr p"
    using assms by (auto simp: predecessor_pointer_def split: option.splits)
  with pointer_after_rollback_Inr [OF a(6)] show thesis
    by (intro that [of bytes b]) simp_all
qed

lemma rollback_result:
  assumes "rollback_current_under_lock L au e r = (r', res)"
  obtains "r' = r" "\<exists>err. res = Inl err"
  | current where "rollback_check L au e r = Inr current" "pp_expected_previous_publication_uuid current = None"
      "r' = r\<lparr>pr_current := None\<rparr>" "res = Inr None"
  | current previous p where "rollback_check L au e r = Inr current"
      "pp_expected_previous_publication_uuid current = Some previous"
      "predecessor_pointer L current previous r = Inr p"
      "compare_and_swap_current L au (Some (pp_publication_uuid current)) p r = (r', Inr ())"
      "res = Inr (Some p)"
  using assms
  by (auto simp: rollback_current_under_lock_def dest: cas_Inl split: sum.splits option.splits prod.splits)

end
