(* ===== verification/Publication_Runs.thy ===== *)
theory Publication_Runs
  imports Publication_Cutover
begin

text \<open>
  Runs of a publication root: every call of the journal, the cutover and the clean-up, by any number of
  processes in any order, together with what the rebuild worker and the serving daemon write into slots.

  \<open>allowed\<close> is what the callers (\<^verbatim>\<open>src/main.rs\<close>) and the environment guarantee: a new plan carries a fresh
  target UUID and names the selected publication as its predecessor; only the worker of an operation
  that is still being staged writes its target slot; a served graph may be written, its manifest not;
  and the worker never advances a phase past \<open>Validating\<close> except through \<open>mark_ready\<close>,
  \<open>select_operation\<close> and \<open>complete_activation\<close>.
\<close>

section \<open>Calls\<close>

datatype pub_call =
    Create publication_plan
  | Stage string slot
  | Serve string slot
  | Advance string u64 publication_phase
  | Progress string u64 publication_progress
  | Artifact string u64 string string
  | Baseline string u64 u64
  | Cancel string u64
  | Acknowledge string u64
  | Fail string u64 string string bool
  | Resume publication_plan u64
  | RescopeTo publication_plan u64 "string list"
  | RecordInputs string operation_inputs
  | MarkReady string u64
  | Select string u64
  | Complete string u64
  | Rollback string
  | DiscardMove string u64
  | Discard string u64
  | DiscardInvalid string
  | Prune bool

definition target_of :: "pub_lib \<Rightarrow> op_state \<Rightarrow> uuid option" where
  "target_of L s = lib_parse_uuid L (pl_target_publication_uuid (st_plan s))"

text \<open>The worker replaces the contents of the slot its operation stages.\<close>

definition stage_slot :: "pub_lib \<Rightarrow> string \<Rightarrow> slot \<Rightarrow> pub_root \<Rightarrow> pub_root" where
  "stage_slot L u sl r =
     (case and_then (load_operation L r u) (\<lambda>s. slot_path L (pl_target_publication_uuid (st_plan s))) of
        Inl _ \<Rightarrow> r
      | Inr nm \<Rightarrow> r\<lparr>pr_slots := AList.update nm sl (pr_slots r)\<rparr>)"

definition serve_slot :: "string \<Rightarrow> slot \<Rightarrow> pub_root \<Rightarrow> pub_root" where
  "serve_slot nm sl r = r\<lparr>pr_slots := AList.update nm sl (pr_slots r)\<rparr>"

fun run_call :: "pub_lib \<Rightarrow> authority \<Rightarrow> pub_call \<Rightarrow> pub_root \<Rightarrow> pub_root" where
  "run_call L au (Create p) r = fst (create_operation L p r)"
| "run_call L au (Stage u sl) r = stage_slot L u sl r"
| "run_call L au (Serve nm sl) r = serve_slot nm sl r"
| "run_call L au (Advance u n ph) r = fst (advance_phase L (au_now au) (au_journal_lock au) u n ph r)"
| "run_call L au (Progress u n pg) r = fst (update_progress L (au_now au) (au_journal_lock au) u n pg r)"
| "run_call L au (Artifact u n p d) r = fst (record_artifact L (au_now au) (au_journal_lock au) u n p d r)"
| "run_call L au (Baseline u n g) r =
     fst (record_code_link_base_generation L (au_now au) (au_journal_lock au) u n g r)"
| "run_call L au (Cancel u n) r = fst (request_cancel L (au_now au) (au_journal_lock au) u n r)"
| "run_call L au (Acknowledge u n) r = fst (acknowledge_cancel L (au_now au) (au_journal_lock au) u n r)"
| "run_call L au (Fail u n c m b) r = fst (record_op_failure L (au_now au) (au_journal_lock au) u n c m b r)"
| "run_call L au (Resume p n) r = fst (resume_operation L (au_now au) (au_journal_lock au) p n r)"
| "run_call L au (RescopeTo p n cs) r =
     fst (rescope_operation L (au_now au) (au_journal_lock au) p n cs r)"
| "run_call L au (RecordInputs u i) r = fst (write_operation_inputs L u i r)"
| "run_call L au (MarkReady u n) r = fst (mark_ready L au u n r)"
| "run_call L au (Select u n) r = fst (select_operation L au u n r)"
| "run_call L au (Complete u n) r = fst (complete_activation L au u n r)"
| "run_call L au (Rollback c) r = fst (rollback_current_under_lock L au c r)"
| "run_call L au (DiscardMove u n) r = fst (discard_move_slot L au u n r)"
| "run_call L au (Discard u n) r = fst (discard_operation L au u n r)"
| "run_call L au (DiscardInvalid u) r = fst (discard_invalid_operation L au u r)"
| "run_call L au (Prune dry) r = fst (prune_slots L au dry r)"

section \<open>What the environment guarantees\<close>

definition canonical_uuid :: "pub_lib \<Rightarrow> string \<Rightarrow> bool" where
  "canonical_uuid L t \<longleftrightarrow> (case lib_parse_uuid L t of None \<Rightarrow> False | Some v \<Rightarrow> t = lib_show_uuid L v)"

definition manifest_canonical :: "pub_lib \<Rightarrow> slot \<Rightarrow> bool" where
  "manifest_canonical L s \<longleftrightarrow>
     (case Option.bind (slot_read s PUBLICATION_MANIFEST_FILE) (lib_bundle_of_json L) of
        None \<Rightarrow> True
      | Some b \<Rightarrow> canonical_uuid L (bn_publication_uuid b))"

definition selected_uuid :: "pub_root \<Rightarrow> string option" where
  "selected_uuid r = (case pr_current r of Some (Pointer p) \<Rightarrow> Some (pp_publication_uuid p) | _ \<Rightarrow> None)"

definition predecessor_uuid :: "pub_root \<Rightarrow> string option" where
  "predecessor_uuid r =
     (case pr_current r of Some (Pointer p) \<Rightarrow> pp_expected_previous_publication_uuid p | _ \<Rightarrow> None)"

definition fresh_target :: "pub_lib \<Rightarrow> pub_root \<Rightarrow> string \<Rightarrow> bool" where
  "fresh_target L r t \<longleftrightarrow>
     canonical_uuid L t
     \<and> list_all (\<lambda>s. target_of L s \<noteq> lib_parse_uuid L t) (ol_operations (list_operations L r))
     \<and> selected_uuid r \<noteq> Some t \<and> predecessor_uuid r \<noteq> Some t \<and> map_of (pr_slots r) t = None"

fun allowed :: "pub_lib \<Rightarrow> pub_call \<Rightarrow> pub_root \<Rightarrow> bool" where
  "allowed L (Create p) r =
     (fresh_target L r (pl_target_publication_uuid p)
      \<and> pl_expected_current_publication_uuid p = selected_uuid r)"
| "allowed L (Stage u sl) r =
     (manifest_canonical L sl
      \<and> (case load_operation L r u of Inl _ \<Rightarrow> False | Inr s \<Rightarrow> phase_accepts_rescope (st_phase s)))"
| "allowed L (Serve nm sl) r =
     (case map_of (pr_slots r) nm of
        None \<Rightarrow> False
      | Some old \<Rightarrow> slot_read sl PUBLICATION_MANIFEST_FILE = slot_read old PUBLICATION_MANIFEST_FILE)"
| "allowed L (Advance u n ph) r = phase_accepts_rescope ph"
| "allowed L call r = True"

definition pub_step :: "pub_lib \<Rightarrow> authority \<times> pub_call \<Rightarrow> pub_root \<Rightarrow> pub_root" where
  "pub_step L x r = (if allowed L (snd x) r then run_call L (fst x) (snd x) r else r)"

definition empty_root :: pub_root where
  "empty_root = \<lparr>pr_operations = [], pr_current = None, pr_slots = []\<rparr>"

definition run_publication :: "pub_lib \<Rightarrow> (authority \<times> pub_call) list \<Rightarrow> pub_root" where
  "run_publication L calls = fold (pub_step L) calls empty_root"

interpretation uuid_text: codec "lib_show_uuid L" "lib_parse_uuid L" "\<lambda>_. uuid_roundtrip L" for L
  by unfold_locales (simp add: uuid_roundtrip_def)

section \<open>The journal of one operation\<close>

definition journal_of :: "pub_lib \<Rightarrow> pub_root \<Rightarrow> uuid \<Rightarrow> op_state option" where
  "journal_of L r v = (case load_operation L r (lib_show_uuid L v) of Inl _ \<Rightarrow> None | Inr s \<Rightarrow> Some s)"

lemma journal_of_Some_iff:
  "journal_of L r v = Some s \<longleftrightarrow> load_operation L r (lib_show_uuid L v) = Inr s"
  by (auto simp: journal_of_def split: sum.splits)

lemma journal_of_cong:
  "pr_operations r = pr_operations r' \<Longrightarrow> journal_of L r v = journal_of L r' v"
  by (simp add: journal_of_def load_operation_def)

lemma load_is_journal:
  assumes "uuid_roundtrip L" "load_operation L r u = Inr s"
  obtains v where "lib_parse_uuid L u = Some v" "v \<noteq> 0" "journal_of L r v = Some s"
  using assms
  by (auto simp: journal_of_Some_iff load_operation_Inr_iff validate_loaded_Inr_iff uuid_roundtrip_def)

lemma journal_nonzero: "uuid_roundtrip L \<Longrightarrow> journal_of L r v = Some s \<Longrightarrow> v \<noteq> 0"
  by (auto simp: journal_of_Some_iff load_operation_Inr_iff uuid_roundtrip_def)

lemma journal_of_persist_other:
  assumes "uuid_roundtrip L" "w \<noteq> v"
  shows "journal_of L (persist_state L (lib_show_uuid L v) s r) w = journal_of L r w"
  using assms unfolding journal_of_def
  by (subst load_persist_other) (auto simp: uuid_roundtrip_def uuid_text.enc_inj)

text \<open>One committed write of one journal.\<close>

definition commits :: "pub_lib \<Rightarrow> pub_root \<Rightarrow> uuid \<Rightarrow> op_state \<Rightarrow> op_state \<Rightarrow> pub_root \<Rightarrow> bool" where
  "commits L r v inc s r' \<longleftrightarrow>
     journal_of L r v = Some inc \<and> journal_of L r' v = Some s
     \<and> (\<forall>w. w \<noteq> v \<longrightarrow> journal_of L r' w = journal_of L r w)
     \<and> pr_current r' = pr_current r \<and> pr_slots r' = pr_slots r
     \<and> unat (st_revision s) = Suc (unat (st_revision inc))
     \<and> pl_target_publication_uuid (st_plan s) = pl_target_publication_uuid (st_plan inc)
     \<and> pl_expected_current_publication_uuid (st_plan s) = pl_expected_current_publication_uuid (st_plan inc)
     \<and> (phase_move (st_phase inc) (st_phase s)
        \<or> (phase_accepts_rescope (st_phase inc)
           \<and> st_phase s = (if st_phase inc = Planned then Planned else Graph)))"

lemma unat_succ: "n \<noteq> - 1 \<Longrightarrow> unat (n + 1 :: u64) = Suc (unat n)"
proof -
  assume "n \<noteq> - 1"
  then have "unat n \<noteq> unat (- 1 :: u64)"
    by (simp add: word_unat_eq_iff)
  then have "unat n + 1 < 2 ^ 64"
    using unsigned_less [where 'a = nat, of n] by (simp add: unsigned_minus_1_eq_mask mask_eq_exp_minus_1)
  then show ?thesis
    by (simp add: unat_word_ariths)
qed

lemma checkpoint_commits:
  assumes "uuid_roundtrip L" "checkpoint_operation L now au u expected f r = (r', Inr s)"
  obtains v inc where "lib_parse_uuid L u = Some v" "commits L r v inc s r'"
    "load_operation L r u = Inr inc"
    "phase_move (st_phase inc) (st_phase s)" "st_plan s = st_plan inc"
proof -
  from assms(2) show ?thesis
  proof (rule checkpoint_Inr)
    fix v inc nxt
    assume a: "lib_parse_uuid L u = Some v" "v \<noteq> 0" "load_operation L r u = Inr inc"
      "st_revision inc = expected" "expected \<noteq> - 1" "validate_update L inc nxt = Inr ()"
      "s = nxt\<lparr>st_revision := expected + 1, st_updated_unix_millis := max now (st_updated_unix_millis inc)\<rparr>"
      "r' = persist_state L (lib_show_uuid L v) s r"
    from assms(2) obtain inc' where b: "load_operation L r' u = Inr s" "load_operation L r u = Inr inc'"
      "st_plan s = st_plan inc'" "phase_move (st_phase inc') (st_phase s)"
      by (rule checkpoint_effect) blast
    with a(3) have same: "inc' = inc" by simp
    have "journal_of L r v = Some inc" "journal_of L r' v = Some s"
      using load_is_journal [OF assms(1) a(3)] load_is_journal [OF assms(1) b(1)] a(1) by (metis option.inject)+
    then have "commits L r v inc s r'"
      using b(3,4) a(4,5) same unfolding commits_def
      by (auto simp: a(7,8) journal_of_persist_other assms(1) unat_succ)
    then show thesis using a(1,3) b(3,4) same by (intro that) simp_all
  qed
qed

section \<open>The invariant\<close>

definition staging :: "pub_lib \<Rightarrow> pub_root \<Rightarrow> uuid \<Rightarrow> bool" where
  "staging L r t \<longleftrightarrow>
     (\<exists>v s. journal_of L r v = Some s \<and> target_of L s = Some t \<and> phase_accepts_rescope (st_phase s))"

definition journals_inv :: "pub_lib \<Rightarrow> pub_root \<Rightarrow> bool" where
  "journals_inv L r \<longleftrightarrow>
     (\<forall>v s. journal_of L r v = Some s \<longrightarrow>
        canonical_uuid L (pl_target_publication_uuid (st_plan s))
        \<and> pred_option (canonical_uuid L) (pl_expected_current_publication_uuid (st_plan s)))
     \<and> (\<forall>v w s t. journal_of L r v = Some s \<longrightarrow> journal_of L r w = Some t \<longrightarrow>
          target_of L s = target_of L t \<longrightarrow> v = w)"

definition pub_slots_inv :: "pub_lib \<Rightarrow> pub_root \<Rightarrow> bool" where
  "pub_slots_inv L r \<longleftrightarrow> (\<forall>nm s. map_of (pr_slots r) nm = Some s \<longrightarrow> manifest_canonical L s)"

text \<open>What a selected publication guarantees its readers: the pointer is valid, its slot is there, and the
  slot holds the very manifest the pointer was written for, which is a well-formed bundle of the same
  publication.\<close>

definition selection_ok :: "pub_lib \<Rightarrow> pub_root \<Rightarrow> current_pointer \<Rightarrow> bool" where
  "selection_ok L r p \<longleftrightarrow>
     pointer_validate L p = Inr ()
     \<and> (\<exists>bytes b fmt. slot_manifest L r (pp_publication_uuid p) = Inr bytes
          \<and> lib_blake3_hex L bytes = pp_manifest_blake3 p \<and> lib_bundle_of_json L bytes = Some b
          \<and> validate_metadata L fmt b = Inr ()
          \<and> lib_parse_uuid L (bn_publication_uuid b) = lib_parse_uuid L (pp_publication_uuid p)
          \<and> lib_parse_uuid L (bn_brain_uuid b) = lib_parse_uuid L (pp_brain_uuid p))"

definition current_inv :: "pub_lib \<Rightarrow> pub_root \<Rightarrow> bool" where
  "current_inv L r \<longleftrightarrow>
     (case pr_current r of
        None \<Rightarrow> True
      | Some Unparsable \<Rightarrow> False
      | Some (Pointer p) \<Rightarrow>
          selection_ok L r p \<and> canonical_uuid L (pp_publication_uuid p)
          \<and> pred_option (canonical_uuid L) (pp_expected_previous_publication_uuid p))"

definition parsed :: "pub_lib \<Rightarrow> string option \<Rightarrow> uuid option" where
  "parsed L t = Option.bind t (lib_parse_uuid L)"

definition sealed_inv :: "pub_lib \<Rightarrow> pub_root \<Rightarrow> bool" where
  "sealed_inv L r \<longleftrightarrow>
     (\<forall>t. parsed L (selected_uuid r) = Some t \<or> parsed L (predecessor_uuid r) = Some t \<longrightarrow> \<not> staging L r t)"

definition pub_inv :: "pub_lib \<Rightarrow> pub_root \<Rightarrow> bool" where
  "pub_inv L r \<longleftrightarrow>
     uuid_roundtrip L \<and> journals_inv L r \<and> pub_slots_inv L r \<and> current_inv L r \<and> sealed_inv L r"

lemmas pub_inv_parts = pub_inv_def pub_slots_inv_def current_inv_def sealed_inv_def

lemma canonical_parse: "canonical_uuid L t \<longleftrightarrow> (\<exists>v. lib_parse_uuid L t = Some v \<and> t = lib_show_uuid L v)"
  by (auto simp: canonical_uuid_def split: option.splits)

text \<open>The invariant only depends on the journals, the pointer and the manifests.\<close>

lemma staging_mono:
  assumes "\<And>v s. journal_of L r' v = Some s \<Longrightarrow> phase_accepts_rescope (st_phase s) \<Longrightarrow>
      \<exists>s'. journal_of L r v = Some s' \<and> target_of L s' = target_of L s \<and> phase_accepts_rescope (st_phase s')"
    and "staging L r' t"
  shows "staging L r t"
  using assms unfolding staging_def by metis

lemma selection_ok_cong:
  "slot_manifest L r' (pp_publication_uuid p) = slot_manifest L r (pp_publication_uuid p) \<Longrightarrow>
     selection_ok L r' p \<longleftrightarrow> selection_ok L r p"
  by (simp add: selection_ok_def)

lemma slot_manifest_cong: "pr_slots r' = pr_slots r \<Longrightarrow> slot_manifest L r' u = slot_manifest L r u"
  by (simp add: slot_manifest_def)

lemma pointer_cong:
  "pr_current r' = pr_current r \<Longrightarrow> selected_uuid r' = selected_uuid r \<and> predecessor_uuid r' = predecessor_uuid r"
  by (simp add: selected_uuid_def predecessor_uuid_def)

lemma root_cong:
  assumes "pr_current r' = pr_current r" "pr_slots r' = pr_slots r"
  shows "current_inv L r' = current_inv L r" "pub_slots_inv L r' = pub_slots_inv L r"
    "selected_uuid r' = selected_uuid r" "predecessor_uuid r' = predecessor_uuid r"
proof -
  have sel: "selection_ok L r' = selection_ok L r"
    using selection_ok_cong slot_manifest_cong [OF assms(2)] by blast
  show "current_inv L r' = current_inv L r"
    unfolding current_inv_def assms(1) sel by (rule refl)
  show "pub_slots_inv L r' = pub_slots_inv L r"
    unfolding pub_slots_inv_def assms(2) by simp
  show "selected_uuid r' = selected_uuid r" "predecessor_uuid r' = predecessor_uuid r"
    using pointer_cong [OF assms(1)] by simp_all
qed

lemma sealed_inv_mono:
  assumes "sealed_inv L r" "\<And>t. staging L r' t \<Longrightarrow> staging L r t"
    and "selected_uuid r' = selected_uuid r" "predecessor_uuid r' = predecessor_uuid r"
  shows "sealed_inv L r'"
  using assms(1,2) unfolding sealed_inv_def assms(3,4) by blast

lemma pub_inv_quiet:
  assumes "pub_inv L r" "\<And>v. journal_of L r' v = journal_of L r v"
    and "pr_current r' = pr_current r" "pr_slots r' = pr_slots r"
  shows "pub_inv L r'"
proof -
  note cong = root_cong [OF assms(3,4)]
  have "staging L r' = staging L r" "journals_inv L r' = journals_inv L r"
    by (simp_all add: staging_def journals_inv_def assms(2) fun_eq_iff)
  with assms(1) show ?thesis
    unfolding pub_inv_def sealed_inv_def cong by simp
qed

lemma move_into_staged: "phase_move p q \<Longrightarrow> phase_accepts_rescope q \<Longrightarrow> phase_accepts_rescope p"
  by (cases p) (auto simp: phase_move_def)

lemma target_of_eq:
  "pl_target_publication_uuid (st_plan s) = pl_target_publication_uuid (st_plan t) \<Longrightarrow>
     target_of L s = target_of L t"
  by (simp add: target_of_def)

lemma pub_inv_commits:
  assumes inv: "pub_inv L r" and "commits L r v inc s r'"
  shows "pub_inv L r'"
proof -
  note c = assms(2) [unfolded commits_def]
  have tgt: "target_of L s = target_of L inc"
    using c by (intro target_of_eq) simp
  have journal: "\<exists>t'. journal_of L r w = Some t' \<and> target_of L t' = target_of L t
      \<and> pl_target_publication_uuid (st_plan t') = pl_target_publication_uuid (st_plan t)
      \<and> pl_expected_current_publication_uuid (st_plan t') = pl_expected_current_publication_uuid (st_plan t)
      \<and> (phase_accepts_rescope (st_phase t) \<longrightarrow> phase_accepts_rescope (st_phase t'))"
    if "journal_of L r' w = Some t" for w t
  proof (cases "w = v")
    case True
    with c that have "t = s" by simp
    moreover have "phase_accepts_rescope (st_phase s) \<Longrightarrow> phase_accepts_rescope (st_phase inc)"
      using c move_into_staged by blast
    ultimately show ?thesis using c tgt True by auto
  next
    case False
    with c that show ?thesis by auto
  qed
  have "journals_inv L r'"
    using inv unfolding pub_inv_def journals_inv_def by (metis journal)
  moreover have "staging L r t" if "staging L r' t" for t
    using that by (rule staging_mono [rotated]) (use journal in blast)
  moreover note cong = root_cong [where r' = r' and r = r]
  ultimately show ?thesis
    using inv c cong sealed_inv_mono [of L r r'] unfolding pub_inv_def by blast
qed

lemma pub_inv_checkpoint:
  assumes "pub_inv L r"
  shows "pub_inv L (fst (checkpoint_operation L now au u expected f r))"
proof (cases "checkpoint_operation L now au u expected f r")
  case (Pair r' res)
  show ?thesis
  proof (cases res)
    case (Inl e)
    with Pair assms show ?thesis by (auto dest: checkpoint_Inl)
  next
    case (Inr s)
    have "uuid_roundtrip L" using assms by (simp add: pub_inv_def)
    then obtain v inc where "commits L r v inc s r'"
      using checkpoint_commits Pair Inr by blast
    with Pair assms show ?thesis by (auto intro: pub_inv_commits)
  qed
qed

lemma rescope_commits:
  assumes "uuid_roundtrip L" "rescope_operation L now au requested expected cs r = (r', Inr s)"
  obtains v inc where "commits L r v inc s r'"
proof -
  from assms(2) obtain v where v: "lib_parse_uuid L (pl_operation_uuid requested) = Some v"
    "r' = persist_state L (lib_show_uuid L v) s r"
    by (rule rescope_Inr) blast
  from assms(2) obtain inc where b:
    "load_operation L r (pl_operation_uuid requested) = Inr inc" "st_revision inc = expected"
    "expected \<noteq> - 1" "st_revision s = expected + 1" "phase_accepts_rescope (st_phase inc)"
    "st_phase s = (if st_phase inc = Planned then Planned else Graph)"
    "st_plan s = (st_plan inc)\<lparr>pl_input_fingerprint := pl_input_fingerprint requested\<rparr>"
    "load_operation L r' (pl_operation_uuid requested) = Inr s"
    "pr_current r' = pr_current r" "pr_slots r' = pr_slots r"
    by (rule rescope_effect) blast
  have "journal_of L r v = Some inc" "journal_of L r' v = Some s"
    using load_is_journal [OF assms(1) b(1)] load_is_journal [OF assms(1) b(8)] v(1) by (metis option.inject)+
  then have "commits L r v inc s r'"
    using b(2,3,4,5,6,7,9,10) unfolding commits_def
    by (auto simp: v(2) journal_of_persist_other assms(1) unat_succ)
  then show thesis by (rule that)
qed

lemma pub_inv_rescope:
  assumes "pub_inv L r"
  shows "pub_inv L (fst (rescope_operation L now au requested expected cs r))"
proof (cases "rescope_operation L now au requested expected cs r")
  case (Pair r' res)
  show ?thesis
  proof (cases res)
    case (Inl e)
    with Pair assms show ?thesis by (auto dest: rescope_Inl)
  next
    case (Inr s)
    have "uuid_roundtrip L" using assms by (simp add: pub_inv_def)
    then obtain v inc where "commits L r v inc s r'"
      using rescope_commits Pair Inr by blast
    with Pair assms show ?thesis by (auto intro: pub_inv_commits)
  qed
qed

text \<open>Calls that write no journal and leave the selected manifest.\<close>

lemma pub_inv_restrict:
  assumes inv: "pub_inv L r" and sub: "\<And>v s. journal_of L r' v = Some s \<Longrightarrow> journal_of L r v = Some s"
    and cur: "pr_current r' = pr_current r" and slots: "pub_slots_inv L r'"
    and manifest: "\<And>p. pr_current r = Some (Pointer p) \<Longrightarrow>
      slot_manifest L r' (pp_publication_uuid p) = slot_manifest L r (pp_publication_uuid p)"
  shows "pub_inv L r'"
proof -
  have "journals_inv L r'"
    using inv sub unfolding pub_inv_def journals_inv_def by metis
  moreover have "staging L r t" if "staging L r' t" for t
    using that by (rule staging_mono [rotated]) (use sub in blast)
  moreover have "current_inv L r'"
    using inv manifest unfolding pub_inv_def current_inv_def cur
    by (auto simp: selection_ok_cong [OF manifest] split: option.splits current_file.splits)
  ultimately show ?thesis
    using inv slots sealed_inv_mono [of L r r'] pointer_cong [OF cur] unfolding pub_inv_def by blast
qed

lemma load_all_listed:
  "nm \<in> set nms \<Longrightarrow> lib_parse_uuid L nm \<noteq> None \<Longrightarrow> load_operation L r nm = Inr s \<Longrightarrow>
     s \<in> set (fst (load_all L r nms))"
  by (induction nms) (auto simp: Let_def split: prod.splits sum.splits)

lemma journal_listed:
  assumes "uuid_roundtrip L" "journal_of L r v = Some s"
  shows "s \<in> set (ol_operations (list_operations L r))"
proof -
  have load: "load_operation L r (lib_show_uuid L v) = Inr s"
    using assms(2) by (simp add: journal_of_Some_iff)
  moreover have parse: "lib_parse_uuid L (lib_show_uuid L v) = Some v"
    using assms(1) by (simp add: uuid_roundtrip_def)
  ultimately have "map_of (pr_operations r) (lib_show_uuid L v) \<noteq> None"
    by (auto simp: load_operation_Inr_iff)
  then have "lib_show_uuid L v \<in> set (map fst (pr_operations r))"
    by (simp add: map_of_eq_None_iff)
  then have "s \<in> set (fst (load_all L r (map fst (pr_operations r))))"
    using load parse by (intro load_all_listed) simp_all
  then show ?thesis
    by (simp add: list_operations_def Let_def split_beta)
qed

lemma create_Inr:
  assumes "uuid_roundtrip L" "create_operation L p r = (r', Inr s)"
  obtains v where "v \<noteq> 0" "lib_parse_uuid L (pl_operation_uuid p) = Some v" "journal_of L r v = None"
    "journal_of L r' v = Some s" "\<And>w. w \<noteq> v \<Longrightarrow> journal_of L r' w = journal_of L r w"
    "st_plan s = p" "st_phase s = Planned" "st_revision s = 0"
    "pr_current r' = pr_current r" "pr_slots r' = pr_slots r" "plan_validate L p = Inr ()"
proof -
  obtain v where v: "v \<noteq> 0" "lib_parse_uuid L (pl_operation_uuid p) = Some v"
    "map_of (pr_operations r) (lib_show_uuid L v) = None" "plan_validate L p = Inr ()"
    "new_state L p = Inr s" "r' = persist_state L (lib_show_uuid L v) s r"
    using assms(2)
    by (auto simp: create_operation_def new_state_def split: sum.splits prod.splits)
  have s: "st_plan s = p" "st_phase s = Planned" "st_revision s = 0"
    "st_state_version s = OPERATION_STATE_VERSION"
    using v(5) by (auto simp: new_state_def)
  have parse: "lib_parse_uuid L (lib_show_uuid L v) = Some v"
    using assms(1) by (simp add: uuid_roundtrip_def)
  have "journal_of L r v = None"
    using parse v(1,3) by (auto simp: journal_of_def load_operation_def load_file_def
        operation_path_def parse_non_nil_uuid_def)
  moreover have "journal_of L r' v = Some s"
    unfolding journal_of_Some_iff v(6) using parse v(1,2,4) s by (intro load_persist) simp_all
  ultimately show thesis
    using v s assms(1) by (intro that [of v]) (simp_all add: v(6) journal_of_persist_other)
qed

lemma create_Inl: "create_operation L p r = (r', Inl e) \<Longrightarrow> r' = r"
  by (auto simp: create_operation_def split: sum.splits prod.splits)

lemma canonical_show: "canonical_uuid L a \<Longrightarrow> lib_parse_uuid L a = Some v \<Longrightarrow> a = lib_show_uuid L v"
  by (simp add: canonical_uuid_def)

lemma pointers_canonical:
  assumes "pub_inv L r"
  shows "selected_uuid r = Some t \<Longrightarrow> canonical_uuid L t"
    and "predecessor_uuid r = Some t \<Longrightarrow> canonical_uuid L t"
  using assms
  by (auto simp: pub_inv_def current_inv_def selected_uuid_def predecessor_uuid_def
      split: option.splits current_file.splits)

lemma pub_inv_create:
  assumes inv: "pub_inv L r" and ok: "allowed L (Create p) r"
  shows "pub_inv L (fst (create_operation L p r))"
proof (cases "create_operation L p r")
  case (Pair r' res)
  have rt: "uuid_roundtrip L" using inv by (simp add: pub_inv_def)
  show ?thesis
  proof (cases res)
    case (Inl e)
    with Pair inv show ?thesis by (auto dest: create_Inl)
  next
    case (Inr s)
    from Pair Inr have call: "create_operation L p r = (r', Inr s)" by simp
    obtain v where v: "journal_of L r v = None"
      "journal_of L r' v = Some s" "\<And>w. w \<noteq> v \<Longrightarrow> journal_of L r' w = journal_of L r w"
      "st_plan s = p" "pr_current r' = pr_current r" "pr_slots r' = pr_slots r"
      by (rule create_Inr [OF rt call]) blast
    let ?t = "pl_target_publication_uuid p"
    have fresh: "fresh_target L r ?t" and expected: "pl_expected_current_publication_uuid p = selected_uuid r"
      using ok by simp_all
    then have canon: "canonical_uuid L ?t" by (simp add: fresh_target_def)
    have other: "target_of L t \<noteq> target_of L s" if "journal_of L r w = Some t" for w t
      using fresh journal_listed [OF rt that] v(4)
      by (auto simp: fresh_target_def list_all_iff target_of_def)
    have "pred_option (canonical_uuid L) (pl_expected_current_publication_uuid p)"
      using pointers_canonical(1) [OF inv] expected by (cases "selected_uuid r") auto
    then have "journals_inv L r'"
      using inv canon other v(2,3,4) unfolding pub_inv_def journals_inv_def
      by (metis option.inject)
    moreover have "\<not> staging L r' t"
      if t: "parsed L (selected_uuid r) = Some t \<or> parsed L (predecessor_uuid r) = Some t" for t
    proof
      assume "staging L r' t"
      then obtain w x where w: "journal_of L r' w = Some x" "target_of L x = Some t"
        "phase_accepts_rescope (st_phase x)"
        by (auto simp: staging_def)
      have "\<not> staging L r t" using inv t unfolding pub_inv_def sealed_inv_def by blast
      with w v(3) have "w = v" unfolding staging_def by metis
      then have "lib_parse_uuid L ?t = Some t" using w v(2,4) by (simp add: target_of_def)
      then have "?t = lib_show_uuid L t" using canon by (simp add: canonical_show)
      moreover obtain y where "selected_uuid r = Some y \<or> predecessor_uuid r = Some y" "lib_parse_uuid L y = Some t"
        using t by (auto simp: parsed_def bind_eq_Some_conv)
      moreover from this have "y = lib_show_uuid L t"
        using pointers_canonical [OF inv] canonical_show by blast
      ultimately have "selected_uuid r = Some ?t \<or> predecessor_uuid r = Some ?t" by simp
      with fresh show False by (auto simp: fresh_target_def)
    qed
    moreover note cong = root_cong [OF v(5,6)]
    ultimately show ?thesis
      using inv by (simp add: Pair pub_inv_def sealed_inv_def cong)
  qed
qed

section \<open>Slots\<close>

lemma slots_inv_update:
  "pub_slots_inv L r \<Longrightarrow> manifest_canonical L sl \<Longrightarrow> pub_slots_inv L (r\<lparr>pr_slots := AList.update nm sl (pr_slots r)\<rparr>)"
  by (simp add: pub_slots_inv_def update_conv')

lemma slot_manifest_at:
  "slot_path L u = Inr nm \<Longrightarrow>
     slot_manifest L r u =
       (case Option.bind (map_of (pr_slots r) nm) (\<lambda>s. slot_read s PUBLICATION_MANIFEST_FILE) of
          None \<Rightarrow> Inl (ReadFailed PUBLICATION_MANIFEST_FILE) | Some bytes \<Rightarrow> Inr bytes)"
  unfolding slot_manifest_def by (simp only: and_then.simps)

lemma slot_manifest_update_other:
  assumes "slot_path L u = Inr nm'" "nm' \<noteq> nm"
  shows "slot_manifest L (r\<lparr>pr_slots := AList.update nm sl (pr_slots r)\<rparr>) u = slot_manifest L r u"
  unfolding slot_manifest_at [OF assms(1)] using assms(2) by (simp add: update_conv')

lemma selected_slot:
  assumes "pub_inv L r" "pr_current r = Some (Pointer p)"
  obtains t where "lib_parse_uuid L (pp_publication_uuid p) = Some t" "t \<noteq> 0"
    "pp_publication_uuid p = lib_show_uuid L t" "slot_path L (pp_publication_uuid p) = Inr (lib_show_uuid L t)"
    "parsed L (selected_uuid r) = Some t"
proof -
  have "canonical_uuid L (pp_publication_uuid p)" "selection_ok L r p"
    using assms by (simp_all add: pub_inv_def current_inv_def)
  then obtain t where "lib_parse_uuid L (pp_publication_uuid p) = Some t" "t \<noteq> 0"
    by (auto simp: selection_ok_def slot_manifest_def)
  then show thesis
    using \<open>canonical_uuid L _\<close> assms(2)
    by (intro that) (simp_all add: canonical_uuid_def parsed_def selected_uuid_def)
qed

lemma pub_inv_stage:
  assumes inv: "pub_inv L r" and ok: "allowed L (Stage u sl) r"
  shows "pub_inv L (stage_slot L u sl r)"
proof -
  have rt: "uuid_roundtrip L" using inv by (simp add: pub_inv_def)
  obtain s where s: "load_operation L r u = Inr s" "phase_accepts_rescope (st_phase s)" "manifest_canonical L sl"
    using ok by (auto split: sum.splits)
  then obtain v where v: "journal_of L r v = Some s" using load_is_journal [OF rt] by metis
  show ?thesis
  proof (cases "slot_path L (pl_target_publication_uuid (st_plan s))")
    case (Inl e)
    with s inv show ?thesis by (simp add: stage_slot_def)
  next
    case (Inr nm)
    then obtain t where t: "target_of L s = Some t" "nm = lib_show_uuid L t"
      by (auto simp: target_of_def)
    then have staging: "staging L r t" using v s(2) by (auto simp: staging_def)
    have eq: "stage_slot L u sl r = r\<lparr>pr_slots := AList.update nm sl (pr_slots r)\<rparr>"
      unfolding stage_slot_def s(1) and_then.simps Inr by simp
    show ?thesis
      unfolding eq
    proof (rule pub_inv_restrict [OF inv])
      show "pub_slots_inv L (r\<lparr>pr_slots := AList.update nm sl (pr_slots r)\<rparr>)"
        using inv s(3) by (simp add: pub_inv_def slots_inv_update)
      show "slot_manifest L (r\<lparr>pr_slots := AList.update nm sl (pr_slots r)\<rparr>) (pp_publication_uuid p) =
          slot_manifest L r (pp_publication_uuid p)" if "pr_current r = Some (Pointer p)" for p
      proof -
        from inv that obtain t' where t': "slot_path L (pp_publication_uuid p) = Inr (lib_show_uuid L t')"
          "parsed L (selected_uuid r) = Some t'"
          by (rule selected_slot)
        with staging inv have "t' \<noteq> t" unfolding pub_inv_def sealed_inv_def by blast
        then show ?thesis
          using t'(1) t(2) rt by (intro slot_manifest_update_other) (auto simp: uuid_text.enc_inj)
      qed
    qed (simp_all add: journal_of_def load_operation_def)
  qed
qed

lemma pub_inv_serve:
  assumes inv: "pub_inv L r" and ok: "allowed L (Serve nm sl) r"
  shows "pub_inv L (serve_slot nm sl r)"
proof -
  obtain old where old: "map_of (pr_slots r) nm = Some old"
    "slot_read sl PUBLICATION_MANIFEST_FILE = slot_read old PUBLICATION_MANIFEST_FILE"
    using ok by (auto split: option.splits)
  then have "manifest_canonical L sl"
    using inv by (auto simp: pub_inv_def pub_slots_inv_def manifest_canonical_def)
  moreover have "slot_manifest L (serve_slot nm sl r) u = slot_manifest L r u" for u
  proof -
    have "Option.bind (map_of (pr_slots (serve_slot nm sl r)) k) (\<lambda>s. slot_read s PUBLICATION_MANIFEST_FILE)
        = Option.bind (map_of (pr_slots r) k) (\<lambda>s. slot_read s PUBLICATION_MANIFEST_FILE)" for k
      using old by (simp add: serve_slot_def update_conv')
    then show ?thesis by (simp add: slot_manifest_def)
  qed
  ultimately show ?thesis
    using inv by (intro pub_inv_restrict [OF inv])
      (simp_all add: serve_slot_def journal_of_def load_operation_def slots_inv_update pub_inv_def)
qed

lemma write_inputs_journal: "journal_of L (fst (write_operation_inputs L u i r)) v = journal_of L r v"
  by (auto simp: write_operation_inputs_def journal_of_def load_operation_def load_file_def operation_path_def
      parse_non_nil_uuid_def update_conv' split: sum.splits option.splits prod.splits)

lemma pub_inv_inputs: "pub_inv L r \<Longrightarrow> pub_inv L (fst (write_operation_inputs L u i r))"
proof (rule pub_inv_quiet)
  show "pr_current (fst (write_operation_inputs L u i r)) = pr_current r"
    "pr_slots (fst (write_operation_inputs L u i r)) = pr_slots r"
    unfolding write_operation_inputs_def by (simp_all split: sum.split prod.split)
qed (simp_all only: write_inputs_journal)

text \<open>Removing slots other than the selected one.\<close>

lemma map_of_filter_key: "map_of [(k, s) \<leftarrow> xs. P k] nm = (if P nm then map_of xs nm else None)"
  by (induction xs) auto

lemma pub_inv_remove_slots:
  assumes inv: "pub_inv L r" and "\<And>nm s. map_of slots nm = Some s \<Longrightarrow> map_of (pr_slots r) nm = Some s"
    and keep: "\<And>p. pr_current r = Some (Pointer p) \<Longrightarrow>
      map_of slots (pp_publication_uuid p) = map_of (pr_slots r) (pp_publication_uuid p)"
  shows "pub_inv L (r\<lparr>pr_slots := slots\<rparr>)"
proof (rule pub_inv_restrict [OF inv])
  show "pub_slots_inv L (r\<lparr>pr_slots := slots\<rparr>)"
    using inv assms(2) by (auto simp: pub_inv_def pub_slots_inv_def)
  show "slot_manifest L (r\<lparr>pr_slots := slots\<rparr>) (pp_publication_uuid p) = slot_manifest L r (pp_publication_uuid p)"
    if cur: "pr_current r = Some (Pointer p)" for p
  proof -
    from inv cur obtain t where t: "pp_publication_uuid p = lib_show_uuid L t"
      "slot_path L (pp_publication_uuid p) = Inr (lib_show_uuid L t)"
      by (rule selected_slot)
    show ?thesis
      unfolding slot_manifest_at [OF t(2)] using keep [OF cur] t(1) by simp
  qed
qed (simp_all add: journal_of_def load_operation_def)

lemma pub_inv_discard_move:
  assumes inv: "pub_inv L r"
  shows "pub_inv L (fst (discard_move_slot L au u n r))"
proof (cases "discard_move_slot L au u n r")
  case (Pair r' res)
  have rt: "uuid_roundtrip L" using inv by (simp add: pub_inv_def)
  show ?thesis
  proof (cases res)
    case (Inl e)
    with Pair inv show ?thesis by (auto simp: discard_move_slot_def split: sum.splits)
  next
    case (Inr x)
    then obtain s t where s: "lib_parse_uuid L (pl_target_publication_uuid (st_plan s)) = Some t"
      "r' = r\<lparr>pr_slots := AList.delete (lib_show_uuid L t) (pr_slots r)\<rparr>"
      "discard_check L au u n r = Inr s"
      using Pair by (auto simp: discard_move_slot_def split: sum.splits)
    have "pp_publication_uuid p \<noteq> lib_show_uuid L t" if cur: "pr_current r = Some (Pointer p)" for p
    proof -
      from inv cur obtain t' where t': "lib_parse_uuid L (pp_publication_uuid p) = Some t'"
        "pp_publication_uuid p = lib_show_uuid L t'"
        by (rule selected_slot)
      have "uuid_equal L (pp_publication_uuid p) (pl_target_publication_uuid (st_plan s)) \<noteq> Inr True"
        using s(3) cur by (auto simp: discard_check_def read_current_def)
      with t'(1) s(1) have "t' \<noteq> t" by simp
      with rt t'(2) show ?thesis by (simp add: uuid_text.enc_inj)
    qed
    then show ?thesis
      using Pair s(2) by (auto intro!: pub_inv_remove_slots [OF inv] simp: delete_conv' split: if_splits)
  qed
qed

lemma journal_of_delete:
  "journal_of L (r\<lparr>pr_operations := AList.delete nm (pr_operations r)\<rparr>) v = Some s \<Longrightarrow> journal_of L r v = Some s"
  by (auto simp: journal_of_Some_iff load_operation_Inr_iff delete_conv' split: if_splits)

lemma pub_inv_delete_journal: "pub_inv L r \<Longrightarrow> pub_inv L (r\<lparr>pr_operations := AList.delete nm (pr_operations r)\<rparr>)"
  by (rule pub_inv_restrict) (auto dest: journal_of_delete simp: pub_inv_def pub_slots_inv_def slot_manifest_def)

lemma pub_inv_discard:
  assumes "pub_inv L r"
  shows "pub_inv L (fst (discard_operation L au u n r))"
    and "pub_inv L (fst (discard_invalid_operation L au u r))"
proof -
  show "pub_inv L (fst (discard_operation L au u n r))"
    using pub_inv_discard_move [OF assms, of au u n]
    by (cases "discard_move_slot L au u n r")
      (auto simp: discard_operation_def pub_inv_delete_journal split: sum.splits)
  show "pub_inv L (fst (discard_invalid_operation L au u r))"
    using assms by (auto simp: discard_invalid_operation_def pub_inv_delete_journal split: sum.splits)
qed

lemma pub_inv_prune:
  assumes inv: "pub_inv L r"
  shows "pub_inv L (fst (prune_slots L au dry r))"
proof -
  have cases: "fst (prune_slots L au dry r) = r \<or>
      (\<exists>current. read_current L r = Inr current
        \<and> fst (prune_slots L au dry r) =
            r\<lparr>pr_slots := [(nm, s) \<leftarrow> pr_slots r. prune_reason L r current nm \<noteq> None]\<rparr>)"
    by (cases "ensure_authorizes au"; cases "pr_slots r = []"; cases "read_current L r"; cases dry)
      (simp_all add: prune_slots_def Let_def)
  have keep: "prune_reason L r current (pp_publication_uuid p) \<noteq> None"
    if "read_current L r = Inr current" "pr_current r = Some (Pointer p)" for current p
    using that by (auto simp: read_current_Inr prune_reason_def Let_def retained_because_def retained_slots_def)
  from cases show ?thesis
  proof (elim disjE exE conjE)
    fix current
    assume c: "read_current L r = Inr current"
      "fst (prune_slots L au dry r) = r\<lparr>pr_slots := [(nm, s) \<leftarrow> pr_slots r. prune_reason L r current nm \<noteq> None]\<rparr>"
    show ?thesis
      unfolding c(2) by (rule pub_inv_remove_slots [OF inv]) (use keep c(1) in \<open>auto simp: map_of_filter_key split: if_splits\<close>)
  qed (use inv in simp)
qed

section \<open>Switching the pointer\<close>

lemma pub_inv_switch:
  assumes inv: "pub_inv L r" and sel: "selection_ok L r p"
    and canon: "canonical_uuid L (pp_publication_uuid p)"
      "pred_option (canonical_uuid L) (pp_expected_previous_publication_uuid p)"
    and sealed: "\<And>t. lib_parse_uuid L (pp_publication_uuid p) = Some t \<Longrightarrow> \<not> staging L r t"
    and previous: "\<And>q t. pp_expected_previous_publication_uuid p = Some q \<Longrightarrow> lib_parse_uuid L q = Some t \<Longrightarrow>
        parsed L (selected_uuid r) = Some t"
  shows "pub_inv L (r\<lparr>pr_current := Some (Pointer p)\<rparr>)"
proof -
  let ?r = "r\<lparr>pr_current := Some (Pointer p)\<rparr>"
  have journal: "journal_of L ?r = journal_of L r"
    by (simp add: journal_of_def load_operation_def fun_eq_iff)
  then have "journals_inv L ?r = journals_inv L r" "staging L ?r = staging L r"
    by (simp_all add: journals_inv_def staging_def fun_eq_iff)
  moreover have "pub_slots_inv L ?r = pub_slots_inv L r" "selection_ok L ?r p = selection_ok L r p"
    by (simp_all add: pub_slots_inv_def selection_ok_def slot_manifest_def)
  moreover have "\<not> staging L r t"
    if "parsed L (selected_uuid ?r) = Some t \<or> parsed L (predecessor_uuid ?r) = Some t" for t
  proof -
    from that consider "lib_parse_uuid L (pp_publication_uuid p) = Some t"
      | q where "pp_expected_previous_publication_uuid p = Some q" "lib_parse_uuid L q = Some t"
      by (auto simp: parsed_def selected_uuid_def predecessor_uuid_def bind_eq_Some_conv)
    then show ?thesis
      using sealed previous inv unfolding pub_inv_def sealed_inv_def by cases blast+
  qed
  ultimately show ?thesis
    using inv sel canon by (simp add: pub_inv_def current_inv_def sealed_inv_def)
qed

lemma parse_optional_Inr:
  "parse_optional L l v = Inr x \<Longrightarrow> x = parsed L v"
  by (auto simp: parse_optional_def parsed_def split: option.splits)

lemma selected_read: "read_current L r = Inr c \<Longrightarrow> selected_uuid r = map_option pp_publication_uuid c"
  by (auto simp: read_current_Inr selected_uuid_def)

lemma select_current_result:
  assumes "select_current L au s r = (r', res)"
  shows "r' = r \<or> (\<exists>p. compare_and_swap_current L au (pl_expected_current_publication_uuid (st_plan s)) p r = (r', Inr ())
      \<and> validate_target_slot L r s = Inr (pp_manifest_blake3 p)
      \<and> pp_publication_uuid p = pl_target_publication_uuid (st_plan s)
      \<and> pp_brain_uuid p = pl_brain_uuid (st_plan s)
      \<and> pp_expected_previous_publication_uuid p = pl_expected_current_publication_uuid (st_plan s)
      \<and> pp_rolled_back_from_publication_uuid p = None
      \<and> st_validated_manifest_blake3 s = Some (pp_manifest_blake3 p) \<and> res = Inr s)"
  using assms
  by (auto simp: select_current_def dest: cas_Inl target_pointer_Inr split: sum.splits if_splits prod.splits)

lemma pub_inv_select_current:
  assumes inv: "pub_inv L r" and j: "journal_of L r v = Some s" "st_phase s = Activating"
  shows "pub_inv L (fst (select_current L au s r))"
proof (cases "select_current L au s r")
  case (Pair r' res)
  from select_current_result [OF Pair] show ?thesis
  proof (elim disjE exE conjE)
    assume "r' = r"
    with Pair inv show ?thesis by simp
  next
    fix p
    assume cas: "compare_and_swap_current L au (pl_expected_current_publication_uuid (st_plan s)) p r = (r', Inr ())"
      and val: "validate_target_slot L r s = Inr (pp_manifest_blake3 p)"
      and p: "pp_publication_uuid p = pl_target_publication_uuid (st_plan s)"
        "pp_brain_uuid p = pl_brain_uuid (st_plan s)"
        "pp_expected_previous_publication_uuid p = pl_expected_current_publication_uuid (st_plan s)"
    from cas obtain c x where r': "r' = r\<lparr>pr_current := Some (Pointer p)\<rparr>" "pointer_validate L p = Inr ()"
      and c: "read_current L r = Inr c"
        "parse_optional L ''current publication_uuid'' (map_option pp_publication_uuid c) = Inr x"
        "parse_optional L ''expected current publication_uuid'' (pl_expected_current_publication_uuid (st_plan s)) = Inr x"
      by (rule cas_Inr) blast
    from val obtain bytes b where b: "slot_manifest L r (pl_target_publication_uuid (st_plan s)) = Inr bytes"
      "pp_manifest_blake3 p = lib_blake3_hex L bytes" "lib_bundle_of_json L bytes = Some b"
      "validate_metadata L (pl_publication_format_version (st_plan s)) b = Inr ()"
      "lib_parse_uuid L (bn_brain_uuid b) = lib_parse_uuid L (pl_brain_uuid (st_plan s))"
      "lib_parse_uuid L (bn_publication_uuid b) = lib_parse_uuid L (pl_target_publication_uuid (st_plan s))"
      by (rule validate_target_Inr) blast
    have "selection_ok L r p"
      using r'(2) b p unfolding selection_ok_def by auto
    moreover have "canonical_uuid L (pp_publication_uuid p)"
      "pred_option (canonical_uuid L) (pp_expected_previous_publication_uuid p)"
      using inv j(1) unfolding pub_inv_def journals_inv_def p by blast+
    moreover have "\<not> staging L r t" if "lib_parse_uuid L (pp_publication_uuid p) = Some t" for t
    proof
      assume "staging L r t"
      then obtain w y where w: "journal_of L r w = Some y" "target_of L y = Some t"
        "phase_accepts_rescope (st_phase y)"
        unfolding staging_def by blast
      have "target_of L s = Some t" using that p(1) by (simp add: target_of_def)
      with w(2) have "target_of L y = target_of L s" by simp
      then have "w = v"
        using inv j(1) w(1) unfolding pub_inv_def journals_inv_def by blast
      then show False using j w by simp
    qed
    moreover have "parsed L (selected_uuid r) = Some t"
      if "pp_expected_previous_publication_uuid p = Some q" "lib_parse_uuid L q = Some t" for q t
      using parse_optional_Inr [OF c(2)] parse_optional_Inr [OF c(3)] selected_read [OF c(1)] that p(3)
      by (simp add: parsed_def)
    ultimately have "pub_inv L r'"
      unfolding r'(1) by (intro pub_inv_switch [OF inv])
    with Pair show ?thesis by simp
  qed
qed

lemma pub_inv_select:
  assumes inv: "pub_inv L r"
  shows "pub_inv L (fst (select_operation L au u n r))"
proof -
  have rt: "uuid_roundtrip L" using inv by (simp add: pub_inv_def)
  let ?cp = "checkpoint_operation L (au_now au) (au_journal_lock au) u n activating_update r"
  have "fst (select_operation L au u n r) = r
      \<or> fst (select_operation L au u n r) = fst ?cp
      \<or> (\<exists>r1 s. ?cp = (r1, Inr s) \<and> fst (select_operation L au u n r) = fst (select_current L au s r1))
      \<or> (\<exists>s. load_operation L r u = Inr s \<and> st_phase s = Activating
            \<and> fst (select_operation L au u n r) = fst (select_current L au s r))"
    by (auto simp: select_operation_def split: sum.splits prod.splits)
  then show ?thesis
  proof (elim disjE exE conjE)
    assume "fst (select_operation L au u n r) = fst ?cp"
    then show ?thesis using pub_inv_checkpoint [OF inv] by metis
  next
    fix r1 s
    assume cp: "?cp = (r1, Inr s)" and eq: "fst (select_operation L au u n r) = fst (select_current L au s r1)"
    have "st_phase s = Activating"
      using cp by (rule checkpoint_Inr) (auto simp: activating_update_def)
    moreover obtain v inc where "commits L r v inc s r1"
      using rt cp by (rule checkpoint_commits)
    moreover have "pub_inv L r1" using pub_inv_checkpoint [OF inv] cp by (metis fst_conv)
    ultimately show ?thesis
      unfolding eq by (intro pub_inv_select_current) (auto simp: commits_def)
  next
    fix s
    assume "load_operation L r u = Inr s" "st_phase s = Activating"
      "fst (select_operation L au u n r) = fst (select_current L au s r)"
    then show ?thesis
      using load_is_journal [OF rt] pub_inv_select_current [OF inv] by metis
  qed (use inv in simp)
qed

lemma pub_inv_mark_ready: "pub_inv L r \<Longrightarrow> pub_inv L (fst (mark_ready L au u n r))"
  by (auto simp: mark_ready_def pub_inv_checkpoint split: sum.splits)

lemma pub_inv_complete: "pub_inv L r \<Longrightarrow> pub_inv L (fst (complete_activation L au u n r))"
  by (auto simp: complete_activation_def advance_phase_def pub_inv_checkpoint split: sum.splits)

lemma pub_inv_clear: "pub_inv L r \<Longrightarrow> pub_inv L (r\<lparr>pr_current := None\<rparr>)"
proof -
  let ?r = "r\<lparr>pr_current := None\<rparr>"
  have "journal_of L ?r = journal_of L r"
    by (simp add: journal_of_def load_operation_def fun_eq_iff)
  then show "pub_inv L r \<Longrightarrow> pub_inv L ?r"
    by (simp add: pub_inv_def journals_inv_def staging_def pub_slots_inv_def current_inv_def sealed_inv_def
        parsed_def selected_uuid_def predecessor_uuid_def)
qed

lemma pub_inv_rollback:
  assumes inv: "pub_inv L r"
  shows "pub_inv L (fst (rollback_current_under_lock L au e r))"
proof (cases "rollback_current_under_lock L au e r")
  case (Pair r' res)
  from Pair show ?thesis
  proof (cases rule: rollback_result)
    case (3 current previous p)
    note check = rollback_check_Inr [OF 3(1)]
    from 3(3) obtain bytes b where b: "slot_manifest L r previous = Inr bytes" "lib_bundle_of_json L bytes = Some b"
      "validate_metadata L SNAPSHOT_FORMAT_VERSION b = Inr ()"
      "lib_parse_uuid L (bn_publication_uuid b) = lib_parse_uuid L previous"
      "pp_brain_uuid p = bn_brain_uuid b" "pp_publication_uuid p = bn_publication_uuid b"
      "pp_expected_previous_publication_uuid p = None"
      "pp_manifest_blake3 p = lib_blake3_hex L bytes" "pointer_validate L p = Inr ()"
      by (rule predecessor_pointer_Inr) blast
    from 3(4) obtain bytes' where r': "r' = r\<lparr>pr_current := Some (Pointer p)\<rparr>"
      "slot_manifest L r (pp_publication_uuid p) = Inr bytes'"
      by (rule cas_Inr) blast
    obtain t where t: "lib_parse_uuid L previous = Some t" "t \<noteq> 0"
      using b(1) by (auto simp: slot_manifest_def)
    then have "slot_path L previous = Inr (lib_show_uuid L t)"
      "slot_path L (pp_publication_uuid p) = Inr (lib_show_uuid L t)"
      using b(4,6) by auto
    then have same: "slot_manifest L r (pp_publication_uuid p) = Inr bytes"
      using b(1) by (simp only: slot_manifest_at)
    have "selection_ok L r p"
      using same b unfolding selection_ok_def by auto
    moreover have "canonical_uuid L (pp_publication_uuid p)"
    proof -
      obtain sl where "map_of (pr_slots r) (lib_show_uuid L t) = Some sl"
        "slot_read sl PUBLICATION_MANIFEST_FILE = Some bytes"
        using b(1) t by (auto simp: slot_manifest_def bind_eq_Some_conv split: option.splits)
      moreover from this have "manifest_canonical L sl"
        using inv unfolding pub_inv_def pub_slots_inv_def by blast
      ultimately show ?thesis
        using b(2,6) by (simp add: manifest_canonical_def)
    qed
    moreover have "\<not> staging L r t'" if "lib_parse_uuid L (pp_publication_uuid p) = Some t'" for t'
    proof -
      have "parsed L (predecessor_uuid r) = Some t'"
        using that b(4,6) 3(2) check(2) by (simp add: parsed_def predecessor_uuid_def)
      then show ?thesis using inv unfolding pub_inv_def sealed_inv_def by blast
    qed
    ultimately have "pub_inv L r'"
      unfolding r'(1) by (intro pub_inv_switch [OF inv]) (simp_all add: b(7))
    with Pair show ?thesis by simp
  qed (use Pair inv pub_inv_clear in auto)
qed

section \<open>Every run keeps the selected publication sealed\<close>

lemma pub_inv_call:
  assumes "pub_inv L r" "allowed L c r"
  shows "pub_inv L (run_call L au c r)"
  using assms
  by (cases c)
    (simp_all del: allowed.simps add: checkpoint_calls pub_inv_create pub_inv_stage pub_inv_serve
      pub_inv_checkpoint pub_inv_rescope pub_inv_inputs pub_inv_mark_ready pub_inv_select pub_inv_complete
      pub_inv_rollback pub_inv_discard_move pub_inv_discard pub_inv_prune)

interpretation publication_runs: step_system "pub_step L" "pub_inv L" for L
  by unfold_locales (simp add: pub_step_def pub_inv_call)

lemma empty_root_inv: "uuid_roundtrip L \<Longrightarrow> pub_inv L empty_root"
  by (simp add: pub_inv_def journals_inv_def pub_slots_inv_def current_inv_def sealed_inv_def empty_root_def
      journal_of_def load_operation_def load_file_def operation_path_def parse_non_nil_uuid_def
      uuid_roundtrip_def parsed_def selected_uuid_def predecessor_uuid_def)

lemma run_publication_inv: "uuid_roundtrip L \<Longrightarrow> pub_inv L (run_publication L calls)"
  unfolding run_publication_def by (intro publication_runs.run_inv empty_root_inv)


section \<open>The journal follows its state machine\<close>

definition journal_view :: "pub_lib \<Rightarrow> pub_root \<Rightarrow> uuid \<Rightarrow> journal_view" where
  "journal_view L r v =
     (case journal_of L r v of None \<Rightarrow> Absent | Some s \<Rightarrow> At (unat (st_revision s)) (st_phase s))"

definition moves :: "pub_lib \<Rightarrow> uuid \<Rightarrow> pub_root \<Rightarrow> pub_root \<Rightarrow> bool" where
  "moves L v r r' \<longleftrightarrow> journal_view L r' v = journal_view L r v \<or> journal_step (journal_view L r v) (journal_view L r' v)"

lemma moves_same: "journal_of L r' v = journal_of L r v \<Longrightarrow> moves L v r r'"
  by (simp add: moves_def journal_view_def)

lemma moves_operations: "pr_operations r' = pr_operations r \<Longrightarrow> moves L v r r'"
  by (rule moves_same) (simp add: journal_of_def load_operation_def)

lemma moves_sub: "(\<And>s. journal_of L r' v = Some s \<Longrightarrow> journal_of L r v = Some s) \<Longrightarrow> moves L v r r'"
  by (cases "journal_of L r' v"; cases "journal_of L r v") (auto simp: moves_def journal_view_def)

lemma moves_commits: "commits L r w inc s r' \<Longrightarrow> moves L v r r'"
proof (cases "v = w")
  case True
  assume "commits L r w inc s r'"
  with True show ?thesis
    by (auto simp: commits_def moves_def journal_view_def)
qed (auto simp: commits_def intro: moves_same)

lemma moves_checkpoint:
  assumes "uuid_roundtrip L"
  shows "moves L v r (fst (checkpoint_operation L now au u n f r))"
proof (cases "checkpoint_operation L now au u n f r")
  case (Pair r' res)
  show ?thesis
  proof (cases res)
    case (Inl e)
    with Pair show ?thesis by (auto dest: checkpoint_Inl intro: moves_same)
  next
    case (Inr s)
    with Pair assms obtain w inc where "commits L r w inc s r'"
      using checkpoint_commits by blast
    with Pair show ?thesis by (auto intro: moves_commits)
  qed
qed

lemma moves_rescope:
  assumes "uuid_roundtrip L"
  shows "moves L v r (fst (rescope_operation L now au p n cs r))"
proof (cases "rescope_operation L now au p n cs r")
  case (Pair r' res)
  show ?thesis
  proof (cases res)
    case (Inl e)
    with Pair show ?thesis by (auto dest: rescope_Inl intro: moves_same)
  next
    case (Inr s)
    with Pair assms obtain w inc where "commits L r w inc s r'"
      using rescope_commits by blast
    with Pair show ?thesis by (auto intro: moves_commits)
  qed
qed

lemma moves_create:
  assumes "uuid_roundtrip L"
  shows "moves L v r (fst (create_operation L p r))"
proof (cases "create_operation L p r")
  case (Pair r' res)
  show ?thesis
  proof (cases res)
    case (Inl e)
    with Pair show ?thesis by (auto dest: create_Inl intro: moves_same)
  next
    case (Inr s)
    with Pair have call: "create_operation L p r = (r', Inr s)" by simp
    obtain w where w: "journal_of L r w = None" "journal_of L r' w = Some s"
      "\<And>x. x \<noteq> w \<Longrightarrow> journal_of L r' x = journal_of L r x" "st_phase s = Planned" "st_revision s = 0"
      by (rule create_Inr [OF assms call]) blast
    show ?thesis
    proof (cases "v = w")
      case True
      with w Pair show ?thesis by (simp add: moves_def journal_view_def)
    next
      case False
      with w(3) Pair show ?thesis by (auto intro: moves_same)
    qed
  qed
qed

text \<open>A call either leaves the list of operations, or its journal effect is that of one checkpoint.\<close>

lemma cas_operations: "pr_operations (fst (compare_and_swap_current L au e p r)) = pr_operations r"
  by (simp add: compare_and_swap_current_def split: sum.split)

lemma select_current_operations: "pr_operations (fst (select_current L au s r)) = pr_operations r"
proof (cases "select_current L au s r")
  case (Pair r' res)
  from select_current_result [OF Pair] Pair cas_operations [of L au _ _ r] show ?thesis
    by (metis fst_conv)
qed

lemma rollback_operations: "pr_operations (fst (rollback_current_under_lock L au e r)) = pr_operations r"
proof (cases "rollback_current_under_lock L au e r")
  case (Pair r' res)
  from Pair show ?thesis
    by (cases rule: rollback_result) (use Pair cas_operations [of L au _ _ r] in \<open>auto, metis fst_conv\<close>)
qed

lemma prune_operations: "pr_operations (fst (prune_slots L au dry r)) = pr_operations r"
  by (simp add: prune_slots_def Let_def split: sum.split)

lemma journal_view_cong:
  "pr_operations r = pr_operations r' \<Longrightarrow> journal_view L r v = journal_view L r' v"
  unfolding journal_view_def using journal_of_cong [of r r' L v] by simp

lemma moves_select:
  assumes "uuid_roundtrip L"
  shows "moves L v r (fst (select_operation L au u n r))"
proof -
  let ?cp = "checkpoint_operation L (au_now au) (au_journal_lock au) u n activating_update r"
  have "pr_operations (fst (select_operation L au u n r)) = pr_operations r
      \<or> pr_operations (fst (select_operation L au u n r)) = pr_operations (fst ?cp)"
    by (auto simp: select_operation_def select_current_operations split: sum.splits prod.splits)
  then show ?thesis
  proof
    assume "pr_operations (fst (select_operation L au u n r)) = pr_operations (fst ?cp)"
    then have "journal_view L (fst (select_operation L au u n r)) v = journal_view L (fst ?cp) v"
      by (rule journal_view_cong)
    then show ?thesis
      using moves_checkpoint [OF assms] unfolding moves_def by (simp only:)
  qed (rule moves_operations)
qed

lemma moves_discard:
  "moves L v r (fst (discard_move_slot L au u n r))"
  "moves L v r (fst (discard_operation L au u n r))"
  "moves L v r (fst (discard_invalid_operation L au u r))"
proof -
  have ops: "pr_operations (fst (discard_move_slot L au u n r)) = pr_operations r"
    by (simp add: discard_move_slot_def split: sum.split)
  then show "moves L v r (fst (discard_move_slot L au u n r))"
    by (rule moves_operations)
  have "pr_operations (fst (discard_operation L au u n r)) = pr_operations r
      \<or> (\<exists>nm. pr_operations (fst (discard_operation L au u n r)) = AList.delete nm (pr_operations r))"
    using ops by (cases "discard_move_slot L au u n r") (auto simp: discard_operation_def split: sum.splits)
  moreover have "pr_operations (fst (discard_invalid_operation L au u r)) = pr_operations r
      \<or> (\<exists>nm. pr_operations (fst (discard_invalid_operation L au u r)) = AList.delete nm (pr_operations r))"
    by (auto simp: discard_invalid_operation_def split: sum.splits)
  moreover have "moves L v r r'"
    if "pr_operations r' = pr_operations r \<or> (\<exists>nm. pr_operations r' = AList.delete nm (pr_operations r))" for r'
    using that
  proof (elim disjE exE)
    fix nm
    assume "pr_operations r' = AList.delete nm (pr_operations r)"
    then have "journal_of L r' v = journal_of L (r\<lparr>pr_operations := AList.delete nm (pr_operations r)\<rparr>) v"
      by (simp add: journal_of_def load_operation_def)
    then show ?thesis
      using journal_of_delete by (intro moves_sub) metis
  qed (rule moves_operations)
  ultimately show "moves L v r (fst (discard_operation L au u n r))"
    "moves L v r (fst (discard_invalid_operation L au u r))"
    by blast+
qed

lemma moves_call:
  assumes "uuid_roundtrip L"
  shows "moves L v r (run_call L au c r)"
proof (cases c)
  case (RecordInputs u i)
  then show ?thesis by (auto intro: moves_same simp: write_inputs_journal)
next
  case (MarkReady u n)
  then show ?thesis
    by (auto simp: mark_ready_def moves_checkpoint [OF assms] moves_same split: sum.splits)
next
  case (Complete u n)
  then show ?thesis
    by (auto simp: complete_activation_def advance_phase_def moves_checkpoint [OF assms] moves_same split: sum.splits)
next
  case (Stage u sl)
  then show ?thesis by (auto simp: stage_slot_def intro: moves_operations split: sum.splits)
qed (simp_all add: checkpoint_calls moves_checkpoint assms moves_rescope moves_create moves_select moves_discard
      serve_slot_def moves_operations prune_operations rollback_operations)


end
