(* ===== verification/Publication_Promises.thy ===== *)
theory Publication_Promises
  imports Publication_Runs
begin

text \<open>
  What the publication commands promise: an interrupted activation can be entered again, a rollback goes
  back one step and no further, and pruning removes exactly the slots nothing can reach any more and
  never stands in the way of a rollback.
\<close>

section \<open>Activation can be re-entered\<close>

lemma load_operation_cong: "pr_operations r = pr_operations r' \<Longrightarrow> load_operation L r u = load_operation L r' u"
  by (simp add: load_operation_def)

lemma select_current_Inr:
  assumes "select_current L au s r = (r', Inr s')" and plan: "plan_validate L (st_plan s) = Inr ()"
  obtains c where "s' = s" "pr_operations r' = pr_operations r" "read_current L r' = Inr c" "already_selected L s c"
proof -
  obtain t where t: "lib_parse_uuid L (pl_target_publication_uuid (st_plan s)) = Some t"
    using plan by (auto simp: plan_validate_def)
  have ops: "pr_operations r' = pr_operations r"
    using select_current_operations [of L au s r] assms(1) by simp
  obtain c where c: "read_current L r = Inr c"
    using assms(1) by (cases "read_current L r") (simp_all add: select_current_def)
  show thesis
  proof (cases "already_selected L s c")
    case True
    with assms(1) c have "r' = r" "s' = s" by (simp_all add: select_current_def)
    with True c show thesis by (intro that [of c]) simp_all
  next
    case False
    from select_current_result [OF assms(1)] show thesis
    proof (elim disjE exE conjE)
      assume r: "r' = r"
      from False assms(1) c obtain p where p: "target_pointer L au s r = Inr p"
        "compare_and_swap_current L au (pl_expected_current_publication_uuid (st_plan s)) p r = (r', Inr ())" "s' = s"
        by (auto simp: select_current_def split: sum.splits prod.splits)
      from p(2) have "r' = r\<lparr>pr_current := Some (Pointer p)\<rparr>" "pointer_validate L p = Inr ()"
        by (rule cas_Inr; blast)+
      then show thesis
        using target_pointer_Inr [OF p(1)] t p(3) ops
        by (intro that [of "Some p"]) (simp_all add: read_current_Inr already_selected_def)
    next
      fix p
      assume "compare_and_swap_current L au (pl_expected_current_publication_uuid (st_plan s)) p r = (r', Inr ())"
        "pp_publication_uuid p = pl_target_publication_uuid (st_plan s)"
        "st_validated_manifest_blake3 s = Some (pp_manifest_blake3 p)" "Inr s' = Inr s"
      moreover from this(1) have "r' = r\<lparr>pr_current := Some (Pointer p)\<rparr>" "pointer_validate L p = Inr ()"
        by (rule cas_Inr; blast)+
      ultimately show thesis
        using t ops by (intro that [of "Some p"]) (simp_all add: read_current_Inr already_selected_def)
    qed
  qed
qed

lemma select_Inr:
  assumes "select_operation L au u n r = (r', Inr s)"
  obtains c where "load_operation L r' u = Inr s" "st_phase s = Activating" "st_failure s = None"
    "\<not> st_cancel_requested s" "read_current L r' = Inr c" "already_selected L s c"
proof -
  let ?cp = "checkpoint_operation L (au_now au) (au_journal_lock au) u n activating_update r"
  obtain inc where inc: "load_operation L r u = Inr inc" "st_failure inc = None" "\<not> st_cancel_requested inc"
    using assms by (auto simp: select_operation_def split: sum.splits)
  have alt: "(\<exists>r1 s1. st_phase inc = Ready \<and> ?cp = (r1, Inr s1) \<and> select_current L au s1 r1 = (r', Inr s))
      \<or> (st_phase inc = Activating \<and> select_current L au inc r = (r', Inr s))"
    using assms inc(1) by (auto simp: select_operation_def split: sum.splits prod.splits if_splits)
  then show thesis
  proof (elim disjE exE conjE)
    fix r1 s1
    assume cp: "?cp = (r1, Inr s1)" and sel: "select_current L au s1 r1 = (r', Inr s)"
    have load: "load_operation L r1 u = Inr s1" using cp by (rule checkpoint_effect) blast
    have s1: "st_phase s1 = Activating" "st_failure s1 = None" "\<not> st_cancel_requested s1"
      using cp inc by (auto elim!: checkpoint_Inr simp: activating_update_def)
    from sel loaded_plan(1) [OF load] obtain c where "s = s1" "pr_operations r' = pr_operations r1"
      "read_current L r' = Inr c" "already_selected L s1 c"
      by (rule select_current_Inr)
    with s1 load show thesis
      by (intro that [of c]) (simp_all add: load_operation_cong [of r' r1])
  next
    assume "st_phase inc = Activating" and sel: "select_current L au inc r = (r', Inr s)"
    moreover from sel loaded_plan(1) [OF inc(1)] obtain c where "s = inc" "pr_operations r' = pr_operations r"
      "read_current L r' = Inr c" "already_selected L inc c"
      by (rule select_current_Inr)
    ultimately show thesis
      using inc by (intro that [of c]) (simp_all add: load_operation_cong [of r' r])
  qed
qed

text \<open>
  A crash after the switch of \<open>CURRENT\<close> loses nothing: once \<open>select_operation\<close> has succeeded, calling it
  again (with whatever clock, lease or journal lock, as long as the root lock is held) returns the same
  state and changes nothing, and \<open>complete_activation\<close> from that state makes the operation \<open>Activated\<close>.
\<close>

theorem activation_reentry:
  assumes "select_operation L au u n r = (r', Inr s)" "au_root_lock au'"
    and "au_journal_lock au'" "st_revision s \<noteq> - 1"
  shows "select_operation L au' u (st_revision s) r' = (r', Inr s)
    \<and> (case snd (complete_activation L au' u (st_revision s) r') of
         Inl e \<Rightarrow> False | Inr done \<Rightarrow> st_phase done = Activated \<and> st_revision done = st_revision s + 1)"
proof -
  obtain c where c: "load_operation L r' u = Inr s" "st_phase s = Activating" "st_failure s = None"
    "\<not> st_cancel_requested s" "read_current L r' = Inr c" "already_selected L s c"
    using assms(1) by (rule select_Inr)
  have "select_operation L au' u (st_revision s) r' = (r', Inr s)"
    using c assms(2) by (simp add: select_operation_def select_current_def ensure_authorizes_def bail_if_def)
  moreover have "validate_update L s (s\<lparr>st_phase := Activated, st_progress := None\<rparr>) = Inr ()"
    using loaded_plan(1,2) [OF c(1)] c(2) by (simp add: validate_update_def bail_if_def)
  then have "next_state L (au_now au') True (st_revision s) (advance_update Activated) s =
      Inr (s\<lparr>st_phase := Activated, st_progress := None, st_revision := st_revision s + 1,
             st_updated_unix_millis := max (au_now au') (st_updated_unix_millis s)\<rparr>)"
    using c assms(4) by (simp add: next_state_def advance_update_def bail_if_def)
  moreover obtain nm where "operation_path L u = Inr nm"
    using c(1) by (auto simp: load_operation_Inr_iff)
  moreover obtain p where "c = Some p" "uuid_equal L (pp_publication_uuid p) (pl_target_publication_uuid (st_plan s)) = Inr True"
    "pp_manifest_blake3 p = (case st_validated_manifest_blake3 s of None \<Rightarrow> [] | Some d \<Rightarrow> d)"
    using c(6) unfolding already_selected_def by (cases c) auto
  ultimately show ?thesis
    using c assms(3) unfolding complete_activation_def advance_phase_def checkpoint_operation_def
    by (simp add: bail_if_def del: operation_path_Inr_iff uuid_equal_Inr_iff)
qed

section \<open>A rollback is one step\<close>

text \<open>
  A rollback that selected the predecessor is one-way: it selects exactly the publication that
  preceded the abandoned one, records what was abandoned, and another rollback is refused without a
  change until a fresh activation has written a pointer of its own.
\<close>

theorem rollback_is_one_step:
  assumes "rollback_current_under_lock L au e r = (r', Inr (Some p))" "au_root_lock au'" "au_lease_clean au'"
  shows "pr_current r' = Some (Pointer p)
    \<and> parsed L (selected_uuid r') = parsed L (predecessor_uuid r)
    \<and> pp_rolled_back_from_publication_uuid p = selected_uuid r
    \<and> rollback_current_under_lock L au' e' r' = (r', Inl RolledBackAlready)"
  using assms(1)
proof (cases rule: rollback_result)
  case (3 current previous q)
  then have q: "q = p" by simp
  note check = rollback_check_Inr [OF 3(1)]
  obtain b :: pub_bundle where b: "lib_parse_uuid L (bn_publication_uuid b) = lib_parse_uuid L previous"
    "pp_publication_uuid p = bn_publication_uuid b"
    "pp_rolled_back_from_publication_uuid p = Some (pp_publication_uuid current)" "pointer_validate L p = Inr ()"
    using 3(3) unfolding q by (rule predecessor_pointer_Inr) blast
  have r': "r' = r\<lparr>pr_current := Some (Pointer p)\<rparr>"
    using 3(4) unfolding q by (rule cas_Inr) blast
  have "rollback_check L au' e' r' = Inl RolledBackAlready"
    using assms(2,3) b(3,4)
    by (simp add: rollback_check_def ensure_authorizes_def bail_if_def read_current_def r')
  then show ?thesis
    using b check(2) 3(2)
    by (simp add: r' rollback_current_under_lock_def selected_uuid_def predecessor_uuid_def parsed_def)
qed auto

section \<open>Pruning\<close>

definition slot_needed :: "pub_lib \<Rightarrow> pub_root \<Rightarrow> string \<Rightarrow> bool" where
  "slot_needed L r nm \<longleftrightarrow>
     selected_uuid r = Some nm \<or> predecessor_uuid r = Some nm
     \<or> list_ex (\<lambda>s. \<not> is_terminal (st_phase s) \<and> pl_target_publication_uuid (st_plan s) = nm)
         (ol_operations (list_operations L r))"

lemma map_of_Some_exists: "(\<exists>w. map_of xs k = Some w) \<longleftrightarrow> k \<in> fst ` set xs"
  by (metis map_of_eq_None_iff not_None_eq)

lemma prune_reason_iff:
  assumes "read_current L r = Inr current"
  shows "prune_reason L r current nm \<noteq> None \<longleftrightarrow>
     slot_needed L r nm \<or> ol_invalid_operations (list_operations L r) \<noteq> []"
proof -
  let ?ops = "list_operations L r"
  have "map_of (retained_slots current (ol_operations ?ops)) nm \<noteq> None \<longleftrightarrow> slot_needed L r nm"
    using assms
    by (auto simp: map_of_Some_exists retained_slots_def slot_needed_def selected_uuid_def predecessor_uuid_def
        read_current_Inr list_ex_iff image_iff split: option.splits)
  then show ?thesis
    by (cases "map_of (retained_slots current (ol_operations ?ops)) nm")
      (auto simp: prune_reason_def Let_def retained_because_def split: list.splits)
qed

text \<open>
  Pruning removes exactly what nothing can reach: a slot stays if \<open>CURRENT\<close> selects it, if it is the
  predecessor a rollback would return to, or if an operation in flight targets it; every other slot is
  removed, unless some journal is unreadable, in which case all stay. A dry run removes nothing.
\<close>

theorem prune_exact:
  assumes "prune_slots L au dry r = (r', Inr report)"
  shows "map_of (pr_slots r') nm =
     (if dry \<or> slot_needed L r nm \<or> ol_invalid_operations (list_operations L r) \<noteq> []
      then map_of (pr_slots r) nm else None)"
proof (cases "pr_slots r = []")
  case True
  with assms have "r' = r" by (auto simp: prune_slots_def split: sum.splits)
  with True show ?thesis by simp
next
  case False
  then obtain current where c: "read_current L r = Inr current"
    "r' = (if dry then r else r\<lparr>pr_slots := [(nm, s) \<leftarrow> pr_slots r. prune_reason L r current nm \<noteq> None]\<rparr>)"
    using assms by (auto simp: prune_slots_def Let_def split: sum.splits)
  show ?thesis
    unfolding c(2) using prune_reason_iff [OF c(1), of nm] by (simp add: map_of_filter_key)
qed

end

