(* ===== verification/Publication_Scenarios.thy ===== *)
theory Publication_Scenarios
  imports Publication_Promises
begin

text \<open>
  Concrete runs of a publication root. The library parameters are instantiated by decimal text for UUIDs
  (which, like the uuid crate, accepts more than one spelling of a value) and by a digest that is a
  64-digit rendering of the length, so that every run below is computed by the definitions themselves.
\<close>

section \<open>A library and two bundles\<close>

definition sample_artifact :: "string \<Rightarrow> artifact" where
  "sample_artifact pub =
     \<lparr>af_path = ''graph.lbug'', af_kind = K_Graph, af_schema_version = 1, af_byte_size = 1,
      af_blake3 = replicate 63 CHR ''0'' @ ''1'', af_brain_uuid = ''1'', af_publication_uuid = pub,
      af_producer_version = ''v'', af_source_graph_generation = 0, af_algorithm_fingerprint = ''f''\<rparr>"

definition sample_bundle :: "string \<Rightarrow> pub_bundle" where
  "sample_bundle pub =
     \<lparr>bn_format_version = 4, bn_brain_uuid = ''1'', bn_publication_uuid = pub, bn_producer_version = ''v'',
      bn_source_graph_generation = 0, bn_artifacts = [sample_artifact pub]\<rparr>"

text \<open>A manifest is the text of the UUID it describes.\<close>

definition sample_lib :: pub_lib where
  "sample_lib =
     \<lparr>lib_parse_uuid = (\<lambda>s. map_option of_nat (radix_val 10 0 s)),
      lib_show_uuid = (\<lambda>u. nat_dec (unat u)),
      lib_blake3_hex = (\<lambda>s. replicate 63 CHR ''0'' @ nat_dec (length s mod 10)),
      lib_state_json = (\<lambda>s. []), lib_inputs_json = (\<lambda>s. []), lib_payload_json = (\<lambda>p. []),
      lib_bundle_of_json = (\<lambda>s. Some (sample_bundle s))\<rparr>"

lemma sample_roundtrip: "uuid_roundtrip sample_lib"
  by (simp add: uuid_roundtrip_def sample_lib_def radix_val_nat_dec)

definition sample_plan :: "string \<Rightarrow> string \<Rightarrow> string option \<Rightarrow> publication_plan" where
  "sample_plan u target expected =
     \<lparr>pl_operation_uuid = u, pl_brain_uuid = ''1'', pl_target_publication_uuid = target,
      pl_expected_current_publication_uuid = expected, pl_input_fingerprint = ''i'',
      pl_producer_version = ''v'', pl_publication_format_version = 4, pl_created_unix_millis = 0\<rparr>"

definition sample_slot :: "string \<Rightarrow> slot" where
  "sample_slot pub = [(''graph.lbug'', Regular ''g''), (''publication.json'', Regular pub)]"

definition sample_authority :: authority where
  "sample_authority =
     \<lparr>au_now = 5, au_journal_lock = True, au_root_lock = True, au_lease_clean = True,
      au_graph_identity = Some \<lparr>id_brain_uuid = ''1'', id_publication_uuid = ''2''\<rparr>\<rparr>"

text \<open>A rebuild up to \<open>Ready\<close>, and its activation.\<close>

definition rebuild_calls :: "string \<Rightarrow> string \<Rightarrow> string option \<Rightarrow> pub_call list" where
  "rebuild_calls u target expected =
     [Create (sample_plan u target expected), Stage u (sample_slot target),
      Advance u 0 Graph, Advance u 1 TextSearch, Advance u 2 Regex, Advance u 3 Embeddings,
      Advance u 4 Metadata, Advance u 5 Validating, MarkReady u 6]"

definition sample_run :: "pub_call list \<Rightarrow> pub_root" where
  "sample_run calls = run_publication sample_lib (map (Pair sample_authority) calls)"

text \<open>A rebuild that was interrupted after two phases: what its journal holds was reached step by step.\<close>

lemma sample_graph_run:
  "journal_view sample_lib (sample_run [Create (sample_plan ''3'' ''7'' None), Advance ''3'' 0 Graph]) 3 = At 1 Graph"
  by code_simp



end
