(* ===== verification/Publication_Resume.thy ===== *)
theory Publication_Resume
  imports Publication_Cutover
begin

text \<open>
  The entry of \<^verbatim>\<open>publication rebuild --operation\<close> (\<^verbatim>\<open>src/main.rs\<close>): what a resumed rebuild does with its
  journal before its first phase, given the inputs captured now. The composition of the journal, the
  recorded inputs, the scope decision, the rewind and the discard; the plan of a fresh operation (its
  new UUIDs and its time) and the captured inputs are arguments.
\<close>

record resume_request =
  rr_operation_uuid :: string
  rr_sources :: source_manifest
  rr_input_fingerprint :: string
  rr_config_blake3 :: string
  rr_preserved_state_fingerprint :: string
  rr_producer_version :: string
  rr_new_operation_uuid :: string
  rr_new_target_uuid :: string
  rr_incumbent_brain_uuid :: string
  rr_current_publication_uuid :: "string option"
  rr_now_unix_millis :: u64

definition fresh_plan :: "resume_request \<Rightarrow> publication_plan" where
  "fresh_plan q =
     \<lparr>pl_operation_uuid = rr_new_operation_uuid q, pl_brain_uuid = rr_incumbent_brain_uuid q,
      pl_target_publication_uuid = rr_new_target_uuid q,
      pl_expected_current_publication_uuid = rr_current_publication_uuid q,
      pl_input_fingerprint = rr_input_fingerprint q, pl_producer_version = rr_producer_version q,
      pl_publication_format_version = SNAPSHOT_FORMAT_VERSION,
      pl_created_unix_millis = rr_now_unix_millis q\<rparr>"

definition current_inputs :: "resume_request \<Rightarrow> operation_inputs" where
  "current_inputs q =
     \<lparr>oi_version = OPERATION_INPUTS_VERSION, oi_input_fingerprint = rr_input_fingerprint q,
      oi_config_blake3 = rr_config_blake3 q,
      oi_preserved_state_fingerprint = rr_preserved_state_fingerprint q, oi_sources = rr_sources q\<rparr>"

definition requested_plan :: "resume_request \<Rightarrow> op_state \<Rightarrow> publication_plan" where
  "requested_plan q loaded =
     (st_plan loaded)\<lparr>pl_input_fingerprint := rr_input_fingerprint q,
                      pl_producer_version := rr_producer_version q,
                      pl_publication_format_version := SNAPSHOT_FORMAT_VERSION\<rparr>"

definition inputs_drifted :: "resume_request \<Rightarrow> op_state \<Rightarrow> bool" where
  "inputs_drifted q loaded \<longleftrightarrow>
     pl_input_fingerprint (st_plan loaded) \<noteq> rr_input_fingerprint q
     \<and> pl_producer_version (st_plan loaded) = rr_producer_version q
     \<and> pl_publication_format_version (st_plan loaded) = SNAPSHOT_FORMAT_VERSION
     \<and> \<not> st_cancel_requested loaded \<and> phase_accepts_rescope (st_phase loaded)"

definition staged_manifest_exists :: "pub_root \<Rightarrow> string \<Rightarrow> bool" where
  "staged_manifest_exists r nm =
     (case map_of (pr_slots r) nm of None \<Rightarrow> False | Some s \<Rightarrow> path_exists s PUBLICATION_MANIFEST_FILE)"

definition drift_scope :: "resume_request \<Rightarrow> operation_inputs option \<Rightarrow> bool \<Rightarrow> op_state \<Rightarrow> resume_scope" where
  "drift_scope q recorded manifest_exists loaded =
     (if manifest_exists then Restart ''its staged publication is already sealed''
      else case recorded of
        None \<Rightarrow> Restart ''it has no record of the inputs it was built from''
      | Some i \<Rightarrow>
          if oi_input_fingerprint i = pl_input_fingerprint (st_plan loaded)
          then plan_resume_scope i (rr_sources q) (rr_config_blake3 q) (rr_preserved_state_fingerprint q)
          else Restart ''it has no record of the inputs it was built from'')"

datatype resume_outcome = Resumed op_state | Acknowledged op_state

definition create_fresh ::
  "pub_lib \<Rightarrow> resume_request \<Rightarrow> pub_root \<Rightarrow> pub_root \<times> resume_outcome pub_result" where
  "create_fresh L q r =
     (case create_operation L (fresh_plan q) r of
        (r1, Inl e) \<Rightarrow> (r1, Inl e)
      | (r1, Inr created) \<Rightarrow>
          (case write_operation_inputs L (pl_operation_uuid (fresh_plan q)) (current_inputs q) r1 of
             (r2, Inl e) \<Rightarrow> (r2, Inl e)
           | (r2, Inr _) \<Rightarrow> (r2, Inr (Resumed created))))"

text \<open>Falling back to a full rebuild: the old operation is failed for good, discarded and replaced.\<close>

definition restart_rebuild ::
  "pub_lib \<Rightarrow> authority \<Rightarrow> resume_request \<Rightarrow> string \<Rightarrow> op_state \<Rightarrow> pub_root \<Rightarrow>
     pub_root \<times> resume_outcome pub_result" where
  "restart_rebuild L au q reason loaded r =
     (case (if st_failure loaded = None
            then record_op_failure L (au_now au) (au_journal_lock au) (pl_operation_uuid (st_plan loaded))
                   (st_revision loaded) ''publication_inputs_changed''
                   (''resume could not be scoped: '' @ reason) False r
            else (r, Inr loaded)) of
        (r1, Inl e) \<Rightarrow> (r1, Inl e)
      | (r1, Inr latest) \<Rightarrow>
          (case discard_operation L au (pl_operation_uuid (st_plan latest)) (st_revision latest) r1 of
             (r2, Inl e) \<Rightarrow> (r2, Inl e)
           | (r2, Inr _) \<Rightarrow> create_fresh L q r2))"

definition rescope_rebuild ::
  "pub_lib \<Rightarrow> authority \<Rightarrow> resume_request \<Rightarrow> op_state \<Rightarrow> string list \<Rightarrow> string list \<Rightarrow> pub_root \<Rightarrow>
     pub_root \<times> resume_outcome pub_result" where
  "rescope_rebuild L au q loaded repos vaults r =
     (case write_operation_inputs L (pl_operation_uuid (st_plan loaded)) (current_inputs q) r of
        (r1, Inl e) \<Rightarrow> (r1, Inl e)
      | (r1, Inr _) \<Rightarrow>
          (case rescope_operation L (au_now au) (au_journal_lock au) (requested_plan q loaded)
                  (st_revision loaded) (invalidated_checkpoints L (rr_sources q) repos vaults) r1 of
             (r2, Inl e) \<Rightarrow> (r2, Inl e)
           | (r2, Inr s) \<Rightarrow> (r2, Inr (Resumed s))))"

definition outcome :: "('a \<Rightarrow> resume_outcome) \<Rightarrow> pub_root \<times> 'a pub_result \<Rightarrow> pub_root \<times> resume_outcome pub_result" where
  "outcome f x = (fst x, case snd x of Inl e \<Rightarrow> Inl e | Inr s \<Rightarrow> Inr (f s))"

definition publication_resume ::
  "pub_lib \<Rightarrow> authority \<Rightarrow> resume_request \<Rightarrow> pub_root \<Rightarrow> pub_root \<times> resume_outcome pub_result" where
  "publication_resume L au q r =
     (case load_operation L r (rr_operation_uuid q) of
        Inl e \<Rightarrow> (r, Inl e)
      | Inr loaded \<Rightarrow>
          if st_cancel_requested loaded then
            outcome Acknowledged
              (acknowledge_cancel L (au_now au) (au_journal_lock au) (pl_operation_uuid (st_plan loaded))
                 (st_revision loaded) r)
          else if inputs_drifted q loaded then
            (case slot_path L (pl_target_publication_uuid (st_plan loaded)) of
               Inl e \<Rightarrow> (r, Inl e)
             | Inr nm \<Rightarrow>
                 (case drift_scope q (load_operation_inputs L r (rr_operation_uuid q))
                         (staged_manifest_exists r nm) loaded of
                    Restart reason \<Rightarrow> restart_rebuild L au q reason loaded r
                  | Unchanged \<Rightarrow> (r, Inl IncompatibleResume)
                  | Rescope repos vaults preserved \<Rightarrow> rescope_rebuild L au q loaded repos vaults r))
          else if st_failure loaded \<noteq> None then
            outcome Resumed
              (resume_operation L (au_now au) (au_journal_lock au) (requested_plan q loaded)
                 (st_revision loaded) r)
          else (r, and_then (resumable_with L loaded (requested_plan q loaded)) (\<lambda>_. Inr (Resumed loaded))))"

section \<open>A resumed build is built from the current inputs\<close>

lemma create_fresh_Inr:
  assumes "create_fresh L q r = (r', Inr (Resumed s))"
  shows "st_plan s = fresh_plan q" "st_phase s = Planned" "st_completed_artifacts s = []"
    "st_failure s = None" "\<not> st_cancel_requested s"
  using assms
  by (auto simp: create_fresh_def create_operation_def new_state_def split: prod.splits sum.splits)

lemma resumable_fields:
  assumes "resumable_with L s (requested_plan q s) = Inr u"
  shows "pl_input_fingerprint (st_plan s) = rr_input_fingerprint q"
    "pl_producer_version (st_plan s) = rr_producer_version q"
    "pl_publication_format_version (st_plan s) = SNAPSHOT_FORMAT_VERSION"
  using assms by (auto simp: resumable_with_def Let_def requested_plan_def)

definition plan_is_current :: "resume_request \<Rightarrow> op_state \<Rightarrow> bool" where
  "plan_is_current q s \<longleftrightarrow>
     pl_input_fingerprint (st_plan s) = rr_input_fingerprint q
     \<and> pl_producer_version (st_plan s) = rr_producer_version q
     \<and> pl_publication_format_version (st_plan s) = SNAPSHOT_FORMAT_VERSION"

lemma load_same_uuid:
  assumes "load_operation L r u = Inr s" "lib_parse_uuid L w = lib_parse_uuid L u"
  shows "load_operation L r w = Inr s"
  using assms by (auto simp: load_operation_Inr_iff validate_loaded_Inr_iff)

text \<open>The checkpoints a resume leaves, for a source whose content differs from the recorded one.\<close>

lemma invalidated_repo:
  assumes "uid \<in> set (changed_repos i sources)"
  shows "publication_graph_checkpoint L ''repo'' uid
    \<in> set (invalidated_checkpoints L sources (changed_repos i sources) vaults)"
  using assms by (auto simp: invalidated_checkpoints_def changed_repos_def)

lemma invalidated_vault:
  assumes "uid \<in> set (changed_vaults i sources)"
  shows "publication_graph_checkpoint L ''vault'' uid
    \<in> set (invalidated_checkpoints L sources repos (changed_vaults i sources))"
  using assms by (auto simp: invalidated_checkpoints_def changed_vaults_def)

definition rebuilds :: "pub_lib \<Rightarrow> op_state \<Rightarrow> operation_inputs \<Rightarrow> source_manifest \<Rightarrow> bool" where
  "rebuilds L s i sources \<longleftrightarrow>
     list_all (\<lambda>uid. map_of (st_completed_artifacts s) (publication_graph_checkpoint L ''repo'' uid) = None)
       (changed_repos i sources)
     \<and> list_all (\<lambda>uid. map_of (st_completed_artifacts s) (publication_graph_checkpoint L ''vault'' uid) = None)
       (changed_vaults i sources)"

lemma rescope_rebuild_Inr:
  assumes call: "rescope_rebuild L au q loaded (changed_repos i (rr_sources q)) (changed_vaults i (rr_sources q)) r
      = (r', Inr (Resumed s))"
    and loaded: "load_operation L r u = Inr loaded"
  shows "plan_is_current q s" "rebuilds L s i (rr_sources q)" "st_phase s \<in> {Planned, Graph}"
proof -
  let ?cs = "invalidated_checkpoints L (rr_sources q) (changed_repos i (rr_sources q)) (changed_vaults i (rr_sources q))"
  obtain r1 where w: "write_operation_inputs L (pl_operation_uuid (st_plan loaded)) (current_inputs q) r = (r1, Inr ())"
    and rs: "rescope_operation L (au_now au) (au_journal_lock au) (requested_plan q loaded) (st_revision loaded) ?cs r1
      = (r', Inr s)"
    using call by (auto simp: rescope_rebuild_def split: prod.splits sum.splits)
  from rs obtain inc :: op_state where inc: "st_phase s = (if st_phase inc = Planned then Planned else Graph)"
    "st_plan s = requested_plan q loaded"
    "st_completed_artifacts s = fold invalidate ?cs (st_completed_artifacts inc)"
    by (rule rescope_effect) blast
  show "plan_is_current q s" by (simp add: inc(2) plan_is_current_def requested_plan_def)
  show "rebuilds L s i (rr_sources q)"
    by (auto simp: rebuilds_def list_all_iff inc(3)
        intro!: map_of_fold_invalidate_gone invalidated_repo invalidated_vault invalidated_are_graph)
  show "st_phase s \<in> {Planned, Graph}" by (simp add: inc(1))
qed

text \<open>
  A resumed rebuild never builds from outdated inputs: whenever a resume goes on, the plan it goes on
  with carries the fingerprint, producer and format of the inputs captured now; and if the recorded inputs
  differ from those, no checkpoint of a changed repository or vault survives, so the graph phase indexes
  each of them again (in a rewound operation, or in a fresh one).
\<close>

theorem resumed_build_is_current:
  assumes "publication_resume L au q r = (r', Inr (Resumed s))"
    and "load_operation L r (rr_operation_uuid q) = Inr loaded"
    and "load_operation_inputs L r (rr_operation_uuid q) = Some i"
    and "pl_input_fingerprint (st_plan loaded) \<noteq> rr_input_fingerprint q"
  shows "plan_is_current q s \<and> rebuilds L s i (rr_sources q) \<and> st_phase s \<in> {Planned, Graph}"
proof -
  have drift: "inputs_drifted q loaded"
  proof (rule ccontr)
    assume no: "\<not> inputs_drifted q loaded"
    with assms(1,2) have "resumable_with L loaded (requested_plan q loaded) = Inr ()
        \<or> (\<exists>inc. load_operation L r (pl_operation_uuid (requested_plan q loaded)) = Inr inc
              \<and> resumable_with L inc (requested_plan q loaded) = Inr ())"
      by (auto simp: publication_resume_def outcome_def resume_operation_def checkpoint_operation_def
          next_state_def resume_update_def split: if_splits sum.splits prod.splits)
    moreover have "load_operation L r (pl_operation_uuid (requested_plan q loaded)) = Inr loaded"
      using load_same_uuid [OF assms(2) loaded_plan(3) [OF assms(2)]]
      by (simp add: requested_plan_def)
    ultimately have "resumable_with L loaded (requested_plan q loaded) = Inr ()" by auto
    then show False using assms(4) by (simp add: resumable_fields)
  qed
  then have "\<not> st_cancel_requested loaded" by (simp add: inputs_drifted_def)
  with assms(1,2) drift obtain nm where
    "(case drift_scope q (Some i) (staged_manifest_exists r nm) loaded of
        Restart reason \<Rightarrow> restart_rebuild L au q reason loaded r
      | Unchanged \<Rightarrow> (r, Inl IncompatibleResume)
      | Rescope repos vaults preserved \<Rightarrow> rescope_rebuild L au q loaded repos vaults r) = (r', Inr (Resumed s))"
    using assms(3) by (auto simp: publication_resume_def split: sum.splits)
  then consider
    reason where "restart_rebuild L au q reason loaded r = (r', Inr (Resumed s))"
    | repos vaults preserved where
      "plan_resume_scope i (rr_sources q) (rr_config_blake3 q) (rr_preserved_state_fingerprint q)
         = Rescope repos vaults preserved"
      "rescope_rebuild L au q loaded repos vaults r = (r', Inr (Resumed s))"
    by (auto simp: drift_scope_def split: if_splits resume_scope.splits)
  then show ?thesis
  proof cases
    case 1
    then obtain r2 where fresh: "create_fresh L q r2 = (r', Inr (Resumed s))"
      by (auto simp: restart_rebuild_def split: prod.splits sum.splits)
    then show ?thesis
      using create_fresh_Inr [OF fresh] by (simp add: rebuilds_def list_all_iff plan_is_current_def fresh_plan_def)
  next
    case 2
    then have "repos = changed_repos i (rr_sources q)" "vaults = changed_vaults i (rr_sources q)"
      using resume_scope_exact by blast+
    with 2(2) show ?thesis
      using rescope_rebuild_Inr [OF _ assms(2)] by blast
  qed
qed

end
