(* ===== verification/Spec2Isabelle.thy ===== *)
theory Spec2Isabelle
  imports Prelude Circuit_Breaker Repo_Url Uid Ssrf Blast_Radius Authz Node_Scope Job_Queue Poll_Scheduler Resolution_Cache Impact Page_Rank Write_Gate Job_Lifecycle
    Json_Value Fed_Identity Fed_Merge Fed_Health Fed_Trace Fed_Two_Tier Fed_Results Stdio_Frames Stdio_Delivery Cpu_Throttle Symbol_Lookup Symbol_Search Did_You_Mean Publication_Scenarios Publication_Resume
begin

text \<open>
  NestWeaver indexes source repositories and note vaults into a graph and serves questions about it to
  editors, command lines and other servers. This development models the decisions of the program that
  do not lie in a database, a parser or a socket: who may see what, which work is taken next, what a
  name or an identifier denotes, how the answers of two servers become one, and how a rebuilt graph
  takes the place of the old one. Paths below are relative to \<^verbatim>\<open>crates/\<close>; \<^verbatim>\<open>engine\<close> stands for
  \<^verbatim>\<open>nestweaver-engine/src\<close>, and so for the other crates.

  \<^bold>\<open>The parts and how they meet.\<close> A repository enters through its URL: \<open>Ssrf\<close> decides whether git may
  contact it, \<open>Repo_Url\<close> gives it its key and \<open>Circuit_Breaker\<close> stops calling a host that fails. The poll
  loop of the daemon (\<open>Poll_Scheduler\<close>) probes it and puts jobs on the queue (\<open>Job_Queue\<close>); the workers
  that take them share the CPU (\<open>Cpu_Throttle\<close>), hold the writer lock (\<open>Write_Gate\<close>) and re-resolve what
  the cache (\<open>Resolution_Cache\<close>) names. A full rebuild goes into a new publication slot and is switched in
  (\<open>Publication_State\<close> to \<open>Publication_Resume\<close>). The graph names its rows by the identifiers of \<open>Uid\<close>.
  A request arrives on a stdio session (\<open>Stdio_Frames\<close>, \<open>Stdio_Session\<close>, \<open>Stdio_Delivery\<close>). It is read as
  a symbol (\<open>Symbol_Lookup\<close>), a search (\<open>Symbol_Search\<close>) or a graph question (\<open>Impact\<close>, \<open>Page_Rank\<close>,
  \<open>Blast_Radius\<close>), a miss is answered with suggestions (\<open>Did_You_Mean\<close>), and what leaves is limited to the
  repositories the caller may see (\<open>Authz\<close>, \<open>Node_Scope\<close>). With upstream servers the request is answered
  twice, and the theories whose names begin with \<open>Fed\<close> join the two answers.

  \<^bold>\<open>Theories and sources.\<close>

  \<^item> \<open>Prelude\<close>: text and number functions of the Rust standard library the sources call, and the generic
    contracts \<open>keyed_store\<close>, \<open>step_system\<close>, \<open>codec\<close> and \<open>canonical_codec\<close>, interpreted by the components.
  \<^item> \<open>Circuit_Breaker\<close> (\<^verbatim>\<open>engine/circuit_breaker.rs\<close>), \<open>Ssrf\<close> (\<^verbatim>\<open>engine/ssrf.rs\<close>), \<open>Repo_Url\<close>
    (\<^verbatim>\<open>schema/repo_url.rs\<close>), \<open>Uid\<close> (\<^verbatim>\<open>schema/uid.rs\<close>).
  \<^item> \<open>Authz\<close> (\<^verbatim>\<open>engine/authz.rs\<close>), \<open>Node_Scope\<close> (\<^verbatim>\<open>engine/node_scope.rs\<close>, \<^verbatim>\<open>lib.rs\<close>, \<^verbatim>\<open>pull.rs\<close>),
    \<open>Blast_Radius\<close> (\<^verbatim>\<open>engine/blast_radius.rs\<close>, \<^verbatim>\<open>process.rs\<close>, \<^verbatim>\<open>cluster_dispatch.rs\<close>).
  \<^item> \<open>Job_Queue\<close> (\<^verbatim>\<open>engine/jobs.rs\<close>: one function per SQL statement, the table being the state) with its
    abstract life cycle in \<open>Job_Lifecycle\<close>; \<open>Poll_Scheduler\<close> (\<^verbatim>\<open>engine/scheduler.rs\<close>, \<^verbatim>\<open>config.rs\<close>,
    \<^verbatim>\<open>worker.rs\<close>, \<^verbatim>\<open>daemon/server.rs\<close>); \<open>Cpu_Throttle\<close> (\<^verbatim>\<open>engine/cpu_throttle.rs\<close>); \<open>Write_Gate\<close>
    (\<^verbatim>\<open>engine/write_gate.rs\<close>, \<^verbatim>\<open>drain.rs\<close>); \<open>Resolution_Cache\<close> (\<^verbatim>\<open>engine/resolution_cache.rs\<close>).
  \<^item> \<open>Impact\<close> and \<open>Page_Rank\<close> (\<^verbatim>\<open>algorithms/graph.rs\<close>, \<^verbatim>\<open>impact.rs\<close>, \<^verbatim>\<open>ppr.rs\<close>).
  \<^item> \<open>Symbol_Lookup\<close> (\<^verbatim>\<open>schema/nodes.rs\<close>, \<^verbatim>\<open>store/read.rs\<close>, \<^verbatim>\<open>engine/read_symbols.rs\<close>), \<open>Symbol_Search\<close>
    (\<^verbatim>\<open>store/traverse.rs\<close>, \<^verbatim>\<open>ranking.rs\<close>), \<open>Did_You_Mean\<close> (\<^verbatim>\<open>engine/did_you_mean.rs\<close>).
  \<^item> \<open>Json_Value\<close> (the \<^verbatim>\<open>serde_json\<close> value); \<open>Fed_Identity\<close> (\<^verbatim>\<open>federation/dedup.rs\<close>), \<open>Fed_Merge\<close>
    (\<^verbatim>\<open>merge.rs\<close>, \<^verbatim>\<open>routing.rs\<close>), \<open>Fed_Results\<close> (\<^verbatim>\<open>results.rs\<close>), \<open>Fed_Health\<close> (\<^verbatim>\<open>health.rs\<close>,
    \<^verbatim>\<open>upstream.rs\<close>, \<^verbatim>\<open>discovery.rs\<close>), \<open>Fed_Trace\<close> (\<^verbatim>\<open>trace.rs\<close>), \<open>Fed_Two_Tier\<close> (\<^verbatim>\<open>two_tier.rs\<close>,
    \<^verbatim>\<open>schema/provenance.rs\<close>).
  \<^item> \<open>Stdio_Frames\<close>, \<open>Stdio_Session\<close>, \<open>Stdio_Delivery\<close> (\<^verbatim>\<open>mcp/session.rs\<close>, \<^verbatim>\<open>protocol.rs\<close>).
  \<^item> \<open>Publication_State\<close> (phases, plan and checks of \<^verbatim>\<open>engine/publication_operation.rs\<close>), \<open>_Journal\<close> (its
    files), \<open>_Scope\<close> (a resume whose inputs changed), \<open>_Slots\<close> (the manifest, \<^verbatim>\<open>engine/publication.rs\<close>),
    \<open>_Cutover\<close> (\<^verbatim>\<open>CURRENT\<close>, activation, rollback, pruning), \<open>_Resume\<close> (the entry of the rebuild command,
    \<^verbatim>\<open>src/main.rs\<close>), \<open>_Runs\<close> (every sequence of calls), \<open>_Promises\<close> and \<open>_Scenarios\<close> (concrete runs).

  A Rust struct is a record with the struct's fields, an enum a datatype with its variants, a \<^verbatim>\<open>Result\<close> a
  sum with the error on the left. A function or method is a function of the same name (suffixed where the
  name is taken), and a method that changes its receiver returns the new one. Where threads, processes or
  machines act independently, a step is one access to the shared state, and a run is a list of steps in
  any order, started from the initial state.

  \<^bold>\<open>What the lemmas show.\<close>

  \<^item> Admission of remotes: a URL accepted by the guard is pinned to a public address; the breaker lets one
    probe through per open period; keys of clone URLs and identifiers parse back and only in canonical form.
  \<^item> Work: fencing tokens die with their claim, a claim takes the best row, attempts are bounded, and the
    table refines the life cycle of a job; a probe of a removed repository is discarded; the CPU window
    never forgets use of the last 180 seconds and the claims are the reservations held; one caller holds
    the write gate; the cache and the tracker mirror what was stored.
  \<^item> Visibility: redaction is a function of the visible part, filters and suggestions name visible rows only.
  \<^item> Graph answers: impact analysis is exact reachability, PageRank keeps its mass, a capped search page is
    the front of the full ranking, a spec is never read as less than it says, a suggestion resolves.
  \<^item> Federation: fusion of the rows by identity, totals that are exact or announced as lower bounds, the
    greatest sound vault mapping, ejection under a cap and recovery, exact boundaries and bounded stitching
    of traces, the rows of the second tier.
  \<^item> Sessions: framing does not depend on the chunks, every admitted request is answered once or was
    cancelled, nothing is sent for a cancelled one, and at most 128 are pending.
  \<^item> Publications: the selected slot always holds the manifest it was sealed with, and the journal of every
    operation moves along its phase machine; an interrupted activation can be entered again, a rollback goes
    one step back, pruning removes only what nothing refers to.

  The invariants of concurrent components are proved for one step and lifted to runs by \<open>step_system\<close>. The
  refinements (\<open>lifecycle\<close>, \<open>ledger_step\<close>, \<open>journal_step\<close>) are step relations over an abstraction of the
  state. The theorems with an identifier in the text before them are the main properties; a theorem
  named \<open>_witness\<close> applies one of them to concrete data.

  \<^bold>\<open>Bounds and termination.\<close> No definition has fuel of its own. Loops that the code bounds keep its bound
  (pushes of the forward push, the 64 levels below a root of a stitched trace, the rounds of the
  power iteration); the others end by a measure: the bindings left in the vault plan, the unvisited nodes of the
  breadth-first search, the bytes left in the input of a session. That the worker of a session comes to
  rest is part of a theorem, which gives the number of steps as a witness of an existential.

  \<^bold>\<open>Conventions.\<close> Text is over the scalars U+0000 to U+00FF (see \<open>Prelude\<close>); durations and instants are numbers
  of nanoseconds unless a theory says otherwise; machine integers are words where they wrap or overflow, and
  SQL integers are \<^typ>\<open>int\<close>; floating-point numbers are exact rationals, so rounding, infinities and NaN
  are outside the model. A JSON object is the list of its entries with different keys. Code that is not part of
  the repository is a parameter or an input of a step: the url parser and the resolver, glob matching, SHA-256,
  BLAKE3 and SipHash, the uuid crate, the JSON parser and printer, MessagePack, token and random sources, the
  clock, the iteration order of hash maps, git, the graph queries, and the outcome of every remote call.
  Hypotheses about them state what their documentation promises, such as that a UUID printed is read back
  or that an iteration visits every entry once.

  \<^bold>\<open>Not modelled.\<close> Parsing of source files, the resolver of cross-file references, the indexing
  pipeline and the graph and full-text stores are bindings to libraries and bulk transformations over them;
  the HTTP, gRPC and web servers, the command line, file watchers, backups and storage backends are
  input and output. Of the modelled files, logging and rendered messages are left out, as are the
  construction of an upstream handle from its configuration (it reads durations as binary64), the
  structured merge of context answers, the phases of a rebuild that index sources, and the traversal that fills
  a blast-radius result. The errors of the publication commands carry shortened messages.
\<close>

end
